(* ===== verification/Prelude.thy ===== *)
theory Prelude
  imports Main "HOL-Library.Word"
begin

text \<open>
  The vocabulary the components share.  Go strings and byte slices are byte lists
  (\<open>char\<close> is an 8-bit character here); Go errors are values of \<open>goerr\<close>, one
  constructor per way the program makes an error; a fallible function returns
  \<open>goerr + 'a\<close>, \<open>Inl\<close> being the error return.  The file also holds the named
  collections and the generic list and option lemmas the component proofs use.
\<close>

section \<open>Byte strings\<close>

type_synonym bytes = string

abbreviation byte_of :: "char \<Rightarrow> nat" where
  "byte_of c \<equiv> of_char c"

definition in_range :: "nat \<Rightarrow> nat \<Rightarrow> char \<Rightarrow> bool" where
  "in_range lo hi c \<longleftrightarrow> lo \<le> byte_of c \<and> byte_of c \<le> hi"

definition is_digit :: "char \<Rightarrow> bool" where
  "is_digit c \<longleftrightarrow> in_range 48 57 c"

definition has_prefix :: "bytes \<Rightarrow> bytes \<Rightarrow> bool" where
  "has_prefix s p \<longleftrightarrow> take (length p) s = p"

definition has_suffix :: "bytes \<Rightarrow> bytes \<Rightarrow> bool" where
  "has_suffix s p \<longleftrightarrow> length p \<le> length s \<and> drop (length s - length p) s = p"

definition trim_suffix :: "bytes \<Rightarrow> bytes \<Rightarrow> bytes" where
  "trim_suffix s p = (if has_suffix s p then take (length s - length p) s else s)"

lemma byte_of_less_256: "byte_of c < 256"
  using of_char_mod_256 [of c, where 'a = nat] by (metis mod_less_divisor zero_less_numeral)

text \<open>A number from its four digits in base \<open>b\<close>.\<close>

lemma four_digits:
  fixes n b :: nat
  shows "n div b div b div b * (b * b * b) + n div b div b mod b * (b * b) + n div b mod b * b
     + n mod b = n"
proof -
  have "n div b div b div b * (b * b * b) + n div b div b mod b * (b * b) + n div b mod b * b
     + n mod b = ((n div b div b div b * b + n div b div b mod b) * b + n div b mod b) * b + n mod b"
    by (simp only: distrib_right mult.assoc add.assoc)
  also have "\<dots> = n" by simp
  finally show ?thesis .
qed

lemma has_prefix_append [simp]: "has_prefix (p @ s) p"
  by (simp add: has_prefix_def)

lemma has_prefixE: "has_prefix s p \<Longrightarrow> (\<And>t. s = p @ t \<Longrightarrow> P) \<Longrightarrow> P"
  by (metis append_take_drop_id has_prefix_def)

lemma has_suffix_append [simp]: "has_suffix (s @ p) p"
  by (simp add: has_suffix_def)

lemma trim_suffix_append [simp]: "trim_suffix (s @ p) p = s"
  by (simp add: trim_suffix_def)

section \<open>Errors\<close>

text \<open>The application failure codes and the redacted failure of contracts/errors.go.\<close>

datatype code =
    ConfigInvalid | ConnectionNotFound | CredentialMissing | VaultUnavailable
  | ConnectFailed | QueryUnsupported | QueryTimeout | ResourceLimit
  | ReadOnlyViolation | PermissionDenied | QueryFailed | StaleCursor
  | InvalidArgument | ServiceUnavailable | Cancelled

record failure =
  fail_code :: code
  fail_message :: bytes
  fail_retryable :: bool
  fail_sqlstate :: bytes

text \<open>The sentinel errors of the packages, and those of the standard library they meet.\<close>

datatype sentinel =
    Ctx_Canceled | Ctx_DeadlineExceeded | Os_NotExist
  | Cfg_Ownership | Cfg_Stale | Cfg_Pending | Cfg_Purging | Cfg_CommitUnknown
  | Cfg_Obsolete | Cfg_Recovery | Cfg_State | Cfg_Revision
  | Vault_Missing | Vault_Denied | Vault_Locked | Vault_Unavailable
  | Vault_ProviderUnavailable | Vault_Password | Vault_Terminal | Vault_UserBus
  | Vault_Unsupported | Vault_ProviderChanged | Vault_Repair | Vault_Limit
  | Vault_CredentialMissing | Vault_Binding
  | Tr_UnknownHost | Tr_ChangedHost | Tr_KnownHosts | Tr_Route | Tr_Configuration
  | Svc_State | Svc_Unavailable | Svc_Conflict | Svc_Restart | Svc_Startup
  | Agent_Inspection | Agent_Partial | Agent_Conflict
  | Pg_ResultDiscarded

text \<open>
  An error value: a sentinel, a \<open>*database.Error\<close>, a \<open>*pgconn.PgError\<close> with its
  SQLSTATE, the protocol's oversized-message error, any other error by its text, or
  an error that wraps two (\<open>errors.Join\<close>).
\<close>

datatype goerr =
    Sentinel sentinel
  | Db failure
  | PgError bytes
  | ExceededMaxBody
  | Other bytes
  | Join goerr goerr

type_synonym 'a res = "goerr + 'a"

text \<open>\<open>database.Fail\<close>.\<close>

definition Fail :: "code \<Rightarrow> bytes \<Rightarrow> bool \<Rightarrow> goerr" where
  "Fail c msg retry =
     Db \<lparr>fail_code = c, fail_message = msg, fail_retryable = retry, fail_sqlstate = []\<rparr>"

text \<open>\<open>errors.Is\<close> for a sentinel, and \<open>errors.As\<close> for the three typed errors.\<close>

fun errors_is :: "goerr \<Rightarrow> sentinel \<Rightarrow> bool" where
  "errors_is (Sentinel t) s = (t = s)"
| "errors_is (Join a b) s = (errors_is a s \<or> errors_is b s)"
| "errors_is _ _ = False"

fun as_db :: "goerr \<Rightarrow> failure option" where
  "as_db (Db f) = Some f"
| "as_db (Join a b) = (case as_db a of Some f \<Rightarrow> Some f | None \<Rightarrow> as_db b)"
| "as_db _ = None"

fun as_pg :: "goerr \<Rightarrow> bytes option" where
  "as_pg (PgError s) = Some s"
| "as_pg (Join a b) = (case as_pg a of Some f \<Rightarrow> Some f | None \<Rightarrow> as_pg b)"
| "as_pg _ = None"

fun as_max_body :: "goerr \<Rightarrow> bool" where
  "as_max_body ExceededMaxBody = True"
| "as_max_body (Join a b) = (as_max_body a \<or> as_max_body b)"
| "as_max_body _ = False"

section \<open>Results\<close>

fun is_ok :: "'e + 'a \<Rightarrow> bool" where
  "is_ok (Inr _) = True"
| "is_ok (Inl _) = False"

fun bind_res :: "'e + 'a \<Rightarrow> ('a \<Rightarrow> 'e + 'b) \<Rightarrow> 'e + 'b" where
  "bind_res (Inl e) f = Inl e"
| "bind_res (Inr x) f = f x"

fun map_res :: "('a \<Rightarrow> 'e + 'b) \<Rightarrow> 'a list \<Rightarrow> 'e + 'b list" where
  "map_res f [] = Inr []"
| "map_res f (x # xs) =
     (case f x of Inl e \<Rightarrow> Inl e
      | Inr y \<Rightarrow> (case map_res f xs of Inl e \<Rightarrow> Inl e | Inr ys \<Rightarrow> Inr (y # ys)))"

lemma bind_res_Inr_iff [simp]:
  "bind_res r f = Inr y \<longleftrightarrow> (\<exists>x. r = Inr x \<and> f x = Inr y)"
  by (cases r) auto

lemma map_res_length: "map_res f xs = Inr ys \<Longrightarrow> length ys = length xs"
  by (induction xs arbitrary: ys) (auto split: sum.splits)

lemma map_res_cong: "(\<And>x. x \<in> set xs \<Longrightarrow> f x = g x) \<Longrightarrow> map_res f xs = map_res g xs"
  by (induction xs) (auto split: sum.splits)

lemma map_res_nth: "map_res f xs = Inr ys \<Longrightarrow> i < length xs \<Longrightarrow> f (xs ! i) = Inr (ys ! i)"
  by (induction xs arbitrary: ys i) (auto simp: nth_Cons split: sum.splits nat.splits)

lemma is_ok_iff: "is_ok r \<longleftrightarrow> (\<exists>x. r = Inr x)"
  by (cases r) auto

end
