(* ===== verification/Utf8.thy ===== *)
theory Utf8
  imports Prelude
begin

text \<open>
  The parts of Go's unicode/utf8 the program relies on: the byte patterns of a valid
  encoded rune (the accept ranges of the package), \<open>utf8.Valid\<close>, and the encoding of
  a code point.
\<close>

definition cont :: "char \<Rightarrow> bool" where
  "cont c \<longleftrightarrow> in_range 128 191 c"

text \<open>The rest of the input after the rune that starts with byte \<open>c\<close>, if it is valid.\<close>

fun rune_rest :: "char \<Rightarrow> bytes \<Rightarrow> bytes option" where
  "rune_rest c cs =
     (let b = byte_of c in
      if b < 128 then Some cs
      else if 194 \<le> b \<and> b \<le> 223 then
        (case cs of c1 # r \<Rightarrow> if cont c1 then Some r else None | _ \<Rightarrow> None)
      else if 224 \<le> b \<and> b \<le> 239 then
        (case cs of
           c1 # c2 # r \<Rightarrow>
             if in_range (if b = 224 then 160 else 128) (if b = 237 then 159 else 191) c1 \<and> cont c2
             then Some r else None
         | _ \<Rightarrow> None)
      else if 240 \<le> b \<and> b \<le> 244 then
        (case cs of
           c1 # c2 # c3 # r \<Rightarrow>
             if in_range (if b = 240 then 144 else 128) (if b = 244 then 143 else 191) c1
                \<and> cont c2 \<and> cont c3
             then Some r else None
         | _ \<Rightarrow> None)
      else None)"

declare rune_rest.simps [simp del]

lemma rune_rest_length: "rune_rest c cs = Some r \<Longrightarrow> length r \<le> length cs"
  by (auto simp: rune_rest.simps Let_def split: if_splits list.splits)

lemma rune_rest_ascii: "byte_of c < 128 \<Longrightarrow> rune_rest c cs = Some cs"
  by (simp add: rune_rest.simps)

function utf8_valid :: "bytes \<Rightarrow> bool" where
  "utf8_valid [] = True"
| "utf8_valid (c # cs) =
     (case rune_rest c cs of None \<Rightarrow> False | Some r \<Rightarrow> utf8_valid r)"
  by pat_completeness auto
termination
  by (relation "measure length") (auto dest: rune_rest_length)

lemma rune_rest_append:
  "rune_rest c cs = Some r \<Longrightarrow> rune_rest c (cs @ t) = Some (r @ t)"
  by (auto simp: rune_rest.simps Let_def split: if_splits list.splits)

lemma utf8_valid_append: "utf8_valid s \<Longrightarrow> utf8_valid (s @ t) = utf8_valid t"
proof (induction s rule: utf8_valid.induct)
  case (2 c cs)
  then show ?case by (auto simp: rune_rest_append split: option.splits)
qed simp

lemma utf8_valid_ascii: "\<forall>c \<in> set s. byte_of c < 128 \<Longrightarrow> utf8_valid s"
  by (induction s) (auto simp: rune_rest_ascii)

text \<open>\<open>utf8.AppendRune\<close> for a code point that is not a surrogate and at most \<open>0x10FFFF\<close>.\<close>

definition utf8_encode :: "nat \<Rightarrow> bytes" where
  "utf8_encode r =
     (if r < 128 then [char_of r]
      else if r < 2048 then [char_of (192 + r div 64), char_of (128 + r mod 64)]
      else if r < 65536 then
        [char_of (224 + r div 4096), char_of (128 + r div 64 mod 64), char_of (128 + r mod 64)]
      else
        [char_of (240 + r div 262144), char_of (128 + r div 4096 mod 64),
         char_of (128 + r div 64 mod 64), char_of (128 + r mod 64)])"

end
