(* ===== verification/Json.thy ===== *)
theory Json
  imports Utf8
begin

text \<open>
  JSON as internal/contracts/json.go reads it.  The lexer and the grammar machine model
  what encoding/json accepts (\<open>json.Valid\<close>, with its nesting limit of 10000) and the
  token stream of \<open>Decoder.Token\<close>; \<open>check_json\<close> is the duplicate-key and depth check
  the program runs over that stream.  The specification side is the tree of values:
  the machine accepts exactly the written forms of trees, and the loop accepts exactly
  the trees without a repeated key and within the depth bound.
\<close>

section \<open>Values and lexemes\<close>

datatype jval =
    JNull | JBool bool | JNum bytes | JStr bytes
  | JArr "jval list" | JObj "(bytes \<times> jval) list"

datatype lexeme =
    LBrace | RBrace | LBrack | RBrack | Colon | Comma
  | LStr bytes | LNum bytes | LBool bool | LNull

section \<open>The lexer\<close>

definition is_ws :: "char \<Rightarrow> bool" where
  "is_ws c \<longleftrightarrow> byte_of c \<in> {32, 9, 13, 10}"

text \<open>String contents: a raw byte, or the code unit of a \<open>\u\<close> escape.\<close>

datatype sunit = Raw char | Esc nat

definition hex_val :: "char \<Rightarrow> nat option" where
  "hex_val c =
     (if in_range 48 57 c then Some (byte_of c - 48)
      else if in_range 97 102 c then Some (byte_of c - 87)
      else if in_range 65 70 c then Some (byte_of c - 55)
      else None)"

definition hex4 :: "char \<Rightarrow> char \<Rightarrow> char \<Rightarrow> char \<Rightarrow> nat option" where
  "hex4 a b c d =
     (case (hex_val a, hex_val b, hex_val c, hex_val d) of
        (Some w, Some x, Some y, Some z) \<Rightarrow> Some (4096 * w + 256 * x + 16 * y + z)
      | _ \<Rightarrow> None)"

definition simple_escape :: "char \<Rightarrow> char option" where
  "simple_escape c =
     (if byte_of c = 34 \<or> byte_of c = 92 \<or> byte_of c = 47 then Some c
      else if c = CHR ''b'' then Some (char_of (8 :: nat))
      else if c = CHR ''f'' then Some (char_of (12 :: nat))
      else if c = CHR ''n'' then Some (char_of (10 :: nat))
      else if c = CHR ''r'' then Some (char_of (13 :: nat))
      else if c = CHR ''t'' then Some (char_of (9 :: nat))
      else None)"

text \<open>The contents of a string up to its closing quote, and the input after it.\<close>

fun lex_string :: "bytes \<Rightarrow> (sunit list \<times> bytes) option" where
  "lex_string [] = None"
| "lex_string (c # cs) =
     (if byte_of c = 34 then Some ([], cs)
      else if byte_of c < 32 then None
      else if byte_of c = 92 then
        (case cs of
           [] \<Rightarrow> None
         | e # es \<Rightarrow>
             (if e = CHR ''u'' then
                (case es of
                   h1 # h2 # h3 # h4 # r \<Rightarrow>
                     (case hex4 h1 h2 h3 h4 of
                        None \<Rightarrow> None
                      | Some n \<Rightarrow> map_option (\<lambda>(us, t). (Esc n # us, t)) (lex_string r))
                 | _ \<Rightarrow> None)
              else
                (case simple_escape e of
                   None \<Rightarrow> None
                 | Some x \<Rightarrow> map_option (\<lambda>(us, t). (Raw x # us, t)) (lex_string es))))
      else map_option (\<lambda>(us, t). (Raw c # us, t)) (lex_string cs))"

text \<open>
  \<open>unquote\<close> of encoding/json: a surrogate pair is one code point, a lone surrogate is
  replaced by U+FFFD.
\<close>

definition is_surrogate :: "nat \<Rightarrow> bool" where
  "is_surrogate n \<longleftrightarrow> 55296 \<le> n \<and> n < 57344"

fun unquote :: "sunit list \<Rightarrow> bytes" where
  "unquote [] = []"
| "unquote (Raw c # us) = c # unquote us"
| "unquote (Esc n # Esc m # us) =
     (if is_surrogate n then
        (if n < 56320 \<and> 56320 \<le> m \<and> m < 57344
         then utf8_encode (65536 + (n - 55296) * 1024 + (m - 56320)) @ unquote us
         else utf8_encode 65533 @ unquote (Esc m # us))
      else utf8_encode n @ unquote (Esc m # us))"
| "unquote (Esc n # us) =
     (if is_surrogate n then utf8_encode 65533 else utf8_encode n) @ unquote us"

text \<open>Numbers: \<open>-? (0 | [1-9][0-9]*) (\. [0-9]+)? ([eE] [+-]? [0-9]+)?\<close>\<close>

definition digits1 :: "bytes \<Rightarrow> bytes option" where
  "digits1 s =
     (if s \<noteq> [] \<and> is_digit (hd s) then Some (dropWhile is_digit s) else None)"

definition lex_int :: "bytes \<Rightarrow> bytes option" where
  "lex_int s =
     (case s of
        [] \<Rightarrow> None
      | c # cs \<Rightarrow> if c = CHR ''0'' then Some cs else digits1 s)"

definition lex_frac :: "bytes \<Rightarrow> bytes option" where
  "lex_frac s = (case s of c # cs \<Rightarrow> if c = CHR ''.'' then digits1 cs else Some s | [] \<Rightarrow> Some s)"

definition lex_exp :: "bytes \<Rightarrow> bytes option" where
  "lex_exp s =
     (case s of
        c # cs \<Rightarrow>
          if c = CHR ''e'' \<or> c = CHR ''E'' then
            (case cs of
               x # xs \<Rightarrow> if x = CHR ''+'' \<or> x = CHR ''-'' then digits1 xs else digits1 cs
             | [] \<Rightarrow> None)
          else Some s
      | [] \<Rightarrow> Some s)"

definition lex_number :: "bytes \<Rightarrow> (bytes \<times> bytes) option" where
  "lex_number s =
     (let t = (case s of c # cs \<Rightarrow> if c = CHR ''-'' then cs else s | [] \<Rightarrow> s) in
      case Option.bind (Option.bind (lex_int t) lex_frac) lex_exp of
        None \<Rightarrow> None
      | Some r \<Rightarrow> Some (take (length s - length r) s, r))"

definition lex_word :: "bytes \<Rightarrow> lexeme \<Rightarrow> bytes \<Rightarrow> (lexeme \<times> bytes) option" where
  "lex_word w l s = (if has_prefix s w then Some (l, drop (length w) s) else None)"

definition lex_one :: "bytes \<Rightarrow> (lexeme \<times> bytes) option" where
  "lex_one s =
     (case s of
        [] \<Rightarrow> None
      | c # cs \<Rightarrow>
          if c = CHR ''{'' then Some (LBrace, cs)
          else if c = CHR ''}'' then Some (RBrace, cs)
          else if c = CHR ''['' then Some (LBrack, cs)
          else if c = CHR '']'' then Some (RBrack, cs)
          else if c = CHR '':'' then Some (Colon, cs)
          else if c = CHR '','' then Some (Comma, cs)
          else if byte_of c = 34 then map_option (\<lambda>(us, t). (LStr (unquote us), t)) (lex_string cs)
          else if c = CHR ''t'' then lex_word ''true'' (LBool True) s
          else if c = CHR ''f'' then lex_word ''false'' (LBool False) s
          else if c = CHR ''n'' then lex_word ''null'' LNull s
          else map_option (\<lambda>(n, t). (LNum n, t)) (lex_number s))"

subsection \<open>Every lexeme consumes input\<close>

lemma lex_string_length: "lex_string s = Some (us, t) \<Longrightarrow> length t < length s"
proof (induction s arbitrary: us t rule: lex_string.induct)
  case (2 c cs)
  then show ?case
    by (auto split: if_splits list.splits option.splits) (fastforce dest: less_SucI)+
qed simp

lemma digits1_length: "digits1 s = Some t \<Longrightarrow> length t < length s"
proof -
  assume a: "digits1 s = Some t"
  then obtain c cs where "s = c # cs" "is_digit c" "t = dropWhile is_digit cs"
    by (cases s) (auto simp: digits1_def split: if_splits)
  then show ?thesis by (simp add: le_imp_less_Suc length_dropWhile_le)
qed

lemma lex_int_length: "lex_int s = Some t \<Longrightarrow> length t < length s"
  by (auto simp: lex_int_def dest: digits1_length split: list.splits if_splits)

lemma lex_frac_length: "lex_frac s = Some t \<Longrightarrow> length t \<le> length s"
  by (auto simp: lex_frac_def dest!: digits1_length split: list.splits if_splits)

lemma lex_exp_length: "lex_exp s = Some t \<Longrightarrow> length t \<le> length s"
  by (auto simp: lex_exp_def dest!: digits1_length split: list.splits if_splits)

lemma lex_number_length: "lex_number s = Some (n, t) \<Longrightarrow> length t < length s"
proof -
  let ?u = "case s of c # cs \<Rightarrow> if c = CHR ''-'' then cs else s | [] \<Rightarrow> s"
  assume "lex_number s = Some (n, t)"
  then obtain a b where "lex_int ?u = Some a" "lex_frac a = Some b" "lex_exp b = Some t"
    by (auto simp: lex_number_def Let_def bind_eq_Some_conv split: option.splits)
  moreover have "length ?u \<le> length s" by (auto split: list.splits)
  ultimately show ?thesis
    by (meson lex_exp_length lex_frac_length lex_int_length le_less_trans less_le_trans)
qed

lemma lex_word_length: "lex_word w l s = Some (k, t) \<Longrightarrow> w \<noteq> [] \<Longrightarrow> length t < length s"
  by (auto simp: lex_word_def split: if_splits elim!: has_prefixE)

lemma lex_one_length: "lex_one s = Some (l, t) \<Longrightarrow> length t < length s"
  by (auto simp: lex_one_def dest!: lex_string_length lex_number_length lex_word_length
      split: list.splits if_splits)

function lex_json :: "bytes \<Rightarrow> lexeme list option" where
  "lex_json s =
     (case dropWhile is_ws s of
        [] \<Rightarrow> Some []
      | c # cs \<Rightarrow>
          (case lex_one (c # cs) of
             None \<Rightarrow> None
           | Some (l, t) \<Rightarrow> map_option ((#) l) (lex_json t)))"
  by pat_completeness auto
termination
proof (relation "measure length")
  fix s c cs p l t
  assume a: "dropWhile is_ws s = c # cs" "lex_one (c # cs) = Some p" "(l, t) = p"
  have "length (c # cs) \<le> length s" using a(1) by (metis length_dropWhile_le)
  with a(2,3) show "(t, s) \<in> measure length" by (auto dest!: lex_one_length)
qed simp

declare lex_json.simps [simp del]

section \<open>The grammar machine\<close>

text \<open>
  The state of the scanner: what may come next, and one frame per open container with
  the part of it that is already read (latest first).
\<close>

datatype mode =
    NeedValue | ValueOrClose | KeyOrClose | NeedKey | NeedColon bytes | After jval

datatype frame =
    FArr "jval list" | FObj "(bytes \<times> jval) list" | FMem "(bytes \<times> jval) list" bytes

definition max_nesting :: nat where
  "max_nesting = 10000"

fun start_value :: "lexeme \<Rightarrow> frame list \<Rightarrow> (mode \<times> frame list) option" where
  "start_value LBrace st =
     (if length st < max_nesting then Some (KeyOrClose, FObj [] # st) else None)"
| "start_value LBrack st =
     (if length st < max_nesting then Some (ValueOrClose, FArr [] # st) else None)"
| "start_value (LStr s) st = Some (After (JStr s), st)"
| "start_value (LNum n) st = Some (After (JNum n), st)"
| "start_value (LBool b) st = Some (After (JBool b), st)"
| "start_value LNull st = Some (After JNull, st)"
| "start_value _ st = None"

fun read_key :: "lexeme \<Rightarrow> frame list \<Rightarrow> (mode \<times> frame list) option" where
  "read_key (LStr k) st = Some (NeedColon k, st)"
| "read_key _ st = None"

text \<open>The comma or the closing bracket after a value, in the container it belongs to.\<close>

fun after_value :: "lexeme \<Rightarrow> jval \<Rightarrow> frame \<Rightarrow> frame list \<Rightarrow> (mode \<times> frame list) option" where
  "after_value Comma v (FArr vs) st = Some (NeedValue, FArr (v # vs) # st)"
| "after_value RBrack v (FArr vs) st = Some (After (JArr (rev (v # vs))), st)"
| "after_value Comma v (FMem ms k) st = Some (NeedKey, FObj ((k, v) # ms) # st)"
| "after_value RBrace v (FMem ms k) st = Some (After (JObj (rev ((k, v) # ms))), st)"
| "after_value _ _ _ _ = None"

fun grammar_step :: "lexeme \<Rightarrow> mode \<times> frame list \<Rightarrow> (mode \<times> frame list) option" where
  "grammar_step t (NeedValue, st) = start_value t st"
| "grammar_step t (ValueOrClose, st) =
     (if t = RBrack then
        (case st of FArr [] # r \<Rightarrow> Some (After (JArr []), r) | _ \<Rightarrow> None)
      else start_value t st)"
| "grammar_step t (KeyOrClose, st) =
     (if t = RBrace then
        (case st of FObj [] # r \<Rightarrow> Some (After (JObj []), r) | _ \<Rightarrow> None)
      else read_key t st)"
| "grammar_step t (NeedKey, st) = read_key t st"
| "grammar_step t (NeedColon k, st) =
     (if t = Colon then
        (case st of FObj ms # r \<Rightarrow> Some (NeedValue, FMem ms k # r) | _ \<Rightarrow> None)
      else None)"
| "grammar_step t (After v, st) = (case st of f # r \<Rightarrow> after_value t v f r | [] \<Rightarrow> None)"

fun grammar_run :: "mode \<times> frame list \<Rightarrow> lexeme list \<Rightarrow> (mode \<times> frame list) option" where
  "grammar_run s [] = Some s"
| "grammar_run s (t # ts) =
     (case grammar_step t s of None \<Rightarrow> None | Some s' \<Rightarrow> grammar_run s' ts)"

definition json_value :: "lexeme list \<Rightarrow> jval option" where
  "json_value ts =
     (case grammar_run (NeedValue, []) ts of Some (After v, []) \<Rightarrow> Some v | _ \<Rightarrow> None)"

definition json_parse :: "bytes \<Rightarrow> jval option" where
  "json_parse b = Option.bind (lex_json b) json_value"

text \<open>\<open>json.Valid\<close>.\<close>

definition json_valid :: "bytes \<Rightarrow> bool" where
  "json_valid b \<longleftrightarrow> json_parse b \<noteq> None"

subsection \<open>Written forms\<close>

fun join :: "lexeme list list \<Rightarrow> lexeme list" where
  "join [] = []"
| "join [x] = x"
| "join (x # y # zs) = x @ Comma # join (y # zs)"

fun written :: "jval \<Rightarrow> lexeme list" where
  "written JNull = [LNull]"
| "written (JBool b) = [LBool b]"
| "written (JNum n) = [LNum n]"
| "written (JStr s) = [LStr s]"
| "written (JArr vs) = LBrack # join (map written vs) @ [RBrack]"
| "written (JObj ms) = LBrace # join (map (\<lambda>(k, v). LStr k # Colon # written v) ms) @ [RBrace]"

text \<open>
  \<open>nests n v\<close>: at most \<open>n\<close> containers are open at any point of the written form.
  \<open>levels n v\<close>: no value lies inside more than \<open>n\<close> containers.
\<close>

fun nests :: "nat \<Rightarrow> jval \<Rightarrow> bool" where
  "nests n (JArr vs) = (case n of 0 \<Rightarrow> False | Suc k \<Rightarrow> list_all (nests k) vs)"
| "nests n (JObj ms) = (case n of 0 \<Rightarrow> False | Suc k \<Rightarrow> list_all (\<lambda>(_, v). nests k v) ms)"
| "nests n _ = True"

fun levels :: "nat \<Rightarrow> jval \<Rightarrow> bool" where
  "levels n (JArr vs) = (case n of 0 \<Rightarrow> vs = [] | Suc k \<Rightarrow> list_all (levels k) vs)"
| "levels n (JObj ms) = (case n of 0 \<Rightarrow> ms = [] | Suc k \<Rightarrow> list_all (\<lambda>(_, v). levels k v) ms)"
| "levels n _ = True"

fun dup_free :: "jval \<Rightarrow> bool" where
  "dup_free (JArr vs) = list_all dup_free vs"
| "dup_free (JObj ms) = (distinct (map fst ms) \<and> list_all (\<lambda>(_, v). dup_free v) ms)"
| "dup_free _ = True"

abbreviation member_written :: "bytes \<times> jval \<Rightarrow> lexeme list" where
  "member_written \<equiv> \<lambda>(k, v). LStr k # Colon # written v"

lemma join_snoc: "join (xs @ [x]) = concat (map (\<lambda>y. y @ [Comma]) xs) @ x"
  by (induction xs rule: join.induct) auto

text \<open>The input a state of the machine stands for.\<close>

fun frame_read :: "frame \<Rightarrow> lexeme list" where
  "frame_read (FArr vs) = LBrack # concat (map (\<lambda>v. written v @ [Comma]) (rev vs))"
| "frame_read (FObj ms) = LBrace # concat (map (\<lambda>m. member_written m @ [Comma]) (rev ms))"
| "frame_read (FMem ms k) =
     LBrace # concat (map (\<lambda>m. member_written m @ [Comma]) (rev ms)) @ [LStr k, Colon]"

fun mode_read :: "mode \<Rightarrow> lexeme list" where
  "mode_read (NeedColon k) = [LStr k]"
| "mode_read (After v) = written v"
| "mode_read _ = []"

fun state_read :: "mode \<times> frame list \<Rightarrow> lexeme list" where
  "state_read (m, st) = concat (map frame_read (rev st)) @ mode_read m"

lemma written_arr_snoc:
  "written (JArr (rev vs @ [v])) =
     LBrack # concat (map (\<lambda>v. written v @ [Comma]) (rev vs)) @ written v @ [RBrack]"
  by (simp add: join_snoc comp_def)

lemma written_obj_snoc:
  "written (JObj (rev ms @ [(k, v)])) =
     LBrace # concat (map (\<lambda>m. member_written m @ [Comma]) (rev ms))
       @ LStr k # Colon # written v @ [RBrace]"
  by (simp add: join_snoc comp_def)

lemma start_value_read:
  "start_value t st = Some (m, st') \<Longrightarrow>
     state_read (m, st') = concat (map frame_read (rev st)) @ [t]"
  by (cases t) (auto split: if_splits)

lemma read_key_read:
  "read_key t st = Some (m, st') \<Longrightarrow>
     state_read (m, st') = concat (map frame_read (rev st)) @ [t]"
  by (cases t) auto

lemma after_value_read:
  "after_value t v f st = Some (m, st') \<Longrightarrow>
     state_read (m, st') = state_read (After v, f # st) @ [t]"
  by (induction t v f st rule: after_value.induct)
    (auto simp: written_arr_snoc written_obj_snoc simp del: written.simps)

lemma grammar_step_read:
  "grammar_step t (m, st) = Some (m', st') \<Longrightarrow>
     state_read (m', st') = state_read (m, st) @ [t]"
  by (cases m)
    (auto dest!: start_value_read read_key_read after_value_read
       split: if_splits list.splits frame.splits)

lemma grammar_run_read:
  "grammar_run s ts = Some s' \<Longrightarrow> state_read s' = state_read s @ ts"
proof (induction ts arbitrary: s)
  case (Cons t ts)
  then obtain s1 where "grammar_step t s = Some s1" "grammar_run s1 ts = Some s'"
    by (auto split: option.splits)
  with Cons.IH grammar_step_read [of t "fst s" "snd s" "fst s1" "snd s1"] show ?case
    by simp
qed simp

text \<open>What the machine accepts is the written form of the value it returns.\<close>

lemma json_value_written: "json_value ts = Some v \<Longrightarrow> ts = written v"
  by (auto simp: json_value_def dest!: grammar_run_read
      split: option.splits prod.splits mode.splits list.splits)

text \<open>Conversely, the machine accepts every written form within the nesting limit.\<close>

lemma grammar_run_elems:
  assumes "\<And>v m st ts. v \<in> set vs \<Longrightarrow> m = NeedValue \<or> m = ValueOrClose \<Longrightarrow>
      length st = d \<Longrightarrow> grammar_run (m, st) (written v @ ts) = grammar_run (After v, st) ts"
    and "vs \<noteq> []" and "m = NeedValue \<or> m = ValueOrClose" and "Suc (length st) = d"
  shows "grammar_run (m, FArr us # st) (join (map written vs) @ RBrack # ts) =
     grammar_run (After (JArr (rev us @ vs)), st) ts"
  using assms
proof (induction vs arbitrary: us m)
  case (Cons v vs)
  show ?case
  proof (cases vs)
    case Nil
    then show ?thesis using Cons.prems by simp
  next
    case (Cons w ws)
    have "grammar_run (m, FArr us # st) (join (map written (v # vs)) @ RBrack # ts) =
        grammar_run (NeedValue, FArr (v # us) # st) (join (map written vs) @ RBrack # ts)"
      using Cons.prems Cons by simp
    also have "\<dots> = grammar_run (After (JArr (rev (v # us) @ vs)), st) ts"
      using Cons.prems Cons by (intro Cons.IH) auto
    finally show ?thesis by simp
  qed
qed simp

lemma grammar_run_members:
  assumes "\<And>k v st ts. (k, v) \<in> set ms \<Longrightarrow> length st = d \<Longrightarrow>
      grammar_run (NeedValue, st) (written v @ ts) = grammar_run (After v, st) ts"
    and "ms \<noteq> []" and "m = NeedKey \<or> m = KeyOrClose" and "Suc (length st) = d"
  shows "grammar_run (m, FObj us # st) (join (map member_written ms) @ RBrace # ts) =
     grammar_run (After (JObj (rev us @ ms)), st) ts"
  using assms
proof (induction ms arbitrary: us m)
  case (Cons kv ms)
  obtain k v where kv: "kv = (k, v)" by force
  have hv: "grammar_run (NeedValue, FMem us k # st) (written v @ zs) =
      grammar_run (After v, FMem us k # st) zs" for zs
    using Cons.prems(4) kv by (intro Cons.prems(1)) auto
  show ?case
  proof (cases ms)
    case Nil
    then show ?thesis using Cons.prems kv by auto
  next
    case (Cons w ws)
    have "grammar_run (m, FObj us # st) (join (map member_written (kv # ms)) @ RBrace # ts) =
        grammar_run (NeedKey, FObj (kv # us) # st) (join (map member_written ms) @ RBrace # ts)"
      using Cons.prems(3) Cons kv hv by auto
    also have "\<dots> = grammar_run (After (JObj (rev (kv # us) @ ms)), st) ts"
      using Cons.prems Cons by (intro Cons.IH) auto
    finally show ?thesis by simp
  qed
qed simp

lemma grammar_run_written:
  "nests n v \<Longrightarrow> length st + n = max_nesting \<Longrightarrow> m = NeedValue \<or> m = ValueOrClose \<Longrightarrow>
     grammar_run (m, st) (written v @ ts) = grammar_run (After v, st) ts"
proof (induction v arbitrary: n m st ts)
  case (JArr vs)
  then obtain k where k: "n = Suc k" "list_all (nests k) vs" by (auto split: nat.splits)
  show ?case
  proof (cases "vs = []")
    case False
    have "grammar_run (ValueOrClose, FArr [] # st) (join (map written vs) @ RBrack # ts) =
        grammar_run (After (JArr (rev [] @ vs)), st) ts"
      using False JArr k
      by (intro grammar_run_elems [where d = "Suc (length st)"]) (auto simp: list_all_iff)
    with JArr.prems k show ?thesis by auto
  qed (use JArr.prems k in auto)
next
  case (JObj ms)
  then obtain k where k: "n = Suc k" "list_all (\<lambda>(_, v). nests k v) ms"
    by (auto split: nat.splits)
  show ?case
  proof (cases "ms = []")
    case False
    have "grammar_run (KeyOrClose, FObj [] # st) (join (map member_written ms) @ RBrace # ts) =
        grammar_run (After (JObj (rev [] @ ms)), st) ts"
      using False JObj k
      by (intro grammar_run_members [where d = "Suc (length st)"])
        (auto simp: list_all_iff elim!: snds.cases)
    with JObj.prems k show ?thesis by auto
  qed (use JObj.prems k in auto)
qed auto

lemma json_value_complete: "nests max_nesting v \<Longrightarrow> json_value (written v) = Some v"
  using grammar_run_written [of max_nesting v "[]" NeedValue "[]"] by (simp add: json_value_def)

section \<open>checkJSON\<close>

text \<open>
  A frame of the loop of \<open>checkJSON\<close>: \<open>keys\<close> is the key set of an open object and nil
  (\<open>None\<close>) for an array, \<open>key\<close> says that a key is expected.
\<close>

record jframe =
  keys :: "bytes set option"
  key :: bool

datatype json_error =
    InvalidJson | DuplicateKey | NestingLimit | StackPanic | OversizedInput | RejectedJson

fun complete :: "jframe list \<Rightarrow> jframe list" where
  "complete [] = []"
| "complete (f # fs) = (if keys f = None then f # fs else f\<lparr>key := True\<rparr> # fs)"

text \<open>The loop over the tokens; \<open>None\<close> is the nil error.\<close>

fun check_loop :: "nat \<Rightarrow> jframe list \<Rightarrow> lexeme list \<Rightarrow> json_error option" where
  "check_loop maxDepth stack [] = None"
| "check_loop maxDepth stack (t # ts) =
     (if t = RBrace \<or> t = RBrack then
        (case stack of [] \<Rightarrow> Some StackPanic | _ # fs \<Rightarrow> check_loop maxDepth (complete fs) ts)
      else if stack \<noteq> [] \<and> key (hd stack) then
        (case t of
           LStr k \<Rightarrow>
             (if k \<in> the (keys (hd stack)) then Some DuplicateKey
              else check_loop maxDepth
                ((hd stack)\<lparr>keys := Some (insert k (the (keys (hd stack)))), key := False\<rparr> # tl stack) ts)
         | _ \<Rightarrow> Some DuplicateKey)
      else if 0 < maxDepth \<and> maxDepth < length stack then Some NestingLimit
      else
        (case t of
           LBrace \<Rightarrow> check_loop maxDepth (\<lparr>keys = Some {}, key = True\<rparr> # stack) ts
         | LBrack \<Rightarrow> check_loop maxDepth (\<lparr>keys = None, key = False\<rparr> # stack) ts
         | _ \<Rightarrow> check_loop maxDepth (complete stack) ts))"

text \<open>\<open>Decoder.Token\<close> does not report the colons and the commas.\<close>

definition tokens :: "lexeme list \<Rightarrow> lexeme list" where
  "tokens ts = filter (\<lambda>t. t \<noteq> Colon \<and> t \<noteq> Comma) ts"

definition checkJSON :: "bytes \<Rightarrow> nat \<Rightarrow> json_error option" where
  "checkJSON b maxDepth =
     (if \<not> utf8_valid b \<or> \<not> json_valid b then Some InvalidJson
      else (case lex_json b of None \<Rightarrow> Some InvalidJson | Some ts \<Rightarrow> check_loop maxDepth [] (tokens ts)))"

definition JSONMessage :: "bytes \<Rightarrow> json_error option" where
  "JSONMessage b = checkJSON b 0"

text \<open>
  \<open>JSON\<close> reads at most \<open>limit + 1\<close> bytes of the input, so a longer one is noticed; the
  reader itself succeeds here.
\<close>

definition JSON :: "bytes \<Rightarrow> nat \<Rightarrow> json_error + bytes" where
  "JSON r limit =
     (let b = take (limit + 1) r in
      if limit < length b \<or> \<not> utf8_valid b then Inl OversizedInput
      else (case checkJSON b 64 of Some _ \<Rightarrow> Inl RejectedJson | None \<Rightarrow> Inr b))"

subsection \<open>The loop against the tree\<close>

fun tok :: "jval \<Rightarrow> lexeme list" where
  "tok (JArr vs) = LBrack # concat (map tok vs) @ [RBrack]"
| "tok (JObj ms) = LBrace # concat (map (\<lambda>(k, v). LStr k # tok v) ms) @ [RBrace]"
| "tok v = written v"

lemma tokens_simps [simp]:
  "tokens [] = []"
  "tokens (t # ts) = (if t = Colon \<or> t = Comma then tokens ts else t # tokens ts)"
  "tokens (xs @ ys) = tokens xs @ tokens ys"
  by (auto simp: tokens_def)

lemma tokens_join: "tokens (join xss) = concat (map tokens xss)"
  by (induction xss rule: join.induct) auto

lemma tokens_written: "tokens (written v) = tok v"
proof (induction v)
  case (JArr vs)
  then show ?case by (simp add: tokens_join comp_def cong: map_cong)
next
  case (JObj ms)
  then have "concat (map (tokens \<circ> member_written) ms) =
      concat (map (\<lambda>(k, v). LStr k # tok v) ms)"
    by (intro arg_cong [where f = concat] map_cong) (auto elim!: snds.cases)
  then show ?case by (simp add: tokens_join)
qed auto

text \<open>A stack that can take a value: its top frame is not waiting for a key.\<close>

definition wants_value :: "jframe list \<Rightarrow> bool" where
  "wants_value st \<longleftrightarrow> st = [] \<or> \<not> key (hd st)"

definition level_ok :: "nat \<Rightarrow> nat \<Rightarrow> jval \<Rightarrow> bool" where
  "level_ok m d v \<longleftrightarrow> m = 0 \<or> (d \<le> m \<and> levels (m - d) v)"

lemma level_ok_arr:
  "level_ok m d (JArr vs) \<longleftrightarrow> (m = 0 \<or> d \<le> m) \<and> list_all (level_ok m (Suc d)) vs"
proof (cases "m = 0 \<or> m < d \<or> vs = []")
  case False
  then obtain k where "m - d = k" "d \<le> m" by auto
  then show ?thesis
    using False by (cases k) (auto simp: level_ok_def list_all_iff Suc_diff_le
        diff_Suc split: nat.splits dest: bspec [OF _ list.set_sel(1)])
qed (auto simp: level_ok_def list_all_iff split: nat.splits)

lemma level_ok_obj:
  "level_ok m d (JObj ms) \<longleftrightarrow> (m = 0 \<or> d \<le> m) \<and> list_all (\<lambda>(_, v). level_ok m (Suc d) v) ms"
proof (cases "m = 0 \<or> m < d \<or> ms = []")
  case False
  then obtain k x y r where "m - d = k" "d \<le> m" "ms = (x, y) # r" by (cases ms) auto
  then show ?thesis
    using False by (cases k) (auto simp: level_ok_def list_all_iff Suc_diff_le diff_Suc
        split: nat.splits)
qed (auto simp: level_ok_def list_all_iff split: nat.splits)

abbreviation arr_frame :: jframe where
  "arr_frame \<equiv> \<lparr>keys = None, key = False\<rparr>"

abbreviation obj_frame :: "bytes set \<Rightarrow> bool \<Rightarrow> jframe" where
  "obj_frame K b \<equiv> \<lparr>keys = Some K, key = b\<rparr>"

lemma check_loop_elems:
  assumes "\<And>v st ts. v \<in> set vs \<Longrightarrow> wants_value st \<Longrightarrow>
      check_loop m st (tok v @ ts) = None \<longleftrightarrow>
        dup_free v \<and> level_ok m (length st) v \<and> check_loop m (complete st) ts = None"
  shows "check_loop m (arr_frame # st) (concat (map tok vs) @ RBrack # ts) = None \<longleftrightarrow>
     (\<forall>v \<in> set vs. dup_free v \<and> level_ok m (Suc (length st)) v) \<and>
     check_loop m (complete st) ts = None"
  using assms by (induction vs) (auto simp: wants_value_def)

lemma check_loop_members:
  assumes "\<And>k v st ts. (k, v) \<in> set ms \<Longrightarrow> wants_value st \<Longrightarrow>
      check_loop m st (tok v @ ts) = None \<longleftrightarrow>
        dup_free v \<and> level_ok m (length st) v \<and> check_loop m (complete st) ts = None"
  shows "check_loop m (obj_frame K True # st)
       (concat (map (\<lambda>(k, v). LStr k # tok v) ms) @ RBrace # ts) = None \<longleftrightarrow>
     distinct (map fst ms) \<and> fst ` set ms \<inter> K = {} \<and>
     (\<forall>(k, v) \<in> set ms. dup_free v \<and> level_ok m (Suc (length st)) v) \<and>
     check_loop m (complete st) ts = None"
  using assms
proof (induction ms arbitrary: K)
  case (Cons kv ms)
  obtain k v where kv: "kv = (k, v)" by force
  have hv: "check_loop m (obj_frame L False # st) (tok v @ us) = None \<longleftrightarrow>
      dup_free v \<and> level_ok m (Suc (length st)) v \<and>
      check_loop m (obj_frame L True # st) us = None" for L us
    using Cons.prems [of k v "obj_frame L False # st"] kv by (simp add: wants_value_def)
  have "check_loop m (obj_frame L True # st)
       (concat (map (\<lambda>(k, v). LStr k # tok v) ms) @ RBrace # ts) = None \<longleftrightarrow>
     distinct (map fst ms) \<and> fst ` set ms \<inter> L = {} \<and>
     (\<forall>(k, v) \<in> set ms. dup_free v \<and> level_ok m (Suc (length st)) v) \<and>
     check_loop m (complete st) ts = None" for L
    using Cons.prems by (intro Cons.IH) auto
  then show ?case using kv by (auto simp: hv)
qed simp

lemma check_loop_tok:
  "wants_value st \<Longrightarrow> check_loop m st (tok v @ ts) = None \<longleftrightarrow>
     dup_free v \<and> level_ok m (length st) v \<and> check_loop m (complete st) ts = None"
proof (induction v arbitrary: st ts)
  case (JArr vs)
  have "check_loop m (arr_frame # st) (concat (map tok vs) @ RBrack # ts) = None \<longleftrightarrow>
     (\<forall>v \<in> set vs. dup_free v \<and> level_ok m (Suc (length st)) v) \<and>
     check_loop m (complete st) ts = None"
    using JArr.IH by (intro check_loop_elems) auto
  with JArr.prems show ?case
    by (auto simp: wants_value_def level_ok_arr list_all_iff)
next
  case (JObj ms)
  have "check_loop m (obj_frame {} True # st)
       (concat (map (\<lambda>(k, v). LStr k # tok v) ms) @ RBrace # ts) = None \<longleftrightarrow>
     distinct (map fst ms) \<and> fst ` set ms \<inter> {} = {} \<and>
     (\<forall>(k, v) \<in> set ms. dup_free v \<and> level_ok m (Suc (length st)) v) \<and>
     check_loop m (complete st) ts = None"
    using JObj.IH by (intro check_loop_members) (auto intro: snds.intros)
  with JObj.prems show ?case
    by (auto simp: wants_value_def level_ok_obj list_all_iff)
qed (auto simp: wants_value_def level_ok_def)

lemma check_loop_written:
  "check_loop m [] (tokens (written v)) = None \<longleftrightarrow> dup_free v \<and> (m = 0 \<or> levels m v)"
  using check_loop_tok [of "[]" m v "[]"]
  by (simp add: tokens_written wants_value_def level_ok_def)

text \<open>What the parser returns is within the nesting limit of the scanner.\<close>

lemma json_parse_iff_lex:
  "json_parse b = Some v \<Longrightarrow> lex_json b = Some (written v)"
  by (auto simp: json_parse_def bind_eq_Some_conv dest: json_value_written)

lemma checkJSON_iff:
  "checkJSON b maxDepth = None \<longleftrightarrow>
     utf8_valid b \<and>
     (\<exists>v. json_parse b = Some v \<and> dup_free v \<and> (maxDepth = 0 \<or> levels maxDepth v))"
proof (cases "json_parse b")
  case (Some v)
  then have "lex_json b = Some (written v)" by (rule json_parse_iff_lex)
  with Some show ?thesis
    by (simp add: checkJSON_def json_valid_def check_loop_written)
qed (simp add: checkJSON_def json_valid_def)

text \<open>
  C17. The duplicate-key check accepts a document exactly when it is valid UTF-8, is one
  JSON value, no object at any depth repeats a key, and (where a depth is given) no
  value lies in more than that many containers.  The stack loop never pops an empty
  stack.
\<close>

theorem checkJSON_accepts:
  "checkJSON b maxDepth = None \<longleftrightarrow>
     utf8_valid b \<and>
     (\<exists>v. json_parse b = Some v \<and> dup_free v \<and> (maxDepth = 0 \<or> levels maxDepth v))"
  by (rule checkJSON_iff)

end
