(* ===== verification/Json_Print.thy ===== *)
theory Json_Print
  imports Json
begin

text \<open>
  \<open>json.Marshal\<close> as the program uses it: compact output with the HTML-safe string
  escaping of encoding/json.  The main facts are the roundtrip with the parser of Json and
  that escaping is a morphism at every ASCII boundary, which the result budget of the
  query executor relies on.
\<close>

section \<open>Strings\<close>

abbreviation quote :: char where
  "quote \<equiv> CHR 0x22"

abbreviation backslash :: char where
  "backslash \<equiv> CHR 0x5C"

definition hex_digit :: "nat \<Rightarrow> char" where
  "hex_digit n = char_of (if n < 10 then 48 + n else 87 + n)"

definition u_escape :: "nat \<Rightarrow> bytes" where
  "u_escape n =
     [backslash, CHR ''u'', hex_digit (n div 4096), hex_digit (n div 256 mod 16),
      hex_digit (n div 16 mod 16), hex_digit (n mod 16)]"

definition short_escape :: "char \<Rightarrow> char option" where
  "short_escape c =
     (if byte_of c = 34 \<or> byte_of c = 92 then Some c
      else if byte_of c = 8 then Some (CHR ''b'')
      else if byte_of c = 12 then Some (CHR ''f'')
      else if byte_of c = 10 then Some (CHR ''n'')
      else if byte_of c = 13 then Some (CHR ''r'')
      else if byte_of c = 9 then Some (CHR ''t'')
      else None)"

definition escape_ascii :: "char \<Rightarrow> bytes" where
  "escape_ascii c =
     (case short_escape c of
        Some e \<Rightarrow> [backslash, e]
      | None \<Rightarrow>
          if byte_of c < 32 \<or> c = CHR ''<'' \<or> c = CHR ''>'' \<or> c = CHR ''&''
          then u_escape (byte_of c) else [c])"

text \<open>A rune beyond ASCII: the two line separators are escaped.\<close>

definition escape_rune :: "bytes \<Rightarrow> bytes" where
  "escape_rune u =
     (if u = [CHR 0xE2, CHR 0x80, CHR 0xA8] then u_escape 8232
      else if u = [CHR 0xE2, CHR 0x80, CHR 0xA9] then u_escape 8233
      else u)"

function escape :: "bytes \<Rightarrow> bytes" where
  "escape [] = []"
| "escape (c # cs) =
     (if byte_of c < 128 then escape_ascii c @ escape cs
      else (case rune_rest c cs of
              None \<Rightarrow> u_escape 65533 @ escape cs
            | Some r \<Rightarrow> escape_rune (take (Suc (length cs) - length r) (c # cs)) @ escape r))"
  by pat_completeness auto
termination
  by (relation "measure length") (auto dest: rune_rest_length)

declare escape.simps(2) [simp del]

fun show_lexeme :: "lexeme \<Rightarrow> bytes" where
  "show_lexeme LBrace = ''{''"
| "show_lexeme RBrace = ''}''"
| "show_lexeme LBrack = ''[''"
| "show_lexeme RBrack = '']''"
| "show_lexeme Colon = '':''"
| "show_lexeme Comma = '',''"
| "show_lexeme (LStr s) = quote # escape s @ [quote]"
| "show_lexeme (LNum n) = n"
| "show_lexeme (LBool b) = (if b then ''true'' else ''false'')"
| "show_lexeme LNull = ''null''"

definition marshal :: "jval \<Rightarrow> bytes" where
  "marshal v = concat (map show_lexeme (written v))"

subsection \<open>Escaping at ASCII boundaries\<close>

lemma rune_rest_None_append:
  "rune_rest c cs = None \<Longrightarrow> byte_of d < 128 \<Longrightarrow> rune_rest c (cs @ d # t) = None"
  by (auto simp: rune_rest.simps Let_def cont_def in_range_def split: if_splits list.splits)

lemma take_rune_append:
  "rune_rest c cs = Some r \<Longrightarrow>
     take (Suc (length (cs @ t)) - length (r @ t)) (c # cs @ t) =
     take (Suc (length cs) - length r) (c # cs)"
  by (drule rune_rest_length) (simp add: take_Cons')

lemma escape_append: "byte_of d < 128 \<Longrightarrow> escape (s @ d # t) = escape s @ escape (d # t)"
proof (induction s rule: escape.induct)
  case (2 c cs)
  show ?case
  proof (cases "byte_of c < 128")
    case True
    with 2 show ?thesis by (simp add: escape.simps(2) [of c])
  next
    case False
    show ?thesis
    proof (cases "rune_rest c cs")
      case None
      with 2 False show ?thesis
        by (simp add: escape.simps(2) [of c] rune_rest_None_append)
    next
      case (Some r)
      with 2 False show ?thesis
        by (simp add: escape.simps(2) [of c] rune_rest_append take_rune_append del: length_append)
    qed
  qed
qed simp

lemma escape_append_ascii: "s \<noteq> [] \<Longrightarrow> byte_of (hd t) < 128 \<Longrightarrow> t \<noteq> [] \<Longrightarrow> escape (s @ t) = escape s @ escape t"
  using escape_append [of "hd t" s "tl t"] by simp

subsection \<open>Reading an escaped string back\<close>

lemma hex_val_digit: "n < 16 \<Longrightarrow> hex_val (hex_digit n) = Some n"
  by (auto simp: hex_val_def hex_digit_def in_range_def of_char_of)

lemma hex4_digits:
  assumes "n < 65536"
  shows "hex4 (hex_digit (n div 4096)) (hex_digit (n div 256 mod 16))
     (hex_digit (n div 16 mod 16)) (hex_digit (n mod 16)) = Some n"
proof -
  have "n div 4096 < 16" using assms by (simp add: less_mult_imp_div_less)
  moreover have "4096 * (n div 4096) + 256 * (n div 256 mod 16) + 16 * (n div 16 mod 16) + n mod 16 = n"
    using four_digits [of n 16] by (simp add: div_mult2_eq [symmetric] mult.commute)
  ultimately show ?thesis by (simp add: hex4_def hex_val_digit)
qed

lemma lex_string_u_escape:
  "n < 65536 \<Longrightarrow> lex_string (u_escape n @ t) = map_option (\<lambda>(us, r). (Esc n # us, r)) (lex_string t)"
  by (simp add: u_escape_def hex4_digits)

lemma unquote_Esc: "\<not> is_surrogate n \<Longrightarrow> unquote (Esc n # us) = utf8_encode n @ unquote us"
  by (cases "(Esc n # us)" rule: unquote.cases) auto

lemma lex_string_ascii:
  assumes "byte_of c < 128"
  shows "\<exists>u. lex_string (escape_ascii c @ t) = map_option (\<lambda>(us, r). (u # us, r)) (lex_string t)
     \<and> (\<forall>us. unquote (u # us) = c # unquote us)"
proof (cases "short_escape c")
  case None
  show ?thesis
  proof (cases "byte_of c < 32 \<or> c = CHR ''<'' \<or> c = CHR ''>'' \<or> c = CHR ''&''")
    case True
    have "utf8_encode (byte_of c) = [c]" using assms by (simp add: utf8_encode_def)
    moreover have "\<not> is_surrogate (byte_of c)" using assms by (simp add: is_surrogate_def)
    ultimately show ?thesis
      using True None assms
      by (intro exI [of _ "Esc (byte_of c)"]) (simp add: escape_ascii_def lex_string_u_escape unquote_Esc)
  next
    case False
    with None assms show ?thesis
      by (intro exI [of _ "Raw c"]) (auto simp: escape_ascii_def short_escape_def split: if_splits)
  qed
next
  case (Some e)
  have inj: "byte_of c = n \<Longrightarrow> c = char_of n" for n by auto
  from Some have "simple_escape e = Some c" "e \<noteq> CHR ''u''"
    by (auto simp: short_escape_def simple_escape_def split: if_splits dest: inj)
  with Some show ?thesis
    by (intro exI [of _ "Raw c"]) (simp add: escape_ascii_def)
qed

lemma rune_rest_split:
  assumes "rune_rest c cs = Some r" and "\<not> byte_of c < 128"
  obtains u where "c # cs = u @ r" and "\<forall>x \<in> set u. 128 \<le> byte_of x"
    and "take (Suc (length cs) - length r) (c # cs) = u"
proof -
  have "\<exists>u. c # cs = u @ r \<and> (\<forall>x \<in> set u. 128 \<le> byte_of x)"
    using assms
    by (auto simp: rune_rest.simps Let_def cont_def in_range_def append_eq_Cons_conv
        split: if_splits list.splits intro: exI [of _ "[c]"])
  then obtain u where "c # cs = u @ r" "\<forall>x \<in> set u. 128 \<le> byte_of x" by blast
  moreover from this(1) have "take (Suc (length cs) - length r) (c # cs) = u"
    by (metis add_diff_cancel_right' append_eq_conv_conj length_Cons length_append)
  ultimately show thesis by (rule that)
qed

lemma lex_string_high:
  "\<forall>x \<in> set u. 128 \<le> byte_of x \<Longrightarrow>
     lex_string (u @ t) = map_option (\<lambda>(us, r). (map Raw u @ us, r)) (lex_string t)"
proof (induction u)
  case Nil
  show ?case by (cases "lex_string t") auto
next
  case (Cons a u)
  then show ?case by (cases "lex_string t") auto
qed

lemma unquote_Raw [simp]: "unquote (map Raw u @ us) = u @ unquote us"
  by (induction u) auto

lemma lex_string_rune:
  assumes "\<forall>x \<in> set u. 128 \<le> byte_of x"
  shows "\<exists>vs. lex_string (escape_rune u @ t) = map_option (\<lambda>(us, r). (vs @ us, r)) (lex_string t)
     \<and> (\<forall>us. unquote (vs @ us) = u @ unquote us)"
proof -
  have sep: "utf8_encode 8232 = [CHR 0xE2, CHR 0x80, CHR 0xA8]" "utf8_encode 8233 = [CHR 0xE2, CHR 0x80, CHR 0xA9]"
    by (simp_all add: utf8_encode_def char_of_def bit_0)
  consider "u = [CHR 0xE2, CHR 0x80, CHR 0xA8]" | "u = [CHR 0xE2, CHR 0x80, CHR 0xA9]"
    | "escape_rune u = u"
    unfolding escape_rune_def by presburger
  then show ?thesis
  proof cases
    case 1
    have "unquote ([Esc 8232] @ us) = u @ unquote us" for us
      using 1 sep by (simp add: unquote_Esc is_surrogate_def)
    moreover have "escape_rune u = u_escape 8232" using 1 by (simp add: escape_rune_def)
    ultimately show ?thesis by (intro exI [of _ "[Esc 8232]"]) (simp add: lex_string_u_escape)
  next
    case 2
    have "unquote ([Esc 8233] @ us) = u @ unquote us" for us
      using 2 sep by (simp add: unquote_Esc is_surrogate_def)
    moreover have "escape_rune u = u_escape 8233" using 2 by (simp add: escape_rune_def)
    ultimately show ?thesis by (intro exI [of _ "[Esc 8233]"]) (simp add: lex_string_u_escape)
  next
    case 3
    then show ?thesis using lex_string_high [OF assms, of t] unquote_Raw [of u] by metis
  qed
qed

lemma lex_string_escape:
  "utf8_valid s \<Longrightarrow> \<exists>us. lex_string (escape s @ quote # t) = Some (us, t) \<and> unquote us = s"
proof (induction s rule: escape.induct)
  case (2 c cs)
  show ?case
  proof (cases "byte_of c < 128")
    case True
    with 2 obtain us where us: "lex_string (escape cs @ quote # t) = Some (us, t)" "unquote us = cs"
      by (auto simp: rune_rest_ascii)
    obtain u where "lex_string (escape_ascii c @ escape cs @ quote # t) =
        map_option (\<lambda>(us, r). (u # us, r)) (lex_string (escape cs @ quote # t))"
      "\<forall>us. unquote (u # us) = c # unquote us"
      using lex_string_ascii [OF True] by blast
    with us True show ?thesis by (simp add: escape.simps(2))
  next
    case False
    with 2 obtain r where r: "rune_rest c cs = Some r" "utf8_valid r" by (auto split: option.splits)
    with 2 False obtain us where us: "lex_string (escape r @ quote # t) = Some (us, t)" "unquote us = r"
      by auto
    obtain u where u: "c # cs = u @ r" "\<forall>x \<in> set u. 128 \<le> byte_of x"
      "take (Suc (length cs) - length r) (c # cs) = u"
      using r(1) False by (rule rune_rest_split)
    obtain vs where "lex_string (escape_rune u @ escape r @ quote # t) =
        map_option (\<lambda>(us, r). (vs @ us, r)) (lex_string (escape r @ quote # t))"
      "\<forall>us. unquote (vs @ us) = u @ unquote us"
      using lex_string_rune [OF u(2)] by blast
    moreover have "escape (c # cs) = escape_rune u @ escape r"
      using False r(1) u(3) by (simp add: escape.simps(2))
    ultimately show ?thesis using us u(1) by (intro exI [of _ "vs @ us"]) simp
  qed
qed simp

subsection \<open>Reading a number back\<close>

definition stops :: "bytes \<Rightarrow> bool" where
  "stops t \<longleftrightarrow> t = [] \<or> (\<not> is_digit (hd t) \<and> hd t \<notin> {CHR ''.'', CHR ''e'', CHR ''E''})"

lemma dropWhile_digits_append:
  assumes "t = [] \<or> \<not> is_digit (hd t)"
  shows "dropWhile is_digit (s @ t) = dropWhile is_digit s @ t"
proof (cases "\<forall>x \<in> set s. is_digit x")
  case True
  then have "dropWhile is_digit s = []" by simp
  moreover have "dropWhile is_digit (s @ t) = dropWhile is_digit t" using True by (simp add: dropWhile_append2)
  moreover have "dropWhile is_digit t = t" using assms by (simp add: dropWhile_eq_self_iff)
  ultimately show ?thesis by (metis append_Nil)
qed (auto simp: dropWhile_append1)

lemma digits1_append: "digits1 s = Some r \<Longrightarrow> stops t \<Longrightarrow> digits1 (s @ t) = Some (r @ t)"
  by (auto simp: digits1_def stops_def dropWhile_digits_append split: if_splits)

lemma lex_int_append: "lex_int s = Some r \<Longrightarrow> stops t \<Longrightarrow> lex_int (s @ t) = Some (r @ t)"
  using digits1_append [of s r t] by (auto simp: lex_int_def split: list.splits if_splits)

lemma lex_frac_append: "lex_frac s = Some r \<Longrightarrow> stops t \<Longrightarrow> lex_frac (s @ t) = Some (r @ t)"
  using digits1_append [of "tl s" r t]
  by (auto simp: lex_frac_def stops_def split: list.splits if_splits)

lemma lex_exp_append: "lex_exp s = Some r \<Longrightarrow> stops t \<Longrightarrow> lex_exp (s @ t) = Some (r @ t)"
  using digits1_append [of "tl s" r t] digits1_append [of "tl (tl s)" r t]
  by (auto simp: lex_exp_def stops_def split: list.splits if_splits)

lemma lex_number_append:
  assumes "lex_number n = Some (n, [])" and "stops t"
  shows "lex_number (n @ t) = Some (n, t)"
proof -
  let ?u = "\<lambda>s. case s of c # cs \<Rightarrow> if c = CHR ''-'' then cs else s | [] \<Rightarrow> s"
  from assms(1) obtain a b where ab: "lex_int (?u n) = Some a" "lex_frac a = Some b" "lex_exp b = Some []"
    by (auto simp: lex_number_def Let_def bind_eq_Some_conv split: option.splits)
  then have "n \<noteq> []" by (auto simp: lex_int_def)
  then have "?u (n @ t) = ?u n @ t" by (auto split: list.splits)
  with ab assms(2) show ?thesis
    by (simp add: lex_number_def Let_def lex_int_append lex_frac_append lex_exp_append [of b "[]"])
qed

lemma lex_number_hd:
  assumes "lex_number n = Some r"
  shows "n \<noteq> []" and "hd n = CHR ''-'' \<or> is_digit (hd n)"
proof -
  have first: "s \<noteq> [] \<and> is_digit (hd s)" if "lex_int s = Some a" for s a
    using that by (auto simp: lex_int_def digits1_def is_digit_def in_range_def split: list.splits if_splits)
  let ?u = "case n of c # cs \<Rightarrow> if c = CHR ''-'' then cs else n | [] \<Rightarrow> n"
  from assms obtain a where "lex_int ?u = Some a"
    by (auto simp: lex_number_def Let_def bind_eq_Some_conv split: option.splits)
  then have "?u \<noteq> [] \<and> is_digit (hd ?u)" by (rule first)
  then show "n \<noteq> []" "hd n = CHR ''-'' \<or> is_digit (hd n)"
    by (auto split: list.splits if_splits)
qed

subsection \<open>Reading a document back\<close>

definition punct :: "lexeme \<Rightarrow> bool" where
  "punct l \<longleftrightarrow> l \<in> {LBrace, RBrace, LBrack, RBrack, Colon, Comma}"

lemma punct_simps [simp]:
  "punct LBrace" "punct RBrace" "punct LBrack" "punct RBrack" "punct Colon" "punct Comma"
  "\<not> punct (LStr s)" "\<not> punct (LNum n)" "\<not> punct (LBool b)" "\<not> punct LNull"
  by (simp_all add: punct_def)

fun sep :: "lexeme list \<Rightarrow> bool" where
  "sep (a # b # ls) = ((punct a \<or> punct b) \<and> sep (b # ls))"
| "sep _ = True"

fun printable_lexeme :: "lexeme \<Rightarrow> bool" where
  "printable_lexeme (LStr s) = utf8_valid s"
| "printable_lexeme (LNum n) = (lex_number n = Some (n, []))"
| "printable_lexeme _ = True"

text \<open>The values \<open>json.Marshal\<close> writes without replacement runes.\<close>

fun printable :: "jval \<Rightarrow> bool" where
  "printable (JStr s) = utf8_valid s"
| "printable (JNum n) = (lex_number n = Some (n, []))"
| "printable (JArr vs) = list_all printable vs"
| "printable (JObj ms) = list_all (\<lambda>(k, v). utf8_valid k \<and> printable v) ms"
| "printable _ = True"

lemma sep_punct [simp]: "punct a \<Longrightarrow> sep (a # ls) = sep ls"
  by (cases ls) auto

lemma sep_before: "ls = [] \<or> punct (hd ls) \<Longrightarrow> sep ls \<Longrightarrow> sep (a # ls)"
  by (cases ls) auto

lemma sep_join:
  "\<forall>x \<in> set xs. \<forall>r. (r = [] \<or> punct (hd r)) \<longrightarrow> sep r \<longrightarrow> sep (x @ r) \<Longrightarrow>
     r = [] \<or> punct (hd r) \<Longrightarrow> sep r \<Longrightarrow> sep (join xs @ r)"
  by (induction xs rule: join.induct) auto

lemma sep_written: "r = [] \<or> punct (hd r) \<Longrightarrow> sep r \<Longrightarrow> sep (written v @ r)"
proof (induction v arbitrary: r)
  case (JArr vs)
  have "sep (written v)" if "v \<in> set vs" for v using JArr.IH [OF that, of "[]"] by simp
  with JArr show ?case by (auto intro!: sep_join)
next
  case (JObj ms)
  have "sep (member_written (k, v) @ r)" if "(k, v) \<in> set ms" "r = [] \<or> punct (hd r)" "sep r" for k v r
    using that JObj.IH [of "(k, v)" v r] by (auto intro!: sep_before)
  note mem = this
  have "sep (member_written m @ r)" if "m \<in> set ms" "r = [] \<or> punct (hd r)" "sep r" for m r
    using mem that by (cases m) blast
  from this this [of _ "[]"]
  show ?case using JObj.prems by (auto intro!: sep_join)
qed (auto intro: sep_before)

lemma set_join: "set (join xs) \<subseteq> insert Comma (\<Union> (set ` set xs))"
  by (induction xs rule: join.induct) auto

lemma printable_written: "printable v \<Longrightarrow> l \<in> set (written v) \<Longrightarrow> printable_lexeme l"
proof (induction v)
  case (JArr vs)
  then show ?case using set_join [of "map written vs"] by (auto simp: list_all_iff)
next
  case (JObj ms)
  then show ?case using set_join [of "map member_written ms"]
    by (auto simp: list_all_iff) (force dest!: subsetD)
qed auto

lemma lex_one_number:
  assumes "c = CHR ''-'' \<or> is_digit c"
  shows "lex_one (c # cs) = map_option (\<lambda>(n, t). (LNum n, t)) (lex_number (c # cs))"
proof -
  have "c \<notin> {CHR ''{'', CHR ''}'', CHR ''['', CHR '']'', CHR '':'', CHR '','', CHR ''t'', CHR ''f'', CHR ''n''}"
    and "byte_of c \<noteq> 34"
    using assms by (auto simp: is_digit_def in_range_def)
  then show ?thesis by (simp add: lex_one_def)
qed

lemma lex_one_show:
  assumes "printable_lexeme l" and "case l of LNum _ \<Rightarrow> stops t | _ \<Rightarrow> True"
  shows "lex_one (show_lexeme l @ t) = Some (l, t)"
proof (cases l)
  case (LStr s)
  with assms obtain us where "lex_string (escape s @ quote # t) = Some (us, t)" "unquote us = s"
    using lex_string_escape by auto
  with LStr show ?thesis by (simp add: lex_one_def)
next
  case (LNum n)
  with assms have n: "lex_number (n @ t) = Some (n, t)" by (simp add: lex_number_append)
  from assms LNum have "n \<noteq> []" "hd n = CHR ''-'' \<or> is_digit (hd n)"
    using lex_number_hd [of n "(n, [])"] by auto
  with n LNum show ?thesis
    by (cases n) (simp_all add: lex_one_number)
qed (simp_all add: lex_one_def lex_word_def has_prefix_def)

lemma show_not_ws:
  assumes "printable_lexeme l"
  obtains c cs where "show_lexeme l = c # cs" and "\<not> is_ws c"
proof (cases l)
  case (LNum n)
  with assms have "n \<noteq> []" "hd n = CHR ''-'' \<or> is_digit (hd n)"
    using lex_number_hd [of n "(n, [])"] by auto
  with LNum that [of "hd n" "tl n"] show thesis
    by (auto simp: is_ws_def is_digit_def in_range_def)
next
  case (LBool b)
  with that show thesis by (cases b) (auto simp: is_ws_def)
qed (use that in \<open>auto simp: is_ws_def\<close>)

lemma lex_json_show:
  "list_all printable_lexeme ls \<Longrightarrow> sep ls \<Longrightarrow> lex_json (concat (map show_lexeme ls)) = Some ls"
proof (induction ls)
  case Nil
  show ?case by (simp add: lex_json.simps)
next
  case (Cons l ls)
  let ?t = "concat (map show_lexeme ls)"
  obtain c cs where c: "show_lexeme l = c # cs" "\<not> is_ws c"
    using Cons.prems show_not_ws by auto
  have "case l of LNum _ \<Rightarrow> stops ?t | _ \<Rightarrow> True"
    using Cons.prems by (cases ls) (auto simp: stops_def punct_def is_digit_def in_range_def split: lexeme.splits)
  then have "lex_one (show_lexeme l @ ?t) = Some (l, ?t)"
    using Cons.prems by (intro lex_one_show) auto
  moreover have "sep ls" using Cons.prems by (cases ls) auto
  ultimately show ?case using Cons c by (simp add: lex_json.simps)
qed

lemma json_parse_marshal:
  assumes "printable v" and "nests max_nesting v"
  shows "json_parse (marshal v) = Some v"
  using assms lex_json_show [of "written v"] printable_written [of v] sep_written [of "[]" v]
  by (simp add: json_parse_def marshal_def json_value_complete list_all_iff)

end
