(* ===== verification/Codec.thy ===== *)
theory Codec
  imports Json_Print
begin

text \<open>
  Values and parameters of queries (postgres/codec.go): the decoding of the text
  representation PostgreSQL sends for each built-in type into a value of the result, and
  the encoding of JSON parameters into the text sent to the server.  strconv's
  floating-point conversion is the argument \<open>pf\<close>: \<open>pf w s\<close> is the JSON text of the finite
  \<open>w\<close>-bit float nearest to \<open>s\<close>, if there is one.
\<close>

section \<open>Values of a row\<close>

text \<open>The Go values a cell can hold; a \<open>json.RawMessage\<close> keeps its text.\<close>

datatype cell =
    CNil | CBool bool | CInt int | CStr bytes | CRaw bytes | CFloat bytes | CList "cell list"

definition codecError :: goerr where
  "codecError = Fail QueryUnsupported ''result value has an unsupported representation'' False"

definition invalidParameters :: goerr where
  "invalidParameters = Fail InvalidArgument ''invalid query parameter type or value'' False"

definition jsonValue :: "bytes \<Rightarrow> bytes res" where
  "jsonValue b = (if \<not> utf8_valid b \<or> \<not> json_valid b then Inl codecError else Inr b)"

section \<open>Numbers\<close>

definition specialNumber :: "bytes \<Rightarrow> bool" where
  "specialNumber s \<longleftrightarrow> s = ''NaN'' \<or> s = ''Infinity'' \<or> s = ''-Infinity''"

fun strip_sign :: "bytes \<Rightarrow> bytes" where
  "strip_sign (c # cs) = (if c = CHR ''+'' \<or> c = CHR ''-'' then cs else c # cs)"
| "strip_sign [] = []"

text \<open>\<open>^[+-]?(?:[0-9]+(?:\.[0-9]*)?|\.[0-9]+)(?:[eE][+-]?[0-9]+)?$\<close>\<close>

definition all_digits1 :: "bytes \<Rightarrow> bool" where
  "all_digits1 s \<longleftrightarrow> s \<noteq> [] \<and> list_all is_digit s"

definition mantissa_rest :: "bytes \<Rightarrow> bytes option" where
  "mantissa_rest s =
     (case s of
        [] \<Rightarrow> None
      | c # cs \<Rightarrow>
          if c = CHR ''.'' then digits1 cs
          else map_option (\<lambda>r. case r of d # ds \<Rightarrow> if d = CHR ''.'' then dropWhile is_digit ds else r
                                       | [] \<Rightarrow> r) (digits1 s))"

definition decimalText :: "bytes \<Rightarrow> bool" where
  "decimalText s =
     (case mantissa_rest (strip_sign s) of
        None \<Rightarrow> False
      | Some [] \<Rightarrow> True
      | Some (c # cs) \<Rightarrow> (c = CHR ''e'' \<or> c = CHR ''E'') \<and> all_digits1 (strip_sign cs))"

fun digits_value :: "nat \<Rightarrow> bytes \<Rightarrow> nat" where
  "digits_value a [] = a"
| "digits_value a (c # cs) = digits_value (10 * a + (byte_of c - 48)) cs"

text \<open>\<open>strconv.ParseInt(s, 10, bits)\<close>.\<close>

definition ParseInt :: "bytes \<Rightarrow> nat \<Rightarrow> int option" where
  "ParseInt s bits =
     (if \<not> all_digits1 (strip_sign s) then None
      else
        let n = int (digits_value 0 (strip_sign s));
            v = (if hd s = CHR ''-'' then - n else n)
        in if - (2 ^ (bits - 1)) \<le> v \<and> v < 2 ^ (bits - 1) then Some v else None)"

section \<open>Binary data\<close>

text \<open>\<open>hex.DecodeString\<close> and \<open>base64.StdEncoding.EncodeToString\<close>.\<close>

fun hex_decode :: "bytes \<Rightarrow> nat list option" where
  "hex_decode [] = Some []"
| "hex_decode [_] = None"
| "hex_decode (a # b # cs) =
     (case (hex_val a, hex_val b) of
        (Some x, Some y) \<Rightarrow> map_option ((#) (16 * x + y)) (hex_decode cs)
      | _ \<Rightarrow> None)"

definition b64_digit :: "nat \<Rightarrow> char" where
  "b64_digit n =
     char_of (if n < 26 then 65 + n else if n < 52 then 71 + n else if n < 62 then n - 4
              else if n = 62 then 43 else 47)"

fun base64 :: "nat list \<Rightarrow> bytes" where
  "base64 (a # b # c # r) =
     [b64_digit (a div 4), b64_digit (a mod 4 * 16 + b div 16),
      b64_digit (b mod 16 * 4 + c div 64), b64_digit (c mod 64)] @ base64 r"
| "base64 [a, b] =
     [b64_digit (a div 4), b64_digit (a mod 4 * 16 + b div 16), b64_digit (b mod 16 * 4), CHR ''='']"
| "base64 [a] = [b64_digit (a div 4), b64_digit (a mod 4 * 16), CHR ''='', CHR ''='']"
| "base64 [] = []"

section \<open>Timestamps\<close>

text \<open>\<open>strings.Cut(s, sep)\<close> for a one-byte separator.\<close>

definition cut :: "char \<Rightarrow> bytes \<Rightarrow> (bytes \<times> bytes) option" where
  "cut c s =
     (if c \<in> set s then Some (takeWhile (\<lambda>x. x \<noteq> c) s, tl (dropWhile (\<lambda>x. x \<noteq> c) s)) else None)"

definition decode_timestamp :: "bool \<Rightarrow> bytes \<Rightarrow> cell res" where
  "decode_timestamp zoned s =
     (if s = ''infinity'' \<or> s = ''-infinity'' then Inr (CStr s)
      else
        (case cut (CHR '' '') s of
           None \<Rightarrow> Inl codecError
         | Some (date, clock0) \<Rightarrow>
             let bc = has_suffix clock0 '' BC'';
                 clock = (if bc then trim_suffix clock0 '' BC'' else clock0);
                 era = (if bc then '' BC'' else [])
             in
               if zoned then
                 (if \<not> has_suffix clock ''+00'' then Inl codecError
                  else Inr (CStr (date @ ''T'' @ (trim_suffix clock ''+00'' @ ''Z'') @ era)))
               else Inr (CStr (date @ ''T'' @ clock @ era))))"

section \<open>decodeValue\<close>

definition decode_float :: "(nat \<Rightarrow> bytes \<Rightarrow> bytes option) \<Rightarrow> nat \<Rightarrow> bytes \<Rightarrow> cell res" where
  "decode_float pf bits s =
     (if specialNumber s then Inr (CStr s)
      else case pf bits s of Some t \<Rightarrow> Inr (CFloat t) | None \<Rightarrow> Inl codecError)"

definition decode_int :: "nat \<Rightarrow> bytes \<Rightarrow> cell res" where
  "decode_int typ s =
     (let bits = (if typ = 21 then 16 else if typ = 23 then 32 else 64) in
      case ParseInt s bits of
        None \<Rightarrow> Inl codecError
      | Some n \<Rightarrow> Inr (if typ = 20 then CStr s else CInt n))"

definition decode_bytea :: "bytes \<Rightarrow> cell res" where
  "decode_bytea s =
     (if has_prefix s [backslash, CHR ''x''] then
        (case hex_decode (drop 2 s) of
           Some bs \<Rightarrow> Inr (CStr (base64 bs))
         | None \<Rightarrow> Inl codecError)
      else Inl codecError)"

definition decodeValue :: "(nat \<Rightarrow> bytes \<Rightarrow> bytes option) \<Rightarrow> nat \<Rightarrow> bytes option \<Rightarrow> cell res" where
  "decodeValue pf typ b =
     (case b of
        None \<Rightarrow> Inr CNil
      | Some s \<Rightarrow>
          if \<not> utf8_valid s then Inl codecError
          else if typ = 16 then
            (if s = ''t'' then Inr (CBool True)
             else if s = ''f'' then Inr (CBool False) else Inl codecError)
          else if typ \<in> {21, 23, 20} then decode_int typ s
          else if typ = 1700 then
            (if specialNumber s \<or> decimalText s then Inr (CStr s) else Inl codecError)
          else if typ \<in> {700, 701} then decode_float pf (if typ = 700 then 32 else 64) s
          else if typ = 17 then decode_bytea s
          else if typ \<in> {114, 3802} then
            (case jsonValue s of Inl e \<Rightarrow> Inl e | Inr r \<Rightarrow> Inr (CRaw r))
          else if typ \<in> {1114, 1184} then decode_timestamp (typ = 1184) s
          else if typ \<in> {25, 1042, 1043, 2950, 1082, 1083} then Inr (CStr s)
          else Inl codecError)"

section \<open>Compaction\<close>

text \<open>
  \<open>json.Compact\<close>, and the compaction with HTML escaping \<open>json.Marshal\<close> applies to a
  \<open>json.RawMessage\<close>: blanks outside strings are dropped.  The first flag is HTML
  escaping, the second says whether the position is inside a string.
\<close>

fun compact :: "bool \<Rightarrow> bool \<Rightarrow> bytes \<Rightarrow> bytes" where
  "compact h q [] = []"
| "compact h q (c # cs) =
     (if h \<and> (c = CHR ''<'' \<or> c = CHR ''>'' \<or> c = CHR ''&'')
      then u_escape (byte_of c) @ compact h q cs
      else if h \<and> c = CHR 0xE2 \<and> (2 \<le> length cs \<and> cs ! 0 = CHR 0x80 \<and> (cs ! 1 = CHR 0xA8 \<or> cs ! 1 = CHR 0xA9))
      then u_escape (8192 + byte_of (cs ! 1) - 128) @ compact h q (drop 2 cs)
      else if q then
        (if c = backslash then
           (case cs of [] \<Rightarrow> [c] | d # r \<Rightarrow> c # d # compact h True r)
         else if c = quote then c # compact h False cs
         else c # compact h True cs)
      else if is_ws c then compact h False cs
      else if c = quote then c # compact h True cs
      else c # compact h False cs)"

section \<open>Parameters\<close>

text \<open>
  \<open>bytes.TrimSpace\<close> on the bytes JSON allows around a value (the other blanks it trims
  cannot begin or end a valid document).
\<close>

definition trim_space :: "bytes \<Rightarrow> bytes" where
  "trim_space s = rev (dropWhile is_ws (rev (dropWhile is_ws s)))"

definition query_parameter :: "bytes \<Rightarrow> bytes option res" where
  "query_parameter p =
     (case jsonValue p of
        Inl _ \<Rightarrow> Inl invalidParameters
      | Inr raw0 \<Rightarrow>
          let raw = trim_space raw0 in
          if raw = ''null'' then Inr None
          else if hd raw = quote then
            (case json_parse raw of
               Some (JStr value) \<Rightarrow>
                 if CHR 0x00 \<in> set value then Inl invalidParameters else Inr (Some value)
             | _ \<Rightarrow> Inl invalidParameters)
          else
            if \<not> json_valid raw then Inl invalidParameters
            else Inr (Some (compact False False raw)))"

definition max_parameters :: nat where
  "max_parameters = 65535"

definition queryParameters :: "bytes list \<Rightarrow> bytes option list res" where
  "queryParameters input =
     (if length input > max_parameters then Inl invalidParameters
      else map_res query_parameter input)"

section \<open>Compaction keeps the document\<close>

text \<open>The lexer depends on nothing beyond the lexeme it reads.\<close>

lemma byte_quote: "byte_of c = 34 \<Longrightarrow> c = quote"
  by (rule iffD1 [OF of_char_eq_iff [where 'a = nat]]) simp

lemma byte_backslash: "byte_of c = 92 \<Longrightarrow> c = backslash"
  by (rule iffD1 [OF of_char_eq_iff [where 'a = nat]]) simp

lemma compact_plain: "c \<noteq> quote \<Longrightarrow> c \<noteq> backslash \<Longrightarrow> compact False True (c # cs) = c # compact False True cs"
  by simp

lemma compact_escape: "compact False True (backslash # d # r) = backslash # d # compact False True r"
  by simp

lemma hex4_plain:
  assumes "hex4 a b c d = Some n"
  shows "compact False True (a # b # c # d # r) = a # b # c # d # compact False True r"
proof -
  have "x \<noteq> quote \<and> x \<noteq> backslash" if "hex_val x \<noteq> None" for x
    using that by (auto simp: hex_val_def in_range_def)
  moreover from assms have "hex_val a \<noteq> None" "hex_val b \<noteq> None" "hex_val c \<noteq> None" "hex_val d \<noteq> None"
    by (auto simp: hex4_def split: option.splits)
  ultimately show ?thesis by (metis compact_plain)
qed

lemma lex_string_local:
  "lex_string s = Some (us, t) \<Longrightarrow>
     \<exists>w. s = w @ t \<and> compact False True s = w @ compact False False t
       \<and> w \<noteq> [] \<and> last w = quote \<and> (\<forall>t'. lex_string (w @ t') = Some (us, t'))"
proof (induction s arbitrary: us rule: lex_string.induct)
  case (2 c cs)
  consider (close) "byte_of c = 34" | (u) "byte_of c = 92" "hd cs = CHR ''u''"
    | (esc) "byte_of c = 92" "hd cs \<noteq> CHR ''u''" | (raw) "32 \<le> byte_of c" "byte_of c \<noteq> 34" "byte_of c \<noteq> 92"
    using "2.prems" by (auto split: if_splits)
  then show ?case
  proof cases
    case close
    then have "c = quote" by (simp add: byte_quote)
    with "2.prems" close show ?thesis by (intro exI [of _ "[c]"]) simp
  next
    case u
    then have c: "c = backslash" by (simp add: byte_backslash)
    from u "2.prems" obtain a b d e r n us' where r: "cs = CHR ''u'' # a # b # d # e # r" "hex4 a b d e = Some n"
      "lex_string r = Some (us', t)" "us = Esc n # us'"
      by (auto split: list.splits option.splits)
    with "2.IH" u obtain w where w: "r = w @ t" "compact False True r = w @ compact False False t"
      "\<forall>t'. lex_string (w @ t') = Some (us', t')" "w \<noteq> []" "last w = quote" by force
    with r c show ?thesis
      by (intro exI [of _ "c # CHR ''u'' # a # b # d # e # w"]) (simp add: compact_escape hex4_plain del: compact.simps(2))
  next
    case esc
    then have c: "c = backslash" by (simp add: byte_backslash)
    from esc "2.prems" obtain e r x us' where r: "cs = e # r" "e \<noteq> CHR ''u''" "simple_escape e = Some x"
      "lex_string r = Some (us', t)" "us = Raw x # us'"
      by (auto split: list.splits option.splits)
    with "2.IH" esc obtain w where w: "r = w @ t" "compact False True r = w @ compact False False t"
      "\<forall>t'. lex_string (w @ t') = Some (us', t')" "w \<noteq> []" "last w = quote" by force
    with r c show ?thesis by (intro exI [of _ "c # e # w"]) simp
  next
    case raw
    then have c: "c \<noteq> quote" "c \<noteq> backslash" by auto
    from raw "2.prems" obtain us' where r: "lex_string cs = Some (us', t)" "us = Raw c # us'"
      by (auto split: if_splits)
    with "2.IH" raw obtain w where w: "cs = w @ t" "compact False True cs = w @ compact False False t"
      "\<forall>t'. lex_string (w @ t') = Some (us', t')" "w \<noteq> []" "last w = quote" by force
    with r c raw show ?thesis by (intro exI [of _ "c # w"]) simp
  qed
qed simp

lemma compact_outside:
  "\<forall>c \<in> set w. c \<noteq> quote \<and> \<not> is_ws c \<Longrightarrow> compact False False (w @ t) = w @ compact False False t"
  by (induction w) auto

lemma digits1_local:
  "digits1 s = Some t \<Longrightarrow> \<exists>w. s = w @ t \<and> (\<forall>c \<in> set w. is_digit c)"
  using takeWhile_dropWhile_id [of is_digit s]
  by (auto simp: digits1_def split: if_splits dest: set_takeWhileD intro!: exI [of _ "takeWhile is_digit s"])

definition number_char :: "char \<Rightarrow> bool" where
  "number_char c \<longleftrightarrow> is_digit c \<or> c \<in> {CHR ''-'', CHR ''+'', CHR ''.'', CHR ''e'', CHR ''E''}"

lemma number_char_plain: "number_char c \<Longrightarrow> c \<noteq> quote \<and> \<not> is_ws c"
  by (auto simp: number_char_def is_ws_def is_digit_def in_range_def)

definition part :: "bytes \<Rightarrow> bytes \<Rightarrow> bool" where
  "part s t \<longleftrightarrow> (\<exists>w. s = w @ t \<and> (\<forall>c \<in> set w. number_char c))"

lemma part_trans: "part s t \<Longrightarrow> part t u \<Longrightarrow> part s u"
  unfolding part_def by (metis Un_iff append.assoc set_append)

lemma part_refl [simp]: "part s s" by (simp add: part_def)

lemma part_Cons: "number_char c \<Longrightarrow> part cs t \<Longrightarrow> part (c # cs) t"
  unfolding part_def by (metis append_Cons set_ConsD)

lemma digits1_part: "digits1 s = Some t \<Longrightarrow> part s t"
  using digits1_local [of s t] by (auto simp: part_def number_char_def)

lemma lex_number_part: "lex_number s = Some (n, t) \<Longrightarrow> part s t"
proof -
  let ?u = "case s of c # cs \<Rightarrow> if c = CHR ''-'' then cs else s | [] \<Rightarrow> s"
  assume "lex_number s = Some (n, t)"
  then obtain a b where ab: "lex_int ?u = Some a" "lex_frac a = Some b" "lex_exp b = Some t"
    by (auto simp: lex_number_def Let_def bind_eq_Some_conv split: option.splits)
  have "part s ?u" by (auto intro!: part_Cons simp: number_char_def split: list.splits)
  moreover have "part v a" if "lex_int v = Some a" for v
    using that digits1_part [of v a]
    by (auto simp: lex_int_def number_char_def is_digit_def in_range_def intro!: part_Cons split: list.splits if_splits)
  moreover have "part a b"
    using ab(2) digits1_part [of "tl a" b]
    by (auto simp: lex_frac_def number_char_def intro!: part_Cons split: list.splits if_splits)
  moreover have "part b t"
    using ab(3) digits1_part [of "tl b" t] digits1_part [of "tl (tl b)" t]
    by (auto simp: lex_exp_def number_char_def intro!: part_Cons split: list.splits if_splits)
  ultimately show ?thesis using ab(1) by (meson part_trans)
qed

text \<open>Reading a number from a prefix of the input, and without the rest of the input.\<close>

lemma digits1_trunc:
  assumes "digits1 (s @ t) = Some (r @ t)"
  shows "digits1 s = Some r"
proof -
  have s: "s \<noteq> []" using digits1_length [OF assms] by auto
  with assms have d: "is_digit (hd s)" "dropWhile is_digit (s @ t) = r @ t"
    by (auto simp: digits1_def split: if_splits)
  have "dropWhile is_digit s = r"
  proof (cases "\<forall>x \<in> set s. is_digit x")
    case True
    then have "dropWhile is_digit t = r @ t" using d by (simp add: dropWhile_append2)
    then have "r = []" using length_dropWhile_le [of is_digit t] by simp
    with True show ?thesis by simp
  next
    case False
    with d(2) show ?thesis by (auto simp: dropWhile_append1)
  qed
  with s d show ?thesis by (simp add: digits1_def)
qed

lemma lex_int_trunc: "lex_int (s @ t) = Some (r @ t) \<Longrightarrow> lex_int s = Some r"
  using digits1_trunc [of s t r] lex_int_length [of "s @ t" "r @ t"]
  by (auto simp: lex_int_def split: list.splits if_splits)

lemma lex_frac_trunc: "lex_frac (s @ t) = Some (r @ t) \<Longrightarrow> lex_frac s = Some r"
  using digits1_trunc [of "tl s" t r] lex_frac_length [of "s @ t" "r @ t"]
  by (cases s) (auto simp: lex_frac_def split: if_splits)

lemma lex_exp_trunc: "lex_exp (s @ t) = Some (r @ t) \<Longrightarrow> lex_exp s = Some r"
proof (induction s)
  case Nil
  then have "r = []" using lex_exp_length by fastforce
  then show ?case by (simp add: lex_exp_def)
next
  case (Cons c cs)
  show ?case
  proof (cases cs)
    case Nil
    with Cons.prems show ?thesis
      by (auto simp: lex_exp_def split: list.splits if_splits dest!: digits1_length)
  next
    case (Cons x xs)
    with Cons.prems digits1_trunc [of xs t r] digits1_trunc [of cs t r] show ?thesis
      by (auto simp: lex_exp_def split: if_splits)
  qed
qed

lemma lex_number_local:
  assumes "lex_number s = Some (n, t)"
  shows "s = n @ t" and "lex_number n = Some (n, [])" and "\<forall>c \<in> set n. number_char c"
proof -
  let ?u = "\<lambda>s. case s of c # cs \<Rightarrow> if c = CHR ''-'' then cs else s | [] \<Rightarrow> s"
  from lex_number_part [OF assms] obtain w where w: "s = w @ t" "\<forall>c \<in> set w. number_char c"
    by (auto simp: part_def)
  from assms obtain a b where ab: "lex_int (?u s) = Some a" "lex_frac a = Some b" "lex_exp b = Some t"
    and n: "n = take (length s - length t) s"
    by (auto simp: lex_number_def Let_def bind_eq_Some_conv split: option.splits)
  have n: "n = w" using n w(1) by simp
  have "w \<noteq> []" using lex_number_length [OF assms] w by auto
  then have u: "?u s = ?u w @ t" using w by (auto split: list.splits)
  have "part b t"
    using ab(3) digits1_part [of "tl b" t] digits1_part [of "tl (tl b)" t]
    by (auto simp: lex_exp_def number_char_def intro!: part_Cons split: list.splits if_splits)
  moreover have "part a b"
    using ab(2) digits1_part [of "tl a" b]
    by (auto simp: lex_frac_def number_char_def intro!: part_Cons split: list.splits if_splits)
  ultimately obtain a1 b1 where r: "a = a1 @ t" "b = b1 @ t"
    by (meson part_def part_trans)
  have "lex_int (?u w) = Some a1" "lex_frac a1 = Some b1" "lex_exp b1 = Some []"
    using ab r u by (auto intro: lex_int_trunc [of _ t] lex_frac_trunc [of _ t] lex_exp_trunc [of _ t "[]"])
  then have "lex_number w = Some (w, [])" by (simp add: lex_number_def Let_def)
  with w n show "s = n @ t" "lex_number n = Some (n, [])" "\<forall>c \<in> set n. number_char c" by auto
qed

definition is_num :: "lexeme \<Rightarrow> bool" where
  "is_num l \<longleftrightarrow> (\<exists>n. l = LNum n)"

lemma lex_word_local:
  "lex_word w l s = Some (k, t) \<Longrightarrow> s = w @ t \<and> k = l"
  by (auto simp: lex_word_def split: if_splits elim!: has_prefixE)

lemma lex_word_append [simp]: "lex_word w l (w @ t) = Some (l, t)"
  by (simp add: lex_word_def)

definition reads :: "bytes \<Rightarrow> lexeme \<Rightarrow> bool" where
  "reads w l \<longleftrightarrow> w \<noteq> [] \<and> \<not> is_ws (hd w) \<and> \<not> is_ws (last w) \<and> (punct l \<longrightarrow> stops w) \<and>
     (\<forall>t. (is_num l \<longrightarrow> stops t) \<longrightarrow> lex_one (w @ t) = Some (l, t))"

lemma reads_fixed:
  "reads ''{'' LBrace" "reads ''}'' RBrace" "reads ''['' LBrack" "reads '']'' RBrack"
  "reads '':'' Colon" "reads '','' Comma"
  "reads ''true'' (LBool True)" "reads ''false'' (LBool False)" "reads ''null'' LNull"
  by (simp_all add: reads_def lex_one_def lex_word_def has_prefix_def stops_def is_ws_def is_digit_def in_range_def)

definition fixed_words :: "(bytes \<times> lexeme) list" where
  "fixed_words =
     [(''{'', LBrace), (''}'', RBrace), (''['', LBrack), ('']'', RBrack), ('':'', Colon), ('','', Comma),
      (''true'', LBool True), (''false'', LBool False), (''null'', LNull)]"

lemma fixed_plain: "(w, l) \<in> set fixed_words \<Longrightarrow> reads w l \<and> (\<forall>c \<in> set w. c \<noteq> quote \<and> \<not> is_ws c)"
  by (auto simp: fixed_words_def reads_fixed is_ws_def)

lemma lex_one_cases:
  assumes "lex_one s = Some (l, t)"
  obtains (fixed) w where "(w, l) \<in> set fixed_words" "s = w @ t"
    | (str) cs us where "s = quote # cs" "lex_string cs = Some (us, t)" "l = LStr (unquote us)"
    | (num) n where "lex_number s = Some (n, t)" "l = LNum n"
proof -
  from assms obtain c cs where s: "s = c # cs" by (cases s) (auto simp: lex_one_def)
  let ?P = "{CHR ''{'', CHR ''}'', CHR ''['', CHR '']'', CHR '':'', CHR '',''}"
  show thesis
  proof (cases "c \<in> ?P")
    case True
    then have "([c], l) \<in> set fixed_words \<and> cs = t"
      using assms unfolding s
      by (elim insertE emptyE) (simp_all add: lex_one_def fixed_words_def)
    with s fixed [of "[c]"] show thesis by simp
  next
    case False
    show thesis
    proof (cases "c = quote")
      case True
      with assms s str [of cs] show thesis by (auto simp: lex_one_def)
    next
      case q: False
      then have "byte_of c \<noteq> 34" using byte_quote by blast
      with False s have "lex_one s =
          (if c = CHR ''t'' then lex_word ''true'' (LBool True) s
           else if c = CHR ''f'' then lex_word ''false'' (LBool False) s
           else if c = CHR ''n'' then lex_word ''null'' LNull s
           else map_option (\<lambda>(n, t). (LNum n, t)) (lex_number s))"
        by (simp add: lex_one_def)
      with assms consider "lex_word ''true'' (LBool True) s = Some (l, t)"
        | "lex_word ''false'' (LBool False) s = Some (l, t)" | "lex_word ''null'' LNull s = Some (l, t)"
        | "map_option (\<lambda>(n, t). (LNum n, t)) (lex_number s) = Some (l, t)"
        by presburger
      then show thesis
        by cases (use num in \<open>auto dest!: lex_word_local intro: fixed simp: fixed_words_def\<close>)
    qed
  qed
qed

lemma lex_one_local:
  assumes "lex_one s = Some (l, t)"
  obtains w where "s = w @ t" and "reads w l" and "compact False False s = w @ compact False False t"
  using assms
proof (cases rule: lex_one_cases)
  case (fixed w)
  with fixed_plain that [of w] compact_outside [of w t] show thesis by blast
next
  case (str cs us)
  then obtain w where w: "cs = w @ t" "compact False True cs = w @ compact False False t"
    "\<forall>t'. lex_string (w @ t') = Some (us, t')" "w \<noteq> []" "last w = quote"
    using lex_string_local by blast
  with str have "reads (quote # w) l"
    by (simp add: reads_def lex_one_def is_num_def is_ws_def)
  with w str that [of "quote # w"] show thesis by (simp add: is_ws_def)
next
  case (num n)
  from lex_number_local [OF num(1)]
  have n: "s = n @ t" "lex_number n = Some (n, [])" "\<forall>c \<in> set n. number_char c" by auto
  have "n \<noteq> []" "hd n = CHR ''-'' \<or> is_digit (hd n)" using lex_number_hd [OF n(2)] by auto
  moreover have "lex_one (n @ t') = Some (l, t')" if "stops t'" for t'
    using lex_number_append [OF n(2) that] calculation num(2)
    by (cases n) (simp_all add: lex_one_number)
  ultimately have "reads n l"
    using n(3) number_char_plain num(2) by (auto simp: reads_def is_num_def)
  moreover have "compact False False s = n @ compact False False t"
    using n number_char_plain compact_outside [of n t] by blast
  ultimately show thesis using n(1) that by blast
qed

lemma compact_skip: "compact False False (dropWhile is_ws s) = compact False False s"
proof (induction s)
  case (Cons c s)
  have "is_ws c \<Longrightarrow> compact False False (c # s) = compact False False s"
    by simp
  with Cons show ?case by simp
qed simp

lemma stops_append: "w \<noteq> [] \<Longrightarrow> stops (w @ t) = stops w"
  by (simp add: stops_def)

lemma lex_json_compact:
  "lex_json s = Some ls \<Longrightarrow> sep ls \<Longrightarrow>
     lex_json (compact False False s) = Some ls \<and>
     (ls = [] \<or> punct (hd ls) \<longrightarrow> stops (compact False False s))"
proof (induction s arbitrary: ls rule: lex_json.induct)
  case (1 s)
  show ?case
  proof (cases "dropWhile is_ws s")
    case Nil
    then have "compact False False s = []" by (metis compact.simps(1) compact_skip)
    with 1 Nil show ?thesis by (simp add: lex_json.simps stops_def)
  next
    case (Cons c cs)
    with "1.prems" obtain l t r where l: "lex_one (c # cs) = Some (l, t)" "lex_json t = Some r" "ls = l # r"
      by (auto simp: lex_json.simps [of s] split: option.splits)
    obtain w where w: "c # cs = w @ t" "reads w l"
      "compact False False (c # cs) = w @ compact False False t"
      using lex_one_local [OF l(1)] by blast
    have "sep r" using "1.prems"(2) l(3) by (cases r) auto
    with "1.IH" [OF Cons l(1) refl l(2)] have
      IH: "lex_json (compact False False t) = Some r" "r = [] \<or> punct (hd r) \<longrightarrow> stops (compact False False t)"
      by auto
    have "is_num l \<longrightarrow> stops (compact False False t)"
      using IH(2) "1.prems"(2) l(3) by (cases r) (auto simp: is_num_def)
    then have one: "lex_one (w @ compact False False t) = Some (l, compact False False t)"
      using w(2) by (auto simp: reads_def)
    have s: "compact False False s = w @ compact False False t"
      using compact_skip [of s] Cons w(3) by simp
    obtain d ds where "w = d # ds" "\<not> is_ws d" using w(2) by (cases w) (auto simp: reads_def)
    with one IH(1) l(3) s have "lex_json (compact False False s) = Some ls"
      by (simp add: lex_json.simps [of "d # ds @ compact False False t"])
    moreover have "punct l \<longrightarrow> stops (compact False False s)"
      using w(2) s by (auto simp: reads_def stops_append)
    ultimately show ?thesis using l(3) by simp
  qed
qed

lemma json_parse_compact:
  assumes "json_parse s = Some v"
  shows "json_parse (compact False False s) = Some v"
proof -
  from assms obtain ls where ls: "lex_json s = Some ls" "json_value ls = Some v"
    by (auto simp: json_parse_def bind_eq_Some_conv)
  moreover have "sep ls"
    using json_value_written [OF ls(2)] sep_written [of "[]" v] by simp
  ultimately show ?thesis using lex_json_compact [of s ls] by (simp add: json_parse_def)
qed

text \<open>Blanks around a document do not matter.\<close>

lemma lex_number_trunc:
  assumes "lex_number (s @ w) = Some (n, t @ w)"
  shows "lex_number s = Some (n, t)"
proof -
  let ?u = "\<lambda>s. case s of c # cs \<Rightarrow> if c = CHR ''-'' then cs else s | [] \<Rightarrow> s"
  from assms obtain a b where ab: "lex_int (?u (s @ w)) = Some a" "lex_frac a = Some b" "lex_exp b = Some (t @ w)"
    and n: "n = take (length (s @ w) - length (t @ w)) (s @ w)"
    by (auto simp: lex_number_def Let_def bind_eq_Some_conv split: option.splits)
  have s: "s = n @ t" using lex_number_local(1) [OF assms] by simp
  have "s \<noteq> []" using lex_number_length [OF assms] by auto
  then have u: "?u (s @ w) = ?u s @ w" by (auto split: list.splits)
  have "part b (t @ w)"
    using ab(3) digits1_part [of "tl b"] digits1_part [of "tl (tl b)"]
    by (auto simp: lex_exp_def number_char_def intro!: part_Cons split: list.splits if_splits)
  moreover have "part a b"
    using ab(2) digits1_part [of "tl a" b]
    by (auto simp: lex_frac_def number_char_def intro!: part_Cons split: list.splits if_splits)
  ultimately obtain a1 b1 where r: "a = a1 @ w" "b = b1 @ w"
    unfolding part_def by (metis append.assoc)
  have "lex_int (?u s) = Some a1" "lex_frac a1 = Some b1" "lex_exp b1 = Some t"
    using ab r u by (auto intro: lex_int_trunc [of _ w] lex_frac_trunc [of _ w] lex_exp_trunc [of _ w])
  moreover have "take (length s - length t) s = n" using s by simp
  ultimately show ?thesis by (simp add: lex_number_def Let_def)
qed

lemma lex_one_trunc:
  assumes "lex_one (s @ w) = Some (l, t @ w)"
  shows "lex_one s = Some (l, t)"
  using assms
proof (cases rule: lex_one_cases)
  case (fixed u)
  then show ?thesis using fixed_plain [of u l] by (auto simp: reads_def is_num_def fixed_words_def)
next
  case (str cs us)
  obtain v where "cs = v @ t @ w" "\<forall>t'. lex_string (v @ t') = Some (us, t')"
    using lex_string_local [OF str(2)] by blast
  with str have "s = quote # v @ t" "lex_string (v @ t) = Some (us, t)" by simp_all
  with str show ?thesis by (simp add: lex_one_def)
next
  case (num n)
  have "lex_number s = Some (n, t)" by (rule lex_number_trunc) (rule num)
  moreover from this have "s = n @ t" "n \<noteq> []" "hd n = CHR ''-'' \<or> is_digit (hd n)"
    using lex_number_local [of s n t] lex_number_hd [of n "(n, [])"] by auto
  ultimately show ?thesis using num(2) by (cases n) (simp_all add: lex_one_number)
qed

lemma lex_json_blank: "dropWhile is_ws s = [] \<Longrightarrow> lex_json s = Some []"
  by (subst lex_json.simps) (simp only: list.case)

lemma lex_json_trailing:
  "lex_json (s @ w) = Some ls \<Longrightarrow> \<forall>c \<in> set w. is_ws c \<Longrightarrow> lex_json s = Some ls"
proof (induction s arbitrary: ls rule: lex_json.induct)
  case (1 s)
  show ?case
  proof (cases "dropWhile is_ws s")
    case Nil
    then have "dropWhile is_ws (s @ w) = []" using "1.prems"(2) by (simp add: dropWhile_append2)
    with "1.prems"(1) Nil show ?thesis by (simp only: lex_json_blank)
  next
    case (Cons c cs)
    then have d: "dropWhile is_ws (s @ w) = (c # cs) @ w"
      by (metis append_Cons dropWhile_append1 dropWhile_eq_Nil_conv list.distinct(1))
    with "1.prems" obtain l t r where l: "lex_one ((c # cs) @ w) = Some (l, t)" "lex_json t = Some r" "ls = l # r"
      by (auto simp: lex_json.simps [of "s @ w"] split: option.splits)
    obtain u where u: "(c # cs) @ w = u @ t" "reads u l"
      using lex_one_local [OF l(1)] by blast
    from u(1) obtain v where "c # cs = u @ v \<and> v @ w = t \<or> (c # cs) @ v = u \<and> w = v @ t"
      unfolding append_eq_append_conv2 by blast
    moreover have "v = []" if v: "(c # cs) @ v = u" "w = v @ t"
    proof (rule ccontr)
      assume "v \<noteq> []"
      then have "last u \<in> set w" using v by (metis UnI1 last_appendR last_in_set set_append)
      with u(2) "1.prems"(2) show False by (auto simp: reads_def)
    qed
    ultimately have "\<exists>t'. t = t' @ w" by force
    then obtain t' where t': "t = t' @ w" by blast
    have one: "lex_one (c # cs) = Some (l, t')" using lex_one_trunc l(1) t' by blast
    have "lex_json t' = Some r" using "1.IH" [OF Cons one refl _ "1.prems"(2)] l(2) t' by simp
    with one Cons l(3) show ?thesis by (simp add: lex_json.simps [of s])
  qed
qed

lemma json_parse_trim: 
  assumes "json_parse s = Some v"
  shows "json_parse (trim_space s) = Some v"
proof -
  let ?d = "dropWhile is_ws s"
  have "takeWhile is_ws (rev ?d) @ dropWhile is_ws (rev ?d) = rev ?d"
    by (rule takeWhile_dropWhile_id)
  then have "?d = trim_space s @ rev (takeWhile is_ws (rev ?d))"
    unfolding trim_space_def by (metis rev_append rev_rev_ident)
  moreover have "lex_json ?d = lex_json s"
    by (simp add: lex_json.simps [of ?d] lex_json.simps [of s] del: dropWhile_eq_Nil_conv)
  moreover have "\<forall>c \<in> set (rev (takeWhile is_ws (rev ?d))). is_ws c"
    by (auto dest: set_takeWhileD)
  ultimately have "lex_json s = Some ls \<Longrightarrow> lex_json (trim_space s) = Some ls" for ls
    by (metis lex_json_trailing)
  with assms show ?thesis by (auto simp: json_parse_def bind_eq_Some_conv)
qed

section \<open>What the decoder returns\<close>

fun show_nat :: "nat \<Rightarrow> bytes" where
  "show_nat n = (if n < 10 then [char_of (48 + n)] else show_nat (n div 10) @ [char_of (48 + n mod 10)])"

declare show_nat.simps [simp del]

definition show_int :: "int \<Rightarrow> bytes" where
  "show_int n = (if n < 0 then CHR ''-'' # show_nat (nat (- n)) else show_nat (nat n))"

lemma show_nat_digits: "show_nat n \<noteq> [] \<and> list_all is_digit (show_nat n)"
proof (induction n rule: show_nat.induct)
  case (1 n)
  have "is_digit (char_of (48 + m))" if "m < 10" for m :: nat
    using that by (simp add: is_digit_def in_range_def of_char_of)
  with 1 show ?case by (auto simp: show_nat.simps [of n])
qed

lemma show_int_ascii: "\<forall>c \<in> set (show_int n). byte_of c < 128"
proof -
  have "is_digit c \<Longrightarrow> byte_of c < 128" for c by (simp add: is_digit_def in_range_def)
  then have "\<forall>c \<in> set (show_nat m). byte_of c < 128" for m
    using show_nat_digits [of m] unfolding list_all_iff by blast
  then show ?thesis by (simp add: show_int_def)
qed

lemma digits_value_append: "digits_value a (s @ t) = digits_value (digits_value a s) t"
  by (induction s arbitrary: a) auto

lemma digits_value_show: "digits_value 0 (show_nat n) = n"
proof (induction n rule: show_nat.induct)
  case (1 n)
  then show ?case by (auto simp: show_nat.simps [of n] digits_value_append of_char_of)
qed

lemma strip_sign_show: "strip_sign (show_int n) = show_nat (nat \<bar>n\<bar>)"
  and hd_show_int: "hd (show_int n) = CHR ''-'' \<longleftrightarrow> n < 0"
proof -
  obtain c cs where c: "show_nat (nat n) = c # cs" "is_digit c"
    using show_nat_digits [of "nat n"] by (cases "show_nat (nat n)") auto
  then have "c \<noteq> CHR ''-''" "c \<noteq> CHR ''+''" by (auto simp: is_digit_def in_range_def)
  with c show "strip_sign (show_int n) = show_nat (nat \<bar>n\<bar>)" "hd (show_int n) = CHR ''-'' \<longleftrightarrow> n < 0"
    by (auto simp: show_int_def)
qed

lemma ParseInt_show:
  "ParseInt (show_int n) bits = (if - (2 ^ (bits - 1)) \<le> n \<and> n < 2 ^ (bits - 1) then Some n else None)"
  using show_nat_digits [of "nat \<bar>n\<bar>"]
  by (simp add: ParseInt_def strip_sign_show hd_show_int all_digits1_def digits_value_show Let_def)

text \<open>The text PostgreSQL sends for binary data, and the decoding of standard base64.\<close>

definition hex_text :: "bytes \<Rightarrow> bytes" where
  "hex_text bs = concat (map (\<lambda>c. [hex_digit (byte_of c div 16), hex_digit (byte_of c mod 16)]) bs)"

definition b64_val :: "char \<Rightarrow> nat option" where
  "b64_val c =
     (if in_range 65 90 c then Some (byte_of c - 65)
      else if in_range 97 122 c then Some (byte_of c - 71)
      else if in_range 48 57 c then Some (byte_of c + 4)
      else if byte_of c = 43 then Some 62
      else if byte_of c = 47 then Some 63
      else None)"

fun unbase64 :: "bytes \<Rightarrow> nat list option" where
  "unbase64 (a # b # c # d # r) =
     (case (b64_val a, b64_val b) of
        (Some w, Some x) \<Rightarrow>
          if c = CHR ''='' then
            (if d = CHR ''='' \<and> r = [] then Some [w * 4 + x div 16] else None)
          else
            (case b64_val c of
               None \<Rightarrow> None
             | Some y \<Rightarrow>
                 if d = CHR ''='' then
                   (if r = [] then Some [w * 4 + x div 16, x mod 16 * 16 + y div 4] else None)
                 else
                   (case b64_val d of
                      None \<Rightarrow> None
                    | Some z \<Rightarrow>
                        map_option (\<lambda>t. [w * 4 + x div 16, x mod 16 * 16 + y div 4, y mod 4 * 64 + z] @ t)
                          (unbase64 r)))
      | _ \<Rightarrow> None)"
| "unbase64 s = (if s = [] then Some [] else None)"

lemma b64_digit_val:
  assumes "n < 64"
  shows "b64_val (b64_digit n) = Some n" and "b64_digit n \<noteq> CHR ''=''"
proof -
  have "byte_of (b64_digit n) = (if n < 26 then 65 + n else if n < 52 then 71 + n else if n < 62 then n - 4
              else if n = 62 then 43 else 47)"
    using assms by (simp add: b64_digit_def of_char_of)
  with assms show "b64_val (b64_digit n) = Some n" "b64_digit n \<noteq> CHR ''=''"
    by (auto simp: b64_val_def in_range_def split: if_splits)
qed

lemma base64_roundtrip: "\<forall>b \<in> set bs. b < 256 \<Longrightarrow> unbase64 (base64 bs) = Some bs"
proof (induction bs rule: base64.induct)
  case (1 a b c r)
  then have "b div 16 < 16" "c div 64 < 4" "a div 4 < 64" by auto
  moreover have "(a mod 4 * 16 + b div 16) div 16 = a mod 4" "(b mod 16 * 4 + c div 64) div 4 = b mod 16"
    "a mod 4 * 16 + b div 16 < 64" "b mod 16 * 4 + c div 64 < 64"
    using calculation by auto
  moreover have "(a mod 4 * 16 + b div 16) mod 16 = b div 16" "(b mod 16 * 4 + c div 64) mod 4 = c div 64"
    using calculation by auto
  ultimately show ?case using 1 by (simp add: b64_digit_val)
next
  case (2 a b)
  then have "b div 16 < 16" "a div 4 < 64" by auto
  moreover have "(a mod 4 * 16 + b div 16) div 16 = a mod 4"
    "a mod 4 * 16 + b div 16 < 64" "(a mod 4 * 16 + b div 16) mod 16 = b div 16" "b mod 16 * 4 < 64"
    using calculation by auto
  ultimately show ?case by (simp add: b64_digit_val)
next
  case (3 a)
  then have "a div 4 < 64" "a mod 4 * 16 < 64" by auto
  then show ?case by (simp add: b64_digit_val)
qed simp

lemma hex_text_decode: "hex_decode (hex_text bs) = Some (map byte_of bs)"
proof (induction bs)
  case (Cons b bs)
  have "byte_of b div 16 < 16" using byte_of_less_256 [of b] by (simp add: less_mult_imp_div_less)
  with Cons show ?case by (simp add: hex_text_def hex_val_digit)
qed (simp add: hex_text_def)

lemma utf8_valid_show_int: "utf8_valid (show_int n)"
  by (rule utf8_valid_ascii) (rule show_int_ascii)

lemma utf8_valid_hex_text: "utf8_valid ([backslash, CHR ''x''] @ hex_text bs)"
proof (rule utf8_valid_ascii)
  have "byte_of (hex_digit n) < 128" if "n < 16" for n
    using that by (simp add: hex_digit_def of_char_of)
  moreover have "byte_of b div 16 < 16" for b
    using byte_of_less_256 [of b] by (simp add: less_mult_imp_div_less)
  ultimately show "\<forall>c \<in> set ([backslash, CHR ''x''] @ hex_text bs). byte_of c < 128"
    by (auto simp: hex_text_def)
qed

lemma decodeValue_bytea:
  "decodeValue pf 17 (Some ([backslash, CHR ''x''] @ hex_text bs)) = Inr (CStr (base64 (map byte_of bs)))"
  using utf8_valid_hex_text [of bs]
  by (simp add: decodeValue_def decode_bytea_def has_prefix_def hex_text_decode)

text \<open>What a parameter stands for.\<close>

lemma trim_space_ends:
  assumes "trim_space s \<noteq> []"
  shows "\<not> is_ws (hd (trim_space s))" and "\<not> is_ws (last (trim_space s))"
proof -
  let ?d = "dropWhile is_ws s"
  have l: "dropWhile is_ws (rev ?d) \<noteq> []" using assms by (simp only: trim_space_def rev_is_Nil_conv not_False_eq_True)
  then have "\<not> is_ws (hd (dropWhile is_ws (rev ?d)))" by (rule hd_dropWhile)
  then show "\<not> is_ws (last (trim_space s))" by (simp add: trim_space_def last_rev)
  have "?d = trim_space s @ rev (takeWhile is_ws (rev ?d))"
    unfolding trim_space_def by (metis rev_append rev_rev_ident takeWhile_dropWhile_id)
  then have "hd (trim_space s) = hd ?d" "?d \<noteq> []" using assms by (metis hd_append2, metis append_is_Nil_conv)
  then show "\<not> is_ws (hd (trim_space s))" using hd_dropWhile [of is_ws s] by simp
qed

lemma json_parse_first:
  assumes "json_parse s = Some v" and "\<not> is_ws (hd s)" and "s \<noteq> []"
  obtains l t where "lex_one s = Some (l, t)" and "hd (written v) = l" and "lex_json t = Some (tl (written v))"
proof -
  from assms(1) obtain ls where ls: "lex_json s = Some ls" "ls = written v"
    using json_value_written by (auto simp: json_parse_def bind_eq_Some_conv)
  obtain c cs where "s = c # cs" using assms(3) by (cases s) auto
  moreover from this ls assms(2) obtain l t r where "lex_one s = Some (l, t)" "lex_json t = Some r" "l # r = written v"
    by (auto simp: lex_json.simps [of "c # cs"] split: option.splits)
  ultimately show thesis using that [of l t] by (metis list.sel)
qed

lemma lex_json_Nil: "lex_json t = Some [] \<Longrightarrow> \<forall>c \<in> set t. is_ws c"
  by (auto simp: lex_json.simps [of t] split: list.splits option.splits)

lemma query_parameter_value:
  assumes "query_parameter p = Inr r"
  shows "\<exists>v. json_parse p = Some v \<and>
     (case r of
        None \<Rightarrow> v = JNull
      | Some t \<Rightarrow> v = JStr t \<and> CHR 0x00 \<notin> set t \<or>
          v \<noteq> JNull \<and> (\<forall>s. v \<noteq> JStr s) \<and> json_parse t = Some v)"
proof -
  let ?r = "trim_space p"
  from assms obtain v where v: "json_parse p = Some v"
    by (auto simp: query_parameter_def jsonValue_def json_valid_def split: if_splits sum.splits)
  then have raw: "json_parse ?r = Some v" by (rule json_parse_trim)
  then have ne: "?r \<noteq> []" by (auto simp: json_parse_def lex_json.simps json_value_def)
  obtain l t where l: "lex_one ?r = Some (l, t)" "hd (written v) = l" "lex_json t = Some (tl (written v))"
    using json_parse_first [OF raw trim_space_ends(1) [OF ne] ne] by blast
  have null: "?r = ''null'' \<longleftrightarrow> v = JNull"
  proof
    assume "?r = ''null''"
    moreover have "json_parse ''null'' = Some JNull" by code_simp
    ultimately show "v = JNull" using raw by simp
  next
    assume "v = JNull"
    with l have "lex_one ?r = Some (LNull, t)" "lex_json t = Some []" by simp_all
    then have "?r = ''null'' @ t" "\<forall>c \<in> set t. is_ws c"
      using lex_json_Nil by (auto elim!: lex_one_cases simp: fixed_words_def)
    moreover from this have "t = []"
      using trim_space_ends(2) [OF ne] by (metis last_appendR last_in_set)
    ultimately show "?r = ''null''" by simp
  qed
  have str: "hd ?r = quote \<longleftrightarrow> (\<exists>s. v = JStr s)"
  proof
    assume "hd ?r = quote"
    with ne l(1) have "\<exists>s. l = LStr s" by (cases ?r) (auto simp: lex_one_def)
    with l(2) show "\<exists>s. v = JStr s" by (cases v) auto
  next
    assume "\<exists>s. v = JStr s"
    with l(1,2) show "hd ?r = quote" by (auto elim!: lex_one_cases simp: fixed_words_def)
  qed
  have "jsonValue p = Inr p"
    using assms by (auto simp: query_parameter_def jsonValue_def split: if_splits)
  then have qp: "query_parameter p =
      (if v = JNull then Inr None
       else if \<exists>s. v = JStr s then
         (case v of JStr s \<Rightarrow> if CHR 0x00 \<in> set s then Inl invalidParameters else Inr (Some s)
          | _ \<Rightarrow> Inl invalidParameters)
       else Inr (Some (compact False False ?r)))"
    using raw null str by (simp add: query_parameter_def json_valid_def split: jval.split)
  show ?thesis
    using assms v json_parse_compact [OF raw] unfolding qp
    by (cases v) (auto split: if_splits)
qed

text \<open>
  C37.  Every accepted parameter is a JSON value, and PostgreSQL gets NULL for null, the text
  of a string (never one with a zero byte), and for any other value a text that is the same
  JSON value: neither a number's digits nor a member of an object is changed or dropped.
\<close>

theorem queryParameters_values:
  assumes "queryParameters ps = Inr out"
  shows "length out = length ps \<and> length ps \<le> 65535 \<and>
    (\<forall>i < length ps. \<exists>v. json_parse (ps ! i) = Some v \<and>
       (case out ! i of
          None \<Rightarrow> v = JNull
        | Some t \<Rightarrow> v = JStr t \<and> CHR 0x00 \<notin> set t \<or>
            v \<noteq> JNull \<and> (\<forall>s. v \<noteq> JStr s) \<and> json_parse t = Some v))"
  using assms query_parameter_value map_res_nth [of query_parameter ps out] map_res_length [of query_parameter ps out]
  by (auto simp: queryParameters_def max_parameters_def split: if_splits)

theorem queryParameters_values_witness:
  "(\<exists>v. json_parse '' null'' = Some v \<and> v = JNull) \<and>
   queryParameters ['' null'', ''2.50 '', [quote, CHR ''a'', quote]] =
     Inr [None, Some ''2.50'', Some ''a'']"
proof -
  have "query_parameter '' null'' = Inr None" by code_simp
  moreover have "query_parameter ''2.50 '' = Inr (Some ''2.50'')" by code_simp
  moreover have "query_parameter [quote, CHR ''a'', quote] = Inr (Some ''a'')" by code_simp
  ultimately have q: "queryParameters ['' null'', ''2.50 '', [quote, CHR ''a'', quote]] =
     Inr [None, Some ''2.50'', Some ''a'']"
    by (simp add: queryParameters_def max_parameters_def)
  from queryParameters_values [OF q] have "\<exists>v. json_parse '' null'' = Some v \<and> v = JNull"
    by (auto dest!: spec [of _ "0 :: nat"])
  with q show ?thesis by blast
qed


end
