(* ===== verification/Result_Types.thy ===== *)
theory Result_Types
  imports Codec "HOL-Library.AList"
begin

text \<open>
  The output representation of a result column (postgres/result_types.go): the types the
  query describes with their domain and array dependencies, the walk that finds the base
  representation of a type, and the decoding of a value, arrays included.  The array text
  grammar of pgx is the argument \<open>parse_array\<close>: for a delimiter it gives the dimensions and
  the elements of an array text.
\<close>

section \<open>The described types\<close>

record rtype =
  t_base :: nat
  t_element :: nat
  t_name :: bytes
  t_delimiter :: char
  t_plan :: "char option"

type_synonym rtypes = "(nat \<times> rtype) list"

definition scalarNames :: "(nat \<times> bytes) list" where
  "scalarNames =
     [(16, ''bool''), (17, ''bytea''), (20, ''int8''), (21, ''int2''), (23, ''int4''), (25, ''text''),
      (114, ''json''), (700, ''float4''), (701, ''float8''), (1042, ''bpchar''), (1043, ''varchar''),
      (1082, ''date''), (1083, ''time''), (1114, ''timestamp''), (1184, ''timestamptz''),
      (1700, ''numeric''), (2950, ''uuid''), (3802, ''jsonb'')]"

definition is_scalar :: "nat \<Rightarrow> bool" where
  "is_scalar oid \<longleftrightarrow> map_of scalarNames oid \<noteq> None"

text \<open>
  \<open>describeTypes\<close>: the catalog rows \<open>(oid, base, element, name, delimiter)\<close> of the query
  become the type map; a later row for an oid replaces an earlier one.
\<close>

type_synonym type_row = "nat \<times> nat \<times> nat \<times> bytes \<times> bytes"

fun distinct_ids :: "nat list \<Rightarrow> nat list \<Rightarrow> nat list" where
  "distinct_ids seen [] = []"
| "distinct_ids seen (i # is) =
     (if i \<in> set seen then distinct_ids seen is else i # distinct_ids (i # seen) is)"

fun scan_types :: "rtypes \<Rightarrow> type_row list \<Rightarrow> rtypes res" where
  "scan_types out [] = Inr out"
| "scan_types out ((oid, base, element, name, delim) # rows) =
     (case delim of
        [d] \<Rightarrow> scan_types (AList.update oid \<lparr>t_base = base, t_element = element, t_name = name, t_delimiter = d, t_plan = None\<rparr> out) rows
      | _ \<Rightarrow> Inl codecError)"

text \<open>The array plan of a type is the element's delimiter, with which pgx plans the scan.\<close>

fun plan_arrays :: "rtypes \<Rightarrow> rtypes \<Rightarrow> rtypes res" where
  "plan_arrays out [] = Inr []"
| "plan_arrays out ((oid, t) # ts) =
     (if t_element t = 0 then
        (case plan_arrays out ts of Inl e \<Rightarrow> Inl e | Inr r \<Rightarrow> Inr ((oid, t) # r))
      else
        (case map_of out (t_element t) of
           None \<Rightarrow> Inl codecError
         | Some element \<Rightarrow>
             (case plan_arrays out ts of
                Inl e \<Rightarrow> Inl e
              | Inr r \<Rightarrow> Inr ((oid, t\<lparr>t_plan := Some (t_delimiter element)\<rparr>) # r))))"

definition describeTypes :: "(nat list \<Rightarrow> type_row list res) \<Rightarrow> nat list \<Rightarrow> rtypes res" where
  "describeTypes query oids =
     (let ids = distinct_ids [] oids in
      if ids = [] then Inr []
      else
        (case query ids of
           Inl e \<Rightarrow> Inl e
         | Inr rows \<Rightarrow>
             (case scan_types [] rows of
                Inl e \<Rightarrow> Inl e
              | Inr out \<Rightarrow>
                  if list_ex (\<lambda>i. map_of out i = None) ids then Inl codecError
                  else plan_arrays out out)))"

section \<open>representation\<close>

text \<open>The type a domain or an array stands for.\<close>

definition next_type :: "rtype \<Rightarrow> nat option" where
  "next_type t =
     (if t_base t \<noteq> 0 then Some (t_base t)
      else if t_element t \<noteq> 0 then Some (t_element t) else None)"

definition encoding_of :: "nat \<Rightarrow> bytes" where
  "encoding_of oid =
     (if oid = 17 then ''base64'' else if is_scalar oid then [] else ''postgres_text'')"

function representation :: "rtypes \<Rightarrow> nat list \<Rightarrow> nat \<Rightarrow> bytes res" where
  "representation types seen oid =
     (if oid \<in> set seen then Inl codecError
      else
        (case map_of types oid of
           None \<Rightarrow> Inl codecError
         | Some t \<Rightarrow>
             (case next_type t of
                Some oid' \<Rightarrow> representation types (oid # seen) oid'
              | None \<Rightarrow> Inr (encoding_of oid))))"
  by pat_completeness auto
termination
proof (relation "measure (\<lambda>(types, seen, oid). card (fst ` set types - set seen))")
  fix types :: rtypes and seen oid t oid'
  assume "oid \<notin> set seen" "map_of types oid = Some t"
  then have "oid \<in> fst ` set types - set seen" by (metis DiffI map_of_SomeD fst_conv image_eqI)
  then have "fst ` set types - set (oid # seen) \<subset> fst ` set types - set seen" by auto
  then show "((types, oid # seen, oid'), types, seen, oid) \<in> measure (\<lambda>(types, seen, oid). card (fst ` set types - set seen))"
    by (simp add: psubset_card_mono del: set_simps)
qed simp

declare representation.simps [simp del]

text \<open>The chain from a type to the one its values are represented as.\<close>

inductive chain :: "rtypes \<Rightarrow> nat \<Rightarrow> nat \<Rightarrow> nat \<Rightarrow> bool" for types where
  here: "map_of types oid = Some t \<Longrightarrow> next_type t = None \<Longrightarrow> chain types 0 oid oid"
| step: "map_of types oid = Some t \<Longrightarrow> next_type t = Some oid' \<Longrightarrow> chain types n oid' end
     \<Longrightarrow> chain types (Suc n) oid end"

inductive_cases chainE: "chain types n oid end"

lemma chain_next:
  "chain types n oid e \<Longrightarrow>
     \<exists>t. map_of types oid = Some t \<and>
       (case next_type t of
          None \<Rightarrow> n = 0 \<and> e = oid
        | Some oid' \<Rightarrow> (\<exists>m. n = Suc m \<and> chain types m oid' e))"
  by (erule chainE) auto

lemma chain_unique: "chain types n oid end \<Longrightarrow> chain types m oid end' \<Longrightarrow> n = m \<and> end = end'"
proof (induction arbitrary: m end' rule: chain.induct)
  case (here oid t)
  then show ?case using chain_next [OF here.prems] by simp
next
  case (step oid t oid' n e)
  obtain m' where "m = Suc m'" "chain types m' oid' end'"
    using chain_next [OF step.prems] step.hyps(1,2) by auto
  with step.IH show ?case by simp
qed

lemma representation_cases:
  "representation types seen oid =
     (if oid \<in> set seen then Inl codecError
      else
        (case Option.bind (map_of types oid) (\<lambda>t. Some (next_type t)) of
           None \<Rightarrow> Inl codecError
         | Some None \<Rightarrow> Inr (encoding_of oid)
         | Some (Some oid') \<Rightarrow> representation types (oid # seen) oid'))"
  by (subst representation.simps) (simp split: option.split)

lemma representation_result:
  "(case representation types seen oid of
      Inl e \<Rightarrow> e = codecError
    | Inr enc \<Rightarrow> \<exists>n e. chain types n oid e \<and> enc = encoding_of e)"
proof (induction types seen oid rule: representation.induct)
  case (1 types seen oid)
  show ?case
  proof (cases "oid \<in> set seen \<or> map_of types oid = None")
    case True
    then show ?thesis by (auto simp: representation_cases [of types seen oid])
  next
    case False
    then obtain t where t: "oid \<notin> set seen" "map_of types oid = Some t" by auto
    show ?thesis
    proof (cases "next_type t")
      case None
      with t have "representation types seen oid = Inr (encoding_of oid)" "chain types 0 oid oid"
        by (auto simp: representation_cases [of types seen oid] intro: chain.here)
      then show ?thesis by auto
    next
      case (Some oid')
      with t have "representation types seen oid = representation types (oid # seen) oid'"
        by (simp add: representation_cases [of types seen oid])
      then show ?thesis
        using "1.IH" [OF t Some] chain.step [OF t(2) Some] by (fastforce split: sum.splits)
    qed
  qed
qed

lemma representation_sound:
  "representation types seen oid = Inr enc \<Longrightarrow> \<exists>n e. chain types n oid e \<and> enc = encoding_of e"
  using representation_result [of types oid seen] by simp

lemma representation_complete:
  "chain types n oid e \<Longrightarrow> \<forall>x \<in> set seen. \<exists>m > n. chain types m x e
     \<Longrightarrow> representation types seen oid = Inr (encoding_of e)"
proof (induction arbitrary: seen rule: chain.induct)
  case (here oid t)
  then have "chain types 0 oid oid" by (intro chain.here)
  then have "oid \<notin> set seen" using here.prems chain_unique less_irrefl by metis
  with here.hyps show ?case by (simp add: representation_cases [of types seen oid])
next
  case (step oid t oid' n e)
  then have c: "chain types (Suc n) oid e" by (intro chain.step)
  then have "oid \<notin> set seen" using step.prems chain_unique less_irrefl by metis
  moreover have "representation types (oid # seen) oid' = Inr (encoding_of e)"
  proof (rule step.IH, rule ballI)
    fix x assume "x \<in> set (oid # seen)"
    then show "\<exists>m > n. chain types m x e"
      using c step.prems by (cases "x = oid") (auto intro: Suc_lessD)
  qed
  ultimately show ?case using step.hyps(1,2) by (simp add: representation_cases [of types seen oid])
qed

lemma representation_error: "representation types s oid = Inl e \<Longrightarrow> e = codecError"
  using representation_result [of types oid s] by simp

lemma representation_chain:
  "representation types [] oid = Inr enc \<longleftrightarrow> (\<exists>n e. chain types n oid e \<and> enc = encoding_of e)"
  using representation_sound representation_complete [of types _ oid _ "[]"] by fastforce

section \<open>Arrays\<close>

definition index_panic :: goerr where
  "index_panic = Other ''panic: index out of range''"

text \<open>\<open>boundedTextArray.SetDimensions\<close>: the loop over the lengths with the product so far.\<close>

fun bounded_dims :: "nat \<Rightarrow> nat \<Rightarrow> int list \<Rightarrow> bool" where
  "bounded_dims limit n [] = True"
| "bounded_dims limit n (v # vs) =
     (if v < 0 \<or> v > int limit \<or> (v \<noteq> 0 \<and> n > limit div nat v) then False
      else bounded_dims limit (n * nat v) vs)"

definition SetDimensions :: "nat \<Rightarrow> int list \<Rightarrow> nat list res" where
  "SetDimensions limit ds =
     (if length ds > 6 \<or> \<not> bounded_dims limit 1 ds then Inl codecError else Inr (map nat ds))"

text \<open>
  The scan of pgx: the dimensions are set, which makes the elements, and the parsed
  elements are stored; elements it has no text for stay NULL.
\<close>

type_synonym array_text = "char \<Rightarrow> bytes \<Rightarrow> (int list \<times> bytes option list) option"

definition scan_array :: "array_text \<Rightarrow> char \<Rightarrow> bytes \<Rightarrow> (nat list \<times> bytes option list) res" where
  "scan_array pa d s =
     (case pa d s of
        None \<Rightarrow> Inl codecError
      | Some (ds, els) \<Rightarrow>
          (case SetDimensions (length s + 1) ds of
             Inl e \<Rightarrow> Inl codecError
           | Inr dims \<Rightarrow>
               let n = (if dims = [] then 0 else prod_list dims) in
               if length els > n then Inl index_panic
               else Inr (dims, els @ replicate (n - length els) None)))"

fun read_times :: "('s \<Rightarrow> (cell \<times> 's) res) \<Rightarrow> nat \<Rightarrow> 's \<Rightarrow> (cell list \<times> 's) res" where
  "read_times f 0 s = Inr ([], s)"
| "read_times f (Suc n) s =
     (case f s of
        Inl e \<Rightarrow> Inl e
      | Inr (v, s') \<Rightarrow>
          (case read_times f n s' of Inl e \<Rightarrow> Inl e | Inr (vs, t) \<Rightarrow> Inr (v # vs, t)))"

fun nested :: "(bytes option \<Rightarrow> cell res) \<Rightarrow> nat list \<Rightarrow> bytes option list \<Rightarrow> (cell \<times> bytes option list) res" where
  "nested dec [] els =
     (case els of
        [] \<Rightarrow> Inl index_panic
      | v # r \<Rightarrow>
          (case v of
             None \<Rightarrow> Inr (CNil, r)
           | Some x \<Rightarrow> (case dec (Some x) of Inl e \<Rightarrow> Inl e | Inr c \<Rightarrow> Inr (c, r))))"
| "nested dec (d # ds) els =
     (case read_times (nested dec ds) d els of Inl e \<Rightarrow> Inl e | Inr (vs, r) \<Rightarrow> Inr (CList vs, r))"

section \<open>decode\<close>

definition zero_type :: rtype where
  "zero_type = \<lparr>t_base = 0, t_element = 0, t_name = [], t_delimiter = CHR 0x00, t_plan = None\<rparr>"

text \<open>The loop that unwraps domains; it has no cycle check of its own.\<close>

partial_function (option) unwrap :: "rtypes \<Rightarrow> nat \<Rightarrow> rtype \<Rightarrow> (nat \<times> rtype) option" where
  "unwrap types oid t =
     (if t_base t \<noteq> 0
      then unwrap types (t_base t) (case map_of types (t_base t) of Some u \<Rightarrow> u | None \<Rightarrow> zero_type)
      else Some (oid, t))"

declare unwrap.simps [code]

definition diverges :: goerr where
  "diverges = Other ''the domain loop does not end''"

definition rank :: "rtypes \<Rightarrow> nat \<Rightarrow> nat" where
  "rank types oid = (THE n. \<exists>e. chain types n oid e)"

lemma rank_eq: "chain types n oid e \<Longrightarrow> rank types oid = n"
  unfolding rank_def by (rule the_equality) (auto dest: chain_unique)

lemma unwrap_chain:
  assumes "chain types n oid e" and "map_of types oid = Some t"
  shows "\<exists>oid' u m. unwrap types oid t = Some (oid', u) \<and> map_of types oid' = Some u \<and> t_base u = 0 \<and>
     chain types m oid' e \<and> m \<le> n"
  using assms
proof (induction arbitrary: t rule: chain.induct)
  case (here oid t')
  moreover from here have "chain types 0 oid oid" by (intro chain.here)
  ultimately show ?case
    by (intro exI [of _ oid] exI [of _ t'] exI [of _ 0])
      (auto simp: unwrap.simps next_type_def split: if_splits)
next
  case (step oid t' oid' n e)
  show ?case
  proof (cases "t_base t' = 0")
    case True
    with step show ?thesis
      by (intro exI [of _ oid] exI [of _ t'] exI [of _ "Suc n"]) (auto simp: unwrap.simps intro: chain.step)
  next
    case False
    with step have o: "t_base t' = oid'" by (auto simp: next_type_def)
    obtain u where "map_of types oid' = Some u" using chain_next [OF step.hyps(3)] by auto
    with step.IH [OF this] step.prems step.hyps False o show ?thesis
      by (simp add: unwrap.simps [of types oid]) (meson le_SucI)
  qed
qed

function decode :: "(nat \<Rightarrow> bytes \<Rightarrow> bytes option) \<Rightarrow> array_text \<Rightarrow> rtypes \<Rightarrow> nat \<Rightarrow> bytes option \<Rightarrow> cell res" where
  "decode pf pa types oid raw =
     (case raw of
        None \<Rightarrow> Inr CNil
      | Some s \<Rightarrow>
          if \<not> utf8_valid s then Inl codecError
          else
            (case representation types [] oid of
               Inl e \<Rightarrow> Inl e
             | Inr _ \<Rightarrow>
                 (case unwrap types oid (case map_of types oid of Some t \<Rightarrow> t | None \<Rightarrow> zero_type) of
                    None \<Rightarrow> Inl diverges
                  | Some (base, t) \<Rightarrow>
                      if t_element t = 0 then
                        (if is_scalar base then decodeValue pf base (Some s) else Inr (CStr s))
                      else
                        (case t_plan t of
                           None \<Rightarrow> Inl codecError
                         | Some d \<Rightarrow>
                             (case scan_array pa d s of
                                Inl e \<Rightarrow> Inl e
                              | Inr (dims, els) \<Rightarrow>
                                  if dims = [] then Inr (CList [])
                                  else
                                    (case nested (\<lambda>x. decode pf pa types (t_element t) x) dims els of
                                       Inl e \<Rightarrow> Inl e
                                     | Inr (v, _) \<Rightarrow> Inr v))))))"
  by pat_completeness auto
termination
proof (relation "measure (\<lambda>(pf, pa, types, oid, raw). rank types oid)")
  fix pf pa and types :: rtypes and oid raw s enc p base t d dims x
  assume r: "representation types [] oid = Inr enc"
    and u: "unwrap types oid (case map_of types oid of Some t \<Rightarrow> t | None \<Rightarrow> zero_type) = Some p"
    and p: "(base, t) = p" and e: "t_element t \<noteq> 0"
  from r obtain n e where c: "chain types n oid e" using representation_chain by blast
  from chain_next [OF this] obtain t0 where "map_of types oid = Some t0" by auto
  from unwrap_chain [OF c this] this u p obtain m where m: "chain types m base e" "m \<le> n"
    "map_of types base = Some t" "t_base t = 0" by auto
  then obtain k where "m = Suc k" "chain types k (t_element t) e"
    using e chain_next [OF m(1)] by (auto simp: next_type_def split: if_splits)
  with m c show "((pf, pa, types, t_element t, x), pf, pa, types, oid, raw)
      \<in> measure (\<lambda>(pf, pa, types, oid, raw). rank types oid)"
    by (auto simp: rank_eq)
qed auto

declare decode.simps [simp del]

section \<open>Correctness\<close>

text \<open>
  C34.  The walk over domains and arrays ends on every type map, cyclic ones included: it
  returns an encoding exactly when the chain from the type reaches a base type, the
  encoding of that type, and the codec error otherwise.
\<close>

theorem representation_decides:
  "(representation types [] oid = Inr enc \<longleftrightarrow> (\<exists>n e. chain types n oid e \<and> enc = encoding_of e)) \<and>
   (representation types [] oid = Inl err \<longleftrightarrow> (\<forall>n e. \<not> chain types n oid e) \<and> err = codecError)"
proof -
  have "representation types [] oid = Inl err \<longleftrightarrow> (\<forall>n e. \<not> chain types n oid e) \<and> err = codecError"
  proof (cases "representation types [] oid")
    case (Inl e)
    moreover from this have "e = codecError" by (rule representation_error)
    moreover from Inl have "\<not> chain types n oid e" for n e
      using representation_chain [of types oid "encoding_of e"] by auto
    ultimately show ?thesis by auto
  next
    case (Inr enc)
    then have "\<exists>n e. chain types n oid e" using representation_chain [of types oid enc] by blast
    with Inr show ?thesis by auto
  qed
  then show ?thesis using representation_chain by blast
qed

lemma bounded_dims_prefix:
  "bounded_dims limit n vs \<Longrightarrow> n \<le> limit \<Longrightarrow> n * prod_list (take k (map nat vs)) \<le> limit"
proof (induction vs arbitrary: n k)
  case (Cons v vs)
  have "n * nat v \<le> limit"
  proof (cases "v = 0")
    case False
    with Cons.prems have "n \<le> limit div nat v" "nat v > 0" by (auto split: if_splits)
    then show ?thesis by (metis div_times_less_eq_dividend le_trans mult_le_mono1)
  qed simp
  with Cons.prems Cons.IH [of "n * nat v" "k - 1"] show ?case
    by (cases k) (auto simp: mult.assoc split: if_splits)
qed simp

lemma SetDimensions_prefix:
  assumes "SetDimensions limit ds = Inr dims" and "0 < limit"
  shows "length dims \<le> 6 \<and> prod_list (take k dims) \<le> limit"
  using assms bounded_dims_prefix [of limit 1 ds k]
  by (auto simp: SetDimensions_def split: if_splits)

lemma scan_array_elements:
  assumes "scan_array pa d s = Inr (dims, els)"
  shows "length els = (if dims = [] then 0 else prod_list dims)"
  using assms by (auto simp: scan_array_def Let_def split: option.splits sum.splits if_splits)

text \<open>
  An accepted array has at most six dimensions, and at no level more lists or elements
  than its text has bytes (plus one): what the dimensions allocate is bounded by the message.
\<close>

theorem scan_array_bounded:
  assumes "scan_array pa d s = Inr (dims, els)"
  shows "length dims \<le> 6 \<and> length els \<le> length s + 1 \<and> prod_list (take k dims) \<le> length s + 1"
proof -
  have "\<exists>ds. SetDimensions (length s + 1) ds = Inr dims"
    using assms by (auto simp: scan_array_def Let_def split: option.splits sum.splits if_splits)
  then have "length dims \<le> 6 \<and> prod_list (take k dims) \<le> length s + 1" for k
    using SetDimensions_prefix [of "length s + 1"] by auto
  from this [of k] this [of "length dims"] scan_array_elements [OF assms] show ?thesis by auto
qed

theorem scan_array_bounded_witness:
  "scan_array (\<lambda>_ _. Some ([2], [Some ''1'', None])) (CHR '','') ''{1,NULL}'' = Inr ([2], [Some ''1'', None]) \<and>
   prod_list (take 1 [2 :: nat]) \<le> length ''{1,NULL}'' + 1"
proof -
  have s: "scan_array (\<lambda>_ _. Some ([2], [Some ''1'', None])) (CHR '','') ''{1,NULL}'' =
      Inr ([2], [Some ''1'', None])"
    by code_simp
  with scan_array_bounded [OF s, of 1] show ?thesis by simp
qed

text \<open>A reader that takes \<open>k\<close> elements when they are there, and fails in one way only.\<close>

definition takes :: "nat \<Rightarrow> ('s list \<Rightarrow> ('v \<times> 's list) res) \<Rightarrow> bool" where
  "takes k f \<longleftrightarrow>
     (\<forall>s. k \<le> length s \<longrightarrow>
        (case f s of Inl e \<Rightarrow> e = codecError | Inr (v, r) \<Rightarrow> k + length r = length s))"

lemma takesD:
  "takes k f \<Longrightarrow> k \<le> length s \<Longrightarrow>
     (case f s of Inl e \<Rightarrow> e = codecError | Inr (v, r) \<Rightarrow> k + length r = length s)"
  by (simp add: takes_def)

lemma takes_read_times: "takes k f \<Longrightarrow> takes (n * k) (read_times f n)"
proof (induction n)
  case 0
  show ?case by (simp add: takes_def)
next
  case (Suc n)
  show ?case unfolding takes_def
  proof (intro allI impI)
    fix s :: "'a list" assume l: "Suc n * k \<le> length s"
    show "case read_times f (Suc n) s of Inl e \<Rightarrow> e = codecError
        | Inr (v, r) \<Rightarrow> Suc n * k + length r = length s"
    proof (cases "f s")
      case (Inl e)
      then show ?thesis using takesD [OF Suc.prems, of s] l by simp
    next
      case (Inr p)
      obtain v r where p: "p = (v, r)" by (cases p)
      then have r: "k + length r = length s" using Inr takesD [OF Suc.prems, of s] l by simp
      with l have "n * k \<le> length r" by simp
      from takesD [OF Suc.IH [OF Suc.prems] this] Inr p r show ?thesis
        by (auto split: sum.splits)
    qed
  qed
qed

lemma takes_nested:
  assumes "\<And>x e. dec x = Inl e \<Longrightarrow> e = codecError"
  shows "takes (prod_list dims) (nested dec dims)"
proof (induction dims)
  case Nil
  show ?case unfolding takes_def
    using assms by (auto split: list.splits option.splits sum.splits)
next
  case (Cons d ds)
  have "takes (d * prod_list ds) (read_times (nested dec ds) d)"
    by (rule takes_read_times) (rule Cons.IH)
  then show ?case by (fastforce simp: takes_def split: sum.splits)
qed

lemma decodeValue_error: "decodeValue pf t b = Inl e \<Longrightarrow> e = codecError"
  by (simp add: decodeValue_def decode_int_def decode_float_def decode_bytea_def jsonValue_def
      decode_timestamp_def Let_def split: option.splits if_splits prod.splits)

text \<open>What pgx's array parser keeps: no more elements than its dimensions hold.\<close>

definition parser_ok :: "array_text \<Rightarrow> bool" where
  "parser_ok pa \<longleftrightarrow>
     (\<forall>d s ds els. pa d s = Some (ds, els) \<longrightarrow>
        length els \<le> (if ds = [] then 0 else prod_list (map nat ds)))"

lemma scan_array_error:
  assumes "parser_ok pa" and "scan_array pa d s = Inl e"
  shows "e = codecError"
proof (cases "pa d s")
  case None
  with assms show ?thesis by (simp add: scan_array_def)
next
  case (Some p)
  obtain ds els where p: "p = (ds, els)" by (cases p)
  with Some assms(1) have "length els \<le> (if ds = [] then 0 else prod_list (map nat ds))"
    unfolding parser_ok_def by blast
  with Some p assms(2) show ?thesis
    by (auto simp: scan_array_def Let_def SetDimensions_def split: if_splits)
qed

lemma decode_error:
  "parser_ok pa \<Longrightarrow> decode pf pa types oid raw = Inl e \<Longrightarrow> e = codecError"
proof (induction pf pa types oid raw arbitrary: e rule: decode.induct)
  case (1 pf pa types oid raw)
  show ?case
  proof (cases "\<exists>s enc. raw = Some s \<and> utf8_valid s \<and> representation types [] oid = Inr enc")
    case False
    then show ?thesis
      using "1.prems"(2) representation_error [of types "[]" oid]
      by (subst (asm) decode.simps) (auto split: option.splits if_splits sum.splits)
  next
    case True
    then obtain s enc n e0 where s: "raw = Some s" "\<not> \<not> utf8_valid s" "representation types [] oid = Inr enc"
      "chain types n oid e0"
      using representation_chain by blast
    from chain_next [OF s(4)] obtain t0 where "map_of types oid = Some t0" by auto
    with unwrap_chain [OF s(4) this] obtain base t where
      u: "unwrap types oid (case map_of types oid of Some t \<Rightarrow> t | None \<Rightarrow> zero_type) = Some (base, t)"
      by auto
    have rec: "decode pf pa types (t_element t) x = Inl e' \<Longrightarrow> e' = codecError"
      if "t_element t \<noteq> 0" "t_plan t = Some d" "scan_array pa d s = Inr (dims, els)" "dims \<noteq> []"
      for x d dims els e'
      by (rule "1.IH" [OF s(1-3) u refl that(1,2,3) refl that(4) "1.prems"(1)])
    have nest: "e' = codecError"
      if "0 < t_element t" "t_plan t = Some d" "scan_array pa d s = Inr (dims, els)" "dims \<noteq> []"
        "nested (\<lambda>x. decode pf pa types (t_element t) x) dims els = Inl e'"
      for d dims els e'
    proof -
      have "takes (prod_list dims) (nested (\<lambda>x. decode pf pa types (t_element t) x) dims)"
        using rec [OF _ that(2-4)] that(1) by (intro takes_nested) blast
      from takesD [OF this, of els] scan_array_elements [OF that(3)] that(4,5) show ?thesis by simp
    qed
    from "1.prems"(2) s u show ?thesis
      by (subst (asm) decode.simps)
        (auto split: option.splits if_splits sum.splits prod.splits
          dest: decodeValue_error scan_array_error [OF "1.prems"(1)] nest)
  qed
qed


definition int2_array :: rtypes where
  "int2_array =
     [(1005, \<lparr>t_base = 0, t_element = 21, t_name = ''_int2'', t_delimiter = CHR '','', t_plan = Some (CHR '','')\<rparr>),
      (21, \<lparr>t_base = 0, t_element = 0, t_name = ''int2'', t_delimiter = CHR '','', t_plan = None\<rparr>),
      (7000, \<lparr>t_base = 7000, t_element = 0, t_name = ''loop'', t_delimiter = CHR '','', t_plan = None\<rparr>)]"

definition two_elements :: array_text where
  "two_elements d s = (if s = ''{7,NULL}'' then Some ([2], [Some ''7'', None]) else None)"


end
