(* ===== verification/Sql_Guard.thy ===== *)
theory Sql_Guard
  imports Utf8
begin

text \<open>
  internal/database/postgres/sqlguard/guard.go.  The parser is pg_query, which is not
  part of the repository: it is the argument \<open>parse\<close>.  Its result is a protocol-buffer
  message; a message is what reflection shows of it, that is its type name, whether it has
  unknown fields, its scalar fields and its populated message fields in iteration order
  (a repeated field is one pair per element).  The walker shares its name maps by
  reference, so a task carries the address of its map in an explicit heap.
\<close>

section \<open>Messages\<close>

datatype msg =
  Msg (mtype: bytes) (unknown: bool) (scalars: "(bytes \<times> bytes) list") (subs: "(bytes \<times> msg) list")

definition field :: "msg \<Rightarrow> bytes \<Rightarrow> msg list" where
  "field m f = map snd (filter (\<lambda>p. fst p = f) (subs m))"

text \<open>A generated getter of a singular message field, nil-safe as in Go.\<close>

definition getter :: "bytes \<Rightarrow> msg option \<Rightarrow> msg option" where
  "getter f m = Option.bind m (\<lambda>m. case field m f of [] \<Rightarrow> None | x # _ \<Rightarrow> Some x)"

definition scalar :: "msg \<Rightarrow> bytes \<Rightarrow> bytes" where
  "scalar m f = (case map_of (scalars m) f of None \<Rightarrow> [] | Some s \<Rightarrow> s)"

definition GetSelectStmt :: "msg option \<Rightarrow> msg option" where
  "GetSelectStmt = getter ''select_stmt''"

definition GetCommonTableExpr :: "msg \<Rightarrow> msg option" where
  "GetCommonTableExpr n = getter ''common_table_expr'' (Some n)"

definition ctename :: "msg \<Rightarrow> bytes" where
  "ctename c = scalar c ''ctename''"

definition is_write_node :: "msg \<Rightarrow> bool" where
  "is_write_node m \<longleftrightarrow> mtype m = ''Node'' \<and>
     (field m ''insert_stmt'' \<noteq> [] \<or> field m ''update_stmt'' \<noteq> [] \<or>
      field m ''delete_stmt'' \<noteq> [] \<or> field m ''merge_stmt'' \<noteq> [])"

section \<open>The check\<close>

datatype verdict = Accept | Reject goerr | Panic

definition invalid_sql :: goerr where
  "invalid_sql = Fail InvalidArgument ''invalid SQL'' False"

definition readOnly :: goerr where
  "readOnly = Fail ReadOnlyViolation ''only one read query is allowed'' False"

definition unqualified :: goerr where
  "unqualified = Fail QueryUnsupported ''physical relations must use schema-qualified names'' False"

datatype task = Visit msg nat | Bind bytes nat

text \<open>The two loops over the common table expressions of one \<open>WITH\<close> clause.\<close>

fun recursive_names :: "msg list \<Rightarrow> bytes set \<Rightarrow> goerr + bytes set" where
  "recursive_names [] names = Inr names"
| "recursive_names (n # ns) names =
     (case GetCommonTableExpr n of
        None \<Rightarrow> Inl invalid_sql
      | Some c \<Rightarrow> recursive_names ns (insert (ctename c) names))"

fun bindings :: "msg list \<Rightarrow> goerr + msg list" where
  "bindings [] = Inr []"
| "bindings (n # ns) =
     (case GetCommonTableExpr n of
        None \<Rightarrow> Inl readOnly
      | Some c \<Rightarrow>
          if GetSelectStmt (getter ''ctequery'' (Some c)) = None then Inl readOnly
          else (case bindings ns of Inl e \<Rightarrow> Inl e | Inr cs \<Rightarrow> Inr (c # cs)))"

definition enter_select :: "msg \<Rightarrow> bytes set \<Rightarrow> goerr + (bytes set \<times> msg list)" where
  "enter_select s ctes =
     (if field s ''into_clause'' \<noteq> [] \<or> field s ''locking_clause'' \<noteq> [] then Inl readOnly
      else (case getter ''with_clause'' (Some s) of
              None \<Rightarrow> Inr (ctes, [])
            | Some w \<Rightarrow>
                bind_res
                  (if scalar w ''recursive'' \<noteq> [] then recursive_names (field w ''ctes'') ctes
                   else Inr ctes)
                  (\<lambda>scope. bind_res (bindings (field w ''ctes'')) (\<lambda>cs. Inr (scope, cs)))))"

text \<open>The fields \<open>Range\<close> visits; a select's \<open>WITH\<close> clause is left to its bindings.\<close>

definition visited :: "msg \<Rightarrow> msg list" where
  "visited m =
     map snd (filter (\<lambda>p. \<not> (mtype m = ''SelectStmt'' \<and> fst p = ''with_clause'')) (subs m))"

text \<open>What the stack holds for the bindings: each body above the task that binds its name.\<close>

fun binding_tasks :: "nat \<Rightarrow> msg list \<Rightarrow> task list" where
  "binding_tasks a [] = []"
| "binding_tasks a (c # cs) = Visit c a # Bind (ctename c) a # binding_tasks a cs"

text \<open>
  One turn of the loop for a message task: the verdict, or the new heap and the tasks that
  go on top of the stack (its top first; the last task pushed is the first one taken).
\<close>

definition visit :: "bytes set list \<Rightarrow> msg \<Rightarrow> nat \<Rightarrow> goerr + (bytes set list \<times> task list)" where
  "visit heap m a =
     (if unknown m then Inl invalid_sql
      else if is_write_node m then Inl readOnly
      else if mtype m = ''SelectStmt'' then
        (case enter_select m (heap ! a) of
           Inl e \<Rightarrow> Inl e
         | Inr (local, cs) \<Rightarrow>
             Inr (heap @ [local],
                  binding_tasks (length heap) cs
                    @ map (\<lambda>x. Visit x (length heap)) (rev (visited m))))
      else if mtype m = ''RangeVar'' then
        (if scalar m ''schemaname'' = [] \<and> scalar m ''relname'' \<notin> heap ! a
         then Inl unqualified else Inr (heap, []))
      else Inr (heap, map (\<lambda>x. Visit x a) (rev (visited m))))"

text \<open>Every turn makes the work on the stack smaller.\<close>

fun weight :: "msg \<Rightarrow> nat" where
  "weight (Msg ty u sc fs) = 2 + sum_list (map (\<lambda>(_, m). weight m) fs)"

fun task_weight :: "task \<Rightarrow> nat" where
  "task_weight (Visit m a) = weight m"
| "task_weight (Bind n a) = 1"

abbreviation stack_weight :: "task list \<Rightarrow> nat" where
  "stack_weight st \<equiv> sum_list (map task_weight st)"

lemma weight_pos: "2 \<le> weight m"
  by (cases m) simp

lemma weight_subs: "weight m = 2 + sum_list (map (\<lambda>p. weight (snd p)) (subs m))"
  by (cases m) (simp add: case_prod_beta')

lemma sum_list_filter_le: "sum_list (map f (filter P xs)) \<le> sum_list (map (f :: 'a \<Rightarrow> nat) xs)"
  by (induction xs) auto

lemma sum_list_split:
  "sum_list (map f xs) =
     sum_list (map f (filter P xs)) + sum_list (map (f :: 'a \<Rightarrow> nat) (filter (\<lambda>x. \<not> P x) xs))"
  by (induction xs) auto

lemma weight_field: "sum_list (map weight (field m f)) + 2 \<le> weight m"
  using sum_list_filter_le [of "\<lambda>p. weight (snd p)" "\<lambda>p. fst p = f" "subs m"] weight_subs [of m]
  by (simp add: field_def comp_def)

lemma weight_getter: "getter f (Some m) = Some x \<Longrightarrow> weight x + 2 \<le> weight m"
  using weight_field [of m f] by (auto simp: getter_def split: list.splits)

lemma weight_bindings:
  "bindings ns = Inr cs \<Longrightarrow> stack_weight (binding_tasks a cs) \<le> sum_list (map weight ns)"
proof (induction ns arbitrary: cs)
  case (Cons n ns)
  then obtain c cs' where c: "GetCommonTableExpr n = Some c" "bindings ns = Inr cs'" "cs = c # cs'"
    by (auto split: option.splits if_splits sum.splits)
  have "weight c + 2 \<le> weight n"
    using c(1) unfolding GetCommonTableExpr_def by (rule weight_getter)
  with Cons.IH [OF c(2)] c(3) show ?case by simp
qed simp

lemma weight_visited:
  assumes "mtype m = ''SelectStmt''"
  shows "sum_list (map weight (visited m)) + sum_list (map weight (field m ''with_clause'')) + 2 = weight m"
  using assms weight_subs [of m]
    sum_list_split [of "\<lambda>p. weight (snd p)" "subs m" "\<lambda>p. fst p = ''with_clause''"]
  by (simp add: visited_def field_def comp_def)

lemma weight_visited_le: "sum_list (map weight (visited m)) + 2 \<le> weight m"
  using weight_subs [of m] sum_list_filter_le [of "\<lambda>p. weight (snd p)"
      "\<lambda>p. \<not> (mtype m = ''SelectStmt'' \<and> fst p = ''with_clause'')" "subs m"]
  by (simp add: visited_def comp_def)

lemma sum_list_rev_nat: "sum_list (rev xs) = sum_list (xs :: nat list)"
  by (induction xs) auto

lemma enter_select_weight:
  assumes "enter_select m ctes = Inr (local, cs)" and "mtype m = ''SelectStmt''"
  shows "stack_weight (binding_tasks a cs) + sum_list (map weight (visited m)) < weight m"
proof -
  have "stack_weight (binding_tasks a cs) \<le> sum_list (map weight (field m ''with_clause''))"
  proof (cases "getter ''with_clause'' (Some m)")
    case None
    with assms show ?thesis by (auto simp: enter_select_def split: if_splits)
  next
    case (Some w)
    with assms have "bindings (field w ''ctes'') = Inr cs"
      by (auto simp: enter_select_def split: if_splits)
    then have "stack_weight (binding_tasks a cs) \<le> sum_list (map weight (field w ''ctes''))"
      by (rule weight_bindings)
    also have "\<dots> \<le> weight w" using weight_field [of w "''ctes''"] by simp
    also have "\<dots> \<le> sum_list (map weight (field m ''with_clause''))"
      using Some by (auto simp: getter_def split: list.splits)
    finally show ?thesis .
  qed
  then show ?thesis using weight_visited [OF assms(2)] by simp
qed

lemma visit_weight: "visit heap m a = Inr (heap', ts) \<Longrightarrow> stack_weight ts < weight m"
  using weight_visited_le [of m] weight_pos [of m]
  by (auto simp: visit_def comp_def rev_map [symmetric] sum_list_rev_nat
      dest!: enter_select_weight split: if_splits sum.splits prod.splits)

function walk :: "bytes set list \<Rightarrow> task list \<Rightarrow> verdict" where
  "walk heap [] = Accept"
| "walk heap (Bind name a # stack) =
     (if name = [] then Panic
      else walk (heap[a := insert name (heap ! a)]) stack)"
| "walk heap (Visit m a # stack) =
     (case visit heap m a of
        Inl e \<Rightarrow> Reject e
      | Inr (heap', ts) \<Rightarrow> walk heap' (ts @ stack))"
  by pat_completeness auto
termination
  by (relation "measure (stack_weight \<circ> snd)") (auto dest: visit_weight)

text \<open>\<open>Check\<close>: the guards before the walk, the statement kinds, and the walk.\<close>

definition Check :: "(bytes \<Rightarrow> msg option) \<Rightarrow> bytes \<Rightarrow> verdict" where
  "Check parse sql =
     (if \<not> utf8_valid sql \<or> char_of (0 :: nat) \<in> set sql then Reject invalid_sql
      else (case parse sql of
        None \<Rightarrow> Reject invalid_sql
      | Some tree \<Rightarrow>
          (case field tree ''stmts'' of
             [raw] \<Rightarrow>
               (let statement = getter ''stmt'' (Some raw);
                    explain = getter ''explain_stmt'' statement;
                    target = (if explain = None then statement else getter ''query'' explain) in
                if explain \<noteq> None \<and> GetSelectStmt target = None then Reject readOnly
                else if GetSelectStmt target = None \<and> getter ''variable_show_stmt'' target = None
                  then Reject readOnly
                else walk [{}] [Visit tree 0])
           | _ \<Rightarrow> Reject readOnly)))"

lemma weight_member: "x \<in> set xs \<Longrightarrow> weight x \<le> sum_list (map weight xs)"
  by (simp add: member_le_sum_list)

section \<open>Lexical scoping\<close>

text \<open>
  What the walk decides, without a stack or shared maps: \<open>scoped E m\<close> says that message
  \<open>m\<close> is acceptable where the names \<open>E\<close> are visible.
\<close>

function scoped :: "bytes set \<Rightarrow> msg \<Rightarrow> bool"
  and scoped_ctes :: "bytes set \<Rightarrow> msg list \<Rightarrow> bool" where
  "scoped E m =
     (\<not> unknown m \<and> \<not> is_write_node m \<and>
      (if mtype m = ''SelectStmt'' then
         (case enter_select m E of
            Inl e \<Rightarrow> False
          | Inr (E', cs) \<Rightarrow>
              scoped_ctes E' cs \<and> (\<forall>x \<in> set (visited m). scoped (E' \<union> ctename ` set cs) x))
       else if mtype m = ''RangeVar'' then
         scalar m ''schemaname'' \<noteq> [] \<or> scalar m ''relname'' \<in> E
       else (\<forall>x \<in> set (visited m). scoped E x)))"
| "scoped_ctes E [] = True"
| "scoped_ctes E (c # cs) =
     (ctename c \<noteq> [] \<and> scoped E c \<and> scoped_ctes (insert (ctename c) E) cs)"
  by pat_completeness auto

termination
proof (relation "measure (case_sum (weight \<circ> snd) (stack_weight \<circ> binding_tasks 0 \<circ> snd))",
    goal_cases)
  case (2 E m p E' cs)
  then show ?case using enter_select_weight [of m E E' cs 0] by auto
next
  case (3 E m p E' cs x)
  then show ?case using enter_select_weight [of m E E' cs 0] weight_member [of x "visited m"] by simp
next
  case (4 E m x)
  then show ?case using weight_visited_le [of m] weight_member [of x "visited m"] by simp
qed auto

declare scoped.simps [simp del]

text \<open>
  The walk with shared maps does lexical scoping: a turn only appends to the heap and a
  binding only changes the map of its own select, so a message is judged in the scope of
  its address and the rest of the stack continues in an extension of the heap.
\<close>

definition visits_as :: "bytes set \<Rightarrow> msg \<Rightarrow> bool" where
  "visits_as E m \<longleftrightarrow> (\<forall>h a st. a < length h \<and> h ! a = E \<longrightarrow>
     (\<exists>ex. (walk h (Visit m a # st) = Accept) = (scoped E m \<and> walk (h @ ex) st = Accept)))"

definition binds_as :: "bytes set \<Rightarrow> msg list \<Rightarrow> bool" where
  "binds_as E cs \<longleftrightarrow> (\<forall>h a st. a < length h \<and> h ! a = E \<longrightarrow>
     (\<exists>ex. (walk h (binding_tasks a cs @ st) = Accept) =
        (scoped_ctes E cs \<and> walk (h[a := E \<union> ctename ` set cs] @ ex) st = Accept)))"

lemma walk_visits:
  assumes "\<And>x. x \<in> set xs \<Longrightarrow> visits_as E x" and "a < length h" and "h ! a = E"
  shows "\<exists>ex. (walk h (map (\<lambda>x. Visit x a) xs @ st) = Accept) =
     ((\<forall>x \<in> set xs. scoped E x) \<and> walk (h @ ex) st = Accept)"
  using assms
proof (induction xs arbitrary: h)
  case Nil
  show ?case by (rule exI [of _ "[]"]) simp
next
  case (Cons x xs)
  from Cons.prems obtain e1 where e1:
    "(walk h (Visit x a # map (\<lambda>x. Visit x a) xs @ st) = Accept) =
       (scoped E x \<and> walk (h @ e1) (map (\<lambda>x. Visit x a) xs @ st) = Accept)"
    unfolding visits_as_def by (metis list.set_intros(1))
  from Cons.prems obtain e2 where
    "(walk (h @ e1) (map (\<lambda>x. Visit x a) xs @ st) = Accept) =
       ((\<forall>x \<in> set xs. scoped E x) \<and> walk ((h @ e1) @ e2) st = Accept)"
    using Cons.IH [of "h @ e1"] by (auto simp: nth_append)
  with e1 show ?case by (intro exI [of _ "e1 @ e2"]) auto
qed

lemma binds_as_Cons:
  assumes "visits_as E c" and "binds_as (insert (ctename c) E) cs"
  shows "binds_as E (c # cs)"
  unfolding binds_as_def
proof (intro allI impI, elim conjE)
  fix h a st
  assume a: "a < length (h :: bytes set list)" "h ! a = E"
  let ?rest = "binding_tasks a cs @ st"
  obtain e1 where e1: "(walk h (Visit c a # Bind (ctename c) a # ?rest) = Accept) =
      (scoped E c \<and> walk (h @ e1) (Bind (ctename c) a # ?rest) = Accept)"
    using assms(1) a unfolding visits_as_def by blast
  let ?h = "(h @ e1)[a := insert (ctename c) E]"
  obtain e2 where e2: "(walk ?h ?rest = Accept) =
      (scoped_ctes (insert (ctename c) E) cs \<and>
       walk (?h[a := insert (ctename c) E \<union> ctename ` set cs] @ e2) st = Accept)"
    using assms(2) a unfolding binds_as_def
    by (metis length_append length_list_update nth_list_update_eq trans_less_add1)
  have h: "?h[a := insert (ctename c) E \<union> ctename ` set cs] @ e2 =
      h[a := E \<union> ctename ` set (c # cs)] @ (e1 @ e2)"
    using a(1) by (simp add: list_update_append)
  show "\<exists>ex. (walk h (binding_tasks a (c # cs) @ st) = Accept) =
      (scoped_ctes E (c # cs) \<and> walk (h[a := E \<union> ctename ` set (c # cs)] @ ex) st = Accept)"
    using e1 e2 a h by (intro exI [of _ "e1 @ e2"]) (auto simp: nth_append)
qed

lemma visits_as_select:
  assumes "mtype m = ''SelectStmt''"
    and IH: "\<And>E' cs. enter_select m E = Inr (E', cs) \<Longrightarrow>
      binds_as E' cs \<and> (\<forall>x \<in> set (visited m). visits_as (E' \<union> ctename ` set cs) x)"
  shows "visits_as E m"
  unfolding visits_as_def
proof (intro allI impI, elim conjE)
  fix h a st
  assume a: "a < length (h :: bytes set list)" "h ! a = E"
  show "\<exists>ex. (walk h (Visit m a # st) = Accept) = (scoped E m \<and> walk (h @ ex) st = Accept)"
  proof (cases "enter_select m E")
    case (Inl e)
    then show ?thesis using assms a by (simp add: visit_def scoped.simps)
  next
    case (Inr p)
    obtain E' cs where p: "p = (E', cs)" by force
    let ?b = "length h" and ?vs = "map (\<lambda>x. Visit x (length h)) (rev (visited m))"
    let ?E = "E' \<union> ctename ` set cs"
    obtain e1 where e1: "(walk (h @ [E']) (binding_tasks ?b cs @ ?vs @ st) = Accept) =
        (scoped_ctes E' cs \<and> walk ((h @ [E'])[?b := ?E] @ e1) (?vs @ st) = Accept)"
      using IH Inr p unfolding binds_as_def
      by (metis length_append_singleton lessI nth_append_length)
    obtain e2 where e2: "(walk (h @ ?E # e1) (?vs @ st) = Accept) =
        ((\<forall>x \<in> set (rev (visited m)). scoped ?E x) \<and> walk ((h @ ?E # e1) @ e2) st = Accept)"
      using IH Inr p walk_visits [of "rev (visited m)" ?E ?b "h @ ?E # e1" st]
      by (auto simp: nth_append)
    show ?thesis
      using e1 e2 Inr p assms(1) a
      by (intro exI [of _ "?E # e1 @ e2"]) (auto simp: visit_def scoped.simps list_update_append)
  qed
qed

lemma visits_as_other:
  assumes "mtype m \<noteq> ''SelectStmt''"
    and "mtype m \<noteq> ''RangeVar'' \<Longrightarrow> \<forall>x \<in> set (visited m). visits_as E x"
  shows "visits_as E m"
  unfolding visits_as_def
proof (intro allI impI, elim conjE)
  fix h a st
  assume a: "a < length (h :: bytes set list)" "h ! a = E"
  show "\<exists>ex. (walk h (Visit m a # st) = Accept) = (scoped E m \<and> walk (h @ ex) st = Accept)"
  proof (cases "mtype m = ''RangeVar''")
    case True
    then show ?thesis using a by (intro exI [of _ "[]"]) (simp add: visit_def scoped.simps)
  next
    case False
    obtain ex where "(walk h (map (\<lambda>x. Visit x a) (rev (visited m)) @ st) = Accept) =
        ((\<forall>x \<in> set (rev (visited m)). scoped E x) \<and> walk (h @ ex) st = Accept)"
      using assms(2) False a walk_visits [of "rev (visited m)" E a h st] by auto
    then show ?thesis
      using False a assms(1) by (intro exI [of _ ex]) (auto simp: visit_def scoped.simps)
  qed
qed

lemma walk_scoped: "visits_as E m" "binds_as E cs"
proof (induction E m and E cs rule: scoped_scoped_ctes.induct)
  case (1 E m)
  show ?case
  proof (cases "mtype m = ''SelectStmt''")
    case True
    then show ?thesis
      by (rule visits_as_select) (use 1 True in \<open>cases "unknown m \<or> is_write_node m"; auto\<close>)
  next
    case False
    then show ?thesis by (rule visits_as_other) (use 1 False in auto)
  qed
next
  case (2 E)
  show ?case unfolding binds_as_def by (auto intro: exI [of _ "[]"])
next
  case (3 E c cs)
  then show ?case by (intro binds_as_Cons) auto
qed

lemma walk_accepts: "walk [{}] [Visit m 0] = Accept \<longleftrightarrow> scoped {} m"
proof -
  obtain ex where "(walk [{}] [Visit m 0] = Accept) = (scoped {} m \<and> walk ([{}] @ ex) [] = Accept)"
    using walk_scoped(1) [of "{}" m] unfolding visits_as_def by (metis length_Cons nth_Cons_0 zero_less_Suc)
  then show ?thesis by simp
qed

declare walk.simps(3) [simp del]

text \<open>The single read statement the check requires before the walk.\<close>

definition read_statement :: "msg \<Rightarrow> bool" where
  "read_statement tree \<longleftrightarrow>
     (\<exists>raw. field tree ''stmts'' = [raw] \<and>
       (let statement = getter ''stmt'' (Some raw); explain = getter ''explain_stmt'' statement in
        if explain \<noteq> None then GetSelectStmt (getter ''query'' explain) \<noteq> None
        else GetSelectStmt statement \<noteq> None \<or> getter ''variable_show_stmt'' statement \<noteq> None))"

text \<open>
  C5. The guard accepts a text exactly when it is valid UTF-8 without NUL, the parser
  yields one statement that is a SELECT, a SHOW or an EXPLAIN of a SELECT, and the tree is
  well scoped: the explicit stack with name maps shared by reference decides lexical
  scoping of the common table expressions, in any iteration order of the fields.
\<close>

theorem Check_accepts:
  "Check parse sql = Accept \<longleftrightarrow>
     utf8_valid sql \<and> char_of (0 :: nat) \<notin> set sql \<and>
     (\<exists>tree. parse sql = Some tree \<and> read_statement tree \<and> scoped {} tree)"
  by (auto simp: Check_def read_statement_def Let_def walk_accepts
      split: option.splits list.splits if_splits)

section \<open>What acceptance excludes\<close>

definition cte_of :: "msg \<Rightarrow> msg \<Rightarrow> bool" where
  "cte_of s c \<longleftrightarrow> mtype s = ''SelectStmt'' \<and>
     (\<exists>w n. getter ''with_clause'' (Some s) = Some w \<and> n \<in> set (field w ''ctes'') \<and>
        GetCommonTableExpr n = Some c)"

text \<open>The parts of a message: what its fields and its \<open>WITH\<close> bodies hold, at any depth.\<close>

inductive part :: "msg \<Rightarrow> msg \<Rightarrow> bool" where
  part_self: "part m m"
| part_field: "mtype m \<noteq> ''RangeVar'' \<Longrightarrow> x \<in> set (visited m) \<Longrightarrow> part x y \<Longrightarrow> part m y"
| part_cte: "cte_of m c \<Longrightarrow> part c y \<Longrightarrow> part m y"

lemma bindings_set: "bindings ns = Inr cs \<Longrightarrow> set cs = {c. \<exists>n \<in> set ns. GetCommonTableExpr n = Some c}"
  by (induction ns arbitrary: cs) (auto split: option.splits if_splits sum.splits)

lemma recursive_names_set:
  "recursive_names ns E = Inr E' \<Longrightarrow>
     E' = E \<union> ctename ` {c. \<exists>n \<in> set ns. GetCommonTableExpr n = Some c}"
  by (induction ns arbitrary: E) (auto split: option.splits)

lemma enter_select_scope:
  assumes "enter_select m E = Inr (E', cs)" and "mtype m = ''SelectStmt''"
  shows "set cs = {c. cte_of m c}" and "E' \<subseteq> E \<union> ctename ` {c. cte_of m c}"
    and "field m ''into_clause'' = []" and "field m ''locking_clause'' = []"
proof -
  show "set cs = {c. cte_of m c}"
    using assms by (auto simp: enter_select_def cte_of_def dest: bindings_set
        split: if_splits option.splits)
  show "E' \<subseteq> E \<union> ctename ` {c. cte_of m c}"
  proof (cases "getter ''with_clause'' (Some m)")
    case None
    with assms show ?thesis by (simp add: enter_select_def split: if_splits)
  next
    case (Some w)
    with assms(1) have "E' = E \<or> recursive_names (field w ''ctes'') E = Inr E'"
      by (auto simp: enter_select_def split: if_splits)
    moreover have "{c. \<exists>n \<in> set (field w ''ctes''). GetCommonTableExpr n = Some c} = {c. cte_of m c}"
      using Some assms(2) by (auto simp: cte_of_def)
    ultimately show ?thesis using recursive_names_set by fastforce
  qed
  show "field m ''into_clause'' = []" "field m ''locking_clause'' = []"
    using assms(1) by (simp_all add: enter_select_def split: if_splits)
qed

lemma scoped_ctes_member:
  "scoped_ctes E cs \<Longrightarrow> c \<in> set cs \<Longrightarrow> \<exists>E'. E' \<subseteq> E \<union> ctename ` set cs \<and> scoped E' c"
proof (induction cs arbitrary: E)
  case (Cons d ds)
  show ?case
  proof (cases "c = d")
    case True
    with Cons.prems show ?thesis by (intro exI [of _ E]) auto
  next
    case False
    with Cons.prems obtain E' where "E' \<subseteq> insert (ctename d) E \<union> ctename ` set ds" "scoped E' c"
      using Cons.IH [of "insert (ctename d) E"] by auto
    then show ?thesis by (intro exI [of _ E']) auto
  qed
qed simp

lemma scoped_select:
  assumes "scoped E m" and "mtype m = ''SelectStmt''"
  obtains E' cs where "enter_select m E = Inr (E', cs)" and "scoped_ctes E' cs"
    and "\<forall>x \<in> set (visited m). scoped (E' \<union> ctename ` set cs) x"
  using assms by (auto simp: scoped.simps [of E m] split: sum.splits)

lemma scoped_step:
  assumes "scoped E m"
    and "mtype m \<noteq> ''RangeVar'' \<and> x \<in> set (visited m) \<or> cte_of m x"
  shows "\<exists>F. F \<subseteq> E \<union> ctename ` {c. cte_of m c} \<and> scoped F x"
proof (cases "mtype m = ''SelectStmt''")
  case True
  with assms(1) obtain E' cs where e: "enter_select m E = Inr (E', cs)" "scoped_ctes E' cs"
    "\<forall>x \<in> set (visited m). scoped (E' \<union> ctename ` set cs) x"
    by (rule scoped_select)
  note sc = enter_select_scope(1,2) [OF e(1) True]
  show ?thesis
  proof (cases "cte_of m x")
    case True
    then obtain F where "F \<subseteq> E' \<union> ctename ` set cs" "scoped F x"
      using scoped_ctes_member [OF e(2), of x] sc(1) by auto
    then show ?thesis using sc by (intro exI [of _ F]) auto
  next
    case False
    then show ?thesis
      using assms(2) e(3) sc by (intro exI [of _ "E' \<union> ctename ` set cs"]) auto
  qed
next
  case False
  with assms(2) have "x \<in> set (visited m)" "mtype m \<noteq> ''RangeVar''" by (auto simp: cte_of_def)
  with assms(1) False have "scoped E x" by (simp add: scoped.simps [of E m])
  then show ?thesis by (intro exI [of _ E]) auto
qed

definition names_in :: "msg \<Rightarrow> bytes set" where
  "names_in m = {ctename c |c s. part m s \<and> cte_of s c}"

lemma names_in_step:
  assumes "mtype m \<noteq> ''RangeVar'' \<and> x \<in> set (visited m) \<or> cte_of m x"
  shows "names_in x \<subseteq> names_in m" and "ctename ` {c. cte_of m c} \<subseteq> names_in m"
proof -
  show "names_in x \<subseteq> names_in m"
    using assms unfolding names_in_def by (fastforce intro: part_field part_cte)
  show "ctename ` {c. cte_of m c} \<subseteq> names_in m"
    unfolding names_in_def by (blast intro: part_self)
qed

lemma scoped_step_names:
  assumes "scoped E m" and "mtype m \<noteq> ''RangeVar'' \<and> x \<in> set (visited m) \<or> cte_of m x"
    and IH: "\<And>F. scoped F x \<Longrightarrow> \<exists>G. scoped G y \<and> G \<subseteq> F \<union> names_in x"
  shows "\<exists>G. scoped G y \<and> G \<subseteq> E \<union> names_in m"
proof -
  obtain F where F: "F \<subseteq> E \<union> ctename ` {c. cte_of m c}" "scoped F x"
    using scoped_step [OF assms(1,2)] by blast
  obtain G where "scoped G y" "G \<subseteq> F \<union> names_in x" using IH [OF F(2)] by blast
  with F(1) names_in_step [OF assms(2)] show ?thesis by (intro exI [of _ G] conjI) blast+
qed

lemma scoped_part: "part m x \<Longrightarrow> scoped E m \<Longrightarrow> \<exists>F. scoped F x \<and> F \<subseteq> E \<union> names_in m"
proof (induction arbitrary: E rule: part.induct)
  case (part_self m)
  then show ?case by auto
next
  case (part_field m x y)
  then show ?case by (intro scoped_step_names [of E m x]) auto
next
  case (part_cte m c y)
  then show ?case by (intro scoped_step_names [of E m c]) auto
qed

text \<open>
  C21. An accepted text holds no write: no part of its tree is an INSERT, UPDATE, DELETE or
  MERGE node, no select in it has an INTO or a locking clause, and every relation it names
  is schema-qualified or carries the name of a common table expression of the tree.
\<close>

theorem Check_excludes_writes:
  assumes "Check parse sql = Accept" and "parse sql = Some tree" and "part tree x"
  shows "\<not> unknown x \<and> \<not> is_write_node x
    \<and> (mtype x = ''SelectStmt'' \<longrightarrow> field x ''into_clause'' = [] \<and> field x ''locking_clause'' = [])
    \<and> (mtype x = ''RangeVar'' \<longrightarrow> scalar x ''schemaname'' \<noteq> [] \<or>
        (\<exists>s c. part tree s \<and> cte_of s c \<and> ctename c = scalar x ''relname''))"
proof -
  have "scoped {} tree"
    using assms(1,2)
    by (auto simp: Check_def Let_def walk_accepts split: option.splits list.splits if_splits)
  with assms(3) obtain F where F: "scoped F x" "F \<subseteq> {} \<union> names_in tree"
    using scoped_part by blast
  have "mtype x = ''SelectStmt'' \<Longrightarrow> field x ''into_clause'' = [] \<and> field x ''locking_clause'' = []"
    using F(1) by (auto elim!: scoped_select dest: enter_select_scope(3,4))
  moreover have "\<not> unknown x \<and> \<not> is_write_node x \<and>
      (mtype x = ''RangeVar'' \<longrightarrow> scalar x ''schemaname'' \<noteq> [] \<or> scalar x ''relname'' \<in> F)"
    using F(1) by (simp add: scoped.simps [of F x] split: if_splits)
  moreover have "n \<in> F \<Longrightarrow> \<exists>s c. part tree s \<and> cte_of s c \<and> ctename c = n" for n
    using F(2) unfolding names_in_def by blast
  ultimately show ?thesis by blast
qed

text \<open>The tree of \<open>SELECT ... FROM public.t\<close>.\<close>

definition sample_rel :: msg where
  "sample_rel = Msg ''RangeVar'' False [(''schemaname'', ''public''), (''relname'', ''t'')] []"

definition sample_tree :: msg where
  "sample_tree = Msg ''ParseResult'' False [] [(''stmts'', Msg ''RawStmt'' False []
     [(''stmt'', Msg ''Node'' False [] [(''select_stmt'', Msg ''SelectStmt'' False []
       [(''from_clause'', Msg ''Node'' False [] [(''range_var'', sample_rel)])])])])]"

lemmas sample_defs = sample_tree_def sample_rel_def

lemma sample_accepted: "Check (\<lambda>_. Some sample_tree) ''SELECT'' = Accept"
proof -
  have sql: "utf8_valid ''SELECT''" "char_of (0 :: nat) \<notin> set ''SELECT''" by code_simp+
  have tree: "read_statement sample_tree \<and> scoped {} sample_tree"
    by (simp add: read_statement_def sample_defs field_def getter_def scalar_def
        GetSelectStmt_def scoped.simps is_write_node_def visited_def enter_select_def Let_def)
  from sql tree show ?thesis unfolding Check_accepts by blast
qed

lemma sample_part: "part sample_tree sample_rel"
  unfolding sample_tree_def
  by (rule part_field, simp, simp add: visited_def)+ (rule part_self)

theorem Check_excludes_writes_witness:
  "Check (\<lambda>_. Some sample_tree) ''SELECT'' = Accept \<and> scalar sample_rel ''schemaname'' \<noteq> [] \<and>
     \<not> is_write_node sample_rel"
  using Check_excludes_writes [OF sample_accepted refl sample_part]
  by (simp add: sample_accepted) (simp add: sample_rel_def scalar_def)

end
