(* ===== verification/Errors.thy ===== *)
theory Errors
  imports Prelude
begin

text \<open>
  The error boundaries: \<open>safeError\<close> and \<open>safeSQLState\<close> of database/postgres/driver.go,
  \<open>providerError\<close> of vault/provider.go, and the fixed error vocabulary of
  service/management.go with its decoder.  They decide what of an internal error
  crosses to an agent or a client.
\<close>

section \<open>The texts of the sentinels\<close>

primrec error_text :: "sentinel \<Rightarrow> bytes" where
  "error_text Ctx_Canceled = ''context canceled''"
| "error_text Ctx_DeadlineExceeded = ''context deadline exceeded''"
| "error_text Os_NotExist = ''file does not exist''"
| "error_text Cfg_Ownership = ''installation ownership or file safety check failed''"
| "error_text Cfg_Stale = ''installation changed; reopen before retrying''"
| "error_text Cfg_Pending = ''distribution operation is pending; rerun installer or cleanup''"
| "error_text Cfg_Purging = ''installation purge is pending''"
| "error_text Cfg_CommitUnknown = ''SQLite commit outcome uncertain; read current state before retrying''"
| "error_text Cfg_Obsolete = ''obsolete development state; preserve it and recreate this installation with re-entered credentials''"
| "error_text Cfg_Recovery = ''SQLite recovery required; run an explicit management operation''"
| "error_text Cfg_State = ''invalid SQLite installation state''"
| "error_text Cfg_Revision = ''profiles changed; preview again''"
| "error_text Vault_Missing = ''credential key is missing; restore the original keyring or repair the installation''"
| "error_text Vault_Denied = ''credential store access denied''"
| "error_text Vault_Locked = ''credential store is locked; rerun with terminal input and stderr or unlock the provider using its native interface''"
| "error_text Vault_Unavailable = ''credential store unavailable''"
| "error_text Vault_ProviderUnavailable = ''secret service provider unavailable; ensure a credential provider is installed and available in your user session''"
| "error_text Vault_Password = ''incorrect keyring password''"
| "error_text Vault_Terminal = ''keyring authentication requires terminal input and stderr; rerun this command in a terminal (over SSH, allocate a TTY)''"
| "error_text Vault_UserBus = ''user D-Bus is unavailable; connect through a login session with a running user bus''"
| "error_text Vault_Unsupported = ''credential provider does not support terminal keyring setup or unlocking; unlock it using its native interface''"
| "error_text Vault_ProviderChanged = ''credential provider changed during authentication; retry the command''"
| "error_text Vault_Repair = ''vault or usage record requires repair''"
| "error_text Vault_Limit = ''vault encryption limit reached; use a new installation namespace''"
| "error_text Vault_CredentialMissing = ''credential bundle missing; repair credentials with db edit''"
| "error_text Vault_Binding = ''credential bundle belongs to another connection''"
| "error_text Tr_UnknownHost = ''SSH host key is unknown; enroll interactively with db add/edit --ssh-enroll''"
| "error_text Tr_ChangedHost = ''SSH host key changed; verify the server identity outside Data Mate''"
| "error_text Tr_KnownHosts = ''invalid owned SSH known_hosts''"
| "error_text Tr_Route = ''connection route failed; check endpoint, authentication and transport''"
| "error_text Tr_Configuration = ''invalid transport configuration or credentials''"
| "error_text Svc_State = ''invalid or unsafe service state''"
| "error_text Svc_Unavailable = ''service unavailable; run mcp start''"
| "error_text Svc_Conflict = ''service identity conflict; owned state was preserved''"
| "error_text Svc_Restart = ''service build or protocol changed; run mcp stop then mcp start''"
| "error_text Svc_Startup = ''service failed readiness; check profiles and OS credential store access''"
| "error_text Agent_Inspection = ''agent configuration is unreadable or unsupported''"
| "error_text Agent_Partial = ''service is available; agent registration needs attention; retry mcp start after resolving agent configuration''"
| "error_text Agent_Conflict = ''agent registration changed; existing configuration was preserved''"
| "error_text Pg_ResultDiscarded = ''bounded result completed; connection discarded''"

section \<open>The database boundary\<close>

definition safeSQLState :: "bytes \<Rightarrow> bytes" where
  "safeSQLState c =
     (if length c \<noteq> 5 then []
      else if list_all (\<lambda>x. in_range 48 57 x \<or> in_range 65 90 x) c then c else [])"

text \<open>\<open>routed\<close> is the first of \<open>safe\<close> that the error is, as the \<open>for\<close> loops find it.\<close>

fun first_is :: "goerr \<Rightarrow> sentinel list \<Rightarrow> sentinel option" where
  "first_is e [] = None"
| "first_is e (s # ss) = (if errors_is e s then Some s else first_is e ss)"

definition pg_failure :: "bytes \<Rightarrow> failure" where
  "pg_failure sql =
     (let (code, message, retry) =
        (if sql = ''57014'' \<or> sql = ''55P03'' then (QueryTimeout, ''database operation timed out'', True)
         else if sql = ''42501''
           then (PermissionDenied, ''database account lacks permission for this operation'', False)
         else if sql = ''25006''
           then (ReadOnlyViolation, ''PostgreSQL rejected a write in a read-only transaction'', False)
         else if has_prefix sql ''22'' \<or> has_prefix sql ''42'' \<or> sql = ''08P01''
           then (InvalidArgument, ''invalid SQL or query parameter'', False)
         else (QueryFailed, ''PostgreSQL could not execute the query'', False));
      (code, message, retry) =
        (if has_prefix sql ''28'' \<or> (has_prefix sql ''08'' \<and> sql \<noteq> ''08P01'')
            \<or> sql = ''3D000'' \<or> sql = ''57P01''
         then (ConnectFailed, ''PostgreSQL connection failed'', True)
         else (code, message, retry))
      in \<lparr>fail_code = code, fail_message = message, fail_retryable = retry,
          fail_sqlstate = safeSQLState sql\<rparr>)"

definition safeError :: "goerr \<Rightarrow> goerr" where
  "safeError err =
     (case as_db err of
        Some known \<Rightarrow> Db known
      | None \<Rightarrow>
          (case first_is err [Tr_UnknownHost, Tr_ChangedHost, Tr_KnownHosts] of
             Some safe \<Rightarrow> Fail ConnectFailed (error_text safe) False
           | None \<Rightarrow>
               if errors_is err Tr_Configuration
                 then Fail ConfigInvalid ''invalid transport configuration or credentials'' False
               else if errors_is err Ctx_Canceled
                 then Fail Cancelled ''database operation canceled'' True
               else if errors_is err Ctx_DeadlineExceeded
                 then Fail QueryTimeout ''database operation timed out'' True
               else if as_max_body err
                 then Fail ResourceLimit ''PostgreSQL message exceeds limit'' False
               else (case as_pg err of
                       Some sql \<Rightarrow> Db (pg_failure sql)
                     | None \<Rightarrow> Fail ConnectFailed
                         ''PostgreSQL operation failed; check endpoint, TLS and credentials'' True)))"

text \<open>The messages \<open>safeError\<close> itself can produce.\<close>

definition boundary_messages :: "bytes list" where
  "boundary_messages =
     [error_text Tr_UnknownHost, error_text Tr_ChangedHost, error_text Tr_KnownHosts,
      ''invalid transport configuration or credentials'', ''database operation canceled'',
      ''database operation timed out'', ''PostgreSQL message exceeds limit'',
      ''database account lacks permission for this operation'',
      ''PostgreSQL rejected a write in a read-only transaction'',
      ''invalid SQL or query parameter'', ''PostgreSQL could not execute the query'',
      ''PostgreSQL connection failed'',
      ''PostgreSQL operation failed; check endpoint, TLS and credentials'']"

definition sqlstate_ok :: "bytes \<Rightarrow> bool" where
  "sqlstate_ok c \<longleftrightarrow>
     c = [] \<or> (length c = 5 \<and> list_all (\<lambda>x. in_range 48 57 x \<or> in_range 65 90 x) c)"

lemma safeSQLState_ok [simp]: "sqlstate_ok (safeSQLState c)"
  by (simp add: safeSQLState_def sqlstate_ok_def)

lemma first_is_Some: "first_is e ss = Some s \<Longrightarrow> s \<in> set ss \<and> errors_is e s"
  by (induction ss) (auto split: if_splits)

lemma first_is_None: "first_is e ss = None \<longleftrightarrow> (\<forall>s \<in> set ss. \<not> errors_is e s)"
  by (induction ss) auto

lemma pg_failure_redacted:
  "fail_message (pg_failure sql) \<in> set boundary_messages \<and> sqlstate_ok (fail_sqlstate (pg_failure sql))"
  by (simp add: pg_failure_def boundary_messages_def Let_def)

lemma as_db_Fail [simp]: "as_db (Fail c m r) = Some \<lparr>fail_code = c, fail_message = m, fail_retryable = r, fail_sqlstate = []\<rparr>"
  by (simp add: Fail_def)

lemma safeError_shape:
  "\<exists>f. safeError e = Db f \<and>
     (as_db e = Some f \<or> (fail_message f \<in> set boundary_messages \<and> sqlstate_ok (fail_sqlstate f)))"
proof (cases "as_db e")
  case None
  show ?thesis
  proof (cases "first_is e [Tr_UnknownHost, Tr_ChangedHost, Tr_KnownHosts]")
    case None
    with \<open>as_db e = None\<close> show ?thesis
      by (cases "as_pg e")
        (simp_all add: safeError_def Fail_def pg_failure_redacted,
         simp_all add: boundary_messages_def sqlstate_ok_def)
  next
    case (Some s)
    then have "s \<in> {Tr_UnknownHost, Tr_ChangedHost, Tr_KnownHosts}"
      using first_is_Some by fastforce
    with Some \<open>as_db e = None\<close> show ?thesis
      by (auto simp: safeError_def Fail_def boundary_messages_def sqlstate_ok_def)
  qed
qed (simp add: safeError_def)

section \<open>The key provider boundary\<close>

definition provider_safe :: "sentinel list" where
  "provider_safe =
     [Vault_Missing, Vault_Denied, Vault_Locked, Vault_Unavailable, Vault_Password,
      Vault_Terminal, Vault_UserBus, Vault_Unsupported, Vault_ProviderChanged,
      Vault_ProviderUnavailable, Vault_Repair, Ctx_Canceled, Ctx_DeadlineExceeded]"

definition providerError :: "goerr \<Rightarrow> goerr" where
  "providerError err =
     (case first_is err provider_safe of
        Some safe \<Rightarrow> Sentinel safe
      | None \<Rightarrow> Sentinel Vault_Unavailable)"

lemma providerError_safe: "\<exists>s \<in> set provider_safe. providerError e = Sentinel s"
  by (auto simp: providerError_def provider_safe_def dest: first_is_Some split: option.splits)

section \<open>The management vocabulary\<close>

definition managementErrors :: "sentinel list" where
  "managementErrors =
     [Ctx_Canceled, Ctx_DeadlineExceeded, Cfg_Revision, Cfg_CommitUnknown, Cfg_Obsolete,
      Cfg_Recovery, Cfg_State, Cfg_Ownership, Cfg_Stale, Cfg_Purging, Vault_Terminal,
      Vault_Password, Vault_UserBus, Vault_Unsupported, Vault_ProviderChanged,
      Vault_ProviderUnavailable, Vault_Missing, Vault_Denied, Vault_Locked,
      Vault_Unavailable, Vault_Repair, Vault_Limit, Vault_Binding, Vault_CredentialMissing,
      Tr_ChangedHost, Tr_KnownHosts, Svc_State, Svc_Conflict, Svc_Restart, Svc_Unavailable]"

definition safeManagementError :: "goerr \<Rightarrow> bytes" where
  "safeManagementError err =
     (case first_is err managementErrors of
        Some e \<Rightarrow> error_text e
      | None \<Rightarrow> error_text Svc_Unavailable)"

fun find_text :: "bytes \<Rightarrow> sentinel list \<Rightarrow> sentinel option" where
  "find_text m [] = None"
| "find_text m (s # ss) = (if m = error_text s then Some s else find_text m ss)"

text \<open>\<open>None\<close> is the nil error of an empty message.\<close>

definition ManagementError :: "bytes \<Rightarrow> goerr option" where
  "ManagementError message =
     (if message = [] then None
      else (case find_text message managementErrors of
              Some e \<Rightarrow> Some (Sentinel e)
            | None \<Rightarrow> Some (Sentinel Svc_Unavailable)))"

lemma find_text_distinct:
  "s \<in> set ss \<Longrightarrow> distinct (map error_text ss) \<Longrightarrow> find_text (error_text s) ss = Some s"
proof (induction ss)
  case (Cons a ss)
  show ?case
  proof (cases "s = a")
    case False
    with Cons.prems have "s \<in> set ss" by simp
    with Cons.prems have "error_text s \<noteq> error_text a"
      by (metis distinct.simps(2) image_eqI list.set_map list.simps(9))
    with Cons \<open>s \<in> set ss\<close> show ?thesis by simp
  qed simp
qed simp

lemma management_texts: "distinct (map error_text managementErrors)" "[] \<notin> error_text ` set managementErrors"
  by code_simp+

lemma ManagementError_text:
  "s \<in> set managementErrors \<Longrightarrow> ManagementError (error_text s) = Some (Sentinel s)"
  using management_texts find_text_distinct by (force simp: ManagementError_def)

text \<open>
  C29. A management error survives the wire: the client decodes the service's message to
  the very sentinel the service classified, and anything outside the fixed vocabulary to
  the service-unavailable error.
\<close>

theorem management_error_roundtrip:
  "ManagementError (safeManagementError e) =
     Some (Sentinel (case first_is e managementErrors of Some s \<Rightarrow> s | None \<Rightarrow> Svc_Unavailable))"
proof (cases "first_is e managementErrors")
  case None
  have "Svc_Unavailable \<in> set managementErrors" by (simp add: managementErrors_def)
  then have "ManagementError (error_text Svc_Unavailable) = Some (Sentinel Svc_Unavailable)"
    by (rule ManagementError_text)
  with None show ?thesis by (simp add: safeManagementError_def del: error_text.simps)
next
  case (Some s)
  then show ?thesis
    using first_is_Some [OF Some] by (simp add: safeManagementError_def ManagementError_text)
qed

text \<open>
  C30. Nothing upstream crosses the database boundary: \<open>safeError\<close> always returns a
  database error, is idempotent, keeps an error that is already typed, and otherwise
  its message is one of thirteen fixed texts and its SQLSTATE is empty or five
  characters of \<open>[0-9A-Z]\<close>, whatever text the driver's error carried.
\<close>

theorem safeError_redacts:
  "\<exists>f. safeError e = Db f \<and> safeError (safeError e) = safeError e \<and>
     (case as_db e of
        Some g \<Rightarrow> f = g
      | None \<Rightarrow> fail_message f \<in> set boundary_messages \<and> sqlstate_ok (fail_sqlstate f))"
proof -
  obtain f where "safeError e = Db f"
    "as_db e = Some f \<or> (fail_message f \<in> set boundary_messages \<and> sqlstate_ok (fail_sqlstate f))"
    using safeError_shape by blast
  then show ?thesis by (auto simp: safeError_def split: option.splits)
qed

end
