(* ===== verification/Executor.thy ===== *)
theory Executor
  imports Result_Types Sql_Guard Errors
begin

text \<open>
  The query executor (postgres/executor.go): what a query checks before it connects, and
  the loop that turns the server's rows into a bounded result.  The server's answer is an
  argument: its row description, its rows, the error of closing the reader, and the state
  of the context at each row.
\<close>

section \<open>The result and its size\<close>

record column =
  c_name :: bytes
  c_type :: bytes
  c_encoding :: bytes

record result =
  r_connection :: bytes
  r_columns :: "column list"
  r_rows :: "cell list list"
  r_row_count :: nat
  r_truncated :: bool
  r_elapsed :: nat

text \<open>\<open>json.Marshal\<close> of the result's parts.\<close>

definition json_string :: "bytes \<Rightarrow> bytes" where
  "json_string s = quote # escape s @ [quote]"

fun commas :: "bytes list \<Rightarrow> bytes" where
  "commas [] = []"
| "commas [x] = x"
| "commas (x # y # zs) = x @ CHR '','' # commas (y # zs)"

definition json_list :: "bytes list \<Rightarrow> bytes" where
  "json_list xs = CHR ''['' # commas xs @ '']''"

fun json_cell :: "cell \<Rightarrow> bytes" where
  "json_cell CNil = ''null''"
| "json_cell (CBool b) = (if b then ''true'' else ''false'')"
| "json_cell (CInt n) = show_int n"
| "json_cell (CStr s) = json_string s"
| "json_cell (CRaw r) = compact True False r"
| "json_cell (CFloat t) = t"
| "json_cell (CList vs) = json_list (map json_cell vs)"

definition json_column :: "column \<Rightarrow> bytes" where
  "json_column c =
     ''{\"name\":'' @ json_string (c_name c) @ '',\"type\":'' @ json_string (c_type c) @
     (if c_encoding c = [] then [] else '',\"encoding\":'' @ json_string (c_encoding c)) @ ''}''"

definition json_result :: "result \<Rightarrow> bytes" where
  "json_result r =
     ''{\"connection\":'' @ json_string (r_connection r) @ '',\"columns\":'' @
     json_list (map json_column (r_columns r)) @ '',\"rows\":'' @
     json_list (map (\<lambda>row. json_list (map json_cell row)) (r_rows r)) @ '',\"row_count\":'' @
     show_nat (r_row_count r) @ '',\"truncated\":'' @ (if r_truncated r then ''true'' else ''false'') @
     '',\"elapsed_ms\":'' @ show_nat (r_elapsed r) @ ''}''"

definition resultBytes :: "bytes \<Rightarrow> nat" where
  "resultBytes b =
     length ''{\"content\":[{\"type\":\"text\",\"text\":'' + length (json_string b) +
     length ''}],\"structuredContent\":'' + length b + length ''}''"

definition QueryPayloadSize :: "result \<Rightarrow> nat" where
  "QueryPayloadSize r = resultBytes (json_result r)"

section \<open>executeQuery\<close>

text \<open>The server's answer to the prepared statement, and what the context says at each row.\<close>

record answer =
  a_fields :: "(bytes \<times> nat \<times> nat) list"
  a_rows :: "bytes option list list"
  a_close :: "goerr option"
  a_ctx :: "nat \<Rightarrow> goerr option"
  a_elapsed :: nat

text \<open>The result, the error, and whether the connection was closed under the reader.\<close>

record execution =
  x_out :: result
  x_err :: "goerr option"
  x_closed :: bool

definition validResultName :: "bytes \<Rightarrow> bool" where
  "validResultName s \<longleftrightarrow> utf8_valid s \<and> CHR 0x00 \<notin> set s"

fun result_columns :: "rtypes \<Rightarrow> (bytes \<times> nat) list \<Rightarrow> column list res" where
  "result_columns types [] = Inr []"
| "result_columns types ((name, oid) # fs) =
     (if \<not> validResultName name then Inl codecError
      else
        (case representation types [] oid of
           Inl e \<Rightarrow> Inl e
         | Inr enc \<Rightarrow>
             (case result_columns types fs of
                Inl e \<Rightarrow> Inl e
              | Inr cs \<Rightarrow>
                  Inr (\<lparr>c_name = name,
                        c_type = (case map_of types oid of Some t \<Rightarrow> t_name t | None \<Rightarrow> []),
                        c_encoding = enc\<rparr> # cs))))"

text \<open>\<open>json.Marshal(row)\<close>, which checks a raw message before it compacts it.\<close>

fun cell_ok :: "cell \<Rightarrow> bool" where
  "cell_ok (CRaw r) = json_valid r"
| "cell_ok (CList vs) = list_all cell_ok vs"
| "cell_ok _ = True"

definition json_row :: "cell list \<Rightarrow> bytes" where
  "json_row row = json_list (map json_cell row)"

fun decode_row :: "(nat \<Rightarrow> bytes option \<Rightarrow> cell res) \<Rightarrow> nat list \<Rightarrow> bytes option list \<Rightarrow> cell list res" where
  "decode_row dec (oid # oids) (b # bs) =
     (case dec oid b of
        Inl e \<Rightarrow> Inl e
      | Inr v \<Rightarrow> (case decode_row dec oids bs of Inl e \<Rightarrow> Inl e | Inr vs \<Rightarrow> Inr (v # vs)))"
| "decode_row dec _ _ = Inr []"

definition finish :: "nat \<Rightarrow> result \<Rightarrow> result" where
  "finish elapsed out = out\<lparr>r_row_count := length (r_rows out), r_elapsed := elapsed\<rparr>"

definition truncate :: "nat \<Rightarrow> result \<Rightarrow> result" where
  "truncate elapsed out = finish elapsed (out\<lparr>r_truncated := True\<rparr>)"

definition row_cost :: "cell list list \<Rightarrow> cell list \<Rightarrow> nat" where
  "row_cost rows row =
     length (json_row row) + length (json_string (json_row row)) - 2 + (if rows \<noteq> [] then 2 else 0)"

text \<open>The loop over the rows; \<open>i\<close> counts the rows read, \<open>used\<close> the bytes reserved.\<close>

fun fetch :: "(nat \<Rightarrow> bytes option \<Rightarrow> cell res) \<Rightarrow> nat list \<Rightarrow> nat \<Rightarrow> nat \<Rightarrow> answer \<Rightarrow>
    nat \<Rightarrow> nat \<Rightarrow> result \<Rightarrow> bytes option list list \<Rightarrow> execution" where
  "fetch dec oids maxBytes rowLimit ans i used out [] =
     \<lparr>x_out = finish (a_elapsed ans) out, x_err = a_close ans, x_closed = False\<rparr>"
| "fetch dec oids maxBytes rowLimit ans i used out (raw # rest) =
     (let stop = (\<lambda>o' e. \<lparr>x_out = o', x_err = Some e, x_closed = True\<rparr>);
          discard = stop (truncate (a_elapsed ans) out) (Sentinel Pg_ResultDiscarded)
      in
      case a_ctx ans i of
        Some e \<Rightarrow> stop out e
      | None \<Rightarrow>
          if length (r_rows out) = rowLimit then discard
          else if length raw \<noteq> length oids then stop out codecError
          else
            (case decode_row dec oids raw of
               Inl e \<Rightarrow> stop out e
             | Inr row \<Rightarrow>
                 let out' = out\<lparr>r_rows := r_rows out @ [row]\<rparr> in
                 if maxBytes = 0 then fetch dec oids maxBytes rowLimit ans (Suc i) used out' rest
                 else if \<not> list_all cell_ok row then stop out codecError
                 else
                   let cost = row_cost (r_rows out) row in
                   if used + cost > maxBytes then discard
                   else fetch dec oids maxBytes rowLimit ans (Suc i) (used + cost) out' rest))"

definition max_int64 :: nat where
  "max_int64 = 2 ^ 63 - 1"

definition reserve :: "nat \<Rightarrow> result \<Rightarrow> nat" where
  "reserve rowLimit out = resultBytes (json_result (out\<lparr>r_row_count := rowLimit, r_elapsed := max_int64\<rparr>))"

text \<open>
  A result that comes with an error other than the discard is dropped by the caller, so the
  columns appended before a column error are not kept here.
\<close>

definition executeQuery ::
  "(nat \<Rightarrow> bytes option \<Rightarrow> cell res) \<Rightarrow> rtypes \<Rightarrow> bytes \<Rightarrow> nat \<Rightarrow> (bytes \<times> nat) list \<Rightarrow> nat \<Rightarrow> answer \<Rightarrow> execution" where
  "executeQuery dec types alias maxBytes described rowLimit ans =
     (let empty = \<lparr>r_connection = alias, r_columns = [], r_rows = [], r_row_count = 0, r_truncated = False, r_elapsed = 0\<rparr>
      in
      case result_columns types described of
        Inl e \<Rightarrow> \<lparr>x_out = empty, x_err = Some e, x_closed = False\<rparr>
      | Inr cols \<Rightarrow>
          let out = empty\<lparr>r_columns := cols\<rparr>;
              used = reserve rowLimit out
          in
          if maxBytes > 0 \<and> used > maxBytes then
            \<lparr>x_out = out, x_err = Some (Fail ResourceLimit ''column metadata exceeds result budget'' False), x_closed = False\<rparr>
          else if length (a_fields ans) \<noteq> length described then
            (if a_fields ans \<noteq> [] then \<lparr>x_out = out, x_err = Some codecError, x_closed = True\<rparr>
             else \<lparr>x_out = out, x_err = Some (case a_close ans of Some e \<Rightarrow> e | None \<Rightarrow> codecError), x_closed = False\<rparr>)
          else if \<not> list_all2 (\<lambda>(n, oid, format) (n', oid'). oid = oid' \<and> n = n' \<and> format = 0) (a_fields ans) described then
            \<lparr>x_out = out, x_err = Some codecError, x_closed = True\<rparr>
          else fetch dec (map snd described) maxBytes rowLimit ans 0 used out (a_rows ans))"

section \<open>The size of a result\<close>

text \<open>
  A text counts twice in the payload: once as it is, once escaped inside a JSON string.
  This weight is additive wherever the second part starts with an ASCII byte.
\<close>

definition weight :: "bytes \<Rightarrow> nat" where
  "weight b = length b + length (escape b)"

definition ascii_start :: "bytes \<Rightarrow> bool" where
  "ascii_start b \<longleftrightarrow> b = [] \<or> byte_of (hd b) < 128"

lemma ascii_start_simps [simp]:
  "ascii_start []" "ascii_start (c # cs) \<longleftrightarrow> byte_of c < 128"
  "ascii_start (if b then ''true'' else ''false'')"
  by (auto simp: ascii_start_def)

lemma weight_Nil [simp]: "weight [] = 0"
  by (simp add: weight_def)

lemma weight_append: "ascii_start t \<Longrightarrow> weight (s @ t) = weight s + weight t"
  by (cases t) (auto simp: weight_def escape_append)

lemma weight_Cons: "ascii_start (c # cs) \<Longrightarrow> weight (c # cs) = weight [c] + weight cs"
  by (simp add: weight_def escape.simps(2))

lemma weight_concat:
  "\<forall>x \<in> set xs. x \<noteq> [] \<and> ascii_start x \<Longrightarrow> weight (concat xs) = sum_list (map weight xs)"
proof (induction xs)
  case (Cons x xs)
  then have "ascii_start (concat xs)" by (cases xs) (auto simp: ascii_start_def)
  with Cons show ?case by (simp add: weight_append)
qed simp

lemma resultBytes_weight: "resultBytes b = weight b + resultBytes []"
  by (simp add: resultBytes_def weight_def json_string_def)

lemma row_cost_weight:
  "row_cost rows row = weight (json_row row) + (if rows \<noteq> [] then 2 else 0)"
  by (simp add: row_cost_def weight_def json_string_def)

lemma commas_snoc:
  "commas (xs @ [x]) = (if xs = [] then x else commas xs @ CHR '','' # x)"
  by (induction xs rule: commas.induct) auto

lemma weight_comma: "weight (CHR '','' # t) = 2 + weight t"
proof -
  have "weight '','' = 2" by code_simp
  then show ?thesis using weight_Cons [of "CHR '',''" t] by simp
qed

lemma weight_commas_snoc:
  "ascii_start x \<Longrightarrow> weight (commas (xs @ [x])) = weight (commas xs) + weight x + (if xs = [] then 0 else 2)"
  by (simp add: commas_snoc weight_append weight_comma)

lemma plain_escape: "\<forall>c \<in> set s. is_digit c \<Longrightarrow> escape s = s"
proof (induction s)
  case (Cons c s)
  then have "escape_ascii c = [c]" "byte_of c < 128"
    by (auto simp: escape_ascii_def short_escape_def is_digit_def in_range_def)
  with Cons show ?case by (simp add: escape.simps(2))
qed simp

lemma weight_show_nat: "weight (show_nat n) = 2 * length (show_nat n)"
  using show_nat_digits [of n] by (simp add: weight_def plain_escape list_all_iff)

lemma length_show_nat_mono: "m \<le> n \<Longrightarrow> length (show_nat m) \<le> length (show_nat n)"
proof (induction m arbitrary: n rule: show_nat.induct)
  case (1 m)
  show ?case
  proof (cases "m < 10")
    case True
    then show ?thesis using show_nat_digits [of n] by (simp add: show_nat.simps [of m] Suc_le_eq)
  next
    case False
    moreover from this "1.prems" have "\<not> n < 10" "m div 10 \<le> n div 10" by (auto simp: div_le_mono)
    ultimately show ?thesis using "1.IH" by (simp add: show_nat.simps [of m] show_nat.simps [of n])
  qed
qed

lemma ascii_start_show_nat [simp]: "ascii_start (show_nat n @ t)" "ascii_start (show_nat n)"
proof -
  obtain c cs where "show_nat n = c # cs" "is_digit c"
    using show_nat_digits [of n] by (cases "show_nat n") auto
  then show "ascii_start (show_nat n @ t)" "ascii_start (show_nat n)"
    by (auto simp: is_digit_def in_range_def)
qed

text \<open>The text around the rows, and the rows themselves.\<close>

definition result_prefix :: "result \<Rightarrow> bytes" where
  "result_prefix r =
     ''{\"connection\":'' @ json_string (r_connection r) @ '',\"columns\":'' @
     json_list (map json_column (r_columns r)) @ '',\"rows\":[''"

definition result_suffix :: "nat \<Rightarrow> bool \<Rightarrow> nat \<Rightarrow> bytes" where
  "result_suffix count trunc elapsed =
     ''],\"row_count\":'' @ show_nat count @ '',\"truncated\":'' @ (if trunc then ''true'' else ''false'') @
     '',\"elapsed_ms\":'' @ show_nat elapsed @ ''}''"

lemma json_result_split:
  "json_result r =
     result_prefix r @ commas (map json_row (r_rows r)) @ result_suffix (r_row_count r) (r_truncated r) (r_elapsed r)"
  by (simp add: json_result_def result_prefix_def result_suffix_def json_list_def json_row_def [abs_def])

lemma ascii_start_commas: "\<forall>x \<in> set xs. x \<noteq> [] \<and> ascii_start x \<Longrightarrow> ascii_start (commas xs @ CHR '']'' # t)"
  by (cases xs rule: commas.cases) (auto simp: ascii_start_def)

lemma weight_result:
  "weight (json_result r) =
     weight (result_prefix r) + weight (commas (map json_row (r_rows r)))
       + weight (result_suffix (r_row_count r) (r_truncated r) (r_elapsed r))"
proof -
  have "ascii_start (commas (map json_row (r_rows r)) @ result_suffix (r_row_count r) (r_truncated r) (r_elapsed r))"
    unfolding result_suffix_def append_Cons
    by (rule ascii_start_commas) (auto simp: json_row_def json_list_def)
  moreover have "ascii_start (result_suffix c b e)" for c b e by (simp add: result_suffix_def)
  ultimately show ?thesis by (simp add: json_result_split weight_append)
qed

lemma weight_suffix_mono:
  assumes "c \<le> c'" and "e \<le> e'"
  shows "weight (result_suffix c b e) \<le> weight (result_suffix c' False e')"
proof -
  have t: "weight ''true'' \<le> weight ''false''" by code_simp
  let ?parts = "\<lambda>c b e. [''],\"row_count\":'', show_nat c, '',\"truncated\":'',
      if b then ''true'' else ''false'', '',\"elapsed_ms\":'', show_nat e, ''}'']"
  have eq: "result_suffix c b e = concat (?parts c b e)" for c b e
    by (simp add: result_suffix_def)
  have ok: "\<forall>x \<in> set (?parts c b e). x \<noteq> [] \<and> ascii_start x" for c b e
    using show_nat_digits by simp
  have "weight (result_suffix c b e) = sum_list (map weight (?parts c b e))" for c b e
    unfolding eq by (rule weight_concat) (rule ok)
  with assms t show ?thesis
    by (simp add: weight_show_nat add_mono length_show_nat_mono)
qed

section \<open>What a query returns\<close>

text \<open>The result with the header reserved for it: the bytes counted by \<open>used\<close>.\<close>

definition counted :: "nat \<Rightarrow> result \<Rightarrow> nat" where
  "counted rowLimit r =
     resultBytes [] + weight (result_prefix r) + weight (commas (map json_row (r_rows r)))
       + weight (result_suffix rowLimit False max_int64)"

lemma counted_reserve: "r_rows r = [] \<Longrightarrow> \<not> r_truncated r \<Longrightarrow> counted rowLimit r = reserve rowLimit r"
  by (simp add: counted_def reserve_def resultBytes_weight [of "json_result _"] weight_result result_prefix_def)

lemma counted_row:
  "counted rowLimit (r\<lparr>r_rows := r_rows r @ [row]\<rparr>) = counted rowLimit r + row_cost (r_rows r) row"
proof -
  have "ascii_start (json_row row)" by (simp add: json_row_def json_list_def)
  then show ?thesis
    by (simp add: counted_def row_cost_weight weight_commas_snoc result_prefix_def)
qed

lemma payload_counted:
  assumes "length (r_rows r) \<le> rowLimit" and "elapsed \<le> max_int64"
  shows "QueryPayloadSize (finish elapsed r) \<le> counted rowLimit r"
  using weight_suffix_mono [OF assms, of "r_truncated r"]
  by (simp add: QueryPayloadSize_def resultBytes_weight [of "json_result _"] weight_result counted_def
      finish_def result_prefix_def)

text \<open>The rows in the result are the first rows of the answer, decoded.\<close>

definition row_read :: "(nat \<Rightarrow> bytes option \<Rightarrow> cell res) \<Rightarrow> nat list \<Rightarrow> bytes option list \<Rightarrow> cell list \<Rightarrow> bool" where
  "row_read dec oids raw row \<longleftrightarrow> length raw = length oids \<and> decode_row dec oids raw = Inr row"

text \<open>A complete answer: no error, or the discard of a truncated one.\<close>

definition complete_answer :: "execution \<Rightarrow> bool" where
  "complete_answer x \<longleftrightarrow> x_err x = None \<or> x_err x = Some (Sentinel Pg_ResultDiscarded)"

definition keeps_budget :: "nat \<Rightarrow> nat \<Rightarrow> result \<Rightarrow> bool" where
  "keeps_budget maxBytes rowLimit r \<longleftrightarrow>
     length (r_rows r) \<le> rowLimit \<and> (maxBytes = 0 \<or> QueryPayloadSize r \<le> maxBytes)"

lemma finish_budget:
  assumes "length (r_rows out) \<le> rowLimit" and "elapsed \<le> max_int64"
    and "maxBytes = 0 \<or> counted rowLimit out \<le> maxBytes"
  shows "keeps_budget maxBytes rowLimit (finish elapsed out)"
    and "keeps_budget maxBytes rowLimit (truncate elapsed out)"
proof -
  have "counted rowLimit (out\<lparr>r_truncated := True\<rparr>) = counted rowLimit out"
    by (simp add: counted_def result_prefix_def)
  then have "keeps_budget maxBytes rowLimit (finish elapsed out')"
    if "out' = out \<or> out' = out\<lparr>r_truncated := True\<rparr>" for out'
    using that assms payload_counted [of out' rowLimit elapsed]
    by (auto simp: keeps_budget_def finish_def)
  then show "keeps_budget maxBytes rowLimit (finish elapsed out)"
    "keeps_budget maxBytes rowLimit (truncate elapsed out)"
    by (auto simp: truncate_def)
qed

text \<open>What the loop returns from a state that keeps the budget.\<close>

definition good_fetch :: "(nat \<Rightarrow> bytes option \<Rightarrow> cell res) \<Rightarrow> nat list \<Rightarrow> nat \<Rightarrow> nat \<Rightarrow> result
    \<Rightarrow> bytes option list list \<Rightarrow> execution \<Rightarrow> bool" where
  "good_fetch dec oids maxBytes rowLimit out rest x \<longleftrightarrow>
     (complete_answer x \<longrightarrow>
        keeps_budget maxBytes rowLimit (x_out x) \<and>
        r_row_count (x_out x) = length (r_rows (x_out x)) \<and>
        (\<exists>rows. r_rows (x_out x) = r_rows out @ rows \<and>
           list_all2 (row_read dec oids) (take (length rows) rest) rows \<and>
           (r_truncated (x_out x) \<longleftrightarrow> x_closed x) \<and>
           (r_truncated (x_out x) \<or> length rows = length rest) \<and>
           (r_truncated (x_out x) \<longleftrightarrow> x_err x \<noteq> None)))"

lemma good_fetch_step:
  assumes "good_fetch dec oids maxBytes rowLimit (out\<lparr>r_rows := r_rows out @ [row]\<rparr>) rest x"
    and "row_read dec oids raw row"
  shows "good_fetch dec oids maxBytes rowLimit out (raw # rest) x"
  unfolding good_fetch_def
proof
  assume "complete_answer x"
  with assms(1) obtain rows where r: "keeps_budget maxBytes rowLimit (x_out x)"
    "r_row_count (x_out x) = length (r_rows (x_out x))"
    "r_rows (x_out x) = r_rows out @ row # rows"
    "list_all2 (row_read dec oids) (take (length rows) rest) rows"
    "r_truncated (x_out x) \<longleftrightarrow> x_closed x" "r_truncated (x_out x) \<or> length rows = length rest"
    "r_truncated (x_out x) \<longleftrightarrow> x_err x \<noteq> None"
    unfolding good_fetch_def by auto
  with assms(2) show "keeps_budget maxBytes rowLimit (x_out x) \<and>
        r_row_count (x_out x) = length (r_rows (x_out x)) \<and>
        (\<exists>rows. r_rows (x_out x) = r_rows out @ rows \<and>
           list_all2 (row_read dec oids) (take (length rows) (raw # rest)) rows \<and>
           (r_truncated (x_out x) \<longleftrightarrow> x_closed x) \<and>
           (r_truncated (x_out x) \<or> length rows = length (raw # rest)) \<and>
           (r_truncated (x_out x) \<longleftrightarrow> x_err x \<noteq> None))"
    by (intro conjI exI [of _ "row # rows"]) simp_all
qed

lemma good_fetch_error:
  "e \<noteq> Sentinel Pg_ResultDiscarded \<Longrightarrow> good_fetch dec oids maxBytes rowLimit out rest \<lparr>x_out = o', x_err = Some e, x_closed = c\<rparr>"
  by (simp add: good_fetch_def complete_answer_def)

lemma codecError_not_discard: "codecError \<noteq> Sentinel Pg_ResultDiscarded"
  by (simp add: codecError_def Fail_def)

lemma decode_row_error:
  assumes "\<And>oid b e. dec oid b = Inl e \<Longrightarrow> e \<noteq> d"
  shows "decode_row dec oids bs = Inl e \<Longrightarrow> e \<noteq> d"
  using assms by (induction dec oids bs rule: decode_row.induct) (auto split: sum.splits)

lemma good_fetch_discard:
  assumes "length (r_rows out) \<le> rowLimit" and "elapsed \<le> max_int64"
    and "maxBytes = 0 \<or> counted rowLimit out \<le> maxBytes"
  shows "good_fetch dec oids maxBytes rowLimit out rest
     \<lparr>x_out = truncate elapsed out, x_err = Some e, x_closed = True\<rparr>"
  using finish_budget(2) [OF assms] unfolding good_fetch_def
  by (auto simp: truncate_def finish_def)

lemma fetch_good:
  assumes "a_elapsed ans \<le> max_int64"
    and "\<And>oid b e. dec oid b = Inl e \<Longrightarrow> e \<noteq> Sentinel Pg_ResultDiscarded"
    and "\<And>i e. a_ctx ans i = Some e \<Longrightarrow> e \<noteq> Sentinel Pg_ResultDiscarded"
    and "a_close ans \<noteq> Some (Sentinel Pg_ResultDiscarded)"
  shows "length (r_rows out) \<le> rowLimit \<Longrightarrow> \<not> r_truncated out \<Longrightarrow>
     maxBytes = 0 \<or> used = counted rowLimit out \<and> used \<le> maxBytes \<Longrightarrow>
     good_fetch dec oids maxBytes rowLimit out rest (fetch dec oids maxBytes rowLimit ans i used out rest)"
proof (induction rest arbitrary: i used out)
  case Nil
  then show ?case
    using finish_budget(1) [of out rowLimit "a_elapsed ans" maxBytes] assms(1,4)
    by (auto simp: good_fetch_def complete_answer_def finish_def)
next
  case (Cons raw rest)
  note discard = good_fetch_discard [of out rowLimit "a_elapsed ans" maxBytes, OF Cons.prems(1) assms(1)]
  show ?case
  proof (cases "\<exists>row. a_ctx ans i = None \<and> length (r_rows out) \<noteq> rowLimit \<and> length raw = length oids \<and>
      decode_row dec oids raw = Inr row")
    case False
    then show ?thesis
      using assms Cons.prems(3) discard good_fetch_error codecError_not_discard
        decode_row_error [of dec "Sentinel Pg_ResultDiscarded" oids raw]
      by (auto simp: Let_def split: option.splits sum.splits)
  next
    case True
    then obtain row where row: "a_ctx ans i = None" "length (r_rows out) < rowLimit"
      "length raw = length oids" "decode_row dec oids raw = Inr row"
      using Cons.prems(1) by auto
    then have read: "row_read dec oids raw row" by (simp add: row_read_def)
    let ?out = "out\<lparr>r_rows := r_rows out @ [row]\<rparr>"
    have next_ok: "good_fetch dec oids maxBytes rowLimit out (raw # rest)
        (fetch dec oids maxBytes rowLimit ans (Suc i) u ?out rest)"
      if "maxBytes = 0 \<or> u = counted rowLimit ?out \<and> u \<le> maxBytes" for u
      using that row Cons.prems by (intro good_fetch_step [OF Cons.IH read]) auto
    show ?thesis
      using row Cons.prems(3) discard good_fetch_error codecError_not_discard
        next_ok [of used] next_ok [of "used + row_cost (r_rows out) row"] counted_row [of rowLimit out row]
      by (auto simp: Let_def)
  qed
qed

definition server_ok :: "answer \<Rightarrow> bool" where
  "server_ok ans \<longleftrightarrow>
     a_elapsed ans \<le> max_int64 \<and>
     (\<forall>i. a_ctx ans i \<noteq> Some (Sentinel Pg_ResultDiscarded)) \<and>
     a_close ans \<noteq> Some (Sentinel Pg_ResultDiscarded)"

lemma result_columns_error: "result_columns types fs = Inl e \<Longrightarrow> e = codecError"
  by (induction types fs rule: result_columns.induct)
    (auto dest: representation_error split: if_splits sum.splits)

text \<open>
  C16.  Every result the executor returns keeps the row limit, and its complete tool payload
  (the JSON text, escaped a second time inside the text content, and the JSON itself) is
  within the profile's byte budget, although each row was only counted once.  The rows are
  the first rows of the answer, each decoded whole; the result says it is truncated exactly
  when rows may be missing, and then the connection has been closed.
\<close>

theorem executeQuery_budget:
  assumes "parser_ok pa" and "server_ok ans"
    and "executeQuery (decode pf pa types) types alias maxBytes described rowLimit ans = x"
    and "complete_answer x"
  shows "length (r_rows (x_out x)) \<le> rowLimit \<and>
    (maxBytes = 0 \<or> QueryPayloadSize (x_out x) \<le> maxBytes) \<and>
    r_row_count (x_out x) = length (r_rows (x_out x)) \<and>
    list_all2 (row_read (decode pf pa types) (map snd described))
      (take (length (r_rows (x_out x))) (a_rows ans)) (r_rows (x_out x)) \<and>
    (r_truncated (x_out x) \<or> length (r_rows (x_out x)) = length (a_rows ans)) \<and>
    (r_truncated (x_out x) \<longleftrightarrow> x_closed x)"
proof -
  have res: "Fail c m b \<noteq> Sentinel s" for c m b s by (simp add: Fail_def)
  from assms(2,3,4) obtain cols used where cols: "result_columns types described = Inr cols"
    and used: "used = reserve rowLimit \<lparr>r_connection = alias, r_columns = cols, r_rows = [], r_row_count = 0, r_truncated = False, r_elapsed = 0\<rparr>"
    "maxBytes = 0 \<or> used \<le> maxBytes"
    and x: "x = fetch (decode pf pa types) (map snd described) maxBytes rowLimit ans 0 used
      \<lparr>r_connection = alias, r_columns = cols, r_rows = [], r_row_count = 0, r_truncated = False, r_elapsed = 0\<rparr> (a_rows ans)"
    using codecError_not_discard res
    by (auto simp: executeQuery_def Let_def complete_answer_def server_ok_def dest!: result_columns_error split: sum.splits if_splits option.splits)
  let ?out = "\<lparr>r_connection = alias, r_columns = cols, r_rows = [], r_row_count = 0, r_truncated = False, r_elapsed = 0\<rparr>"
  have "good_fetch (decode pf pa types) (map snd described) maxBytes rowLimit ?out (a_rows ans) x"
    unfolding x
  proof (rule fetch_good)
    show "e \<noteq> Sentinel Pg_ResultDiscarded" if "decode pf pa types oid b = Inl e" for oid b e
      using decode_error [OF assms(1) that] codecError_not_discard by simp
  qed (use assms(2) used counted_reserve [of ?out rowLimit] in \<open>auto simp: server_ok_def\<close>)
  with assms(4) show ?thesis
    by (auto simp: good_fetch_def keeps_budget_def)
qed

definition text_type :: rtypes where
  "text_type = [(25, \<lparr>t_base = 0, t_element = 0, t_name = ''text'', t_delimiter = CHR '','', t_plan = None\<rparr>)]"

definition one_row :: answer where
  "one_row = \<lparr>a_fields = [(''a'', 25, 0)], a_rows = [[Some ''x'']], a_close = None, a_ctx = (\<lambda>_. None), a_elapsed = 3\<rparr>"

definition header_only :: result where
  "header_only = \<lparr>r_connection = ''db'', r_columns = [\<lparr>c_name = ''a'', c_type = ''text'', c_encoding = []\<rparr>],
     r_rows = [], r_row_count = 0, r_truncated = False, r_elapsed = 0\<rparr>"

theorem executeQuery_budget_witness:
  "QueryPayloadSize (truncate 3 header_only) \<le> reserve 5 header_only \<and>
   executeQuery (decode (\<lambda>_ _. None) two_elements text_type) text_type ''db'' (reserve 5 header_only)
     [(''a'', 25)] 5 one_row =
   \<lparr>x_out = truncate 3 header_only, x_err = Some (Sentinel Pg_ResultDiscarded), x_closed = True\<rparr>"
proof -
  have cols: "result_columns text_type [(''a'', 25)] = Inr [\<lparr>c_name = ''a'', c_type = ''text'', c_encoding = []\<rparr>]"
    by code_simp
  have row: "decode_row (decode (\<lambda>_ _. None) two_elements text_type) [25] [Some ''x''] = Inr [CStr ''x'']"
    by code_simp
  have cost: "row_cost [] [CStr ''x''] > 0" by code_simp
  have pos: "reserve 5 header_only > 0" by (simp add: reserve_def resultBytes_def)
  have ok: "parser_ok two_elements" by (simp add: parser_ok_def two_elements_def)
  have x: "executeQuery (decode (\<lambda>_ _. None) two_elements text_type) text_type ''db'' (reserve 5 header_only)
     [(''a'', 25)] 5 one_row =
     \<lparr>x_out = truncate 3 header_only, x_err = Some (Sentinel Pg_ResultDiscarded), x_closed = True\<rparr>"
    using cols row cost pos by (simp add: executeQuery_def Let_def one_row_def header_only_def)
  have "3 \<le> max_int64" by (simp add: max_int64_def)
  then have s: "server_ok one_row" by (simp add: server_ok_def one_row_def)
  from executeQuery_budget [OF ok s x] pos
  have "QueryPayloadSize (truncate 3 header_only) \<le> reserve 5 header_only"
    by (simp add: complete_answer_def)
  with x show ?thesis by blast
qed

section \<open>Query\<close>

record query_request =
  q_sql :: bytes
  q_parameters :: "bytes list"
  q_row_limit :: int

text \<open>
  The checks \<open>Query\<close> makes before it connects; \<open>parse\<close> is the SQL parser and \<open>expired\<close> the
  error of the context.
\<close>

definition query_plan :: "(bytes \<Rightarrow> msg option) \<Rightarrow> goerr option \<Rightarrow> nat \<Rightarrow> query_request \<Rightarrow>
    (nat \<times> bytes option list) res" where
  "query_plan parse expired maxRows req =
     (case expired of
        Some e \<Rightarrow> Inl (safeError e)
      | None \<Rightarrow>
          if q_row_limit req < 0 \<or> q_row_limit req > int maxRows then
            Inl (Fail InvalidArgument ''row limit exceeds profile bounds'' False)
          else
            (case queryParameters (q_parameters req) of
               Inl e \<Rightarrow> Inl e
             | Inr params \<Rightarrow>
                 (case Check parse (q_sql req) of
                    Reject e \<Rightarrow> Inl e
                  | Panic \<Rightarrow> Inl (Other ''panic'')
                  | Accept \<Rightarrow> Inr (if q_row_limit req \<noteq> 0 then nat (q_row_limit req) else maxRows, params))))"

end
