(* ===== verification/Json_Text.thy ===== *)
theory Json_Text
  imports Codec
begin

text \<open>
  A valid UTF-8 document parses to a value whose strings are valid UTF-8 and whose numbers
  are read whole, so that printing the value and parsing it again gives the same value.
\<close>

lemma utf8_ascii_Cons: "byte_of c < 128 \<Longrightarrow> utf8_valid (c # cs) = utf8_valid cs"
  by (simp add: rune_rest_ascii)

lemma utf8_two: "2 \<le> a \<Longrightarrow> a < 32 \<Longrightarrow> b < 64 \<Longrightarrow> utf8_valid [char_of (192 + a :: nat), char_of (128 + b :: nat)]"
  by (simp add: rune_rest.simps cont_def in_range_def of_char_of Let_def)

lemma utf8_three:
  "a < 16 \<Longrightarrow> b < 64 \<Longrightarrow> c < 64 \<Longrightarrow> a = 0 \<longrightarrow> 32 \<le> b \<Longrightarrow> a = 13 \<longrightarrow> b < 32 \<Longrightarrow>
     utf8_valid [char_of (224 + a :: nat), char_of (128 + b :: nat), char_of (128 + c :: nat)]"
  by (auto simp: rune_rest.simps cont_def in_range_def of_char_of Let_def)

lemma utf8_four:
  "a < 5 \<Longrightarrow> b < 64 \<Longrightarrow> c < 64 \<Longrightarrow> d < 64 \<Longrightarrow> a = 0 \<longrightarrow> 16 \<le> b \<Longrightarrow> a = 4 \<longrightarrow> b < 16 \<Longrightarrow>
     utf8_valid [char_of (240 + a :: nat), char_of (128 + b :: nat), char_of (128 + c :: nat), char_of (128 + d :: nat)]"
  by (auto simp: rune_rest.simps cont_def in_range_def of_char_of Let_def)

lemma digit_split: "(n :: nat) = b * (n div b) + n mod b"
  by simp

lemma utf8_encode_valid:
  assumes "n < 1114112" and "\<not> is_surrogate n"
  shows "utf8_valid (utf8_encode n)"
proof -
  consider "n < 128" | "128 \<le> n" "n < 2048" | "2048 \<le> n" "n < 65536" | "65536 \<le> n" by linarith
  then show ?thesis
  proof cases
    case 1
    then show ?thesis by (simp add: utf8_encode_def rune_rest_ascii of_char_of)
  next
    case 2
    then have "2 \<le> n div 64" "n div 64 < 32"
      using div_le_mono [of 128 n 64] by (simp_all add: less_mult_imp_div_less)
    with 2 show ?thesis using utf8_two [of "n div 64" "n mod 64"] by (simp add: utf8_encode_def del: utf8_valid.simps)
  next
    case 3
    define q where "q = n div 64"
    have q: "n = 64 * q + n mod 64" "n mod 64 < 64" unfolding q_def by (rule digit_split) simp
    have d: "q = 64 * (q div 64) + q mod 64" "q mod 64 < 64" by (rule digit_split) simp
    have "q div 64 < 16" using 3 q d by linarith
    moreover have "q div 64 = 0 \<longrightarrow> 32 \<le> q mod 64" using 3 q d by linarith
    moreover have "q div 64 = 13 \<longrightarrow> q mod 64 < 32"
    proof
      assume "q div 64 = 13"
      then have "53248 \<le> n" "n < 57344" using q d by linarith+
      then have "n < 55296" using assms(2) by (simp add: is_surrogate_def)
      with \<open>q div 64 = 13\<close> show "q mod 64 < 32" using q d by linarith
    qed
    moreover have "n div 4096 = q div 64" by (simp add: q_def div_mult2_eq [symmetric])
    ultimately show ?thesis
      using 3 utf8_three [of "q div 64" "q mod 64" "n mod 64"]
      by (simp add: utf8_encode_def q_def del: utf8_valid.simps)
  next
    case 4
    define q where "q = n div 64"
    define p where "p = q div 64"
    have q: "n = 64 * q + n mod 64" "n mod 64 < 64" unfolding q_def by (rule digit_split) simp
    have r: "q = 64 * p + q mod 64" "q mod 64 < 64" unfolding p_def by (rule digit_split) simp
    have d: "p = 64 * (p div 64) + p mod 64" "p mod 64 < 64" by (rule digit_split) simp
    have "p div 64 < 5" using assms(1) q r d by linarith
    moreover have "p div 64 = 0 \<longrightarrow> 16 \<le> p mod 64" using 4 q r d by linarith
    moreover have "p div 64 = 4 \<longrightarrow> p mod 64 < 16" using assms(1) q r d by linarith
    moreover have "n div 262144 = p div 64" "n div 4096 = p"
      by (simp_all add: p_def q_def div_mult2_eq [symmetric])
    ultimately show ?thesis
      using 4 utf8_four [of "p div 64" "p mod 64" "q mod 64" "n mod 64"]
      by (simp add: utf8_encode_def q_def del: utf8_valid.simps)
  qed
qed

lemma hex4_bound: "hex4 a b c d = Some n \<Longrightarrow> n < 65536 \<and> (\<forall>x \<in> {a, b, c, d}. byte_of x < 128)"
proof -
  have "x < 16 \<and> byte_of h < 128" if "hex_val h = Some x" for h x
    using that by (auto simp: hex_val_def in_range_def split: if_splits)
  note digit = this
  assume "hex4 a b c d = Some n"
  then obtain w x y z where h: "hex_val a = Some w" "hex_val b = Some x" "hex_val c = Some y" "hex_val d = Some z"
    "n = 4096 * w + 256 * x + 16 * y + z"
    by (auto simp: hex4_def split: option.splits)
  with digit [OF h(1)] digit [OF h(2)] digit [OF h(3)] digit [OF h(4)]
  show "n < 65536 \<and> (\<forall>x \<in> {a, b, c, d}. byte_of x < 128)" by auto
qed

lemma utf8_replacement: "utf8_valid (utf8_encode 65533)"
  by (rule utf8_encode_valid) (simp_all add: is_surrogate_def)

lemma unquote_low:
  "56320 \<le> m \<Longrightarrow> m < 57344 \<Longrightarrow> unquote (Esc m # us) = utf8_encode 65533 @ unquote us"
  by (cases "Esc m # us" rule: unquote.cases) (auto simp: is_surrogate_def)

lemma unquote_Esc_utf8:
  assumes "n < 65536" and "utf8_valid (unquote us)"
  shows "utf8_valid (unquote (Esc n # us))"
proof (cases "is_surrogate n")
  case False
  with assms show ?thesis
    by (simp add: unquote_Esc utf8_valid_append utf8_encode_valid)
next
  case True
  show ?thesis
  proof (cases "\<exists>m r. us = Esc m # r \<and> n < 56320 \<and> 56320 \<le> m \<and> m < 57344")
    case T: True
    then obtain m r where r: "us = Esc m # r" "n < 56320" "56320 \<le> m" "m < 57344" by blast
    then have "utf8_valid (unquote r)"
      using assms(2) by (simp add: unquote_low utf8_valid_append utf8_replacement)
    moreover have "utf8_valid (utf8_encode (65536 + (n - 55296) * 1024 + (m - 56320)))"
      using r True by (intro utf8_encode_valid) (auto simp: is_surrogate_def)
    ultimately show ?thesis using r True by (simp add: utf8_valid_append)
  next
    case False
    with True have "unquote (Esc n # us) = utf8_encode 65533 @ unquote us"
      by (cases "Esc n # us" rule: unquote.cases) auto
    with assms(2) show ?thesis by (simp add: utf8_valid_append utf8_replacement)
  qed
qed

lemma rune_rest_local:
  "rune_rest c cs = Some r \<Longrightarrow> \<exists>w. cs = w @ r \<and> (\<forall>x. rune_rest c (w @ x) = Some x)"
proof -
  assume a: "rune_rest c cs = Some r"
  consider "cs = r" | a1 where "cs = [a1] @ r" | a1 a2 where "cs = [a1, a2] @ r" | a1 a2 a3 where "cs = [a1, a2, a3] @ r"
    using a by (auto simp: rune_rest.simps Let_def split: if_splits list.splits)
  moreover have "rune_rest c (w @ x) = Some x" if "cs = w @ r" "w \<in> {[]} \<or> length w \<le> 3" for w x
    using a that
    by (auto simp: rune_rest.simps Let_def append_eq_Cons_conv Cons_eq_append_conv split: if_splits list.splits)
  ultimately show ?thesis by (metis append_Nil insertI1 length_Cons length_0_conv le_refl Suc_le_mono zero_le numeral_3_eq_3)
qed

lemma utf8_rune:
  assumes "rune_rest c cs = Some r" and "c # cs = u @ r"
  shows "utf8_valid (u @ x) = utf8_valid x"
proof -
  obtain w where w: "cs = w @ r" "\<forall>x. rune_rest c (w @ x) = Some x"
    using rune_rest_local [OF assms(1)] by blast
  with assms(2) have "u = c # w" by (metis append_Cons append_same_eq)
  with w(2) show ?thesis by simp
qed

lemma lex_string_utf8:
  "utf8_valid s \<Longrightarrow> lex_string s = Some (us, t) \<Longrightarrow> utf8_valid (unquote us) \<and> utf8_valid t"
proof (induction "length s" arbitrary: s us t rule: less_induct)
  case less
  then obtain c cs where s: "s = c # cs" by (cases s) auto
  show ?case
  proof (cases "byte_of c < 128")
    case False
    with less.prems(1) s obtain r where r: "rune_rest c cs = Some r" "utf8_valid r" by (auto split: option.splits)
    obtain u where u: "c # cs = u @ r" "\<forall>x \<in> set u. 128 \<le> byte_of x"
      "take (Suc (length cs) - length r) (c # cs) = u"
      using rune_rest_split [OF r(1) False] by blast
    with less.prems(2) s obtain us' where us': "lex_string r = Some (us', t)" "us = map Raw u @ us'"
      by (auto simp: lex_string_high [OF u(2)])
    have "length r < length s" using rune_rest_length [OF r(1)] s by simp
    from less.hyps [OF this r(2) us'(1)] us'(2) utf8_rune [OF r(1) u(1)] show ?thesis by simp
  next
    case True
    then have cs: "utf8_valid cs" using less.prems(1) s by (simp add: utf8_ascii_Cons del: utf8_valid.simps)
    consider (close) "byte_of c = 34" | (u) "byte_of c = 92" "hd cs = CHR ''u''"
      | (esc) "byte_of c = 92" "hd cs \<noteq> CHR ''u''" | (raw) "32 \<le> byte_of c" "byte_of c \<noteq> 34" "byte_of c \<noteq> 92"
      using less.prems(2) s by (auto split: if_splits)
    then show ?thesis
    proof cases
      case close
      with less.prems(2) s cs show ?thesis by auto
    next
      case u
      with less.prems(2) s obtain a b d e r n us' where r: "cs = CHR ''u'' # a # b # d # e # r" "hex4 a b d e = Some n"
        "lex_string r = Some (us', t)" "us = Esc n # us'"
        by (auto split: list.splits option.splits)
      have h: "n < 65536" "\<forall>x \<in> {a, b, d, e}. byte_of x < 128" using hex4_bound [OF r(2)] by auto
      then have "utf8_valid r" using cs r(1) by (simp add: utf8_ascii_Cons del: utf8_valid.simps)
      moreover have "length r < length s" using r(1) s by simp
      ultimately have "utf8_valid (unquote us')" "utf8_valid t" using less.hyps r(3) by blast+
      with h(1) r(4) show ?thesis by (simp add: unquote_Esc_utf8 del: unquote.simps)
    next
      case esc
      with less.prems(2) s obtain e r x us' where r: "cs = e # r" "simple_escape e = Some x"
        "lex_string r = Some (us', t)" "us = Raw x # us'"
        by (auto split: list.splits option.splits)
      have h: "byte_of e < 128 \<and> byte_of x < 128"
        using r(2) by (auto simp: simple_escape_def of_char_of split: if_splits)
      then have "utf8_valid r" using cs r(1) by (simp add: utf8_ascii_Cons del: utf8_valid.simps)
      moreover have "length r < length s" using r(1) s by simp
      ultimately have "utf8_valid (unquote us')" "utf8_valid t" using less.hyps r(3) by blast+
      with h r(4) show ?thesis by (simp add: utf8_ascii_Cons del: utf8_valid.simps)
    next
      case raw
      with less.prems(2) s obtain us' where r: "lex_string cs = Some (us', t)" "us = Raw c # us'"
        by (auto split: if_splits)
      moreover have "length cs < length s" using s by simp
      ultimately have "utf8_valid (unquote us')" "utf8_valid t" using less.hyps cs by blast+
      with True r(2) show ?thesis by (simp add: utf8_ascii_Cons del: utf8_valid.simps)
    qed
  qed
qed

lemma lex_one_utf8:
  assumes "utf8_valid s" and "lex_one s = Some (l, t)"
  shows "printable_lexeme l \<and> utf8_valid t"
  using assms(2)
proof (cases rule: lex_one_cases)
  case (fixed w)
  then have "\<forall>c \<in> set w. byte_of c < 128" "printable_lexeme l" by (auto simp: fixed_words_def)
  with fixed(2) assms(1) show ?thesis using utf8_valid_append [OF utf8_valid_ascii] by blast
next
  case (str cs us)
  with assms(1) lex_string_utf8 [of cs us t] show ?thesis by (simp add: utf8_ascii_Cons del: utf8_valid.simps)
next
  case (num n)
  from lex_number_local [OF num(1)] have n: "s = n @ t" "lex_number n = Some (n, [])" "\<forall>c \<in> set n. number_char c" by auto
  have "byte_of c < 128" if "number_char c" for c
    using that by (auto simp: number_char_def is_digit_def in_range_def)
  with n assms(1) num(2) show ?thesis using utf8_valid_append [OF utf8_valid_ascii, of n t] by auto
qed

lemma utf8_dropWhile: "utf8_valid (dropWhile is_ws s) = utf8_valid s"
proof (induction s)
  case (Cons c s)
  have "is_ws c \<Longrightarrow> byte_of c < 128" by (auto simp: is_ws_def)
  with Cons show ?case by (simp add: utf8_ascii_Cons del: utf8_valid.simps)
qed simp

lemma lex_json_utf8: "utf8_valid s \<Longrightarrow> lex_json s = Some ls \<Longrightarrow> list_all printable_lexeme ls"
proof (induction s arbitrary: ls rule: lex_json.induct)
  case (1 s)
  show ?case
  proof (cases "dropWhile is_ws s")
    case Nil
    with "1.prems"(2) show ?thesis by (simp only: lex_json_blank) simp
  next
    case (Cons c cs)
    with "1.prems"(2) obtain l t r where l: "lex_one (c # cs) = Some (l, t)" "lex_json t = Some r" "ls = l # r"
      by (auto simp: lex_json.simps [of s] split: option.splits)
    have "utf8_valid (c # cs)" using "1.prems"(1) Cons utf8_dropWhile [of s] by simp
    then have "printable_lexeme l" "utf8_valid t" using lex_one_utf8 l(1) by blast+
    with "1.IH" [OF Cons l(1) refl _ l(2)] l(3) show ?thesis by simp
  qed
qed

lemma subset_join: "x \<in> set xs \<Longrightarrow> set x \<subseteq> set (join xs)"
  by (induction xs rule: join.induct) auto

lemma written_printable: "list_all printable_lexeme (written v) \<Longrightarrow> printable v"
proof (induction v)
  case (JArr vs)
  then show ?case using subset_join [of _ "map written vs"] by (fastforce simp: list_all_iff)
next
  case (JObj ms)
  have "utf8_valid k \<and> printable v" if "(k, v) \<in> set ms" for k v
    using that JObj subset_join [of "member_written (k, v)" "map member_written ms"]
    by (fastforce simp: list_all_iff)
  then show ?case by (auto simp: list_all_iff)
qed auto

lemma json_parse_printable:
  assumes "utf8_valid b" and "json_parse b = Some v"
  shows "printable v"
proof -
  from assms(2) obtain ls where "lex_json b = Some ls" "ls = written v"
    using json_value_written by (auto simp: json_parse_def bind_eq_Some_conv)
  with lex_json_utf8 [OF assms(1)] show ?thesis by (auto intro: written_printable)
qed

section \<open>Printed text is valid UTF-8\<close>

lemma hex_digit_ascii: "n < 16 \<Longrightarrow> byte_of (hex_digit n) < 128"
  by (simp add: hex_digit_def of_char_of)

lemma u_escape_ascii: "n < 65536 \<Longrightarrow> \<forall>c \<in> set (u_escape n). byte_of c < 128"
  by (simp add: u_escape_def hex_digit_ascii less_mult_imp_div_less)

lemma escape_ascii_ascii: "byte_of c < 128 \<Longrightarrow> \<forall>x \<in> set (escape_ascii c). byte_of x < 128"
  using u_escape_ascii [of "byte_of c"] by (auto simp: escape_ascii_def short_escape_def)

lemma utf8_escape: "utf8_valid s \<Longrightarrow> utf8_valid (escape s)"
proof (induction s rule: escape.induct)
  case (2 c cs)
  show ?case
  proof (cases "byte_of c < 128")
    case True
    with 2 have "utf8_valid (escape cs)" by (simp add: utf8_ascii_Cons del: utf8_valid.simps)
    moreover have "utf8_valid (escape_ascii c)" using escape_ascii_ascii [OF True] by (rule utf8_valid_ascii)
    ultimately show ?thesis using True by (simp add: escape.simps(2) utf8_valid_append)
  next
    case False
    with 2 obtain r where r: "rune_rest c cs = Some r" "utf8_valid r" by (auto split: option.splits)
    obtain u where u: "c # cs = u @ r" "take (Suc (length cs) - length r) (c # cs) = u"
      using rune_rest_split [OF r(1) False] by blast
    have IH: "utf8_valid (escape r)" using 2 False r by auto
    have "utf8_valid (escape_rune u @ escape r)"
    proof (cases "escape_rune u = u")
      case True
      then show ?thesis using IH utf8_rune [OF r(1) u(1)] by simp
    next
      case esc: False
      have "utf8_valid (u_escape 8232)" "utf8_valid (u_escape 8233)"
        by (rule utf8_valid_ascii, rule u_escape_ascii, simp)+
      with esc have "utf8_valid (escape_rune u)" by (auto simp: escape_rune_def split: if_splits)
      then show ?thesis using IH by (simp add: utf8_valid_append)
    qed
    with False r(1) u(2) show ?thesis by (simp add: escape.simps(2) del: utf8_valid.simps)
  qed
qed simp

lemma utf8_concat: "\<forall>x \<in> set xs. utf8_valid x \<Longrightarrow> utf8_valid (concat xs)"
  by (induction xs) (auto simp: utf8_valid_append)

lemma utf8_show_lexeme: "printable_lexeme l \<Longrightarrow> utf8_valid (show_lexeme l)"
proof (cases l)
  case (LStr s)
  assume "printable_lexeme l"
  with LStr have "utf8_valid (escape s)" by (simp add: utf8_escape)
  moreover have "utf8_valid [quote]" by (simp add: rune_rest_ascii)
  ultimately show ?thesis using LStr by (simp add: utf8_ascii_Cons utf8_valid_append del: utf8_valid.simps)
next
  case (LNum n)
  assume "printable_lexeme l"
  with LNum have "\<forall>c \<in> set n. number_char c" using lex_number_local(3) [of n n "[]"] by simp
  then have "\<forall>c \<in> set n. byte_of c < 128" by (auto simp: number_char_def is_digit_def in_range_def)
  with LNum show ?thesis by (simp add: utf8_valid_ascii)
qed (auto simp: rune_rest_ascii)

lemma utf8_marshal: "printable v \<Longrightarrow> utf8_valid (marshal v)"
  unfolding marshal_def using printable_written utf8_show_lexeme by (intro utf8_concat) auto

section \<open>Documents that are printed\<close>

lemma nests_mono: "nests n v \<Longrightarrow> n \<le> m \<Longrightarrow> nests m v"
proof (induction v arbitrary: n m)
  case (JArr vs)
  from JArr.prems obtain k l where kl: "n = Suc k" "m = Suc l" "k \<le> l" by (cases n; cases m) auto
  have "nests l v" if "v \<in> set vs" for v
    using JArr.IH [OF that, of k l] JArr.prems kl that by (auto simp: list_all_iff)
  with kl show ?case by (simp add: list_all_iff)
next
  case (JObj ms)
  from JObj.prems obtain k l where kl: "n = Suc k" "m = Suc l" "k \<le> l" by (cases n; cases m) auto
  have "nests l v" if "(k', v) \<in> set ms" for k' v
    using JObj.IH [OF that, of v k l] JObj.prems kl that by (auto simp: list_all_iff)
  with kl show ?case by (auto simp: list_all_iff)
qed simp_all

lemma nests_levels: "nests n v \<Longrightarrow> levels n v"
proof (induction v arbitrary: n)
  case (JArr vs)
  from JArr.prems obtain k where k: "n = Suc k" by (cases n) auto
  have "levels k v" if "v \<in> set vs" for v
    using JArr.IH [OF that, of k] JArr.prems k that by (auto simp: list_all_iff)
  with k show ?case by (simp add: list_all_iff)
next
  case (JObj ms)
  from JObj.prems obtain k where k: "n = Suc k" by (cases n) auto
  have "levels k v" if "(k', v) \<in> set ms" for k' v
    using JObj.IH [OF that, of v k] JObj.prems k that by (auto simp: list_all_iff)
  with k show ?case by (auto simp: list_all_iff)
qed simp_all

lemma checkJSON_marshal:
  assumes "printable v" and "nests 64 v" and "dup_free v"
  shows "checkJSON (marshal v) 64 = None" and "json_parse (marshal v) = Some v"
proof -
  have "nests max_nesting v" using assms(2) by (rule nests_mono) (simp add: max_nesting_def)
  then show p: "json_parse (marshal v) = Some v" using assms(1) by (rule json_parse_marshal [rotated])
  show "checkJSON (marshal v) 64 = None"
    using p assms nests_levels [OF assms(2)] utf8_marshal [OF assms(1)] by (auto simp: checkJSON_iff)
qed

section \<open>Lower case\<close>

text \<open>\<open>strings.ToLower\<close> on the ASCII the schema admits in identifiers.\<close>

definition to_lower :: "bytes \<Rightarrow> bytes" where
  "to_lower s = map (\<lambda>c. if in_range 65 90 c then char_of (byte_of c + 32) else c) s"

lemma to_lower_idem: "to_lower (to_lower s) = to_lower s"
proof -
  have "\<not> in_range 65 90 (char_of (byte_of c + 32))" if "in_range 65 90 c" for c
    using that by (simp add: in_range_def of_char_of)
  then show ?thesis by (simp add: to_lower_def)
qed

lemma utf8_to_lower: "utf8_valid s \<Longrightarrow> utf8_valid (to_lower s)"
proof (induction s rule: utf8_valid.induct)
  case (2 c cs)
  show ?case
  proof (cases "byte_of c < 128")
    case True
    with 2 have "utf8_valid (to_lower cs)" by (simp add: rune_rest_ascii)
    moreover have "byte_of (if in_range 65 90 c then char_of (byte_of c + 32) else c) < 128"
      using True by (auto simp: in_range_def of_char_of)
    ultimately show ?thesis by (simp add: to_lower_def utf8_ascii_Cons del: utf8_valid.simps)
  next
    case False
    with 2 obtain r where r: "rune_rest c cs = Some r" "utf8_valid (to_lower r)" by (auto split: option.splits)
    obtain u where u: "c # cs = u @ r" "\<forall>x \<in> set u. 128 \<le> byte_of x"
      using rune_rest_split [OF r(1) False] by blast
    have "to_lower u = u"
      using u(2) by (auto simp: to_lower_def in_range_def intro!: map_idI)
    then have "to_lower (c # cs) = u @ to_lower r" by (simp only: u(1)) (simp add: to_lower_def)
    with utf8_rune [OF r(1) u(1)] r(2) show ?thesis by simp
  qed
qed (simp add: to_lower_def)

section \<open>Printed integers\<close>

lemma show_nat_first: "hd (show_nat n) = CHR ''0'' \<Longrightarrow> n = 0"
proof (induction n rule: show_nat.induct)
  case (1 n)
  show ?case
  proof (cases "n < 10")
    case True
    with "1.prems" have "byte_of (char_of (48 + n)) = byte_of (CHR ''0'')"
      by (simp add: show_nat.simps [of n])
    with True show ?thesis by (simp add: of_char_of)
  next
    case False
    with "1.prems" have "hd (show_nat (n div 10)) = CHR ''0''"
      using show_nat_digits [of "n div 10"] by (simp add: show_nat.simps [of n])
    with "1.IH" False show ?thesis by simp
  qed
qed

lemma lex_number_show_nat:
  "lex_int (show_nat n) = Some []"
proof -
  obtain c cs where c: "show_nat n = c # cs" "is_digit c" "list_all is_digit cs"
    using show_nat_digits [of n] by (cases "show_nat n") auto
  show ?thesis
  proof (cases "c = CHR ''0''")
    case True
    with c show_nat_first [of n] have "n = 0" by simp
    then have "show_nat n = [CHR ''0'']" by (simp add: show_nat.simps char_of_def bit_0)
    then show ?thesis by (simp add: lex_int_def)
  next
    case False
    moreover have "dropWhile is_digit cs = []" using c(3) by (simp add: list_all_iff)
    ultimately show ?thesis using c
      by (simp add: lex_int_def digits1_def del: dropWhile_eq_Nil_conv)
  qed
qed

lemma lex_number_show_int: "lex_number (show_int n) = Some (show_int n, [])"
proof -
  obtain c cs where c: "show_nat (nat \<bar>n\<bar>) = c # cs" "is_digit c"
    using show_nat_digits [of "nat \<bar>n\<bar>"] by (cases "show_nat (nat \<bar>n\<bar>)") auto
  then have "c \<noteq> CHR ''-''" by (auto simp: is_digit_def in_range_def)
  with c lex_number_show_nat [of "nat \<bar>n\<bar>"] show ?thesis
    by (auto simp: lex_number_def show_int_def lex_frac_def lex_exp_def)
qed

end
