(* ===== verification/Frames.thy ===== *)
theory Frames
  imports Prelude
begin

text \<open>
  Length-framed streams.  First the message-header observer of
  internal/database/postgres/wire.go, a state machine fed by reads of any size; then the
  four-byte framing of internal/service/management.go, stated as a channel interface with
  its roundtrip law and instantiated with the code's two functions.
\<close>

section \<open>Big-endian sizes\<close>

definition be32 :: "bytes \<Rightarrow> 32 word" where
  "be32 s = (case s of
     [a, b, c, d] \<Rightarrow> of_nat (byte_of a * 16777216 + byte_of b * 65536 + byte_of c * 256 + byte_of d)
   | _ \<Rightarrow> 0)"

definition put_be32 :: "32 word \<Rightarrow> bytes" where
  "put_be32 w =
     [char_of (unat w div 16777216), char_of (unat w div 65536 mod 256),
      char_of (unat w div 256 mod 256), char_of (unat w mod 256)]"

lemma put_be32_length [simp]: "length (put_be32 w) = 4"
  by (simp add: put_be32_def)

lemma unat_word32: "unat (w :: 32 word) < 4294967296"
proof -
  have "unat w < 2 ^ LENGTH(32)" by (rule unsigned_less)
  then show ?thesis by simp
qed

lemma base256:
  fixes n :: nat
  shows "n div 16777216 * 16777216 + n div 65536 mod 256 * 65536 + n div 256 mod 256 * 256
     + n mod 256 = n"
  using four_digits [of n 256] by (simp add: div_mult2_eq [symmetric])

lemma be32_put [simp]: "be32 (put_be32 w) = w"
proof -
  have "unat w div 16777216 < 256"
    using unat_word32 [of w] by (simp add: less_mult_imp_div_less)
  then show ?thesis
    using base256 [of "unat w"]
    by (simp add: be32_def put_be32_def of_char_of del: of_nat_add of_nat_mult)
qed

section \<open>The frame observer\<close>

text \<open>
  \<open>header\<close> is the part of the five-byte header read so far (\<open>r.header[:r.used]\<close>),
  \<open>remaining\<close> the unread length of the current body, at the width of the code.
\<close>

record wire =
  auth_started :: bool
  header :: bytes
  remaining :: "32 word"

definition new_wire :: wire where
  "new_wire = \<lparr>auth_started = False, header = [], remaining = 0\<rparr>"

text \<open>A complete header: type byte \<open>R\<close> starts authentication; the size starts the body.\<close>

definition end_header :: "wire \<Rightarrow> bytes \<Rightarrow> wire" where
  "end_header r h = r\<lparr>auth_started := auth_started r \<or> hd h = CHR ''R'', header := []\<rparr>"

definition bad_size :: "bytes \<Rightarrow> bool" where
  "bad_size h \<longleftrightarrow> be32 (tl h) < 4"

text \<open>
  \<open>frameReader.Read\<close> on the bytes one underlying read returned.  A size below four ends
  the call with the rest of the bytes unobserved.  \<open>used\<close> never reaches five between
  turns, which the first test of the equation states.
\<close>

function observe :: "wire \<Rightarrow> bytes \<Rightarrow> wire" where
  "observe r b =
     (if b = [] \<or> 5 \<le> length (header r) then r
      else if 0 < remaining r then
        (let take' = min (length b) (unat (remaining r)) in
         observe (r\<lparr>remaining := remaining r - of_nat take'\<rparr>) (drop take' b))
      else
        (let take' = min (length b) (5 - length (header r));
             h = header r @ take take' b in
         if length h = 5 then
           (if bad_size h then end_header r h
            else observe ((end_header r h)\<lparr>remaining := be32 (tl h) - 4\<rparr>) (drop take' b))
         else observe (r\<lparr>header := h\<rparr>) (drop take' b)))"
  by pat_completeness auto
termination
  by (relation "measure (length \<circ> snd)") (auto simp: word_gt_0 unat_gt_0 min_def)

declare observe.simps [simp del]

subsection \<open>Byte by byte\<close>

definition observe1 :: "wire \<Rightarrow> char \<Rightarrow> wire" where
  "observe1 r c =
     (if 0 < remaining r then r\<lparr>remaining := remaining r - 1\<rparr>
      else let h = header r @ [c] in
        if length h = 5 then (end_header r h)\<lparr>remaining := be32 (tl h) - 4\<rparr>
        else r\<lparr>header := h\<rparr>)"

text \<open>No header along the way announces a size below four.\<close>

fun sized :: "wire \<Rightarrow> bytes \<Rightarrow> bool" where
  "sized r [] = True"
| "sized r (c # cs) =
     (\<not> (remaining r = 0 \<and> length (header r) = 4 \<and> bad_size (header r @ [c])) \<and>
      sized (observe1 r c) cs)"

definition wire_ok :: "wire \<Rightarrow> bool" where
  "wire_ok r \<longleftrightarrow> length (header r) < 5"

lemma wire_ok_observe1 [simp]: "wire_ok r \<Longrightarrow> wire_ok (observe1 r c)"
  by (auto simp: observe1_def wire_ok_def end_header_def Let_def)

lemma foldl_body:
  "length b \<le> unat (remaining r) \<Longrightarrow>
     foldl observe1 r b = r\<lparr>remaining := remaining r - of_nat (length b)\<rparr>"
proof (induction b arbitrary: r)
  case (Cons c b)
  then have pos: "0 < remaining r" by (simp add: word_gt_0 unat_gt_0 [symmetric])
  then have "unat (remaining r - 1) = unat (remaining r) - 1"
    by (simp add: unat_minus_one word_gt_0)
  with Cons pos show ?case by (simp add: observe1_def algebra_simps)
qed simp

lemma foldl_header:
  "remaining r = 0 \<Longrightarrow> length (header r) + length b < 5 \<Longrightarrow>
     foldl observe1 r b = r\<lparr>header := header r @ b\<rparr>"
  by (induction b arbitrary: r) (auto simp: observe1_def Let_def)

lemma sized_append: "sized r (a @ b) \<longleftrightarrow> sized r a \<and> sized (foldl observe1 r a) b"
  by (induction a arbitrary: r) auto

lemma wire_ok_foldl: "wire_ok r \<Longrightarrow> wire_ok (foldl observe1 r b)"
  by (induction b arbitrary: r) auto

lemma foldl_full_header:
  assumes "remaining r = 0" and "length (header r) + length b = 5" and "b \<noteq> []"
  shows "foldl observe1 r b =
     (end_header r (header r @ b))\<lparr>remaining := be32 (tl (header r @ b)) - 4\<rparr>"
proof -
  obtain bs c where b: "b = bs @ [c]" using assms(3) by (metis rev_exhaust)
  then have "foldl observe1 r bs = r\<lparr>header := header r @ bs\<rparr>"
    using assms by (intro foldl_header) auto
  then show ?thesis using assms b by (simp add: observe1_def end_header_def Let_def)
qed

lemma sized_full_header:
  assumes "remaining r = 0" and "length (header r) + length b = 5" and "b \<noteq> []" and "sized r b"
  shows "\<not> bad_size (header r @ b)"
proof -
  obtain bs c where b: "b = bs @ [c]" using assms(3) by (metis rev_exhaust)
  then have "foldl observe1 r bs = r\<lparr>header := header r @ bs\<rparr>"
    using assms by (intro foldl_header) auto
  then show ?thesis using assms b by (auto simp: sized_append)
qed

text \<open>On sized input the reader is the fold of its bytes, so the chunks do not matter.\<close>

lemma observe_foldl: "wire_ok r \<Longrightarrow> sized r b \<Longrightarrow> observe r b = foldl observe1 r b"
proof (induction r b rule: observe.induct)
  case (1 r b)
  show ?case
  proof (cases "b = []")
    case False
    have used: "\<not> 5 \<le> length (header r)" using "1.prems"(1) by (simp add: wire_ok_def)
    show ?thesis
    proof (cases "0 < remaining r")
      case True
      let ?n = "min (length b) (unat (remaining r))"
      have t: "foldl observe1 r (take ?n b) = r\<lparr>remaining := remaining r - of_nat ?n\<rparr>"
        by (subst foldl_body) (auto simp: min_def)
      have "sized r (take ?n b @ drop ?n b)" using "1.prems"(2) by simp
      then have "sized (r\<lparr>remaining := remaining r - of_nat ?n\<rparr>) (drop ?n b)"
        by (simp only: sized_append t)
      moreover have "wire_ok (r\<lparr>remaining := remaining r - of_nat ?n\<rparr>)"
        using "1.prems"(1) by (simp add: wire_ok_def)
      ultimately have "observe r b = foldl observe1 (r\<lparr>remaining := remaining r - of_nat ?n\<rparr>) (drop ?n b)"
        using "1.IH"(1) False used True by (simp add: observe.simps [of r b] Let_def)
      also have "\<dots> = foldl observe1 r (take ?n b @ drop ?n b)" by (simp only: foldl_append t)
      finally show ?thesis by simp
    next
      case rem: False
      then have zero: "remaining r = 0" by (simp add: word_gt_0)
      let ?n = "min (length b) (5 - length (header r))"
      let ?h = "header r @ take ?n b"
      have len: "length (take ?n b) = ?n" by simp
      have split: "foldl observe1 r b = foldl observe1 (foldl observe1 r (take ?n b)) (drop ?n b)"
        by (metis append_take_drop_id foldl_append)
      have sz: "sized r (take ?n b)" "sized (foldl observe1 r (take ?n b)) (drop ?n b)"
        using "1.prems"(2) sized_append [of r "take ?n b" "drop ?n b"] by simp_all
      have ok: "wire_ok (foldl observe1 r (take ?n b))" using "1.prems"(1) by (rule wire_ok_foldl)
      show ?thesis
      proof (cases "length ?h = 5")
        case True
        then have full: "length (header r) + length (take ?n b) = 5" by simp
        have ne: "take ?n b \<noteq> []" using False used by simp
        note f = foldl_full_header [OF zero full ne] and g = sized_full_header [OF zero full ne sz(1)]
        show ?thesis
          using "1.IH"(2) [OF _ rem refl refl True g] False used sz(2) ok f g rem True
          by (simp add: observe.simps [of r b] Let_def split)
      next
        case short: False
        then have less: "length (header r) + length (take ?n b) < 5"
          using used by (auto simp: min_def split: if_splits)
        note f = foldl_header [OF zero less]
        have "observe r b = observe (r\<lparr>header := ?h\<rparr>) (drop ?n b)"
          using False used rem short by (simp add: observe.simps [of r b] Let_def)
        also have "\<dots> = foldl observe1 (r\<lparr>header := ?h\<rparr>) (drop ?n b)"
          using "1.IH"(3) [OF _ rem refl refl short] False used sz(2) ok unfolding f by simp
        also have "\<dots> = foldl observe1 r b" unfolding split f ..
        finally show ?thesis .
      qed
    qed
  qed (simp add: observe.simps)
qed

text \<open>A read returns what it returns; the state depends on the bytes, not on the reads.\<close>

lemma observe_chunks:
  "wire_ok r \<Longrightarrow> sized r (concat cs) \<Longrightarrow> foldl observe r cs = foldl observe1 r (concat cs)"
proof (induction cs arbitrary: r)
  case (Cons c cs)
  then have "sized r c" "sized (foldl observe1 r c) (concat cs)" by (simp_all add: sized_append)
  with Cons wire_ok_foldl [of r c] show ?case by (simp add: observe_foldl)
qed simp

subsection \<open>Streams of complete messages\<close>

text \<open>A backend message: its type byte, the size that counts itself, the body.\<close>

fun put_message :: "char \<times> bytes \<Rightarrow> bytes" where
  "put_message (t, body) = t # put_be32 (of_nat (length body + 4)) @ body"

abbreviation fits :: "char \<times> bytes \<Rightarrow> bool" where
  "fits m \<equiv> length (snd m) + 4 < 2 ^ 32"

lemma unat_of_nat32: "n < 4294967296 \<Longrightarrow> unat (of_nat n :: 32 word) = n"
  by (simp add: unat_of_nat)

lemma unat_size: "n + 4 < 2 ^ 32 \<Longrightarrow> unat (of_nat (n + 4) :: 32 word) = n + 4"
  by (rule unat_of_nat32) simp

lemma observe1_message:
  assumes "fits m" and "remaining r = 0" and "header r = []"
  shows "foldl observe1 r (put_message m) = r\<lparr>auth_started := auth_started r \<or> fst m = CHR ''R''\<rparr>
     \<and> sized r (put_message m)"
proof -
  obtain t body where m: "m = (t, body)" by force
  let ?h = "t # put_be32 (of_nat (length body + 4))"
  let ?r = "(end_header r ?h)\<lparr>remaining := of_nat (length body)\<rparr>"
  have size: "be32 (tl ?h) = of_nat (length body + 4)" by simp
  have four: "\<not> bad_size ?h"
    using assms(1) m unat_size [of "length body"] by (simp add: bad_size_def word_less_nat_alt)
  have head: "foldl observe1 r ?h = ?r"
    using foldl_full_header [of r ?h] assms(2,3) size by (simp add: algebra_simps)
  have body: "unat (of_nat (length body) :: 32 word) = length body"
    using assms(1) m by (intro unat_of_nat32) simp
  have tail: "foldl observe1 ?r body = ?r\<lparr>remaining := 0\<rparr>"
    by (subst foldl_body) (simp_all add: body)
  have sh: "sized r ?h"
    using four assms(2,3) by (simp add: put_be32_def observe1_def Let_def bad_size_def)
  have sb: "sized ?r b" if "length b \<le> length body" for b
    using that
  proof (induction b rule: rev_induct)
    case (snoc c b)
    have "foldl observe1 ?r b = ?r\<lparr>remaining := of_nat (length body) - of_nat (length b)\<rparr>"
      using snoc.prems by (subst foldl_body) (simp_all add: body)
    with snoc show ?case by (simp add: sized_append end_header_def)
  qed simp
  have whole: "put_message m = ?h @ body" by (simp add: m)
  have "sized r (put_message m)"
    unfolding whole sized_append head using sh sb [of body] by simp
  moreover have "foldl observe1 r (put_message m) = ?r\<lparr>remaining := 0\<rparr>"
    unfolding whole foldl_append head by (rule tail)
  ultimately show ?thesis
    using assms(2,3) by (simp add: m end_header_def)
qed

lemma observe1_messages:
  "list_all fits ms \<Longrightarrow> remaining r = 0 \<Longrightarrow> header r = [] \<Longrightarrow>
     foldl observe1 r (concat (map put_message ms)) =
       r\<lparr>auth_started := auth_started r \<or> (\<exists>m \<in> set ms. fst m = CHR ''R'')\<rparr>
     \<and> sized r (concat (map put_message ms))"
proof (induction ms arbitrary: r)
  case (Cons m ms)
  let ?r = "r\<lparr>auth_started := auth_started r \<or> fst m = CHR ''R''\<rparr>"
  have m: "foldl observe1 r (put_message m) = ?r" "sized r (put_message m)"
    using observe1_message [of m r] Cons.prems by simp_all
  have "foldl observe1 ?r (concat (map put_message ms)) =
       ?r\<lparr>auth_started := auth_started ?r \<or> (\<exists>m \<in> set ms. fst m = CHR ''R'')\<rparr>
     \<and> sized ?r (concat (map put_message ms))"
    using Cons.prems by (intro Cons.IH) auto
  with m show ?case by (simp add: sized_append disj_assoc del: put_message.simps)
qed simp

text \<open>
  C23. The diagnostic observer is right for any splitting of the stream into reads: after
  complete backend messages it is between messages again, and it says authentication has
  started exactly when one of them was of type \<open>R\<close>; bodies are never mistaken for headers.
\<close>

theorem observer_chunk_independent:
  assumes "list_all fits ms" and "concat cs = concat (map put_message ms)"
  shows "foldl observe new_wire cs =
     \<lparr>auth_started = (\<exists>m \<in> set ms. fst m = CHR ''R''), header = [], remaining = 0\<rparr>"
proof -
  have "foldl observe1 new_wire (concat (map put_message ms)) =
       new_wire\<lparr>auth_started := auth_started new_wire \<or> (\<exists>m \<in> set ms. fst m = CHR ''R'')\<rparr>
     \<and> sized new_wire (concat (map put_message ms))"
    using assms(1) by (intro observe1_messages) (auto simp: new_wire_def)
  moreover have "wire_ok new_wire" by (simp add: wire_ok_def new_wire_def)
  ultimately show ?thesis
    using observe_chunks [of new_wire cs] assms(2) by (simp add: new_wire_def)
qed

theorem observer_chunk_independent_witness:
  "foldl observe new_wire [''S'', put_be32 6 @ ''R'', ''RR'', put_be32 4] =
     \<lparr>auth_started = True, header = [], remaining = 0\<rparr>"
  using observer_chunk_independent
    [of "[(CHR ''S'', ''RR''), (CHR ''R'', [])]" "[''S'', put_be32 6 @ ''R'', ''RR'', put_be32 4]"]
  by simp

end
