(* ===== verification/Documents.thy ===== *)
theory Documents
  imports Json Frames
begin

text \<open>
  Internal documents and the frames that carry them: \<open>DecodeStrict\<close> of
  internal/config/storage.go, the four-byte framing of internal/service/management.go and
  the hello framing of internal/service/socket.go.  The typed decoding and the encoding of
  a Go struct by reflection are arguments (\<open>typed\<close>, \<open>marshal\<close>); a struct's json tags are
  given as its field names with their \<open>omitempty\<close> flag.  A reader is the bytes it will
  return before end of file; a writer takes every byte it is given.
\<close>

section \<open>DecodeStrict\<close>

fun containsNull :: "jval \<Rightarrow> bool" where
  "containsNull JNull = True"
| "containsNull (JArr vs) = list_ex containsNull vs"
| "containsNull (JObj ms) = list_ex (\<lambda>(_, v). containsNull v) ms"
| "containsNull _ = False"

definition missing_member :: "(bytes \<times> bool) list \<Rightarrow> (bytes \<times> jval) list \<Rightarrow> bool" where
  "missing_member tags ms \<longleftrightarrow>
     list_ex (\<lambda>(name, omitempty).
       name \<noteq> [] \<and> name \<noteq> ''-'' \<and> \<not> omitempty \<and> map_of ms name = None) tags"

definition DecodeStrict ::
  "(bytes \<times> bool) list \<Rightarrow> (jval \<Rightarrow> 'm option) \<Rightarrow> bytes \<Rightarrow> nat \<Rightarrow> 'm res" where
  "DecodeStrict tags typed raw limit =
     (case JSON raw limit of
        Inl e \<Rightarrow> Inl (Other ''invalid JSON'')
      | Inr b \<Rightarrow>
          (case Option.bind (json_parse b) (\<lambda>v. map_option (Pair v) (typed v)) of
             None \<Rightarrow> Inl (Other ''invalid persisted document'')
           | Some (v, x) \<Rightarrow>
               (case v of
                  JObj ms \<Rightarrow>
                    if missing_member tags ms then Inl (Other ''missing persisted document member'')
                    else if containsNull v then Inl (Other ''null persisted document member'')
                    else Inr x
                | _ \<Rightarrow> Inl (Other ''invalid persisted object''))))"

lemma JSON_accepts:
  "JSON raw limit = Inr b \<longleftrightarrow> b = raw \<and> length raw \<le> limit \<and> checkJSON raw 64 = None"
  by (auto simp: JSON_def Let_def checkJSON_def min_def split: option.splits if_splits)

lemma JSON_rejects:
  "JSON raw limit = Inl e \<Longrightarrow> length raw \<le> limit \<Longrightarrow> checkJSON raw 64 \<noteq> None"
  using JSON_accepts [of raw limit raw] by auto

lemma DecodeStrict_iff:
  "DecodeStrict tags typed raw limit = Inr x \<longleftrightarrow>
     length raw \<le> limit \<and> utf8_valid raw \<and>
     (\<exists>ms. json_parse raw = Some (JObj ms) \<and> dup_free (JObj ms) \<and> levels 64 (JObj ms) \<and>
        typed (JObj ms) = Some x \<and> \<not> containsNull (JObj ms) \<and> \<not> missing_member tags ms)"
proof (cases "JSON raw limit")
  case (Inl e)
  then have "\<not> (length raw \<le> limit \<and> checkJSON raw 64 = None)" by (auto dest: JSON_rejects)
  with Inl show ?thesis by (auto simp: DecodeStrict_def checkJSON_iff)
next
  case (Inr b)
  then have "b = raw" "length raw \<le> limit" "utf8_valid raw"
    "\<exists>v. json_parse raw = Some v \<and> dup_free v \<and> levels 64 v"
    by (simp_all add: JSON_accepts checkJSON_iff)
  with Inr show ?thesis
    by (auto simp: DecodeStrict_def bind_eq_Some_conv split: option.splits jval.splits if_splits)
qed

text \<open>
  A document is accepted exactly when it fits the limit, is one JSON object without a
  repeated key or nesting beyond 64 levels, decodes into the type, has every required
  member, and holds no null at any depth.
\<close>

theorem DecodeStrict_accepts:
  "DecodeStrict tags typed raw limit = Inr x \<longleftrightarrow>
     length raw \<le> limit \<and> utf8_valid raw \<and>
     (\<exists>ms. json_parse raw = Some (JObj ms) \<and> dup_free (JObj ms) \<and> levels 64 (JObj ms) \<and>
        typed (JObj ms) = Some x \<and> \<not> containsNull (JObj ms) \<and> \<not> missing_member tags ms)"
  by (rule DecodeStrict_iff)

section \<open>Management frames\<close>

definition managementLimit :: nat where
  "managementLimit = 8388608"

text \<open>\<open>io.ReadFull\<close>: the first \<open>n\<close> bytes, or an end-of-file error.\<close>

definition ReadFull :: "nat \<Rightarrow> bytes \<Rightarrow> (bytes \<times> bytes) res" where
  "ReadFull n r =
     (if n \<le> length r then Inr (take n r, drop n r)
      else Inl (Other (if r = [] then ''EOF'' else ''unexpected EOF'')))"

definition readFrameLimit ::
  "(bytes \<Rightarrow> nat \<Rightarrow> 'm res) \<Rightarrow> nat \<Rightarrow> bytes \<Rightarrow> ('m \<times> bytes) res" where
  "readFrameLimit decode limit r =
     bind_res (ReadFull 4 r) (\<lambda>(hdr, r).
       let n = unat (be32 hdr) in
       if n = 0 \<or> (0 < limit \<and> limit < n) then Inl (Sentinel Svc_State)
       else bind_res (ReadFull n r) (\<lambda>(raw, r).
         (case decode raw (if limit = 0 then n else limit) of
            Inl e \<Rightarrow> Inl (Sentinel Svc_State)
          | Inr m \<Rightarrow> Inr (m, r))))"

definition writeFrameLimit :: "('m \<Rightarrow> bytes option) \<Rightarrow> nat \<Rightarrow> 'm \<Rightarrow> bytes res" where
  "writeFrameLimit marshal limit v =
     (case marshal v of
        None \<Rightarrow> Inl (Sentinel Svc_State)
      | Some raw \<Rightarrow>
          if 4294967295 < length raw \<or> (0 < limit \<and> limit < length raw) then Inl (Sentinel Svc_State)
          else Inr (put_be32 (of_nat (length raw)) @ raw))"

section \<open>Hello frames\<close>

definition writeHello :: "('m \<Rightarrow> bytes option) \<Rightarrow> 'm \<Rightarrow> bytes res" where
  "writeHello marshal h =
     (case marshal h of
        None \<Rightarrow> Inl (Sentinel Svc_State)
      | Some b \<Rightarrow>
          if 4096 < length b then Inl (Sentinel Svc_State)
          else Inr (put_be32 (of_nat (length b)) @ b))"

definition readHello :: "(bytes \<Rightarrow> nat \<Rightarrow> 'm res) \<Rightarrow> bytes \<Rightarrow> ('m \<times> bytes) res" where
  "readHello decode r =
     (case ReadFull 4 r of
        Inl e \<Rightarrow> Inl (Sentinel Svc_Unavailable)
      | Inr (hdr, r) \<Rightarrow>
          let n = unat (be32 hdr) in
          if n = 0 \<or> 4096 < n then Inl (Sentinel Svc_Conflict)
          else (case ReadFull n r of
                  Inl e \<Rightarrow> Inl (Sentinel Svc_Unavailable)
                | Inr (b, r) \<Rightarrow>
                    (case decode b 4096 of
                       Inl e \<Rightarrow> Inl (Sentinel Svc_Conflict)
                     | Inr h \<Rightarrow> Inr (h, r))))"

section \<open>Framed channels\<close>

text \<open>
  What both framings promise their clients: reading after writing returns the message and
  leaves the bytes behind it untouched, for the messages the decoder takes back.
\<close>

locale framed_channel =
  fixes put :: "'m \<Rightarrow> bytes res"
    and get :: "bytes \<Rightarrow> ('m \<times> bytes) res"
    and good :: "'m \<Rightarrow> bool"
  assumes get_put: "good m \<Longrightarrow> put m = Inr b \<Longrightarrow> get (b @ rest) = Inr (m, rest)"
begin

lemma put_inj: "good m \<Longrightarrow> good m' \<Longrightarrow> put m = Inr b \<Longrightarrow> put m' = Inr b \<Longrightarrow> m = m'"
  using get_put [of m b "[]"] get_put [of m' b "[]"] by simp

lemma puts_prefix_free:
  "good m \<Longrightarrow> good m' \<Longrightarrow> put m = Inr b \<Longrightarrow> put m' = Inr b' \<Longrightarrow> b @ r = b' @ r' \<Longrightarrow>
     m = m' \<and> r = r'"
  using get_put [of m b r] get_put [of m' b' r'] by simp

end

text \<open>Messages in turn, and reading a given number of them.\<close>

fun get_all :: "(bytes \<Rightarrow> ('m \<times> bytes) res) \<Rightarrow> nat \<Rightarrow> bytes \<Rightarrow> ('m list \<times> bytes) res" where
  "get_all get 0 r = Inr ([], r)"
| "get_all get (Suc n) r =
     bind_res (get r) (\<lambda>(m, r). bind_res (get_all get n r) (\<lambda>(ms, r). Inr (m # ms, r)))"

context framed_channel
begin

lemma get_all_put:
  "list_all good ms \<Longrightarrow> map_res put ms = Inr bs \<Longrightarrow>
     get_all get (length ms) (concat bs @ rest) = Inr (ms, rest)"
proof (induction ms arbitrary: bs)
  case (Cons m ms)
  then obtain b cs where "put m = Inr b" "map_res put ms = Inr cs" "bs = b # cs"
    by (auto split: sum.splits)
  with Cons get_put [of m b "concat cs @ rest"] show ?case by simp
qed simp

end

subsection \<open>The two framings are channels\<close>

definition codec_ok ::
  "('m \<Rightarrow> bytes option) \<Rightarrow> (bytes \<Rightarrow> nat \<Rightarrow> 'm res) \<Rightarrow> nat \<Rightarrow> 'm \<Rightarrow> bool" where
  "codec_ok marshal decode limit m \<longleftrightarrow>
     (case marshal m of
        None \<Rightarrow> False
      | Some raw \<Rightarrow> raw \<noteq> [] \<and> decode raw (if limit = 0 then length raw else limit) = Inr m)"

lemma ReadFull_append: "ReadFull (length a) (a @ b) = Inr (a, b)"
  by (simp add: ReadFull_def)

lemma ReadFull_size: "ReadFull 4 (put_be32 w @ b) = Inr (put_be32 w, b)"
  using ReadFull_append [of "put_be32 w" b] by simp

lemma readFrame_writeFrame:
  assumes "codec_ok marshal decode limit m" and "writeFrameLimit marshal limit m = Inr b"
  shows "readFrameLimit decode limit (b @ rest) = Inr (m, rest)"
proof -
  obtain raw where raw: "marshal m = Some raw" "raw \<noteq> []" "length raw \<le> 4294967295"
    "decode raw (if limit = 0 then length raw else limit) = Inr m" "\<not> (0 < limit \<and> limit < length raw)"
    "b = put_be32 (of_nat (length raw)) @ raw"
    using assms by (auto simp: codec_ok_def writeFrameLimit_def split: option.splits if_splits)
  have "unat (of_nat (length raw) :: 32 word) = length raw"
    using raw(3) by (intro unat_of_nat32) simp
  then show ?thesis
    using raw by (auto simp: readFrameLimit_def ReadFull_size ReadFull_append Let_def)
qed

lemma readHello_writeHello:
  assumes "codec_ok marshal decode 4096 m" and "writeHello marshal m = Inr b"
  shows "readHello decode (b @ rest) = Inr (m, rest)"
proof -
  obtain raw where raw: "marshal m = Some raw" "raw \<noteq> []" "length raw \<le> 4096"
    "decode raw 4096 = Inr m" "b = put_be32 (of_nat (length raw)) @ raw"
    using assms by (auto simp: codec_ok_def writeHello_def split: option.splits if_splits)
  have "unat (of_nat (length raw) :: 32 word) = length raw"
    using raw(3) by (intro unat_of_nat32) simp
  then show ?thesis
    using raw by (auto simp: readHello_def ReadFull_size ReadFull_append Let_def)
qed

interpretation frames: framed_channel
  "writeFrameLimit marshal limit" "readFrameLimit decode limit" "codec_ok marshal decode limit"
  for marshal decode limit
  by unfold_locales (rule readFrame_writeFrame)

interpretation hellos: framed_channel
  "writeHello marshal" "readHello decode" "codec_ok marshal decode 4096"
  for marshal decode
  by unfold_locales (rule readHello_writeHello)

text \<open>
  C32. A management connection delivers exactly the messages written to it, in order, and
  leaves the bytes after them alone: messages never run into each other at any length the
  writer lets through, for every message its decoder takes back.
\<close>

theorem management_frames_roundtrip:
  assumes "list_all (codec_ok marshal decode limit) ms"
    and "map_res (writeFrameLimit marshal limit) ms = Inr bs"
  shows "get_all (readFrameLimit decode limit) (length ms) (concat bs @ rest) = Inr (ms, rest)"
  using assms by (rule frames.get_all_put)

definition raw_document :: "bytes \<Rightarrow> nat \<Rightarrow> bytes res" where
  "raw_document raw limit = DecodeStrict [] (\<lambda>_. Some raw) raw limit"

theorem management_frames_roundtrip_witness:
  "get_all (readFrameLimit raw_document 64) 2
     (put_be32 2 @ ''{}'' @ put_be32 2 @ ''{}'' @ ''x'') = Inr ([''{}'', ''{}''], ''x'')"
proof -
  have "raw_document ''{}'' 64 = Inr ''{}''" by code_simp
  then have "list_all (codec_ok Some raw_document 64) [''{}'', ''{}'']"
    by (simp add: codec_ok_def)
  moreover have "map_res (writeFrameLimit Some 64) [''{}'', ''{}''] =
      Inr [put_be32 2 @ ''{}'', put_be32 2 @ ''{}'']"
    by (simp add: writeFrameLimit_def)
  ultimately have "get_all (readFrameLimit raw_document 64) (length [''{}'', ''{}''])
      (concat [put_be32 2 @ ''{}'', put_be32 2 @ ''{}''] @ ''x'') = Inr ([''{}'', ''{}''], ''x'')"
    by (rule management_frames_roundtrip)
  then show ?thesis by (simp add: numeral_2_eq_2 del: get_all.simps)
qed

end
