(* ===== verification/Profiles.thy ===== *)
theory Profiles
  imports Json_Text Documents "HOL-Library.Monad_Syntax" "HOL-Library.List_Lexorder" "HOL-Library.Char_ord"
begin

text \<open>
  Connection profiles (config/profiles.go): the settings with their JSON form, the decoding
  of the execution limits with its reset of unversioned ones, and \<open>DecodeProfiles\<close>, which
  validates, normalises and orders a document of profiles and gives it a revision.  The
  JSON-schema evaluation (\<open>valid\<close>) and SHA-256 (\<open>sha\<close>) are arguments.
\<close>

section \<open>Settings\<close>

record connection =
  n_host :: bytes
  n_port :: int
  n_database :: bytes
  n_username :: bytes

record tls =
  tls_mode :: bytes
  tls_ca :: bytes

record ssh =
  ssh_host :: bytes
  ssh_port :: int
  ssh_user :: bytes
  ssh_auth :: bytes

record proxy =
  px_kind :: bytes
  px_host :: bytes
  px_port :: int
  px_username :: bytes

record limits =
  l_timeout :: int
  l_rows :: int
  l_bytes :: int

record profile =
  p_id :: bytes
  p_alias :: bytes
  p_driver :: bytes
  p_connection :: connection
  p_cred :: bytes
  p_tls :: tls
  p_ssh :: "ssh option"
  p_proxy :: "proxy option"
  p_limits :: "limits option"

definition MaxProfileBytes :: nat where
  "MaxProfileBytes = 1048576"

definition MaxQueryTimeoutMS :: int where
  "MaxQueryTimeoutMS = 2 ^ 31 - 1"

definition DefaultLimits :: limits where
  "DefaultLimits = \<lparr>l_timeout = 0, l_rows = 50000, l_bytes = 0\<rparr>"

section \<open>JSON form\<close>

definition jint :: "int \<Rightarrow> jval" where
  "jint n = JNum (show_int n)"

definition omitempty :: "bytes \<Rightarrow> bytes \<Rightarrow> (bytes \<times> jval) list" where
  "omitempty k s = (if s = [] then [] else [(k, JStr s)])"

definition connection_json :: "connection \<Rightarrow> jval" where
  "connection_json c =
     JObj [(''host'', JStr (n_host c)), (''port'', jint (n_port c)),
           (''database'', JStr (n_database c)), (''username'', JStr (n_username c))]"

definition tls_json :: "tls \<Rightarrow> jval" where
  "tls_json t = JObj ((''mode'', JStr (tls_mode t)) # omitempty ''ca_file'' (tls_ca t))"

definition ssh_json :: "ssh \<Rightarrow> jval" where
  "ssh_json s =
     JObj [(''host'', JStr (ssh_host s)), (''port'', jint (ssh_port s)),
           (''user'', JStr (ssh_user s)), (''auth'', JStr (ssh_auth s))]"

definition proxy_json :: "proxy \<Rightarrow> jval" where
  "proxy_json p =
     JObj ([(''kind'', JStr (px_kind p)), (''host'', JStr (px_host p)), (''port'', jint (px_port p))] @
           omitempty ''username'' (px_username p))"

definition limits_json :: "limits \<Rightarrow> jval" where
  "limits_json l =
     JObj [(''version'', jint 2), (''query_timeout_ms'', jint (l_timeout l)),
           (''max_rows'', jint (l_rows l)), (''max_result_bytes'', jint (l_bytes l))]"

definition opt_member :: "bytes \<Rightarrow> jval option \<Rightarrow> (bytes \<times> jval) list" where
  "opt_member k v = (case v of None \<Rightarrow> [] | Some x \<Rightarrow> [(k, x)])"

definition transport_json :: "profile \<Rightarrow> jval" where
  "transport_json p =
     JObj ((''tls'', tls_json (p_tls p)) #
           opt_member ''ssh'' (map_option ssh_json (p_ssh p)) @
           opt_member ''proxy'' (map_option proxy_json (p_proxy p)))"

definition profile_json :: "profile \<Rightarrow> jval" where
  "profile_json p =
     JObj ([(''id'', JStr (p_id p)), (''alias'', JStr (p_alias p)), (''driver'', JStr (p_driver p)),
            (''connection'', connection_json (p_connection p))] @
           omitempty ''credential_ref'' (p_cred p) @
           [(''transport'', transport_json p)] @
           opt_member ''limits'' (map_option limits_json (p_limits p)))"

definition profiles_json :: "profile list \<Rightarrow> jval" where
  "profiles_json ps = JObj [(''version'', jint 1), (''connections'', JArr (map profile_json ps))]"

section \<open>Decoding\<close>

text \<open>
  Reading a struct's members: a missing one leaves the zero value; with \<open>strict\<close> an unknown
  member is an error (\<open>DisallowUnknownFields\<close>).  Names are matched exactly, as the schema
  leaves no other spelling.
\<close>

definition known :: "bool \<Rightarrow> bytes list \<Rightarrow> (bytes \<times> jval) list \<Rightarrow> unit option" where
  "known strict names ms =
     (if strict \<and> \<not> list_all (\<lambda>(k, _). k \<in> set names) ms then None else Some ())"

definition str_member :: "bytes \<Rightarrow> (bytes \<times> jval) list \<Rightarrow> bytes option" where
  "str_member k ms =
     (case map_of ms k of None \<Rightarrow> Some [] | Some (JStr s) \<Rightarrow> Some s | Some _ \<Rightarrow> None)"

definition int_member :: "int \<Rightarrow> bytes \<Rightarrow> (bytes \<times> jval) list \<Rightarrow> int option" where
  "int_member d k ms =
     (case map_of ms k of None \<Rightarrow> Some d | Some (JNum n) \<Rightarrow> ParseInt n 64 | Some _ \<Rightarrow> None)"

definition obj_member :: "bytes \<Rightarrow> (bytes \<times> jval) list \<Rightarrow> (bytes \<times> jval) list option option" where
  "obj_member k ms =
     (case map_of ms k of None \<Rightarrow> Some None | Some (JObj os) \<Rightarrow> Some (Some os) | Some _ \<Rightarrow> None)"

text \<open>A struct value (zero when absent) and a pointer to a struct (nil when absent).\<close>

definition struct_member :: "((bytes \<times> jval) list \<Rightarrow> 'a option) \<Rightarrow> bytes \<Rightarrow> (bytes \<times> jval) list \<Rightarrow> 'a option" where
  "struct_member dec k ms =
     do { m \<leftarrow> obj_member k ms; dec (case m of None \<Rightarrow> [] | Some os \<Rightarrow> os) }"

definition pointer_member :: "((bytes \<times> jval) list \<Rightarrow> 'a option) \<Rightarrow> bytes \<Rightarrow> (bytes \<times> jval) list \<Rightarrow> 'a option option" where
  "pointer_member dec k ms =
     do { m \<leftarrow> obj_member k ms; (case m of None \<Rightarrow> Some None | Some os \<Rightarrow> map_option Some (dec os)) }"

definition decode_connection :: "bool \<Rightarrow> (bytes \<times> jval) list \<Rightarrow> connection option" where
  "decode_connection strict ms =
     do { known strict [''host'', ''port'', ''database'', ''username''] ms;
          h \<leftarrow> str_member ''host'' ms; n \<leftarrow> int_member 0 ''port'' ms;
          d \<leftarrow> str_member ''database'' ms; u \<leftarrow> str_member ''username'' ms;
          Some \<lparr>n_host = h, n_port = n, n_database = d, n_username = u\<rparr> }"

definition decode_tls :: "bool \<Rightarrow> (bytes \<times> jval) list \<Rightarrow> tls option" where
  "decode_tls strict ms =
     do { known strict [''mode'', ''ca_file''] ms;
          m \<leftarrow> str_member ''mode'' ms; c \<leftarrow> str_member ''ca_file'' ms;
          Some \<lparr>tls_mode = m, tls_ca = c\<rparr> }"

definition decode_ssh :: "bool \<Rightarrow> (bytes \<times> jval) list \<Rightarrow> ssh option" where
  "decode_ssh strict ms =
     do { known strict [''host'', ''port'', ''user'', ''auth''] ms;
          h \<leftarrow> str_member ''host'' ms; n \<leftarrow> int_member 0 ''port'' ms;
          u \<leftarrow> str_member ''user'' ms; a \<leftarrow> str_member ''auth'' ms;
          Some \<lparr>ssh_host = h, ssh_port = n, ssh_user = u, ssh_auth = a\<rparr> }"

definition decode_proxy :: "bool \<Rightarrow> (bytes \<times> jval) list \<Rightarrow> proxy option" where
  "decode_proxy strict ms =
     do { known strict [''kind'', ''host'', ''port'', ''username''] ms;
          k \<leftarrow> str_member ''kind'' ms; h \<leftarrow> str_member ''host'' ms;
          n \<leftarrow> int_member 0 ''port'' ms; u \<leftarrow> str_member ''username'' ms;
          Some \<lparr>px_kind = k, px_host = h, px_port = n, px_username = u\<rparr> }"

text \<open>
  \<open>Limits.UnmarshalJSON\<close>: unknown members and bad values are errors even when the limits
  are then reset, and limits without a version are reset to the defaults.
\<close>

definition limits_in_range :: "limits \<Rightarrow> bool" where
  "limits_in_range l \<longleftrightarrow>
     0 \<le> l_timeout l \<and> l_timeout l \<le> MaxQueryTimeoutMS \<and> 1 \<le> l_rows l \<and> 0 \<le> l_bytes l"

definition decode_limits :: "(bytes \<times> jval) list \<Rightarrow> limits option" where
  "decode_limits ms =
     do { known True [''version'', ''query_timeout_ms'', ''max_rows'', ''max_result_bytes''] ms;
          t \<leftarrow> int_member (l_timeout DefaultLimits) ''query_timeout_ms'' ms;
          r \<leftarrow> int_member (l_rows DefaultLimits) ''max_rows'' ms;
          b \<leftarrow> int_member (l_bytes DefaultLimits) ''max_result_bytes'' ms;
          (let l = \<lparr>l_timeout = t, l_rows = r, l_bytes = b\<rparr> in
           if \<not> limits_in_range l then None
           else
             (case map_of ms ''version'' of
                None \<Rightarrow> Some DefaultLimits
              | Some v \<Rightarrow>
                  (case v of
                     JNum n \<Rightarrow> if ParseInt n 64 = Some 2 then Some l else None
                   | _ \<Rightarrow> None))) }"

definition decode_transport :: "bool \<Rightarrow> (bytes \<times> jval) list \<Rightarrow> (tls \<times> ssh option \<times> proxy option) option" where
  "decode_transport strict ms =
     do { known strict [''tls'', ''ssh'', ''proxy''] ms;
          t \<leftarrow> struct_member (decode_tls strict) ''tls'' ms;
          s \<leftarrow> pointer_member (decode_ssh strict) ''ssh'' ms;
          x \<leftarrow> pointer_member (decode_proxy strict) ''proxy'' ms;
          Some (t, s, x) }"

definition decode_profile :: "bool \<Rightarrow> (bytes \<times> jval) list \<Rightarrow> profile option" where
  "decode_profile strict ms =
     do { known strict [''id'', ''alias'', ''driver'', ''connection'', ''credential_ref'', ''transport'', ''limits''] ms;
          i \<leftarrow> str_member ''id'' ms; a \<leftarrow> str_member ''alias'' ms; d \<leftarrow> str_member ''driver'' ms;
          c \<leftarrow> struct_member (decode_connection strict) ''connection'' ms;
          r \<leftarrow> str_member ''credential_ref'' ms;
          t \<leftarrow> struct_member (decode_transport strict) ''transport'' ms;
          l \<leftarrow> pointer_member decode_limits ''limits'' ms;
          Some \<lparr>p_id = i, p_alias = a, p_driver = d, p_connection = c, p_cred = r, p_tls = fst t,
                p_ssh = fst (snd t), p_proxy = snd (snd t), p_limits = l\<rparr> }"

fun decode_list :: "(jval \<Rightarrow> 'a option) \<Rightarrow> jval list \<Rightarrow> 'a list option" where
  "decode_list dec [] = Some []"
| "decode_list dec (v # vs) = do { x \<leftarrow> dec v; xs \<leftarrow> decode_list dec vs; Some (x # xs) }"

definition profile_of :: "bool \<Rightarrow> jval \<Rightarrow> profile option" where
  "profile_of strict v = (case v of JObj ms \<Rightarrow> decode_profile strict ms | _ \<Rightarrow> None)"

definition decode_profiles :: "jval \<Rightarrow> profile list option" where
  "decode_profiles v =
     (case v of
        JObj ms \<Rightarrow>
          do { int_member 0 ''version'' ms;
               (case map_of ms ''connections'' of
                  None \<Rightarrow> Some []
                | Some (JArr vs) \<Rightarrow> decode_list (profile_of False) vs
                | Some _ \<Rightarrow> None) }
      | _ \<Rightarrow> None)"

section \<open>DecodeProfiles\<close>

definition is_abs :: "bytes \<Rightarrow> bool" where
  "is_abs p \<longleftrightarrow> has_prefix p ''/''"

definition lower_ids :: "profile \<Rightarrow> profile" where
  "lower_ids c = c\<lparr>p_id := to_lower (p_id c), p_cred := to_lower (p_cred c)\<rparr>"

definition with_limits :: "profile \<Rightarrow> profile" where
  "with_limits c = (if p_limits c = None then c\<lparr>p_limits := Some DefaultLimits\<rparr> else c)"

fun normalize :: "bytes list \<Rightarrow> bytes list \<Rightarrow> bytes list \<Rightarrow> profile list \<Rightarrow> profile list res" where
  "normalize ids aliases refs [] = Inr []"
| "normalize ids aliases refs (c0 # cs) =
     (let c = lower_ids c0 in
      if p_id c \<in> set ids \<or> p_alias c \<in> set aliases \<or> (p_cred c \<noteq> [] \<and> p_cred c \<in> set refs) then
        Inl (Other ''duplicate profile identity, alias, or credential reference'')
      else if tls_ca (p_tls c) \<noteq> [] \<and> \<not> is_abs (tls_ca (p_tls c)) then
        Inl (Other ''TLS CA path must be absolute'')
      else
        (let c' = with_limits c in
         case normalize (p_id c # ids) (p_alias c # aliases) (if p_cred c \<noteq> [] then p_cred c # refs else refs) cs of
           Inl e \<Rightarrow> Inl e
         | Inr r \<Rightarrow> Inr (c' # r)))"

definition profiles_revision :: "(bytes \<Rightarrow> bytes) \<Rightarrow> profile list \<Rightarrow> bytes" where
  "profiles_revision sha ps = sha (marshal (profiles_json ps))"

definition DecodeProfiles :: "(jval \<Rightarrow> bool) \<Rightarrow> (bytes \<Rightarrow> bytes) \<Rightarrow> bytes \<Rightarrow> (profile list \<times> bytes) res" where
  "DecodeProfiles valid sha raw =
     (case JSON raw MaxProfileBytes of
        Inl e \<Rightarrow> Inl (Other ''invalid JSON'')
      | Inr b \<Rightarrow>
          (case json_parse b of
             None \<Rightarrow> Inl (Other ''invalid JSON'')
           | Some v \<Rightarrow>
               if \<not> valid v then Inl (Other ''document does not match its schema'')
               else
                 (case decode_profiles v of
                    None \<Rightarrow> Inl (Other ''invalid profile data'')
                  | Some ps \<Rightarrow>
                      (case normalize [] [] [] ps of
                         Inl e \<Rightarrow> Inl e
                       | Inr qs \<Rightarrow>
                           let p = sort_key p_id qs in Inr (p, profiles_revision sha p)))))"

section \<open>The invariant of a decoded document\<close>

definition profile_ok :: "profile \<Rightarrow> bool" where
  "profile_ok p \<longleftrightarrow>
     to_lower (p_id p) = p_id p \<and> to_lower (p_cred p) = p_cred p \<and>
     (tls_ca (p_tls p) = [] \<or> is_abs (tls_ca (p_tls p))) \<and> p_limits p \<noteq> None"

definition refs :: "profile list \<Rightarrow> bytes list" where
  "refs ps = filter (\<lambda>r. r \<noteq> []) (map p_cred ps)"

definition normalized :: "profile list \<Rightarrow> bool" where
  "normalized ps \<longleftrightarrow>
     list_all profile_ok ps \<and> distinct (map p_id ps) \<and> distinct (map p_alias ps) \<and> distinct (refs ps)"

lemma lower_ids_simps [simp]:
  "p_id (lower_ids c) = to_lower (p_id c)" "p_cred (lower_ids c) = to_lower (p_cred c)"
  "p_alias (lower_ids c) = p_alias c" "p_tls (lower_ids c) = p_tls c" "p_limits (lower_ids c) = p_limits c"
  by (simp_all add: lower_ids_def)

lemma with_limits_simps [simp]:
  "p_id (with_limits c) = p_id c" "p_cred (with_limits c) = p_cred c" "p_alias (with_limits c) = p_alias c"
  "p_tls (with_limits c) = p_tls c" "p_limits (with_limits c) \<noteq> None"
  by (simp_all add: with_limits_def)

definition disjoint_from :: "bytes list \<Rightarrow> bytes list \<Rightarrow> bytes list \<Rightarrow> profile list \<Rightarrow> bool" where
  "disjoint_from ids aliases rs qs \<longleftrightarrow>
     set (map p_id qs) \<inter> set ids = {} \<and> set (map p_alias qs) \<inter> set aliases = {} \<and> set (refs qs) \<inter> set rs = {}"

lemma normalized_Cons:
  "normalized (c # qs) \<longleftrightarrow>
     profile_ok c \<and> normalized qs \<and>
     disjoint_from [p_id c] [p_alias c] (if p_cred c \<noteq> [] then [p_cred c] else []) qs"
  by (auto simp: normalized_def disjoint_from_def refs_def)

lemma disjoint_from_Cons:
  "disjoint_from ids aliases rs (c # qs) \<longleftrightarrow>
     p_id c \<notin> set ids \<and> p_alias c \<notin> set aliases \<and> (p_cred c = [] \<or> p_cred c \<notin> set rs) \<and>
     disjoint_from ids aliases rs qs"
  by (auto simp: disjoint_from_def refs_def)

lemma disjoint_from_more:
  "disjoint_from (i # ids) (a # aliases) (if r \<noteq> [] then r # rs else rs) qs \<longleftrightarrow>
     disjoint_from ids aliases rs qs \<and> disjoint_from [i] [a] (if r \<noteq> [] then [r] else []) qs"
  by (auto simp: disjoint_from_def)

lemma normalize_step:
  assumes "normalize ids aliases rs (c0 # cs) = Inr qs"
  obtains c r where "c = with_limits (lower_ids c0)" "qs = c # r" "profile_ok c"
    "p_id c \<notin> set ids" "p_alias c \<notin> set aliases" "p_cred c = [] \<or> p_cred c \<notin> set rs"
    "normalize (p_id c # ids) (p_alias c # aliases) (if p_cred c \<noteq> [] then p_cred c # rs else rs) cs = Inr r"
proof -
  let ?l = "lower_ids c0"
  have dup: "\<not> (p_id ?l \<in> set ids \<or> p_alias ?l \<in> set aliases \<or> (p_cred ?l \<noteq> [] \<and> p_cred ?l \<in> set rs))"
    using assms unfolding normalize.simps Let_def by (metis Inl_Inr_False)
  have ca: "\<not> (tls_ca (p_tls ?l) \<noteq> [] \<and> \<not> is_abs (tls_ca (p_tls ?l)))"
    using assms dup unfolding normalize.simps Let_def by (metis Inl_Inr_False)
  have "normalize ids aliases rs (c0 # cs) =
      (case normalize (p_id ?l # ids) (p_alias ?l # aliases) (if p_cred ?l \<noteq> [] then p_cred ?l # rs else rs) cs of
         Inl e \<Rightarrow> Inl e | Inr r \<Rightarrow> Inr (with_limits ?l # r))"
    by (simp only: normalize.simps Let_def dup ca if_False)
  then obtain r where "normalize (p_id ?l # ids) (p_alias ?l # aliases)
      (if p_cred ?l \<noteq> [] then p_cred ?l # rs else rs) cs = Inr r" "qs = with_limits ?l # r"
    using assms by (auto split: sum.split_asm)
  moreover have "profile_ok (with_limits ?l)" using ca by (simp add: profile_ok_def to_lower_idem)
  ultimately show thesis using dup
    by (intro that [of "with_limits ?l" r]) (simp_all only: with_limits_simps, blast+)
qed

lemma normalize_sound:
  "normalize ids aliases rs ps = Inr qs \<Longrightarrow> normalized qs \<and> disjoint_from ids aliases rs qs"
proof (induction ps arbitrary: ids aliases rs qs)
  case Nil
  then show ?case by (simp add: normalized_def disjoint_from_def refs_def)
next
  case (Cons c0 cs)
  obtain c r where c: "qs = c # r" "profile_ok c" "p_id c \<notin> set ids" "p_alias c \<notin> set aliases"
    "p_cred c = [] \<or> p_cred c \<notin> set rs"
    "normalize (p_id c # ids) (p_alias c # aliases) (if p_cred c \<noteq> [] then p_cred c # rs else rs) cs = Inr r"
    using Cons.prems by (rule normalize_step) blast
  have "normalized r" "disjoint_from ids aliases rs r"
    "disjoint_from [p_id c] [p_alias c] (if p_cred c \<noteq> [] then [p_cred c] else []) r"
    using Cons.IH [OF c(6)] disjoint_from_more [of "p_id c" ids "p_alias c" aliases "p_cred c" rs r] by blast+
  with c(1-5) show ?case by (simp only: normalized_Cons disjoint_from_Cons simp_thms)
qed

section \<open>Printing and reading back\<close>

definition int64 :: "int \<Rightarrow> bool" where
  "int64 n \<longleftrightarrow> - (2 ^ 63) \<le> n \<and> n < 2 ^ 63"

lemma ParseInt_int64: "ParseInt s 64 = Some n \<Longrightarrow> int64 n"
  by (auto simp: ParseInt_def int64_def Let_def split: if_splits)

lemma ParseInt_show64 [simp]: "int64 n \<Longrightarrow> ParseInt (show_int n) 64 = Some n"
  by (simp add: ParseInt_show int64_def)

lemma int64_small [simp]: "int64 0" "int64 1" "int64 2" "int64 50000"
  by (simp_all add: int64_def)

definition encodable_limits :: "limits \<Rightarrow> bool" where
  "encodable_limits l \<longleftrightarrow> limits_in_range l \<and> int64 (l_timeout l) \<and> int64 (l_rows l) \<and> int64 (l_bytes l)"

definition encodable :: "profile \<Rightarrow> bool" where
  "encodable p \<longleftrightarrow>
     int64 (n_port (p_connection p)) \<and> pred_option (\<lambda>s. int64 (ssh_port s)) (p_ssh p) \<and>
     pred_option (\<lambda>x. int64 (px_port x)) (p_proxy p) \<and> pred_option encodable_limits (p_limits p)"

declare map_of_append [simp del] option.pred_True [simp]

lemma map_of_omitempty [simp]:
  "map_of (omitempty k s @ r) x = (if x = k \<and> s \<noteq> [] then Some (JStr s) else map_of r x)"
  "map_of (omitempty k s) x = (if x = k \<and> s \<noteq> [] then Some (JStr s) else None)"
  by (auto simp: omitempty_def)

lemma map_of_opt_member [simp]:
  "map_of (opt_member k v @ r) x = (if x = k \<and> v \<noteq> None then v else map_of r x)"
  "map_of (opt_member k v) x = (if x = k \<and> v \<noteq> None then v else None)"
  by (auto simp: opt_member_def split: option.splits)

lemma known_opt [simp]:
  "list_all q (omitempty k s) = (s = [] \<or> q (k, JStr s))"
  "list_all q (opt_member k v) = pred_option (\<lambda>x. q (k, x)) v"
  by (auto simp: omitempty_def opt_member_def split: option.splits)

lemma decode_connection_json:
  assumes "int64 (n_port c)"
  shows "\<exists>ms. connection_json c = JObj ms \<and> decode_connection strict ms = Some c"
  using assms by (simp add: connection_json_def decode_connection_def known_def str_member_def int_member_def jint_def)

lemma decode_tls_json: "\<exists>ms. tls_json t = JObj ms \<and> decode_tls strict ms = Some t"
  by (simp add: tls_json_def decode_tls_def known_def str_member_def)

lemma decode_ssh_json:
  assumes "int64 (ssh_port s)"
  shows "\<exists>ms. ssh_json s = JObj ms \<and> decode_ssh strict ms = Some s"
  using assms by (simp add: ssh_json_def decode_ssh_def known_def str_member_def int_member_def jint_def)

lemma decode_proxy_json:
  assumes "int64 (px_port x)"
  shows "\<exists>ms. proxy_json x = JObj ms \<and> decode_proxy strict ms = Some x"
  using assms by (simp add: proxy_json_def decode_proxy_def known_def str_member_def int_member_def jint_def)

lemma decode_limits_json:
  assumes "encodable_limits l"
  shows "\<exists>ms. limits_json l = JObj ms \<and> decode_limits ms = Some l"
  using assms
  by (cases l) (simp add: limits_json_def decode_limits_def known_def int_member_def jint_def encodable_limits_def limits_in_range_def Let_def)

lemma pointer_member_opt:
  assumes "map_of ms k = map_option f v" and "\<And>x. v = Some x \<Longrightarrow> \<exists>os. f x = JObj os \<and> dec os = Some x"
  shows "pointer_member dec k ms = Some v"
proof (cases v)
  case None
  with assms(1) show ?thesis by (simp add: pointer_member_def obj_member_def)
next
  case (Some x)
  with assms(2) obtain os where "f x = JObj os" "dec os = Some x" by blast
  with Some assms(1) show ?thesis by (simp add: pointer_member_def obj_member_def)
qed

lemma decode_transport_json:
  assumes "encodable p"
  shows "\<exists>ms. transport_json p = JObj ms \<and> decode_transport strict ms = Some (p_tls p, p_ssh p, p_proxy p)"
proof -
  obtain t where t: "tls_json (p_tls p) = JObj t" "decode_tls strict t = Some (p_tls p)"
    using decode_tls_json by blast
  have s: "pointer_member (decode_ssh strict) ''ssh''
      ((''tls'', tls_json (p_tls p)) # opt_member ''ssh'' (map_option ssh_json (p_ssh p)) @
           opt_member ''proxy'' (map_option proxy_json (p_proxy p))) = Some (p_ssh p)"
    using assms decode_ssh_json
    by (intro pointer_member_opt [where f = ssh_json]) (cases "p_ssh p"; simp add: encodable_def)+
  have x: "pointer_member (decode_proxy strict) ''proxy''
      ((''tls'', tls_json (p_tls p)) # opt_member ''ssh'' (map_option ssh_json (p_ssh p)) @
           opt_member ''proxy'' (map_option proxy_json (p_proxy p))) = Some (p_proxy p)"
    using assms decode_proxy_json
    by (intro pointer_member_opt [where f = proxy_json]) (cases "p_proxy p"; simp add: encodable_def)+
  let ?ms = "(''tls'', tls_json (p_tls p)) # opt_member ''ssh'' (map_option ssh_json (p_ssh p)) @
           opt_member ''proxy'' (map_option proxy_json (p_proxy p))"
  have "struct_member (decode_tls strict) ''tls'' ?ms = Some (p_tls p)"
    using t by (simp add: struct_member_def obj_member_def)
  moreover have "known strict [''tls'', ''ssh'', ''proxy''] ?ms = Some ()"
    by (simp add: known_def)
  ultimately have "decode_transport strict ?ms = Some (p_tls p, p_ssh p, p_proxy p)"
    using s x by (simp only: decode_transport_def bind.bind_lunit)
  then show ?thesis by (simp add: transport_json_def)
qed

lemma profile_of_json:
  assumes "encodable p"
  shows "profile_of strict (profile_json p) = Some p"
proof -
  let ?ms = "[(''id'', JStr (p_id p)), (''alias'', JStr (p_alias p)), (''driver'', JStr (p_driver p)),
            (''connection'', connection_json (p_connection p))] @
           omitempty ''credential_ref'' (p_cred p) @
           [(''transport'', transport_json p)] @
           opt_member ''limits'' (map_option limits_json (p_limits p))"
  obtain c where "connection_json (p_connection p) = JObj c" "decode_connection strict c = Some (p_connection p)"
    using decode_connection_json assms by (metis encodable_def)
  then have c: "struct_member (decode_connection strict) ''connection'' ?ms = Some (p_connection p)"
    by (simp add: struct_member_def obj_member_def)
  obtain t where "transport_json p = JObj t" "decode_transport strict t = Some (p_tls p, p_ssh p, p_proxy p)"
    using decode_transport_json [OF assms] by blast
  then have t: "struct_member (decode_transport strict) ''transport'' ?ms = Some (p_tls p, p_ssh p, p_proxy p)"
    by (simp add: struct_member_def obj_member_def)
  have l: "pointer_member decode_limits ''limits'' ?ms = Some (p_limits p)"
    using assms decode_limits_json
    by (intro pointer_member_opt [where f = limits_json]) (cases "p_limits p"; simp add: encodable_def)+
  have "known strict [''id'', ''alias'', ''driver'', ''connection'', ''credential_ref'', ''transport'', ''limits''] ?ms = Some ()"
    by (simp add: known_def)
  moreover have "str_member ''id'' ?ms = Some (p_id p)" "str_member ''alias'' ?ms = Some (p_alias p)"
    "str_member ''driver'' ?ms = Some (p_driver p)" "str_member ''credential_ref'' ?ms = Some (p_cred p)"
    by (simp_all add: str_member_def)
  ultimately show ?thesis
    using c t l by (simp only: profile_of_def profile_json_def decode_profile_def jval.case bind.bind_lunit fst_conv snd_conv)
      simp
qed

text \<open>The strings of a profile are text.\<close>

definition tls_text :: "tls \<Rightarrow> bool" where
  "tls_text t \<longleftrightarrow> utf8_valid (tls_mode t) \<and> utf8_valid (tls_ca t)"

definition connection_text :: "connection \<Rightarrow> bool" where
  "connection_text c \<longleftrightarrow> utf8_valid (n_host c) \<and> utf8_valid (n_database c) \<and> utf8_valid (n_username c)"

definition ssh_text :: "ssh \<Rightarrow> bool" where
  "ssh_text s \<longleftrightarrow> utf8_valid (ssh_host s) \<and> utf8_valid (ssh_user s) \<and> utf8_valid (ssh_auth s)"

definition proxy_text :: "proxy \<Rightarrow> bool" where
  "proxy_text x \<longleftrightarrow> utf8_valid (px_kind x) \<and> utf8_valid (px_host x) \<and> utf8_valid (px_username x)"

definition profile_text :: "profile \<Rightarrow> bool" where
  "profile_text p \<longleftrightarrow>
     utf8_valid (p_id p) \<and> utf8_valid (p_alias p) \<and> utf8_valid (p_driver p) \<and> utf8_valid (p_cred p) \<and>
     connection_text (p_connection p) \<and> tls_text (p_tls p) \<and>
     pred_option ssh_text (p_ssh p) \<and> pred_option proxy_text (p_proxy p)"

lemma utf8_names [simp]:
  "utf8_valid ''id''" "utf8_valid ''alias''" "utf8_valid ''driver''" "utf8_valid ''connection''"
  "utf8_valid ''credential_ref''" "utf8_valid ''transport''" "utf8_valid ''limits''" "utf8_valid ''host''"
  "utf8_valid ''port''" "utf8_valid ''database''" "utf8_valid ''username''" "utf8_valid ''mode''"
  "utf8_valid ''ca_file''" "utf8_valid ''user''" "utf8_valid ''auth''" "utf8_valid ''kind''"
  "utf8_valid ''version''" "utf8_valid ''query_timeout_ms''" "utf8_valid ''max_rows''"
  "utf8_valid ''max_result_bytes''" "utf8_valid ''tls''" "utf8_valid ''ssh''" "utf8_valid ''proxy''"
  "utf8_valid ''connections''"
  by (rule utf8_valid_ascii, simp)+

lemma printable_jint [simp]: "printable (jint n)"
  by (simp add: jint_def lex_number_show_int)

lemma printable_connection [simp]: "connection_text c \<Longrightarrow> printable (connection_json c)"
  by (simp add: connection_json_def connection_text_def del: utf8_valid.simps)

lemma printable_tls [simp]: "tls_text t \<Longrightarrow> printable (tls_json t)"
  by (simp add: tls_json_def tls_text_def del: utf8_valid.simps)

lemma printable_ssh [simp]: "ssh_text x \<Longrightarrow> printable (ssh_json x)"
  by (simp add: ssh_json_def ssh_text_def del: utf8_valid.simps)

lemma printable_proxy [simp]: "proxy_text x \<Longrightarrow> printable (proxy_json x)"
  by (simp add: proxy_json_def proxy_text_def del: utf8_valid.simps)

lemma printable_limits [simp]: "printable (limits_json l)"
  by (simp add: limits_json_def del: utf8_valid.simps)

lemma printable_profile: "profile_text p \<Longrightarrow> printable (profile_json p)"
  by (cases "p_ssh p"; cases "p_proxy p"; cases "p_limits p")
    (simp_all add: profile_json_def transport_json_def profile_text_def opt_member_def del: utf8_valid.simps)

lemma printable_profiles: "list_all profile_text ps \<Longrightarrow> printable (profiles_json ps)"
  by (simp add: profiles_json_def list_all_iff printable_profile del: utf8_valid.simps)

lemma profile_json_shape: "nests 3 (profile_json p)" "dup_free (profile_json p)"
  by (cases "p_ssh p"; cases "p_proxy p"; cases "p_limits p"; simp add: profile_json_def transport_json_def
      opt_member_def omitempty_def connection_json_def tls_json_def ssh_json_def proxy_json_def limits_json_def
      jint_def numeral_3_eq_3)+

lemma profiles_json_shape: "nests 64 (profiles_json ps)" "dup_free (profiles_json ps)"
proof -
  have "nests 62 (profile_json p)" for p by (rule nests_mono [OF profile_json_shape(1)]) simp
  then show "nests 64 (profiles_json ps)"
    by (simp add: profiles_json_def list_all_iff jint_def eval_nat_numeral split: nat.split)
  show "dup_free (profiles_json ps)"
    by (simp add: profiles_json_def list_all_iff jint_def profile_json_shape)
qed

text \<open>A struct that is written without nulls and with its required members is read back.\<close>

lemma DecodeStrict_marshal:
  assumes "v = JObj ms" and "printable v" and "nests 64 v" and "dup_free v" and "\<not> containsNull v"
    and "\<not> missing_member tags ms" and "typed v = Some x" and "length (marshal v) \<le> limit"
  shows "DecodeStrict tags typed (marshal v) limit = Inr x"
proof -
  have "utf8_valid (marshal v)" using assms(2) by (rule utf8_marshal)
  moreover have "json_parse (marshal v) = Some (JObj ms)"
    using checkJSON_marshal(2) [OF assms(2-4)] assms(1) by simp
  moreover have "levels 64 (JObj ms)" using nests_levels [OF assms(3)] assms(1) by simp
  ultimately show ?thesis
    unfolding DecodeStrict_iff using assms(4-8) unfolding assms(1) by blast
qed

text \<open>What a decoded document holds can be written again.\<close>

lemma map_of_printable: "printable (JObj ms) \<Longrightarrow> map_of ms k = Some v \<Longrightarrow> printable v"
  by (auto simp: list_all_iff dest!: map_of_SomeD)

lemma str_member_text: "str_member k ms = Some s \<Longrightarrow> printable (JObj ms) \<Longrightarrow> utf8_valid s"
  using map_of_printable [of ms k]
  by (auto simp: str_member_def split: option.splits jval.splits simp del: printable.simps(4))

lemma int_member_int64: "int_member d k ms = Some n \<Longrightarrow> int64 d \<Longrightarrow> int64 n"
  by (auto simp: int_member_def dest: ParseInt_int64 split: option.splits jval.splits)

lemma obj_member_text: "obj_member k ms = Some (Some os) \<Longrightarrow> printable (JObj ms) \<Longrightarrow> printable (JObj os)"
  using map_of_printable [of ms k]
  by (auto simp: obj_member_def split: option.splits jval.splits simp del: printable.simps(4))

lemma struct_memberE:
  assumes "struct_member dec k ms = Some x" and "printable (JObj ms)"
  obtains os where "dec os = Some x" and "printable (JObj os)"
proof -
  from assms(1) obtain m where m: "obj_member k ms = Some m" "dec (case m of None \<Rightarrow> [] | Some os \<Rightarrow> os) = Some x"
    by (auto simp: struct_member_def bind_eq_Some_conv)
  then have "printable (JObj (case m of None \<Rightarrow> [] | Some os \<Rightarrow> os))"
    using obj_member_text assms(2) by (cases m) auto
  with m(2) that show thesis by blast
qed

lemma pointer_memberE:
  assumes "pointer_member dec k ms = Some x" and "printable (JObj ms)"
    and "\<And>os y. dec os = Some y \<Longrightarrow> printable (JObj os) \<Longrightarrow> P y"
  shows "pred_option P x"
proof -
  from assms(1) obtain m where m: "obj_member k ms = Some m"
    "(case m of None \<Rightarrow> Some None | Some os \<Rightarrow> map_option Some (dec os)) = Some x"
    by (auto simp: pointer_member_def bind_eq_Some_conv)
  show ?thesis
  proof (cases m)
    case (Some os)
    with m assms(2,3) obj_member_text show ?thesis by auto
  qed (use m in auto)
qed

lemma decode_connection_good:
  "decode_connection strict ms = Some c \<Longrightarrow> printable (JObj ms) \<Longrightarrow> connection_text c \<and> int64 (n_port c)"
  by (auto simp: decode_connection_def connection_text_def bind_eq_Some_conv simp del: printable.simps
      intro: str_member_text int_member_int64)

lemma decode_tls_good: "decode_tls strict ms = Some t \<Longrightarrow> printable (JObj ms) \<Longrightarrow> tls_text t"
  by (auto simp: decode_tls_def tls_text_def bind_eq_Some_conv simp del: printable.simps intro: str_member_text)

lemma decode_ssh_good:
  "decode_ssh strict ms = Some x \<Longrightarrow> printable (JObj ms) \<Longrightarrow> ssh_text x \<and> int64 (ssh_port x)"
  by (auto simp: decode_ssh_def ssh_text_def bind_eq_Some_conv simp del: printable.simps
      intro: str_member_text int_member_int64)

lemma decode_proxy_good:
  "decode_proxy strict ms = Some x \<Longrightarrow> printable (JObj ms) \<Longrightarrow> proxy_text x \<and> int64 (px_port x)"
  by (auto simp: decode_proxy_def proxy_text_def bind_eq_Some_conv simp del: printable.simps
      intro: str_member_text int_member_int64)

lemma default_encodable: "encodable_limits DefaultLimits"
  by (simp add: encodable_limits_def limits_in_range_def DefaultLimits_def MaxQueryTimeoutMS_def)

lemma decode_limits_good: "decode_limits ms = Some l \<Longrightarrow> encodable_limits l"
proof -
  assume a: "decode_limits ms = Some l"
  have d: "int64 (l_timeout DefaultLimits)" "int64 (l_rows DefaultLimits)" "int64 (l_bytes DefaultLimits)"
    by (simp_all add: DefaultLimits_def)
  from a obtain t r b where m: "int_member (l_timeout DefaultLimits) ''query_timeout_ms'' ms = Some t"
    "int_member (l_rows DefaultLimits) ''max_rows'' ms = Some r"
    "int_member (l_bytes DefaultLimits) ''max_result_bytes'' ms = Some b"
    "limits_in_range \<lparr>l_timeout = t, l_rows = r, l_bytes = b\<rparr>"
    "l = DefaultLimits \<or> l = \<lparr>l_timeout = t, l_rows = r, l_bytes = b\<rparr>"
    by (auto simp: decode_limits_def bind_eq_Some_conv Let_def split: if_splits option.splits jval.splits)
  with d int_member_int64 have "int64 t" "int64 r" "int64 b" by blast+
  with m(4,5) default_encodable show ?thesis by (auto simp: encodable_limits_def)
qed

lemma decode_transport_good:
  assumes "decode_transport strict ms = Some (t, x, y)" and "printable (JObj ms)"
  shows "tls_text t \<and> pred_option (\<lambda>x. ssh_text x \<and> int64 (ssh_port x)) x \<and>
     pred_option (\<lambda>x. proxy_text x \<and> int64 (px_port x)) y"
proof -
  from assms(1) have m: "struct_member (decode_tls strict) ''tls'' ms = Some t"
    "pointer_member (decode_ssh strict) ''ssh'' ms = Some x"
    "pointer_member (decode_proxy strict) ''proxy'' ms = Some y"
    by (auto simp: decode_transport_def bind_eq_Some_conv)
  have "tls_text t" using m(1) assms(2) by (rule struct_memberE) (rule decode_tls_good)
  moreover have "pred_option (\<lambda>x. ssh_text x \<and> int64 (ssh_port x)) x"
    using m(2) assms(2) by (rule pointer_memberE) (rule decode_ssh_good)
  moreover have "pred_option (\<lambda>x. proxy_text x \<and> int64 (px_port x)) y"
    using m(3) assms(2) by (rule pointer_memberE) (rule decode_proxy_good)
  ultimately show ?thesis by blast
qed

lemma decode_profile_good:
  assumes "decode_profile strict ms = Some p" and "printable (JObj ms)"
  shows "encodable p \<and> profile_text p"
proof -
  from assms(1) obtain i a d c r t x y l where m: "str_member ''id'' ms = Some i" "str_member ''alias'' ms = Some a"
    "str_member ''driver'' ms = Some d" "struct_member (decode_connection strict) ''connection'' ms = Some c"
    "str_member ''credential_ref'' ms = Some r" "struct_member (decode_transport strict) ''transport'' ms = Some (t, x, y)"
    "pointer_member decode_limits ''limits'' ms = Some l"
    and p: "p = \<lparr>p_id = i, p_alias = a, p_driver = d, p_connection = c, p_cred = r, p_tls = t,
                p_ssh = x, p_proxy = y, p_limits = l\<rparr>"
    by (auto simp: decode_profile_def bind_eq_Some_conv)
  have "connection_text c \<and> int64 (n_port c)"
    using m(4) assms(2) by (rule struct_memberE) (rule decode_connection_good)
  moreover have "tls_text t \<and> pred_option (\<lambda>x. ssh_text x \<and> int64 (ssh_port x)) x \<and>
     pred_option (\<lambda>x. proxy_text x \<and> int64 (px_port x)) y"
    using m(6) assms(2) by (rule struct_memberE) (rule decode_transport_good)
  moreover have "pred_option encodable_limits l"
    using m(7) assms(2) by (rule pointer_memberE) (rule decode_limits_good)
  ultimately show ?thesis
    using m assms(2) str_member_text unfolding p encodable_def profile_text_def
    by (auto simp: option.pred_set simp del: printable.simps utf8_valid.simps)
qed

definition good_profile :: "profile \<Rightarrow> bool" where
  "good_profile p \<longleftrightarrow> encodable p \<and> profile_text p"

lemma decode_list_iff: "decode_list dec vs = Some xs \<longleftrightarrow> list_all2 (\<lambda>v x. dec v = Some x) vs xs"
  by (induction vs arbitrary: xs) (auto simp: bind_eq_Some_conv list_all2_Cons1)

lemma decode_list_good:
  assumes "\<And>v x. v \<in> set vs \<Longrightarrow> dec v = Some x \<Longrightarrow> P x" and "decode_list dec vs = Some xs"
  shows "list_all P xs"
  using assms by (auto simp: decode_list_iff list_all2_conv_all_nth list_all_length) (metis nth_mem)

lemma decode_profiles_good:
  assumes "decode_profiles v = Some ps" and "printable v"
  shows "list_all good_profile ps"
proof -
  from assms(1) obtain ms where v: "v = JObj ms" by (auto simp: decode_profiles_def split: jval.splits)
  show ?thesis
  proof (cases "map_of ms ''connections''")
    case None
    with assms v show ?thesis by (auto simp: decode_profiles_def bind_eq_Some_conv)
  next
    case (Some w)
    then obtain vs where vs: "map_of ms ''connections'' = Some (JArr vs)" "decode_list (profile_of False) vs = Some ps"
      using assms(1) v by (auto simp: decode_profiles_def bind_eq_Some_conv split: jval.splits)
    have "printable (JArr vs)" using assms(2) v vs(1) map_of_printable by blast
    then have "good_profile p" if "w \<in> set vs" "profile_of False w = Some p" for w p
      using that decode_profile_good
      by (fastforce simp: profile_of_def good_profile_def list_all_iff split: jval.splits simp del: printable.simps(4))
    with vs(2) show ?thesis by (rule decode_list_good [rotated])
  qed
qed

lemma decode_profiles_json:
  assumes "list_all encodable ps"
  shows "decode_profiles (profiles_json ps) = Some ps"
proof -
  have "decode_list (profile_of False) (map profile_json ps) = Some ps"
    using assms by (auto simp: decode_list_iff list_all2_conv_all_nth list_all_length profile_of_json)
  then show ?thesis
    by (simp add: decode_profiles_def profiles_json_def int_member_def jint_def)
qed

lemma good_step: "good_profile p \<Longrightarrow> good_profile (with_limits (lower_ids p))"
  using default_encodable
  by (auto simp: good_profile_def encodable_def profile_text_def with_limits_def lower_ids_def utf8_to_lower
      simp del: utf8_valid.simps)

lemma normalize_good:
  "normalize ids aliases rs ps = Inr qs \<Longrightarrow> list_all good_profile ps \<Longrightarrow> list_all good_profile qs"
proof (induction ps arbitrary: ids aliases rs qs)
  case (Cons c0 cs)
  obtain c r where "c = with_limits (lower_ids c0)" "qs = c # r"
    "normalize (p_id c # ids) (p_alias c # aliases) (if p_cred c \<noteq> [] then p_cred c # rs else rs) cs = Inr r"
    using Cons.prems(1) by (rule normalize_step) blast
  with Cons.IH Cons.prems(2) good_step show ?case by simp
qed simp

text \<open>A normalized list is normalized to itself.\<close>

lemma normal_form: "profile_ok c \<Longrightarrow> with_limits (lower_ids c) = c"
  by (auto simp: profile_ok_def with_limits_def lower_ids_def)

lemma normalize_id:
  "normalized qs \<Longrightarrow> disjoint_from ids aliases rs qs \<Longrightarrow> normalize ids aliases rs qs = Inr qs"
proof (induction qs arbitrary: ids aliases rs)
  case (Cons c qs)
  from Cons.prems have c: "profile_ok c" "normalized qs" "p_id c \<notin> set ids" "p_alias c \<notin> set aliases"
    "p_cred c = [] \<or> p_cred c \<notin> set rs" "disjoint_from ids aliases rs qs"
    "disjoint_from [p_id c] [p_alias c] (if p_cred c \<noteq> [] then [p_cred c] else []) qs"
    by (simp_all only: normalized_Cons disjoint_from_Cons) blast+
  have "normalize (p_id c # ids) (p_alias c # aliases) (if p_cred c \<noteq> [] then p_cred c # rs else rs) qs = Inr qs"
    by (rule Cons.IH [OF c(2)]) (rule iffD2 [OF disjoint_from_more conjI [OF c(6,7)]])
  moreover have "lower_ids c = c" using c(1) by (simp add: lower_ids_def profile_ok_def)
  moreover have "\<not> (tls_ca (p_tls c) \<noteq> [] \<and> \<not> is_abs (tls_ca (p_tls c)))" using c(1) by (auto simp: profile_ok_def)
  ultimately show ?case using c(3-5) normal_form [OF c(1)]
    by (simp add: Let_def split: if_split)
qed simp

lemma refs_filter: "refs ps = map p_cred (filter (\<lambda>p. p_cred p \<noteq> []) ps)"
  by (simp add: refs_def filter_map comp_def)

lemma normalized_sort: "normalized (sort_key p_id qs) = normalized qs"
proof -
  have "refs (sort_key p_id qs) = map p_cred (sort_key p_id (filter (\<lambda>p. p_cred p \<noteq> []) qs))"
    by (simp add: refs_filter filter_sort)
  then show ?thesis
    by (simp add: normalized_def list_all_iff distinct_map refs_filter)
qed

lemma sort_key_sorted: "sorted (map f xs) \<Longrightarrow> sort_key f xs = xs"
  by (induction xs) (auto simp: insort_is_Cons)

lemma DecodeProfiles_cases:
  assumes "DecodeProfiles valid sha raw = Inr (p, rv)"
  obtains v ps qs where "length raw \<le> MaxProfileBytes" "utf8_valid raw" "json_parse raw = Some v" "valid v"
    "decode_profiles v = Some ps" "normalize [] [] [] ps = Inr qs" "p = sort_key p_id qs"
    "rv = profiles_revision sha p"
  using assms
  by (auto simp: DecodeProfiles_def JSON_accepts checkJSON_iff Let_def split: sum.splits option.splits if_splits)

text \<open>
  A decoded profile document is normalised: identifiers are lower case, no two profiles
  share an identifier, an alias or a credential reference, a TLS CA path is absolute, every
  profile has limits, the profiles are in the order of their identifiers, and the revision
  is the digest of the canonical text.
\<close>

theorem DecodeProfiles_normalized:
  assumes "DecodeProfiles valid sha raw = Inr (p, rv)"
  shows "normalized p \<and> sorted (map p_id p) \<and> rv = sha (marshal (profiles_json p))"
proof -
  obtain qs ps where "normalize [] [] [] ps = Inr qs" "p = sort_key p_id qs" "rv = profiles_revision sha p"
    using assms by (rule DecodeProfiles_cases)
  with normalize_sound [of "[]" "[]" "[]" ps qs] show ?thesis
    by (simp add: normalized_sort profiles_revision_def)
qed

lemma DecodeProfiles_good:
  assumes "DecodeProfiles valid sha raw = Inr (p, rv)"
  shows "list_all good_profile p"
proof -
  obtain v ps qs where d: "utf8_valid raw" "json_parse raw = Some v" "decode_profiles v = Some ps"
    "normalize [] [] [] ps = Inr qs" "p = sort_key p_id qs"
    using assms by (rule DecodeProfiles_cases)
  have "list_all good_profile ps" using d(1-3) by (meson decode_profiles_good json_parse_printable)
  with d(4) have "list_all good_profile qs" by (rule normalize_good)
  with d(5) show ?thesis by (simp add: list_all_iff)
qed

text \<open>Decoding a document that was written from profiles.\<close>

lemma DecodeProfiles_written:
  assumes "list_all good_profile ps" and "valid (profiles_json ps)"
    and "length (marshal (profiles_json ps)) \<le> MaxProfileBytes"
  shows "DecodeProfiles valid sha (marshal (profiles_json ps)) =
     (case normalize [] [] [] ps of
        Inl e \<Rightarrow> Inl e
      | Inr qs \<Rightarrow> Inr (sort_key p_id qs, profiles_revision sha (sort_key p_id qs)))"
proof -
  have g: "list_all encodable ps" "list_all profile_text ps"
    using assms(1) by (auto simp: list_all_iff good_profile_def)
  have pr: "printable (profiles_json ps)" using g(2) by (rule printable_profiles)
  have "JSON (marshal (profiles_json ps)) MaxProfileBytes = Inr (marshal (profiles_json ps))"
    "json_parse (marshal (profiles_json ps)) = Some (profiles_json ps)"
    using assms(3) checkJSON_marshal [OF pr profiles_json_shape] by (simp_all add: JSON_accepts)
  with g(1) assms(2) show ?thesis
    by (cases "normalize [] [] [] ps") (simp_all add: DecodeProfiles_def decode_profiles_json Let_def)
qed

lemma DecodeProfiles_marshal:
  assumes "list_all good_profile p" and "normalized p" and "sorted (map p_id p)" and "valid (profiles_json p)"
    and "length (marshal (profiles_json p)) \<le> MaxProfileBytes"
  shows "DecodeProfiles valid sha (marshal (profiles_json p)) = Inr (p, profiles_revision sha p)"
proof -
  have "normalize [] [] [] p = Inr p"
    using assms(2) by (rule normalize_id) (simp add: disjoint_from_def)
  moreover have "sort_key p_id p = p" using assms(3) by (rule sort_key_sorted)
  ultimately show ?thesis
    using assms(1,4,5) by (simp add: DecodeProfiles_written)
qed


definition example_profile :: profile where
  "example_profile =
     \<lparr>p_id = ''AB'', p_alias = ''db'', p_driver = ''postgres'',
      p_connection = \<lparr>n_host = ''h'', n_port = 7, n_database = ''d'', n_username = ''u''\<rparr>, p_cred = ''F0'',
      p_tls = \<lparr>tls_mode = ''verify-full'', tls_ca = ''/ca''\<rparr>, p_ssh = None, p_proxy = None,
      p_limits = Some \<lparr>l_timeout = 9, l_rows = 5, l_bytes = 0\<rparr>\<rparr>"

definition example_decoded :: profile where
  "example_decoded = example_profile\<lparr>p_id := ''ab'', p_cred := ''f0''\<rparr>"

lemma example_good: "good_profile example_profile" "good_profile example_decoded"
proof -
  have u: "utf8_valid ''AB''" "utf8_valid ''ab''" "utf8_valid ''db''" "utf8_valid ''postgres''" "utf8_valid ''F0''"
    "utf8_valid ''f0''" "utf8_valid ''h''" "utf8_valid ''d''" "utf8_valid ''u''" "utf8_valid ''verify-full''"
    "utf8_valid ''/ca''"
    by (rule utf8_valid_ascii, simp)+
  show "good_profile example_profile" "good_profile example_decoded"
    using u
    by (simp_all add: good_profile_def encodable_def profile_text_def connection_text_def tls_text_def
        example_profile_def example_decoded_def int64_def
        encodable_limits_def limits_in_range_def MaxQueryTimeoutMS_def del: utf8_valid.simps)
qed

lemma example_normalize: "normalize [] [] [] [example_profile] = Inr [example_decoded]"
  by code_simp

lemma example_size:
  "length (marshal (profiles_json [example_profile])) \<le> MaxProfileBytes"
  "length (marshal (profiles_json [example_decoded])) \<le> MaxProfileBytes"
proof -
  have "length (marshal (profiles_json [example_profile])) < 400" by code_simp
  then show "length (marshal (profiles_json [example_profile])) \<le> MaxProfileBytes" by (simp add: MaxProfileBytes_def)
  have "length (marshal (profiles_json [example_decoded])) < 400" by code_simp
  then show "length (marshal (profiles_json [example_decoded])) \<le> MaxProfileBytes" by (simp add: MaxProfileBytes_def)
qed

lemma example_decodes:
  "DecodeProfiles (\<lambda>_. True) id (marshal (profiles_json [example_profile])) =
     Inr ([example_decoded], marshal (profiles_json [example_decoded]))"
  using DecodeProfiles_written [of "[example_profile]" "\<lambda>_. True" id] example_good example_size
  by (simp add: example_normalize profiles_revision_def del: normalize.simps)

theorem DecodeProfiles_normalized_witness:
  "DecodeProfiles (\<lambda>_. True) id (marshal (profiles_json [example_profile])) =
     Inr ([example_decoded], marshal (profiles_json [example_decoded])) \<and>
   normalized [example_decoded]"
  using DecodeProfiles_normalized [OF example_decodes] example_decodes by blast


end
