(* ===== verification/Database.thy ===== *)
theory Database
  imports Profiles
begin

text \<open>
  The installation database (config/database.go): its four tables with the constraints of
  the schema, and the operations of a state lease on them.  A statement that fails, a
  lost lease, an expired context and an interrupted commit come from an environment, so
  every error return of the code is a branch here.  SQLite's own part is the usual one: a
  row that violates a constraint is refused, deferred foreign keys are checked by the
  commit, and a transaction that does not commit changes nothing.
\<close>

section \<open>Tables\<close>

record installation =
  in_version :: int
  in_id :: bytes
  in_root :: bytes
  in_generation :: nat

record profile_row =
  pr_id :: bytes
  pr_alias :: bytes
  pr_settings :: bytes
  pr_ref :: "bytes option"

record ciphertext =
  b_ref :: bytes
  b_conn :: bytes
  b_version :: int
  b_data :: bytes

record keyset_row =
  k_account :: bytes
  k_phase :: bytes
  k_fingerprint :: bytes
  k_reserved :: nat

record db =
  d_inst :: "installation option"
  d_profiles :: "profile_row list"
  d_bundles :: "ciphertext list"
  d_keyset :: "keyset_row option"

definition max_blob :: nat where
  "max_blob = 4194337"

definition max_total :: nat where
  "max_total = 8 * 2 ^ 20"

definition max_generation :: nat where
  "max_generation = 2 ^ 63 - 1"

definition total_size :: "ciphertext list \<Rightarrow> nat" where
  "total_size bs = sum_list (map (length \<circ> b_data) bs)"

text \<open>Inserting a row, with the uniqueness and check constraints of its table.\<close>

definition insert_profile :: "profile_row \<Rightarrow> profile_row list \<Rightarrow> profile_row list option" where
  "insert_profile r rs =
     (if pr_id r \<in> pr_id ` set rs \<or> pr_alias r \<in> pr_alias ` set rs \<or>
         (pr_ref r \<noteq> None \<and> pr_ref r \<in> pr_ref ` set rs) \<or> length (pr_settings r) > MaxProfileBytes
      then None else Some (rs @ [r]))"

definition blob_ok :: "ciphertext \<Rightarrow> bool" where
  "blob_ok b \<longleftrightarrow> b_version b = 1 \<and> 0 < length (b_data b) \<and> length (b_data b) \<le> max_blob"

definition insert_bundle :: "ciphertext \<Rightarrow> ciphertext list \<Rightarrow> ciphertext list option" where
  "insert_bundle b bs =
     (if b_ref b \<in> b_ref ` set bs \<or> b_conn b \<in> b_conn ` set bs \<or> \<not> blob_ok b then None else Some (bs @ [b]))"

text \<open>The deferred foreign keys between profiles and bundles.\<close>

definition foreign_keys :: "db \<Rightarrow> bool" where
  "foreign_keys d \<longleftrightarrow>
     list_all (\<lambda>r. case pr_ref r of None \<Rightarrow> True
                   | Some ref \<Rightarrow> list_ex (\<lambda>b. b_ref b = ref \<and> b_conn b = pr_id r) (d_bundles d)) (d_profiles d) \<and>
     list_all (\<lambda>b. list_ex (\<lambda>r. pr_id r = b_conn b \<and> pr_ref r = Some (b_ref b)) (d_profiles d)) (d_bundles d)"

section \<open>Leases\<close>

record identity =
  id_id :: bytes
  id_root :: bytes
  id_key_account :: bytes
  id_purging :: bool

text \<open>What the world does during an operation; \<open>v_sql\<close> says which statements fail.\<close>

record env =
  v_open :: "goerr option"
  v_check :: "goerr option"
  v_ctx :: "goerr option"
  v_sql :: "bytes \<Rightarrow> bool"
  v_point :: "bytes \<Rightarrow> goerr option"
  v_commit :: "bool \<times> bool"

record lease =
  le_write :: bool
  le_identity :: identity
  le_valid :: "jval \<Rightarrow> bool"
  le_sha :: "bytes \<Rightarrow> bytes"

abbreviation ErrState :: goerr where "ErrState \<equiv> Sentinel Cfg_State"
abbreviation ErrOwnership :: goerr where "ErrOwnership \<equiv> Sentinel Cfg_Ownership"
abbreviation ErrRevision :: goerr where "ErrRevision \<equiv> Sentinel Cfg_Revision"
abbreviation ErrCommitUnknown :: goerr where "ErrCommitUnknown \<equiv> Sentinel Cfg_CommitUnknown"

definition validateDatabase :: "env \<Rightarrow> db \<Rightarrow> identity \<Rightarrow> unit res" where
  "validateDatabase v d i =
     (case d_inst d of
        None \<Rightarrow> Inl ErrState
      | Some r \<Rightarrow>
          if v_sql v ''installation'' \<or> in_version r \<noteq> 1 \<or> take 37 (in_id r) \<noteq> id_id i \<or>
             take 65 (in_root r) \<noteq> id_root i
          then Inl ErrState else Inr ())"

text \<open>\<open>Lease.database\<close>: the lease must hold and the database open and be this installation's.\<close>

definition lease_database :: "env \<Rightarrow> db \<Rightarrow> lease \<Rightarrow> unit res" where
  "lease_database v d l =
     (case v_check v of
        Some e \<Rightarrow> Inl e
      | None \<Rightarrow> (case v_open v of Some e \<Rightarrow> Inl e | None \<Rightarrow> validateDatabase v d (le_identity l)))"

definition databaseRevision :: "bytes \<Rightarrow> nat \<Rightarrow> bytes" where
  "databaseRevision digest generation = digest @ '':'' @ show_nat generation"

section \<open>Reading profiles\<close>

definition profile_tags :: "(bytes \<times> bool) list" where
  "profile_tags =
     [(''id'', False), (''alias'', False), (''driver'', False), (''connection'', False),
      (''credential_ref'', True), (''transport'', False), (''limits'', True)]"

definition ref_string :: "bytes option \<Rightarrow> bytes" where
  "ref_string r = (case r of None \<Rightarrow> [] | Some s \<Rightarrow> s)"

text \<open>The loop over the rows, with the size and the number of the rows read so far.\<close>

fun read_rows :: "nat \<Rightarrow> nat \<Rightarrow> profile_row list \<Rightarrow> profile list res" where
  "read_rows sz n [] = Inr []"
| "read_rows sz n (r # rs) =
     (let raw = take (MaxProfileBytes + 1) (pr_settings r); sz' = sz + length raw in
      if sz' > MaxProfileBytes \<or> n \<ge> 128 then Inl ErrState
      else
        (case DecodeStrict profile_tags (profile_of True) raw MaxProfileBytes of
           Inl _ \<Rightarrow> Inl ErrState
         | Inr p \<Rightarrow>
             if p_id p \<noteq> pr_id r \<or> p_alias p \<noteq> pr_alias r \<or> p_cred p \<noteq> ref_string (pr_ref r) then Inl ErrState
             else (case read_rows sz' (Suc n) rs of Inl e \<Rightarrow> Inl e | Inr ps \<Rightarrow> Inr (p # ps))))"

definition ProfileSnapshot :: "env \<Rightarrow> db \<Rightarrow> lease \<Rightarrow> (profile list \<times> bytes) res" where
  "ProfileSnapshot v d l =
     (case lease_database v d l of
        Inl e \<Rightarrow> Inl e
      | Inr _ \<Rightarrow>
          (case d_inst d of
             None \<Rightarrow> Inl ErrState
           | Some i \<Rightarrow>
               if v_sql v ''generation'' \<or> v_sql v ''profiles'' then Inl ErrState
               else
                 (case read_rows 0 0 (take 129 (sort_key pr_id (d_profiles d))) of
                    Inl e \<Rightarrow> Inl e
                  | Inr ps \<Rightarrow>
                      (case DecodeProfiles (le_valid l) (le_sha l) (marshal (profiles_json ps)) of
                         Inl e \<Rightarrow> Inl e
                       | Inr (p, digest) \<Rightarrow> Inr (p, databaseRevision digest (in_generation i))))))"

section \<open>Bundles and the keyset\<close>

definition Bundle :: "env \<Rightarrow> db \<Rightarrow> lease \<Rightarrow> bytes \<Rightarrow> ciphertext res" where
  "Bundle v d l ref =
     (case lease_database v d l of
        Inl e \<Rightarrow> Inl e
      | Inr _ \<Rightarrow>
          if v_sql v ''bundle'' then Inl ErrState
          else
            (case filter (\<lambda>b. b_ref b = ref) (d_bundles d) of
               [] \<Rightarrow> Inl (Sentinel Os_NotExist)
             | b # _ \<Rightarrow>
                 if length (b_data b) < 1 \<or> length (b_data b) > max_blob then Inl ErrState
                 else Inr \<lparr>b_ref = ref, b_conn = take 37 (b_conn b), b_version = b_version b,
                          b_data = take max_blob (b_data b)\<rparr>))"

definition zero_keyset :: keyset_row where
  "zero_keyset = \<lparr>k_account = [], k_phase = [], k_fingerprint = [], k_reserved = 0\<rparr>"

text \<open>A fingerprint is 64 lower-case hexadecimal digits.\<close>

definition hex_bytes :: "nat list \<Rightarrow> bytes" where
  "hex_bytes bs = concat (map (\<lambda>b. [hex_digit (b div 16), hex_digit (b mod 16)]) bs)"

definition fingerprint_ok :: "bytes \<Rightarrow> bool" where
  "fingerprint_ok f \<longleftrightarrow>
     length f = 64 \<and>
     (case hex_decode f of None \<Rightarrow> False | Some bs \<Rightarrow> length bs = 32 \<and> hex_bytes bs = f)"

definition max_reserved :: nat where
  "max_reserved = 1000000"

definition Keyset :: "env \<Rightarrow> db \<Rightarrow> lease \<Rightarrow> keyset_row res" where
  "Keyset v d l =
     (case lease_database v d l of
        Inl e \<Rightarrow> Inl e
      | Inr _ \<Rightarrow>
          if v_sql v ''keyset'' then Inl ErrState
          else
            (case d_keyset d of
               None \<Rightarrow>
                 if v_sql v ''bundle count'' \<or> d_bundles d \<noteq> [] then Inl ErrState else Inr zero_keyset
             | Some k0 \<Rightarrow>
                 let k = \<lparr>k_account = take 65 (k_account k0), k_phase = take 7 (k_phase k0),
                          k_fingerprint = take 65 (k_fingerprint k0), k_reserved = k_reserved k0\<rparr>
                 in
                 if k_account k \<noteq> id_key_account (le_identity l) \<or>
                    (k_phase k \<noteq> ''intent'' \<and> k_phase k \<noteq> ''ready'') \<or>
                    length (k_fingerprint k) \<noteq> 64 \<or> k_reserved k > max_reserved then Inl ErrState
                 else if \<not> fingerprint_ok (k_fingerprint k) then Inl ErrState
                 else
                   let count = length (d_bundles d); total = total_size (d_bundles d) in
                   if v_sql v ''bundle totals'' \<or> count > 128 \<or> total > max_total \<or>
                      (count > 0 \<and> (k_phase k \<noteq> ''ready'' \<or> k_reserved k < count)) then Inl ErrState
                   else Inr k))"

definition SaveKeyset :: "env \<Rightarrow> db \<Rightarrow> lease \<Rightarrow> keyset_row \<Rightarrow> unit res \<times> db" where
  "SaveKeyset v d l k =
     (if \<not> le_write l \<or> k_account k \<noteq> id_key_account (le_identity l) then (Inl ErrOwnership, d)
      else
        (case lease_database v d l of
           Inl e \<Rightarrow> (Inl e, d)
         | Inr _ \<Rightarrow>
             if v_sql v ''save keyset'' \<or> k_phase k \<notin> {''intent'', ''ready''} \<or> k_reserved k > max_reserved
             then (Inl ErrState, d)
             else (Inr (), d\<lparr>d_keyset := Some k\<rparr>)))"

text \<open>
  \<open>HasKeysetForPurge\<close>: a missing file (\<open>present\<close> false) during a purge means the key is gone;
  a database that cannot be read cannot prove that.
\<close>

definition HasKeysetForPurge :: "env \<Rightarrow> goerr option \<Rightarrow> goerr option \<Rightarrow> db \<Rightarrow> lease \<Rightarrow> bool res" where
  "HasKeysetForPurge v file close_err d l =
     (case v_check v of
        Some e \<Rightarrow> Inl e
      | None \<Rightarrow>
          (case file of
             Some e \<Rightarrow>
               if errors_is e Os_NotExist \<and> id_purging (le_identity l) then Inr False else Inl e
           | None \<Rightarrow>
               (case (close_err, Keyset v d l) of
                  (Some e, _) \<Rightarrow> Inl e
                | (None, Inl _) \<Rightarrow> Inr True
                | (None, Inr k) \<Rightarrow> Inr (k_phase k \<noteq> []))))"

section \<open>Publish\<close>

text \<open>The statements of the transaction; \<open>None\<close> stands for a failed statement.\<close>

fun replace_bundles :: "env \<Rightarrow> ciphertext list \<Rightarrow> ciphertext list \<Rightarrow> ciphertext list option" where
  "replace_bundles v [] bs = Some bs"
| "replace_bundles v (b # rest) bs =
     (if v_sql v ''delete bundle'' \<or> v_sql v ''insert bundle'' then None
      else
        (case insert_bundle b (filter (\<lambda>x. b_conn x \<noteq> b_conn b) bs) of
           None \<Rightarrow> None
         | Some bs' \<Rightarrow> replace_bundles v rest bs'))"

definition row_of :: "profile \<Rightarrow> profile_row" where
  "row_of p =
     \<lparr>pr_id = p_id p, pr_alias = p_alias p, pr_settings = marshal (profile_json p),
      pr_ref = (if p_cred p = [] then None else Some (p_cred p))\<rparr>"

fun insert_profiles :: "env \<Rightarrow> profile list \<Rightarrow> profile_row list \<Rightarrow> profile_row list option" where
  "insert_profiles v [] rs = Some rs"
| "insert_profiles v (p # ps) rs =
     (if v_sql v ''insert profile'' then None
      else (case insert_profile (row_of p) rs of None \<Rightarrow> None | Some rs' \<Rightarrow> insert_profiles v ps rs'))"

definition drop_unreferenced :: "profile_row list \<Rightarrow> ciphertext list \<Rightarrow> ciphertext list" where
  "drop_unreferenced rs bs = filter (\<lambda>b. Some (b_ref b) \<in> pr_ref ` set rs) bs"

definition publish_tx :: "env \<Rightarrow> db \<Rightarrow> profile list \<Rightarrow> ciphertext list \<Rightarrow> (db \<times> nat) option" where
  "publish_tx v d p replacements =
     (if v_sql v ''begin'' \<or> v_sql v ''delete profiles'' then None
      else
        (case replace_bundles v replacements (d_bundles d) of
           None \<Rightarrow> None
         | Some bs \<Rightarrow>
             (case insert_profiles v p [] of
                None \<Rightarrow> None
              | Some rs \<Rightarrow>
                  if v_sql v ''delete unreferenced'' then None
                  else
                    let bs' = drop_unreferenced rs bs in
                    if v_sql v ''total'' \<or> total_size bs' > max_total then None
                    else
                      (case d_inst d of
                         None \<Rightarrow> None
                       | Some i \<Rightarrow>
                           if v_sql v ''increment'' \<or> in_generation i + 1 > max_generation then None
                           else
                             Some (d\<lparr>d_inst := Some (i\<lparr>in_generation := in_generation i + 1\<rparr>),
                                     d_profiles := rs, d_bundles := bs'\<rparr>, in_generation i + 1)))))"

text \<open>
  The commit: it fails outright when a deferred foreign key is violated; otherwise the
  environment says whether it reports an error and whether it was applied.
\<close>

definition commit :: "env \<Rightarrow> db \<Rightarrow> db \<Rightarrow> bool \<times> db" where
  "commit v d d' =
     (if \<not> foreign_keys d' then (False, d)
      else (case v_commit v of (True, _) \<Rightarrow> (True, d') | (False, applied) \<Rightarrow> (False, if applied then d' else d)))"

definition Publish :: "env \<Rightarrow> db \<Rightarrow> lease \<Rightarrow> profile list \<Rightarrow> bytes \<Rightarrow> ciphertext list \<Rightarrow> bytes res \<times> db" where
  "Publish v d l p0 expected replacements =
     (if \<not> le_write l then (Inl ErrOwnership, d)
      else
        (case DecodeProfiles (le_valid l) (le_sha l) (marshal (profiles_json p0)) of
           Inl e \<Rightarrow> (Inl e, d)
         | Inr (p, digest) \<Rightarrow>
             (case ProfileSnapshot v d l of
                Inl e \<Rightarrow> (Inl e, d)
              | Inr (_, current) \<Rightarrow>
                  if current \<noteq> expected then (Inl ErrRevision, d)
                  else
                    (case publish_tx v d p replacements of
                       None \<Rightarrow> (Inl ErrState, d)
                     | Some (d', generation) \<Rightarrow>
                         (case (v_point v ''before-commit'', v_ctx v, v_check v) of
                            (Some e, _, _) \<Rightarrow> (Inl e, d)
                          | (None, Some e, _) \<Rightarrow> (Inl e, d)
                          | (None, None, Some e) \<Rightarrow> (Inl e, d)
                          | (None, None, None) \<Rightarrow>
                              (case commit v d d' of
                                 (False, d'') \<Rightarrow> (Inl ErrCommitUnknown, d'')
                               | (True, d'') \<Rightarrow>
                                   (case v_point v ''after-commit'' of
                                      Some e \<Rightarrow> (Inl (Join ErrCommitUnknown e), d'')
                                    | None \<Rightarrow> (Inr (databaseRevision digest generation), d''))))))))"

definition SaveProfiles :: "env \<Rightarrow> db \<Rightarrow> lease \<Rightarrow> profile list \<Rightarrow> bytes \<Rightarrow> bytes res \<times> db" where
  "SaveProfiles v d l p expected = Publish v d l p expected []"

section \<open>The database invariant\<close>

definition profiles_ok :: "profile_row list \<Rightarrow> bool" where
  "profiles_ok rs \<longleftrightarrow>
     distinct (map pr_id rs) \<and> distinct (map pr_alias rs) \<and> distinct (filter (\<lambda>r. r \<noteq> None) (map pr_ref rs)) \<and>
     list_all (\<lambda>r. length (pr_settings r) \<le> MaxProfileBytes) rs"

definition bundles_ok :: "ciphertext list \<Rightarrow> bool" where
  "bundles_ok bs \<longleftrightarrow> distinct (map b_ref bs) \<and> distinct (map b_conn bs) \<and> list_all blob_ok bs"

definition db_ok :: "db \<Rightarrow> bool" where
  "db_ok d \<longleftrightarrow>
     profiles_ok (d_profiles d) \<and> bundles_ok (d_bundles d) \<and> foreign_keys d \<and>
     total_size (d_bundles d) \<le> max_total \<and>
     pred_option (\<lambda>i. in_generation i \<le> max_generation) (d_inst d) \<and>
     pred_option (\<lambda>k. k_phase k \<in> {''intent'', ''ready''} \<and> k_reserved k \<le> max_reserved) (d_keyset d)"

lemma insert_profiles_rows: "insert_profiles v ps rs = Some rs' \<Longrightarrow> rs' = rs @ map row_of ps"
  by (induction ps arbitrary: rs) (fastforce simp: insert_profile_def split: if_splits)+

lemma insert_profile_ok: "insert_profile r rs = Some rs' \<Longrightarrow> profiles_ok rs \<Longrightarrow> profiles_ok rs'"
  by (auto simp: insert_profile_def profiles_ok_def split: if_splits)

lemma insert_profiles_ok: "insert_profiles v ps rs = Some rs' \<Longrightarrow> profiles_ok rs \<Longrightarrow> profiles_ok rs'"
  by (induction ps arbitrary: rs) (auto split: if_splits option.splits dest: insert_profile_ok)

lemma bundles_ok_filter: "bundles_ok bs \<Longrightarrow> bundles_ok (filter P bs)"
  by (auto simp: bundles_ok_def list_all_iff distinct_map_filter)

lemma replace_bundles_ok: "replace_bundles v rp bs = Some bs' \<Longrightarrow> bundles_ok bs \<Longrightarrow> bundles_ok bs'"
proof (induction rp arbitrary: bs)
  case (Cons b rp)
  let ?bs = "filter (\<lambda>x. b_conn x \<noteq> b_conn b) bs"
  from Cons.prems(1) have "insert_bundle b ?bs = Some (?bs @ [b])" "replace_bundles v rp (?bs @ [b]) = Some bs'"
    by (auto simp: insert_bundle_def split: if_splits option.splits)
  moreover from this(1) have "bundles_ok (?bs @ [b])"
    using bundles_ok_filter [OF Cons.prems(2)] by (auto simp: insert_bundle_def bundles_ok_def split: if_splits)
  ultimately show ?case using Cons.IH by blast
qed simp

lemma publish_tx_Some:
  assumes "publish_tx v d p rp = Some (d', g)"
  obtains bs i where "replace_bundles v rp (d_bundles d) = Some bs" "d_inst d = Some i" "g = in_generation i + 1"
    "g \<le> max_generation" "total_size (d_bundles d') \<le> max_total"
    "insert_profiles v p [] = Some (map row_of p)"
    "d' = d\<lparr>d_inst := Some (i\<lparr>in_generation := g\<rparr>), d_profiles := map row_of p,
            d_bundles := drop_unreferenced (map row_of p) bs\<rparr>"
proof -
  from assms obtain bs rs i where "replace_bundles v rp (d_bundles d) = Some bs" "insert_profiles v p [] = Some rs"
    "d_inst d = Some i" "g = in_generation i + 1" "g \<le> max_generation" "total_size (drop_unreferenced rs bs) \<le> max_total"
    "d' = d\<lparr>d_inst := Some (i\<lparr>in_generation := in_generation i + 1\<rparr>), d_profiles := rs, d_bundles := drop_unreferenced rs bs\<rparr>"
    by (auto simp: publish_tx_def Let_def split: if_splits option.splits)
  moreover from this(2) have "rs = map row_of p" using insert_profiles_rows [of v p "[]" rs] by simp
  ultimately show thesis using that [of bs i] by simp
qed

lemma publish_tx_ok:
  assumes "publish_tx v d p rp = Some (d', g)" and "db_ok d" and "foreign_keys d'"
  shows "db_ok d'"
proof -
  obtain bs i where t: "replace_bundles v rp (d_bundles d) = Some bs" "g \<le> max_generation"
    "total_size (d_bundles d') \<le> max_total" "insert_profiles v p [] = Some (map row_of p)"
    "d' = d\<lparr>d_inst := Some (i\<lparr>in_generation := g\<rparr>), d_profiles := map row_of p,
            d_bundles := drop_unreferenced (map row_of p) bs\<rparr>"
    using assms(1) by (rule publish_tx_Some)
  have "profiles_ok (map row_of p)" using t(4) by (rule insert_profiles_ok) (simp add: profiles_ok_def)
  moreover have "bundles_ok (drop_unreferenced (map row_of p) bs)"
    unfolding drop_unreferenced_def using replace_bundles_ok [OF t(1)] assms(2)
    by (intro bundles_ok_filter) (simp add: db_ok_def)
  moreover have "d_profiles d' = map row_of p" "d_bundles d' = drop_unreferenced (map row_of p) bs"
    "d_keyset d' = d_keyset d" "d_inst d' = Some (i\<lparr>in_generation := g\<rparr>)"
    using t(5) by simp_all
  ultimately show ?thesis
    using t(2,3) assms(2,3) unfolding db_ok_def by simp
qed

text \<open>Every outcome of \<open>Publish\<close>.\<close>

lemma Publish_cases:
  assumes "Publish v d l p0 expected rp = (r, d')"
  obtains (failed) e where "r = Inl e" "d' = d"
    | (unknown) e p d1 g where "r = Inl e" "errors_is e Cfg_CommitUnknown" "publish_tx v d p rp = Some (d1, g)"
        "foreign_keys d1" "d' = d1"
    | (finished) p digest d1 g current where "r = Inr (databaseRevision digest g)"
        "DecodeProfiles (le_valid l) (le_sha l) (marshal (profiles_json p0)) = Inr (p, digest)"
        "ProfileSnapshot v d l = Inr (current, expected)" "le_write l"
        "publish_tx v d p rp = Some (d1, g)" "foreign_keys d1" "d' = d1"
proof -
  from assms failed show thesis
  proof (cases "\<exists>p digest current d1 g. le_write l \<and>
      DecodeProfiles (le_valid l) (le_sha l) (marshal (profiles_json p0)) = Inr (p, digest) \<and>
      ProfileSnapshot v d l = Inr (current, expected) \<and> publish_tx v d p rp = Some (d1, g) \<and>
      v_point v ''before-commit'' = None \<and> v_ctx v = None \<and> v_check v = None \<and> foreign_keys d1 \<and>
      (fst (v_commit v) \<or> snd (v_commit v))")
    case False
    then show thesis
      using assms failed
      by (auto simp: Publish_def commit_def split: if_splits sum.splits option.splits prod.splits)
  next
    case True
    then obtain p digest current d1 g where t: "le_write l"
      "DecodeProfiles (le_valid l) (le_sha l) (marshal (profiles_json p0)) = Inr (p, digest)"
      "ProfileSnapshot v d l = Inr (current, expected)" "publish_tx v d p rp = Some (d1, g)"
      "v_point v ''before-commit'' = None" "v_ctx v = None" "v_check v = None" "foreign_keys d1"
      "fst (v_commit v) \<or> snd (v_commit v)" by blast
    moreover obtain a b where "v_commit v = (a, b)" by (cases "v_commit v")
    ultimately have "(r = Inr (databaseRevision digest g) \<or> (\<exists>e. r = Inl e \<and> errors_is e Cfg_CommitUnknown)) \<and> d' = d1"
      using assms by (cases a) (auto simp: Publish_def commit_def split: option.splits)
    then show thesis using t unknown [OF _ _ t(4)] finished [OF _ t(2,3,1,4)] by blast
  qed
qed

lemma Publish_ok:
  assumes "Publish v d l p0 expected rp = (r, d')" and "db_ok d"
  shows "db_ok d'"
  using assms(1) by (cases rule: Publish_cases) (auto intro: publish_tx_ok assms(2))

lemma foreign_keys_keyset: "foreign_keys (d\<lparr>d_keyset := k\<rparr>) = foreign_keys d"
  by (simp add: foreign_keys_def cong: option.case_cong)

lemma SaveKeyset_ok: "SaveKeyset v d l k = (r, d') \<Longrightarrow> db_ok d \<Longrightarrow> db_ok d'"
  by (auto simp: SaveKeyset_def db_ok_def foreign_keys_keyset split: if_splits sum.splits)

section \<open>The lease as a step relation\<close>

text \<open>The operations of a lease that change the database, and the databases they reach.\<close>

inductive db_step :: "db \<Rightarrow> db \<Rightarrow> bool" where
  publish: "Publish v d l p expected rp = (r, d') \<Longrightarrow> db_step d d'"
| save_keyset: "SaveKeyset v d l k = (r, d') \<Longrightarrow> db_step d d'"

inductive_cases db_stepE: "db_step d d'"

inductive db_reachable :: "db \<Rightarrow> bool" where
  created: "db_reachable \<lparr>d_inst = Some \<lparr>in_version = 1, in_id = i, in_root = ro, in_generation = 0\<rparr>,
     d_profiles = [], d_bundles = [], d_keyset = None\<rparr>"
| stepped: "db_reachable d \<Longrightarrow> db_step d d' \<Longrightarrow> db_reachable d'"

lemma db_step_ok: "db_step d d' \<Longrightarrow> db_ok d \<Longrightarrow> db_ok d'"
  by (erule db_stepE) (blast intro: Publish_ok SaveKeyset_ok)+

lemma db_reachable_ok: "db_reachable d \<Longrightarrow> db_ok d"
proof (induction rule: db_reachable.induct)
  case (created i ro)
  show ?case by (simp add: db_ok_def profiles_ok_def bundles_ok_def foreign_keys_def total_size_def)
next
  case (stepped d d')
  then show ?case by (blast intro: db_step_ok)
qed

lemma foreign_keys_refs:
  assumes "foreign_keys d"
  shows "b_ref ` set (d_bundles d) = {ref. Some ref \<in> pr_ref ` set (d_profiles d)}"
proof (intro set_eqI iffI)
  fix ref assume "ref \<in> b_ref ` set (d_bundles d)"
  then obtain b where "b \<in> set (d_bundles d)" "ref = b_ref b" by blast
  with assms obtain r where "r \<in> set (d_profiles d)" "pr_ref r = Some ref"
    unfolding foreign_keys_def list_all_iff list_ex_iff by blast
  then show "ref \<in> {ref. Some ref \<in> pr_ref ` set (d_profiles d)}" by force
next
  fix ref assume "ref \<in> {ref. Some ref \<in> pr_ref ` set (d_profiles d)}"
  then obtain r where r: "r \<in> set (d_profiles d)" "pr_ref r = Some ref" by force
  with assms have "list_ex (\<lambda>b. b_ref b = ref \<and> b_conn b = pr_id r) (d_bundles d)"
    unfolding foreign_keys_def list_all_iff by force
  then show "ref \<in> b_ref ` set (d_bundles d)" unfolding list_ex_iff by blast
qed

text \<open>
  C7.  In every database the installation can reach, the credential references of the
  profiles and the stored bundles correspond exactly: no bundle is orphaned, no reference
  dangles, no two profiles share an identifier or alias, every bundle has the version and
  size the vault expects, and all bundles together stay within eight mebibytes.
\<close>

theorem database_invariant:
  assumes "db_reachable d"
  shows "b_ref ` set (d_bundles d) = {ref. Some ref \<in> pr_ref ` set (d_profiles d)} \<and>
    distinct (map pr_id (d_profiles d)) \<and> distinct (map pr_alias (d_profiles d)) \<and>
    distinct (map b_ref (d_bundles d)) \<and> distinct (map b_conn (d_bundles d)) \<and>
    list_all blob_ok (d_bundles d) \<and> total_size (d_bundles d) \<le> 8388608"
  using db_reachable_ok [OF assms] foreign_keys_refs [of d]
  by (simp add: db_ok_def profiles_ok_def bundles_ok_def max_total_def)

definition new_db :: "identity \<Rightarrow> db" where
  "new_db i =
     \<lparr>d_inst = Some \<lparr>in_version = 1, in_id = id_id i, in_root = id_root i, in_generation = 0\<rparr>,
      d_profiles = [], d_bundles = [], d_keyset = None\<rparr>"

definition calm :: env where
  "calm = \<lparr>v_open = None, v_check = None, v_ctx = None, v_sql = (\<lambda>_. False), v_point = (\<lambda>_. None), v_commit = (True, True)\<rparr>"

text \<open>
  \<open>Publish\<close> is atomic and optimistic: whatever fails, either nothing changed or the
  caller is told that the commit is unknown; success means the caller held the write lease,
  its revision was the current one, all profiles were replaced by the normalised ones, and
  the generation, hence the returned revision, moved by exactly one.
\<close>

theorem Publish_atomic:
  "case Publish v d l p0 expected rp of
     (Inl e, d') \<Rightarrow> d' = d \<or> errors_is e Cfg_CommitUnknown
   | (Inr rv, d') \<Rightarrow>
       le_write l \<and> d_keyset d' = d_keyset d \<and>
       (\<exists>p digest current i. DecodeProfiles (le_valid l) (le_sha l) (marshal (profiles_json p0)) = Inr (p, digest) \<and>
          ProfileSnapshot v d l = Inr (current, expected) \<and>
          d_profiles d' = map row_of p \<and> d_inst d = Some i \<and>
          d_inst d' = Some (i\<lparr>in_generation := in_generation i + 1\<rparr>) \<and>
          rv = databaseRevision digest (in_generation i + 1))"
proof -
  obtain r d' where p: "Publish v d l p0 expected rp = (r, d')" by (cases "Publish v d l p0 expected rp")
  then show ?thesis
  proof (cases rule: Publish_cases)
    case (finished p digest d1 g current)
    obtain bs i where t: "d_inst d = Some i" "g = in_generation i + 1"
      "d1 = d\<lparr>d_inst := Some (i\<lparr>in_generation := g\<rparr>), d_profiles := map row_of p,
            d_bundles := drop_unreferenced (map row_of p) bs\<rparr>"
      using finished(5) by (rule publish_tx_Some)
    then have "d_keyset d1 = d_keyset d" "d_profiles d1 = map row_of p"
      "d_inst d1 = Some (i\<lparr>in_generation := in_generation i + 1\<rparr>)" by simp_all
    with finished t(1,2) p show ?thesis by (simp only: prod.case sum.case) blast
  qed (use p in auto)
qed

section \<open>Reading back what was published\<close>

lemma row_of_simps [simp]:
  "pr_id (row_of p) = p_id p" "pr_alias (row_of p) = p_alias p"
  "pr_settings (row_of p) = marshal (profile_json p)" "ref_string (pr_ref (row_of p)) = p_cred p"
  by (simp_all add: row_of_def ref_string_def)

lemma profile_json_row:
  "\<exists>ms. profile_json p = JObj ms \<and> \<not> containsNull (JObj ms) \<and> \<not> missing_member profile_tags ms"
  by (cases "p_ssh p"; cases "p_proxy p"; cases "p_limits p")
    (simp_all add: profile_json_def transport_json_def opt_member_def omitempty_def connection_json_def tls_json_def
      ssh_json_def proxy_json_def limits_json_def jint_def missing_member_def profile_tags_def)

lemma DecodeStrict_row:
  assumes "good_profile p" and "length (marshal (profile_json p)) \<le> MaxProfileBytes"
  shows "DecodeStrict profile_tags (profile_of True) (marshal (profile_json p)) MaxProfileBytes = Inr p"
proof -
  have "printable (profile_json p)" "profile_of True (profile_json p) = Some p"
    using assms(1) by (auto simp: good_profile_def printable_profile profile_of_json)
  moreover have "nests 64 (profile_json p)" using profile_json_shape(1) by (rule nests_mono) simp
  moreover obtain ms where "profile_json p = JObj ms" "\<not> containsNull (profile_json p)" "\<not> missing_member profile_tags ms"
    using profile_json_row by metis
  ultimately show ?thesis using assms(2) profile_json_shape(2) by (intro DecodeStrict_marshal)
qed

lemma read_rows_back:
  "list_all good_profile ps \<Longrightarrow> sz + sum_list (map (length \<circ> marshal \<circ> profile_json) ps) \<le> MaxProfileBytes \<Longrightarrow>
     n + length ps \<le> 128 \<Longrightarrow>
     read_rows sz n (map row_of ps) = Inr ps"
proof (induction ps arbitrary: sz n)
  case (Cons p ps)
  have l: "sz + length (marshal (profile_json p)) \<le> MaxProfileBytes" "length (marshal (profile_json p)) \<le> MaxProfileBytes"
    using Cons.prems(2) by simp_all
  have t: "take (Suc MaxProfileBytes) (marshal (profile_json p)) = marshal (profile_json p)" using l(2) by simp
  have "DecodeStrict profile_tags (profile_of True) (marshal (profile_json p)) MaxProfileBytes = Inr p"
    using Cons.prems(1) l(2) by (intro DecodeStrict_row) simp_all
  moreover have "read_rows (sz + length (marshal (profile_json p))) (Suc n) (map row_of ps) = Inr ps"
    using Cons.prems by (intro Cons.IH) simp_all
  ultimately show ?case using l t Cons.prems(3) by (simp add: Let_def del: take_all take_all_iff)
qed simp

lemma length_join: "sum_list (map (\<lambda>x. length (concat (map show_lexeme x))) xs) \<le> length (concat (map show_lexeme (join xs)))"
  by (induction xs rule: join.induct) auto

lemma rows_fit:
  "sum_list (map (length \<circ> marshal \<circ> profile_json) ps) \<le> length (marshal (profiles_json ps))"
  using length_join [of "map (written \<circ> profile_json) ps"]
  by (simp add: marshal_def profiles_json_def comp_def jint_def)

lemma sorted_rows: "sorted (map p_id ps) \<Longrightarrow> sort_key pr_id (map row_of ps) = map row_of ps"
  by (rule sort_key_sorted) (simp add: comp_def)

text \<open>A document the schema accepts, with the bounds it states and the size of a document.\<close>

definition publishable :: "lease \<Rightarrow> profile list \<Rightarrow> bool" where
  "publishable l ps \<longleftrightarrow>
     le_valid l (profiles_json ps) \<and> length ps \<le> 128 \<and> length (marshal (profiles_json ps)) \<le> MaxProfileBytes"

definition quiet :: "env \<Rightarrow> bool" where
  "quiet v \<longleftrightarrow> v_open v = None \<and> v_check v = None \<and> (\<forall>q. \<not> v_sql v q)"

lemma snapshot_back:
  assumes "list_all good_profile ps" and "normalized ps" and "sorted (map p_id ps)" and "publishable l ps"
    and "d_profiles d = map row_of ps" and "d_inst d = Some i" and "quiet v"
    and "in_version i = 1" and "take 37 (in_id i) = id_id (le_identity l)" and "take 65 (in_root i) = id_root (le_identity l)"
  shows "ProfileSnapshot v d l =
     Inr (ps, databaseRevision (profiles_revision (le_sha l) ps) (in_generation i))"
proof -
  have "read_rows 0 0 (map row_of ps) = Inr ps"
    using assms(1,4) rows_fit [of ps] by (intro read_rows_back) (auto simp: publishable_def)
  moreover have "take 129 (sort_key pr_id (d_profiles d)) = map row_of ps"
    using assms(3,4,5) sorted_rows [of ps] by (simp add: publishable_def)
  moreover have "lease_database v d l = Inr ()"
    using assms(6-10) by (simp add: lease_database_def validateDatabase_def quiet_def)
  moreover have "DecodeProfiles (le_valid l) (le_sha l) (marshal (profiles_json ps)) = Inr (ps, profiles_revision (le_sha l) ps)"
    using assms(1-4) by (intro DecodeProfiles_marshal) (simp_all add: publishable_def)
  ultimately show ?thesis using assms(6,7) by (simp add: ProfileSnapshot_def quiet_def)
qed

lemma snapshot_database: "ProfileSnapshot v d l = Inr x \<Longrightarrow> lease_database v d l = Inr ()"
  by (auto simp: ProfileSnapshot_def split: sum.splits)

lemma Publish_read_back:
  assumes "Publish v d l p0 expected rp = (Inr rv, d')" and "quiet v'"
  obtains p digest where "DecodeProfiles (le_valid l) (le_sha l) (marshal (profiles_json p0)) = Inr (p, digest)"
    and "publishable l p \<Longrightarrow> ProfileSnapshot v' d' l = Inr (p, rv)"
  using assms(1)
proof (cases rule: Publish_cases)
  case (finished p digest d1 g current)
  obtain bs i where t: "d_inst d = Some i" "g = in_generation i + 1"
    "d1 = d\<lparr>d_inst := Some (i\<lparr>in_generation := g\<rparr>), d_profiles := map row_of p,
            d_bundles := drop_unreferenced (map row_of p) bs\<rparr>"
    using finished(5) by (rule publish_tx_Some)
  have "lease_database v d l = Inr ()" using finished(3) by (rule snapshot_database)
  then have i: "in_version i = 1" "take 37 (in_id i) = id_id (le_identity l)" "take 65 (in_root i) = id_root (le_identity l)"
    using t(1) by (auto simp: lease_database_def validateDatabase_def split: option.splits if_splits)
  obtain qs ps where q: "normalize [] [] [] ps = Inr qs" "p = sort_key p_id qs" "digest = profiles_revision (le_sha l) p"
    using finished(2) by (rule DecodeProfiles_cases)
  have "normalized p" "sorted (map p_id p)"
    using normalize_sound [OF q(1)] q(2) by (simp_all add: normalized_sort)
  moreover have "d_profiles d' = map row_of p" "d_inst d' = Some (i\<lparr>in_generation := g\<rparr>)"
    using t(3) finished(7) by simp_all
  ultimately have "ProfileSnapshot v' d' l = Inr (p, rv)" if "publishable l p"
    using that snapshot_back [of p l d' "i\<lparr>in_generation := g\<rparr>" v'] DecodeProfiles_good [OF finished(2)]
      assms(2) i q(3) finished(1) by simp
  with finished(2) that show thesis by blast
qed auto


subsection \<open>An example\<close>

definition example_lease :: lease where
  "example_lease =
     \<lparr>le_write = True,
      le_identity = \<lparr>id_id = ''i'', id_root = ''r'', id_key_account = ''k'', id_purging = False\<rparr>,
      le_valid = (\<lambda>_. True), le_sha = id\<rparr>"

definition example_bundle :: ciphertext where
  "example_bundle = \<lparr>b_ref = ''f0'', b_conn = ''ab'', b_version = 1, b_data = ''x''\<rparr>"

definition example_db :: db where
  "example_db =
     \<lparr>d_inst = Some \<lparr>in_version = 1, in_id = ''i'', in_root = ''r'', in_generation = 1\<rparr>,
      d_profiles = [row_of example_decoded], d_bundles = [example_bundle], d_keyset = None\<rparr>"

lemma calm_sql [simp]: "v_sql calm q = False"
  by (simp add: calm_def)

lemma quiet_calm [simp]: "quiet calm"
  by (simp add: quiet_def calm_def)

lemma Publish_succeeds:
  assumes "le_write l" and "DecodeProfiles (le_valid l) (le_sha l) (marshal (profiles_json p0)) = Inr (p, digest)"
    and "ProfileSnapshot calm d l = Inr (current, expected)" and "publish_tx calm d p rp = Some (d', g)"
    and "foreign_keys d'"
  shows "Publish calm d l p0 expected rp = (Inr (databaseRevision digest g), d')"
proof -
  have "v_check calm = None" "v_ctx calm = None" "v_point calm = (\<lambda>_. None)" "v_commit calm = (True, True)"
    by (simp_all add: calm_def)
  with assms show ?thesis by (simp add: Publish_def commit_def)
qed

lemma empty_snapshot:
  "ProfileSnapshot calm (new_db (le_identity example_lease)) example_lease =
     Inr ([], databaseRevision (marshal (profiles_json [])) 0)"
proof -
  have "length (marshal (profiles_json [])) < 400" by code_simp
  then have "publishable example_lease []"
    by (simp add: publishable_def example_lease_def MaxProfileBytes_def)
  then have "ProfileSnapshot calm (new_db (le_identity example_lease)) example_lease =
      Inr ([], databaseRevision (profiles_revision (le_sha example_lease) []) 0)"
    by (intro snapshot_back [of "[]" example_lease "new_db (le_identity example_lease)"
            "\<lparr>in_version = 1, in_id = ''i'', in_root = ''r'', in_generation = 0\<rparr>" calm, simplified])
      (simp_all add: new_db_def example_lease_def normalized_def refs_def)
  then show ?thesis by (simp add: profiles_revision_def example_lease_def)
qed

lemma example_publish_tx:
  "publish_tx calm (new_db (le_identity example_lease)) [example_decoded] [example_bundle] = Some (example_db, 1)"
proof -
  have ids: "p_id example_decoded = ''ab''" "p_cred example_decoded = ''f0''"
    by (simp_all add: example_decoded_def)
  have "length (marshal (profile_json example_decoded)) < 400" by code_simp
  then have "length (marshal (profile_json example_decoded)) \<le> MaxProfileBytes" by (simp add: MaxProfileBytes_def)
  then have "insert_profiles calm [example_decoded] [] = Some [row_of example_decoded]"
    by (simp add: insert_profile_def)
  moreover have "replace_bundles calm [example_bundle] [] = Some [example_bundle]"
    by (simp add: insert_bundle_def blob_ok_def example_bundle_def max_blob_def)
  moreover have "drop_unreferenced [row_of example_decoded] [example_bundle] = [example_bundle]"
    using ids by (simp add: drop_unreferenced_def row_of_def example_bundle_def)
  ultimately show ?thesis
    by (simp add: publish_tx_def new_db_def example_lease_def total_size_def max_total_def
        max_generation_def example_db_def) (simp add: example_bundle_def)
qed

lemma example_publish:
  "Publish calm (new_db (le_identity example_lease)) example_lease [example_profile]
     (databaseRevision (marshal (profiles_json [])) 0) [example_bundle] =
   (Inr (databaseRevision (marshal (profiles_json [example_decoded])) 1), example_db)"
proof (rule Publish_succeeds [OF _ _ empty_snapshot example_publish_tx])
  show "le_write example_lease" by (simp add: example_lease_def)
  show "DecodeProfiles (le_valid example_lease) (le_sha example_lease) (marshal (profiles_json [example_profile])) =
    Inr ([example_decoded], marshal (profiles_json [example_decoded]))"
    using example_decodes by (simp add: example_lease_def)
  have "p_id example_decoded = ''ab''" "p_cred example_decoded = ''f0''"
    by (simp_all add: example_decoded_def)
  then show "foreign_keys example_db"
    by (simp add: foreign_keys_def example_db_def example_bundle_def row_of_def)
qed


lemma example_read_back:
  "ProfileSnapshot calm example_db example_lease =
     Inr ([example_decoded], databaseRevision (marshal (profiles_json [example_decoded])) 1)"
proof -
  have "publishable example_lease [example_decoded]"
    using example_size(2) by (simp add: publishable_def example_lease_def)
  moreover have "normalized [example_decoded]" using normalize_sound [OF example_normalize] by simp
  moreover have "list_all good_profile [example_decoded]" using example_good(2) by simp
  moreover have "d_profiles example_db = map row_of [example_decoded]" "sorted (map p_id [example_decoded])"
    "d_inst example_db = Some \<lparr>in_version = 1, in_id = ''i'', in_root = ''r'', in_generation = 1\<rparr>"
    by (simp_all add: example_db_def)
  ultimately have "ProfileSnapshot calm example_db example_lease =
      Inr ([example_decoded], databaseRevision (profiles_revision (le_sha example_lease) [example_decoded])
        (in_generation \<lparr>in_version = 1, in_id = ''i'', in_root = ''r'', in_generation = 1\<rparr>))"
    by (intro snapshot_back quiet_calm) (assumption | simp add: example_lease_def)+
  moreover have "le_sha example_lease = id" by (simp add: example_lease_def)
  ultimately show ?thesis by (simp only: profiles_revision_def id_apply installation.simps)
qed

text \<open>Publishing the stored profile again, unchanged, is a new generation.\<close>

lemma example_republish:
  "Publish calm example_db example_lease [example_profile]
     (databaseRevision (marshal (profiles_json [example_decoded])) 1) [] =
   (Inr (databaseRevision (marshal (profiles_json [example_decoded])) 2),
    example_db\<lparr>d_inst := Some \<lparr>in_version = 1, in_id = ''i'', in_root = ''r'', in_generation = 2\<rparr>\<rparr>)"
proof (rule Publish_succeeds [OF _ _ example_read_back])
  have ids: "p_id example_decoded = ''ab''" "p_cred example_decoded = ''f0''"
    by (simp_all add: example_decoded_def)
  have "length (marshal (profile_json example_decoded)) < 400" by code_simp
  then have "length (marshal (profile_json example_decoded)) \<le> MaxProfileBytes" by (simp add: MaxProfileBytes_def)
  then have "insert_profiles calm [example_decoded] [] = Some [row_of example_decoded]"
    by (simp add: insert_profile_def)
  moreover have "drop_unreferenced [row_of example_decoded] [example_bundle] = [example_bundle]"
    using ids by (simp add: drop_unreferenced_def row_of_def example_bundle_def)
  ultimately show "publish_tx calm example_db [example_decoded] [] =
      Some (example_db\<lparr>d_inst := Some \<lparr>in_version = 1, in_id = ''i'', in_root = ''r'', in_generation = 2\<rparr>\<rparr>, 2)"
    by (simp add: publish_tx_def total_size_def max_total_def max_generation_def example_db_def)
      (simp add: example_bundle_def max_generation_def Let_def)
  show "foreign_keys (example_db\<lparr>d_inst := Some \<lparr>in_version = 1, in_id = ''i'', in_root = ''r'', in_generation = 2\<rparr>\<rparr>)"
    using ids by (simp add: foreign_keys_def example_db_def example_bundle_def row_of_def)
qed (use example_decodes in \<open>simp_all add: example_lease_def\<close>)

lemma example_db_reachable: "db_reachable example_db"
proof (rule db_reachable.stepped)
  show "db_reachable (new_db (le_identity example_lease))" unfolding new_db_def by (rule db_reachable.created)
  show "db_step (new_db (le_identity example_lease)) example_db" using example_publish by (rule db_step.publish)
qed

theorem database_invariant_witness:
  "b_ref ` set (d_bundles example_db) = {''f0''} \<and> {ref. Some ref \<in> pr_ref ` set (d_profiles example_db)} = {''f0''}"
  using database_invariant [OF example_db_reachable] by (simp add: example_db_def example_bundle_def)

end
