(* ===== verification/Revisions.thy ===== *)
theory Revisions
  imports Database
begin

text \<open>
  The contract the editors of the installation rely on: a revision names one generation of
  the document, every successful publication moves the generation by one, and nothing turns
  it back.  The contract is a locale; its client lemma is that an edit based on an outdated
  revision never succeeds.  The installation database provides it.
\<close>

section \<open>The contract\<close>

locale optimistic_store =
  fixes step :: "'s \<Rightarrow> 's \<Rightarrow> bool"
    and generation :: "'s \<Rightarrow> nat"
    and names :: "'r \<Rightarrow> nat \<Rightarrow> bool"
    and publishes :: "'s \<Rightarrow> 'r \<Rightarrow> 'r \<Rightarrow> 's \<Rightarrow> bool"
  assumes names_unique: "names r g \<Longrightarrow> names r h \<Longrightarrow> g = h"
    and step_mono: "step s t \<Longrightarrow> generation s \<le> generation t"
    and publishes_current: "publishes s r r' t \<Longrightarrow> names r (generation s)"
    and publishes_next: "publishes s r r' t \<Longrightarrow> generation t = Suc (generation s) \<and> names r' (generation t)"
begin

lemma steps_mono: "step\<^sup>*\<^sup>* s t \<Longrightarrow> generation s \<le> generation t"
  by (induction rule: rtranclp_induct) (auto dest: step_mono)

lemma never_again:
  assumes "publishes s r r' t" and "step\<^sup>*\<^sup>* t u"
  shows "\<not> publishes u r r'' v"
proof
  assume "publishes u r r'' v"
  then have "names r (generation u)" by (rule publishes_current)
  then have "generation u = generation s" using publishes_current [OF assms(1)] names_unique by blast
  moreover have "generation s < generation u"
    using publishes_next [OF assms(1)] steps_mono [OF assms(2)] by simp
  ultimately show False by simp
qed

lemma fresh_revision:
  assumes "publishes s r r' t" and "step\<^sup>*\<^sup>* t u" and "publishes u q q' v"
  shows "q' \<noteq> r'"
proof
  assume eq: "q' = r'"
  have "names r' (generation t)" "names r' (generation v)" "generation v = Suc (generation u)"
    using publishes_next [OF assms(1)] publishes_next [OF assms(3)] unfolding eq by blast+
  with names_unique [of r' "generation t" "generation v"] steps_mono [OF assms(2)] show False by simp
qed

end

section \<open>The installation database provides it\<close>

definition db_generation :: "db \<Rightarrow> nat" where
  "db_generation d = (case d_inst d of None \<Rightarrow> 0 | Some i \<Rightarrow> in_generation i)"

definition revision_names :: "bytes \<Rightarrow> nat \<Rightarrow> bool" where
  "revision_names rv g \<longleftrightarrow> (\<exists>digest. rv = databaseRevision digest g)"

definition published :: "db \<Rightarrow> bytes \<Rightarrow> bytes \<Rightarrow> db \<Rightarrow> bool" where
  "published d expected rv d' \<longleftrightarrow> (\<exists>v l p rp. Publish v d l p expected rp = (Inr rv, d'))"

lemma digits_colon: "list_all is_digit xs \<Longrightarrow> CHR '':'' \<notin> set xs"
  by (auto simp: list_all_iff is_digit_def in_range_def)

lemma databaseRevision_inj: "databaseRevision a g = databaseRevision b h \<Longrightarrow> g = h"
proof -
  assume eq: "databaseRevision a g = databaseRevision b h"
  have "rev (databaseRevision x n) = rev (show_nat n) @ CHR '':'' # rev x" for x n
    by (simp add: databaseRevision_def)
  with eq have "rev (show_nat g) @ CHR '':'' # rev a = rev (show_nat h) @ CHR '':'' # rev b" by metis
  moreover have "takeWhile (\<lambda>c. c \<noteq> CHR '':'') (rev (show_nat n) @ CHR '':'' # xs) = rev (show_nat n)" for n xs
    using digits_colon [of "show_nat n"] show_nat_digits [of n]
    by (subst takeWhile_append2) auto
  ultimately have "rev (show_nat g) = rev (show_nat h)" by metis
  then have "digits_value 0 (show_nat g) = digits_value 0 (show_nat h)" by simp
  then show "g = h" by (simp add: digits_value_show)
qed

lemma snapshot_generation:
  "ProfileSnapshot v d l = Inr (ps, rv) \<Longrightarrow> revision_names rv (db_generation d)"
  by (auto simp: ProfileSnapshot_def db_generation_def revision_names_def split: sum.splits option.splits if_splits)

lemma Publish_generation:
  assumes "Publish v d l p0 expected rp = (Inr rv, d')"
  shows "revision_names expected (db_generation d)" "db_generation d' = Suc (db_generation d)"
    "revision_names rv (db_generation d')"
proof -
  have "\<exists>ps. ProfileSnapshot v d l = Inr (ps, expected)" "db_generation d' = Suc (db_generation d)"
    "revision_names rv (db_generation d')"
    using assms
  proof (atomize (full), cases rule: Publish_cases)
    case (finished p digest d1 g current)
    obtain bs i where "d_inst d = Some i" "g = in_generation i + 1"
      "d1 = d\<lparr>d_inst := Some (i\<lparr>in_generation := g\<rparr>), d_profiles := map row_of p,
              d_bundles := drop_unreferenced (map row_of p) bs\<rparr>"
      using finished(5) by (rule publish_tx_Some)
    with finished show "(\<exists>ps. ProfileSnapshot v d l = Inr (ps, expected)) \<and>
        db_generation d' = Suc (db_generation d) \<and> revision_names rv (db_generation d')"
      by (auto simp: db_generation_def revision_names_def)
  qed auto
  then show "revision_names expected (db_generation d)" "db_generation d' = Suc (db_generation d)"
    "revision_names rv (db_generation d')"
    using snapshot_generation by blast+
qed

lemma db_step_generation: "db_step d d' \<Longrightarrow> db_generation d \<le> db_generation d'"
proof (erule db_stepE)
  fix v l p expected rp r
  assume "Publish v d l p expected rp = (r, d')"
  then show "db_generation d \<le> db_generation d'"
  proof (cases rule: Publish_cases)
    case (unknown e p d1 g)
    then show ?thesis by (auto elim!: publish_tx_Some simp: db_generation_def)
  next
    case (finished p digest d1 g current)
    then show ?thesis by (auto elim!: publish_tx_Some simp: db_generation_def)
  qed auto
qed (auto simp: SaveKeyset_def db_generation_def split: if_splits sum.splits)

interpretation idb: optimistic_store db_step db_generation revision_names published
proof unfold_locales
  show "revision_names r g \<Longrightarrow> revision_names r h \<Longrightarrow> g = h" for r g h
    unfolding revision_names_def using databaseRevision_inj by blast
  show "db_step s t \<Longrightarrow> db_generation s \<le> db_generation t" for s t by (rule db_step_generation)
  show "published s r r' t \<Longrightarrow> revision_names r (db_generation s)" for s r r' t
    unfolding published_def using Publish_generation(1) by blast
  show "published s r r' t \<Longrightarrow> db_generation t = Suc (db_generation s) \<and> revision_names r' (db_generation t)" for s r r' t
    unfolding published_def using Publish_generation(2,3) by blast
qed

text \<open>
  C15.  No lost update: once a publication based on a revision has succeeded, no sequence of
  lease operations, failed or uncertain ones included, leads to a database in which another
  publication based on the same revision succeeds, and no later publication is given the
  same revision again.
\<close>

theorem no_lost_update:
  assumes "Publish v d l p expected rp = (Inr rv, d1)" and "db_step\<^sup>*\<^sup>* d1 d2"
    and "Publish w d2 m q basis rq = (Inr rv', d3)"
  shows "basis \<noteq> expected \<and> rv' \<noteq> rv"
proof -
  have p: "published d expected rv d1" "published d2 basis rv' d3"
    using assms(1,3) unfolding published_def by blast+
  with idb.never_again [OF p(1) assms(2)] idb.fresh_revision [OF p(1) assms(2) p(2)] show ?thesis by blast
qed

theorem no_lost_update_witness:
  "databaseRevision (marshal (profiles_json [example_decoded])) 1 \<noteq> databaseRevision (marshal (profiles_json [])) 0 \<and>
   databaseRevision (marshal (profiles_json [example_decoded])) 2 \<noteq>
     databaseRevision (marshal (profiles_json [example_decoded])) 1"
  using no_lost_update [OF example_publish rtranclp.rtrancl_refl example_republish] by simp

end
