(* ===== verification/Secrets.thy ===== *)
theory Secrets
  imports Profiles "HOL-Library.Multiset"
begin

text \<open>
  The secrets of a connection and the keyset that protects them (vault/vault.go,
  vault/keyset.go), the safe errors of a key provider (vault/provider.go) and the keyring
  prompt (vault/interaction.go).  Tink's keyset reader and AEAD, the protobuf decoder, the
  native key store and SHA-256 are arguments.
\<close>

abbreviation ErrRepair :: goerr where "ErrRepair \<equiv> Sentinel Vault_Repair"

definition MaxPlaintextBytes :: nat where
  "MaxPlaintextBytes = 4194304"

definition MaxSecretBytes :: nat where
  "MaxSecretBytes = 131072"

definition MaxKeysetBytes :: nat where
  "MaxKeysetBytes = 65536"

definition MaxReservations :: nat where
  "MaxReservations = 1000000"

section \<open>Secrets\<close>

record secrets =
  s_password :: bytes
  s_ssh_password :: bytes
  s_ssh_key :: bytes
  s_ssh_passphrase :: bytes
  s_proxy_password :: bytes

definition no_secrets :: secrets where
  "no_secrets =
     \<lparr>s_password = [], s_ssh_password = [], s_ssh_key = [], s_ssh_passphrase = [], s_proxy_password = []\<rparr>"

definition secret_ok :: "bytes \<Rightarrow> bool" where
  "secret_ok v \<longleftrightarrow> length v \<le> MaxSecretBytes \<and> utf8_valid v"

definition secrets_valid :: "secrets \<Rightarrow> bool" where
  "secrets_valid s \<longleftrightarrow>
     list_all secret_ok [s_password s, s_ssh_password s, s_ssh_key s, s_ssh_passphrase s, s_proxy_password s]"

definition secrets_json :: "secrets \<Rightarrow> jval" where
  "secrets_json s =
     JObj (omitempty ''password'' (s_password s) @ omitempty ''ssh_password'' (s_ssh_password s) @
           omitempty ''ssh_private_key'' (s_ssh_key s) @ omitempty ''ssh_key_passphrase'' (s_ssh_passphrase s) @
           omitempty ''proxy_password'' (s_proxy_password s))"

definition secret_names :: "bytes list" where
  "secret_names = [''password'', ''ssh_password'', ''ssh_private_key'', ''ssh_key_passphrase'', ''proxy_password'']"

definition decode_secrets :: "(bytes \<times> jval) list \<Rightarrow> secrets option" where
  "decode_secrets ms =
     do { known True secret_names ms;
          a \<leftarrow> str_member ''password'' ms; b \<leftarrow> str_member ''ssh_password'' ms;
          c \<leftarrow> str_member ''ssh_private_key'' ms; d \<leftarrow> str_member ''ssh_key_passphrase'' ms;
          e \<leftarrow> str_member ''proxy_password'' ms;
          Some \<lparr>s_password = a, s_ssh_password = b, s_ssh_key = c, s_ssh_passphrase = d, s_proxy_password = e\<rparr> }"

section \<open>The plaintext of a bundle\<close>

text \<open>
  \<open>bundle\<close> with its \<open>UnmarshalJSON\<close>.  That method repeats the strict checks of the document
  that the caller has just made on the same value, so they appear once.
\<close>

definition bundle_json :: "secrets \<Rightarrow> jval" where
  "bundle_json s = JObj [(''version'', jint 1), (''secrets'', secrets_json s)]"

definition bundle_of :: "jval \<Rightarrow> secrets option" where
  "bundle_of v =
     (case v of
        JObj ms \<Rightarrow>
          do { known True [''version'', ''secrets''] ms;
               n \<leftarrow> int_member 0 ''version'' ms;
               s \<leftarrow> struct_member decode_secrets ''secrets'' ms;
               (if n \<noteq> 1 \<or> \<not> secrets_valid s then None else Some s) }
      | _ \<Rightarrow> None)"

definition bundle_tags :: "(bytes \<times> bool) list" where
  "bundle_tags = [(''version'', False), (''secrets'', False)]"

definition decode_bundle :: "bytes \<Rightarrow> secrets res" where
  "decode_bundle plain = DecodeStrict bundle_tags bundle_of plain MaxPlaintextBytes"

section \<open>Patches\<close>

text \<open>A patch is a Go map: its entries in the order the loop visits them.\<close>

type_synonym patch = "(bytes \<times> bytes) list"

definition set_secret :: "bytes \<Rightarrow> bytes \<Rightarrow> secrets \<Rightarrow> secrets option" where
  "set_secret k v s =
     (if k = ''password'' then Some (s\<lparr>s_password := v\<rparr>)
      else if k = ''ssh_password'' then Some (s\<lparr>s_ssh_password := v\<rparr>)
      else if k = ''ssh_private_key'' then Some (s\<lparr>s_ssh_key := v\<rparr>)
      else if k = ''ssh_key_passphrase'' then Some (s\<lparr>s_ssh_passphrase := v\<rparr>)
      else if k = ''proxy_password'' then Some (s\<lparr>s_proxy_password := v\<rparr>)
      else None)"

fun patch_apply :: "patch \<Rightarrow> secrets \<Rightarrow> secrets res" where
  "patch_apply [] s = Inr s"
| "patch_apply ((k, v) # p) s =
     (if length v > MaxSecretBytes \<or> \<not> utf8_valid v then Inl ErrRepair
      else (case set_secret k v s of None \<Rightarrow> Inl ErrRepair | Some s' \<Rightarrow> patch_apply p s'))"

definition patch_complete :: "patch \<Rightarrow> profile \<Rightarrow> bool" where
  "patch_complete p c =
     (if map_of p ''password'' = None then False
      else
        (case p_ssh c of
           Some h \<Rightarrow> map_of p (if ssh_auth h = ''key'' then ''ssh_private_key'' else ''ssh_password'') \<noteq> None
         | None \<Rightarrow> True) \<and>
        (case p_proxy c of
           Some x \<Rightarrow> px_username x \<noteq> [] \<longrightarrow> map_of p ''proxy_password'' \<noteq> None
         | None \<Rightarrow> True))"

section \<open>Keysets\<close>

text \<open>What Tink reports of a keyset, and the operations of it that the code calls.\<close>

record key_info =
  ki_enabled :: bool
  ki_id :: nat
  ki_tink_prefix :: bool
  ki_type_url :: bytes

record key_material =
  km_symmetric :: bool
  km_value :: bytes

record keyset_handle =
  h_primary :: nat
  h_infos :: "key_info list"
  h_material :: "key_material list"

record 'k tink =
  tk_read :: "bytes \<Rightarrow> keyset_handle option"
  tk_new :: "keyset_handle \<Rightarrow> 'k option"
  tk_aes_key :: "bytes \<Rightarrow> (nat \<times> bytes) option"
  tk_encrypt :: "'k \<Rightarrow> nat \<Rightarrow> bytes \<Rightarrow> bytes \<Rightarrow> bytes option"
  tk_decrypt :: "'k \<Rightarrow> bytes \<Rightarrow> bytes \<Rightarrow> bytes option"
  tk_sha :: "bytes \<Rightarrow> bytes"

definition key_fingerprint :: "'k tink \<Rightarrow> bytes \<Rightarrow> bytes" where
  "key_fingerprint t raw = hex_text (tk_sha t raw)"

definition aes256 :: "'k tink \<Rightarrow> bytes \<Rightarrow> bool" where
  "aes256 t raw = (case tk_aes_key t raw of None \<Rightarrow> False | Some (version, kv) \<Rightarrow> version = 0 \<and> length kv = 32)"

definition parseKeyset :: "'k tink \<Rightarrow> bytes \<Rightarrow> 'k res" where
  "parseKeyset t raw =
     (if length raw = 0 \<or> length raw > MaxKeysetBytes then Inl ErrRepair
      else
        (case tk_read t raw of
           None \<Rightarrow> Inl ErrRepair
         | Some h \<Rightarrow>
             if length (h_infos h) \<noteq> 1 then Inl ErrRepair
             else
               let k = hd (h_infos h) in
               if \<not> ki_enabled k \<or> ki_id k \<noteq> h_primary h \<or> \<not> ki_tink_prefix k \<or>
                  ki_type_url k \<noteq> ''type.googleapis.com/google.crypto.tink.AesGcmKey'' then Inl ErrRepair
               else if length (h_material h) \<noteq> 1 \<or> \<not> km_symmetric (hd (h_material h)) then Inl ErrRepair
               else
                 (case tk_new t h of
                    None \<Rightarrow> Inl ErrRepair
                  | Some a \<Rightarrow> if \<not> aes256 t (km_value (hd (h_material h))) then Inl ErrRepair else Inr a)))"

section \<open>Provider errors and prompts\<close>

definition provider_errors :: "sentinel list" where
  "provider_errors =
     [Vault_Missing, Vault_Denied, Vault_Locked, Vault_Unavailable, Vault_Password, Vault_Terminal,
      Vault_UserBus, Vault_Unsupported, Vault_ProviderChanged, Vault_ProviderUnavailable, Vault_Repair,
      Ctx_Canceled, Ctx_DeadlineExceeded]"

definition providerError :: "goerr \<Rightarrow> goerr" where
  "providerError e = (case find (errors_is e) provider_errors of Some s \<Rightarrow> Sentinel s | None \<Rightarrow> Sentinel Vault_Unavailable)"

text \<open>
  \<open>providerCall\<close>: the caller waits for the result or for the end of its context, and a result
  that meets an ended context is cleared; \<open>ctx\<close> is the context's error when the wait ends.
\<close>

definition providerCall :: "goerr option \<Rightarrow> 'a res \<Rightarrow> 'a res" where
  "providerCall ctx r = (case ctx of Some e \<Rightarrow> Inl e | None \<Rightarrow> r)"

record challenge =
  ch_kind :: bytes
  ch_attempt :: int

definition challenge_valid :: "challenge \<Rightarrow> bool" where
  "challenge_valid c \<longleftrightarrow>
     (ch_kind c = ''unlock'' \<or> ch_kind c = ''create'') \<and> ch_attempt c \<ge> 1 \<and> ch_attempt c \<le> 3"

text \<open>\<open>AskKeyring\<close>: \<open>prompt\<close> is the prompt the context carries, \<open>ctx\<close> its error after asking.\<close>

definition AskKeyring :: "bool \<Rightarrow> (challenge \<Rightarrow> bytes res) option \<Rightarrow> goerr option \<Rightarrow> challenge \<Rightarrow> bytes res" where
  "AskKeyring allowed prompt ctx c =
     (if \<not> challenge_valid c then Inl (Sentinel Vault_Unavailable)
      else
        (case prompt of
           None \<Rightarrow> Inl (Sentinel Vault_Terminal)
         | Some ask \<Rightarrow>
             if \<not> allowed then Inl (Sentinel Vault_Terminal)
             else
               (case (ctx, ask c) of
                  (Some e, _) \<Rightarrow> Inl e
                | (None, Inl e) \<Rightarrow> Inl e
                | (None, Inr password) \<Rightarrow>
                    if length password = 0 \<or> length password > MaxSecretBytes \<or> \<not> utf8_valid password
                    then Inl (Sentinel Vault_Password) else Inr password)))"

text \<open>\<open>PrepareDeletion\<close>: \<open>prepare\<close> is the provider's own method, when it has one.\<close>

definition PrepareDeletion :: "(bytes \<Rightarrow> unit res) option \<Rightarrow> bytes \<Rightarrow> unit res" where
  "PrepareDeletion prepare account = (case prepare of None \<Rightarrow> Inr () | Some f \<Rightarrow> f account)"

section \<open>Printing and reading back a bundle\<close>

declare map_of_append [simp del]

lemma printable_members: "list_all (\<lambda>(k, v). utf8_valid k \<and> printable v) ms \<Longrightarrow> printable (JObj ms)"
  by (induction ms) auto

lemma secrets_read_back:
  "\<exists>ms. secrets_json s = JObj ms \<and> decode_secrets ms = Some s"
  by (simp add: secrets_json_def decode_secrets_def known_def secret_names_def str_member_def)

lemma bundle_of_json: "secrets_valid s \<Longrightarrow> bundle_of (bundle_json s) = Some s"
  using secrets_read_back [of s]
  by (auto simp: bundle_of_def bundle_json_def known_def int_member_def jint_def struct_member_def obj_member_def)

lemma bundle_json_text: "secrets_valid s \<Longrightarrow> printable (bundle_json s)"
  by (simp add: secrets_valid_def secret_ok_def bundle_json_def secrets_json_def omitempty_def jint_def
      utf8_valid_ascii lex_number_show_int del: utf8_valid.simps)

lemma bundle_json_shape: "nests 2 (bundle_json s)" "dup_free (bundle_json s)" "\<not> containsNull (bundle_json s)"
  by (simp_all add: bundle_json_def secrets_json_def omitempty_def jint_def numeral_2_eq_2)

text \<open>An escaped string is at most six times as long, so a bundle of valid secrets always fits.\<close>

lemma length_escape_ascii: "length (escape_ascii c) \<le> 6"
  by (simp add: escape_ascii_def u_escape_def split: option.split)

lemma length_escape_rune: "cs \<noteq> [] \<Longrightarrow> length (escape_rune cs) \<le> 6 * length cs"
  by (simp add: escape_rune_def u_escape_def)

lemma length_escape: "length (escape s) \<le> 6 * length s"
proof (induction s rule: escape.induct)
  case (2 c cs)
  show ?case
  proof (cases "rune_rest c cs")
    case None
    then show ?thesis
      using 2 length_escape_ascii [of c] by (auto simp: escape.simps(2) [of c] u_escape_def)
  next
    case (Some r)
    then have "length r \<le> length cs" by (rule rune_rest_length)
    moreover have "length (escape_rune (take (Suc (length cs) - length r) (c # cs))) \<le> 6 * (Suc (length cs) - length r)"
      using \<open>length r \<le> length cs\<close> length_escape_rune [of "take (Suc (length cs) - length r) (c # cs)"] by simp
    ultimately show ?thesis
      using Some 2 length_escape_ascii [of c] by (auto simp: escape.simps(2) [of c])
  qed
qed simp

lemma length_shown_join: "length (concat (map show_lexeme (join xs))) \<le> sum_list (map (\<lambda>x. Suc (length (concat (map show_lexeme x)))) xs)"
  by (induction xs rule: join.induct) auto

text \<open>An upper bound on the length of a printed value.\<close>

fun json_size :: "jval \<Rightarrow> nat" where
  "json_size JNull = 4"
| "json_size (JBool b) = 5"
| "json_size (JNum n) = length n"
| "json_size (JStr s) = 2 + 6 * length s"
| "json_size (JArr vs) = 2 + sum_list (map (\<lambda>v. 1 + json_size v) vs)"
| "json_size (JObj ms) = 2 + sum_list (map (\<lambda>(k, v). 4 + 6 * length k + json_size v) ms)"

lemma length_marshal: "length (marshal v) \<le> json_size v"
proof (induction v)
  case (JStr s)
  then show ?case using length_escape [of s] by (simp add: marshal_def)
next
  case (JArr vs)
  have "sum_list (map (\<lambda>v. Suc (length (concat (map show_lexeme (written v))))) vs) \<le> sum_list (map (\<lambda>v. 1 + json_size v) vs)"
    using JArr.IH by (intro sum_list_mono) (simp add: marshal_def)
  with length_shown_join [of "map written vs"] show ?case by (simp add: marshal_def comp_def)
next
  case (JObj ms)
  have "Suc (length (concat (map show_lexeme (LStr k # Colon # written v)))) \<le> 4 + 6 * length k + json_size v"
    if "(k, v) \<in> set ms" for k v
    using JObj.IH [OF that, of v] length_escape [of k] by (simp add: marshal_def)
  then have "sum_list (map (\<lambda>m. Suc (length (concat (map show_lexeme (case m of (k, v) \<Rightarrow> LStr k # Colon # written v))))) ms)
      \<le> sum_list (map (\<lambda>(k, v). 4 + 6 * length k + json_size v) ms)"
    by (intro sum_list_mono) (auto split: prod.split)
  with length_shown_join [of "map (\<lambda>(k, v). LStr k # Colon # written v) ms"]
  show ?case by (simp add: marshal_def comp_def)
qed (simp_all add: marshal_def)

lemma length_bundle:
  assumes "secrets_valid s"
  shows "length (marshal (bundle_json s)) \<le> MaxPlaintextBytes"
proof -
  have "length (s_password s) \<le> 131072" "length (s_ssh_password s) \<le> 131072" "length (s_ssh_key s) \<le> 131072"
    "length (s_ssh_passphrase s) \<le> 131072" "length (s_proxy_password s) \<le> 131072"
    using assms by (simp_all add: secrets_valid_def secret_ok_def MaxSecretBytes_def)
  then have "json_size (bundle_json s) \<le> 4000000"
    by (simp add: bundle_json_def secrets_json_def omitempty_def jint_def show_int_def show_nat.simps [of "Suc 0"])
  with length_marshal [of "bundle_json s"] show ?thesis by (simp add: MaxPlaintextBytes_def)
qed

lemma decode_bundle_json: "secrets_valid s \<Longrightarrow> decode_bundle (marshal (bundle_json s)) = Inr s"
  unfolding decode_bundle_def
  by (rule DecodeStrict_marshal [OF bundle_json_def])
    (simp_all add: bundle_json_text bundle_json_shape bundle_of_json length_bundle missing_member_def bundle_tags_def
      nests_mono [OF bundle_json_shape(1)])

lemma decode_bundle_valid: "decode_bundle plain = Inr s \<Longrightarrow> secrets_valid s"
  by (auto simp: decode_bundle_def DecodeStrict_iff bundle_of_def bind_eq_Some_conv split: if_splits)

text \<open>
  Every set of valid secrets fits a bundle and is read back from it unchanged, and
  whatever plaintext is accepted holds valid secrets; so the size check before encryption
  can never reject what the validity check let through.
\<close>

theorem bundle_roundtrip:
  "secrets_valid s \<longleftrightarrow> decode_bundle (marshal (bundle_json s)) = Inr s"
  using decode_bundle_json decode_bundle_valid by blast

section \<open>Patches in any order\<close>

definition entry_ok :: "bytes \<times> bytes \<Rightarrow> bool" where
  "entry_ok e \<longleftrightarrow> secret_ok (snd e) \<and> fst e \<in> set secret_names"

definition patched :: "patch \<Rightarrow> secrets \<Rightarrow> secrets" where
  "patched p s =
     (let new = (\<lambda>k old. case map_of p k of None \<Rightarrow> old | Some v \<Rightarrow> v) in
      \<lparr>s_password = new ''password'' (s_password s), s_ssh_password = new ''ssh_password'' (s_ssh_password s),
       s_ssh_key = new ''ssh_private_key'' (s_ssh_key s),
       s_ssh_passphrase = new ''ssh_key_passphrase'' (s_ssh_passphrase s),
       s_proxy_password = new ''proxy_password'' (s_proxy_password s)\<rparr>)"

lemma set_secret_Some: "set_secret k v s = (if k \<in> set secret_names then Some (patched [(k, v)] s) else None)"
  by (auto simp: set_secret_def secret_names_def patched_def)

lemma map_of_fresh: "k \<notin> fst ` set p \<Longrightarrow> map_of p k = None"
  by (simp add: map_of_eq_None_iff)

lemma patched_Cons: "k \<notin> fst ` set p \<Longrightarrow> patched p (patched [(k, v)] s) = patched ((k, v) # p) s"
  using map_of_fresh [of k p] by (auto simp: patched_def Let_def split: option.splits)

lemma patch_apply_iff:
  "distinct (map fst p) \<Longrightarrow> patch_apply p s = (if list_all entry_ok p then Inr (patched p s) else Inl ErrRepair)"
proof (induction p s rule: patch_apply.induct)
  case (1 s)
  then show ?case by (simp add: patched_def)
next
  case (2 k v p s)
  then show ?case
    by (auto simp: set_secret_Some entry_ok_def secret_ok_def patched_Cons simp del: utf8_valid.simps)
qed

text \<open>
  Applying a patch does not depend on the order in which Go happens to iterate over
  the map: every order of the same entries gives the same secrets or the same error.
\<close>

theorem patch_order_irrelevant:
  assumes "distinct (map fst p)" and "mset q = mset p"
  shows "patch_apply q s = patch_apply p s"
proof -
  have "distinct (map fst q)" using assms by (metis mset_map mset_eq_imp_distinct_iff)
  moreover have "set q = set p" using assms(2) by (metis set_mset_mset)
  ultimately have "map_of q = map_of p" using assms(1) by (intro map_of_inject_set [THEN iffD2]) 
  then have "patched q s = patched p s" by (simp add: patched_def)
  moreover have "list_all entry_ok q = list_all entry_ok p" using \<open>set q = set p\<close> by (simp add: list_all_iff)
  ultimately show ?thesis using assms(1) \<open>distinct (map fst q)\<close> by (simp add: patch_apply_iff)
qed

theorem patch_order_irrelevant_witness:
  "patch_apply [(''ssh_password'', ''b''), (''password'', ''a'')] no_secrets =
     patch_apply [(''password'', ''a''), (''ssh_password'', ''b'')] no_secrets \<and>
   patch_apply [(''password'', ''a''), (''ssh_password'', ''b'')] no_secrets =
     Inr (no_secrets\<lparr>s_password := ''a'', s_ssh_password := ''b''\<rparr>)"
proof
  show "patch_apply [(''ssh_password'', ''b''), (''password'', ''a'')] no_secrets =
     patch_apply [(''password'', ''a''), (''ssh_password'', ''b'')] no_secrets"
    by (rule patch_order_irrelevant) simp_all
  have "utf8_valid ''a''" "utf8_valid ''b''" by (rule utf8_valid_ascii, simp)+
  then show "patch_apply [(''password'', ''a''), (''ssh_password'', ''b'')] no_secrets =
     Inr (no_secrets\<lparr>s_password := ''a'', s_ssh_password := ''b''\<rparr>)"
    by (simp add: set_secret_def secret_ok_def MaxSecretBytes_def patched_def
        no_secrets_def del: utf8_valid.simps)
qed

end
