(* ===== verification/Uuids.thy ===== *)
theory Uuids
  imports Codec
begin

text \<open>
  Installation and credential identifiers (config/storage.go): the canonical lowercase UUIDs
  that persisted documents may hold, and the ones \<open>NewID\<close> makes of sixteen random bytes.
\<close>

definition uuid_hex :: "nat \<Rightarrow> bytes \<Rightarrow> bool" where
  "uuid_hex n s \<longleftrightarrow> length s = n \<and> list_all (\<lambda>c. is_digit c \<or> in_range 97 102 c) s"

definition ValidUUID :: "bytes \<Rightarrow> bool" where
  "ValidUUID s \<longleftrightarrow>
     length s = 36 \<and> s ! 8 = CHR ''-'' \<and> s ! 13 = CHR ''-'' \<and> s ! 18 = CHR ''-'' \<and> s ! 23 = CHR ''-'' \<and>
     uuid_hex 8 (take 8 s) \<and> uuid_hex 4 (take 4 (drop 9 s)) \<and> uuid_hex 4 (take 4 (drop 14 s)) \<and>
     uuid_hex 4 (take 4 (drop 19 s)) \<and> uuid_hex 12 (drop 24 s)"

text \<open>\<open>config.NewID\<close> formats sixteen random bytes as a version-4 UUID.\<close>

definition NewID :: "bytes option \<Rightarrow> bytes res" where
  "NewID random =
     (case random of
        None \<Rightarrow> Inl (Other ''cannot generate identity'')
      | Some b0 \<Rightarrow>
          let b = b0[6 := char_of (byte_of (b0 ! 6) mod 16 + 64), 8 := char_of (byte_of (b0 ! 8) mod 64 + 128)] in
          Inr (hex_text (take 4 b) @ ''-'' @ hex_text (take 2 (drop 4 b)) @ ''-'' @ hex_text (take 2 (drop 6 b)) @ ''-'' @
               hex_text (take 2 (drop 8 b)) @ ''-'' @ hex_text (drop 10 b)))"

section \<open>Generated identifiers are canonical\<close>

lemma hex_digit_ok: "n < 16 \<Longrightarrow> is_digit (hex_digit n) \<or> in_range 97 102 (hex_digit n)"
  by (auto simp: hex_digit_def is_digit_def in_range_def of_char_of)

lemma hex_text_length [simp]: "length (hex_text bs) = 2 * length bs"
  by (induction bs) (simp_all add: hex_text_def)

lemma hex_text_ok: "uuid_hex (2 * length bs) (hex_text bs)"
proof -
  have high: "is_digit (hex_digit (byte_of c div 16)) \<or> in_range 97 102 (hex_digit (byte_of c div 16))" for c
    using byte_of_less_256 [of c] by (intro hex_digit_ok) (simp add: less_mult_imp_div_less)
  have low: "is_digit (hex_digit (byte_of c mod 16)) \<or> in_range 97 102 (hex_digit (byte_of c mod 16))" for c
    by (intro hex_digit_ok) simp
  have "\<forall>c \<in> set (hex_text bs). is_digit c \<or> in_range 97 102 c"
    using high low by (auto simp: hex_text_def)
  then show ?thesis by (simp add: uuid_hex_def list_all_iff)
qed

text \<open>A UUID is five hexadecimal groups joined by dashes.\<close>

lemma ValidUUID_groups:
  assumes "uuid_hex 8 a" "uuid_hex 4 b" "uuid_hex 4 c" "uuid_hex 4 d" "uuid_hex 12 e"
  shows "ValidUUID (a @ ''-'' @ b @ ''-'' @ c @ ''-'' @ d @ ''-'' @ e)"
proof -
  have l: "length a = 8" "length b = 4" "length c = 4" "length d = 4" "length e = 12"
    using assms by (auto simp: uuid_hex_def)
  show ?thesis
    unfolding ValidUUID_def
    by (intro conjI) (use assms in \<open>simp_all add: l nth_append\<close>)
qed

definition version_of :: "bytes \<Rightarrow> char" where
  "version_of s = s ! 14"



end
