(* ===== verification/Vault.thy ===== *)
theory Vault
  imports Revisions Secrets Uuids
begin

text \<open>
  The credential repository (vault/repository.go): unlocking the keyset, reading a
  connection's secrets, applying an edit, validating and purging.  The repository's own
  state is a record; the installation database is the one of theory Database.  Everything
  the world decides during one call is an environment: the errors of leases, contexts and
  fault points, the key store's answers, fresh identifiers, and what other processes do to
  the database while no lease is held.
\<close>

section \<open>State and environment\<close>

datatype vault_state = Locked | Absent | Unavailable | Ready

record 'k repo =
  r_primitive :: "'k option"
  r_fingerprint :: bytes
  r_closed :: bool
  r_state :: vault_state

record venv =
  w_gate :: "goerr option"
  w_ctx :: "nat \<Rightarrow> goerr option"
  w_lifecycle :: "goerr option"
  w_lease :: "nat \<Rightarrow> identity res"
  w_db :: "nat \<Rightarrow> env"
  w_others :: "nat \<Rightarrow> db \<Rightarrow> db"
  w_load :: "bytes \<Rightarrow> bytes res"
  w_generate :: "bytes option"
  w_create :: "bytes \<Rightarrow> bytes \<Rightarrow> bytes res"
  w_delete :: "bytes \<Rightarrow> unit res"
  w_point :: "bytes \<Rightarrow> goerr option"
  w_closed :: bool
  w_random :: "nat \<Rightarrow> bytes option"
  w_nonce :: "nat \<Rightarrow> nat"
  w_host_key :: "goerr option"

text \<open>The arguments every operation shares: Tink, the profile schema and SHA-256.\<close>

record 'k tools =
  t_tink :: "'k tink"
  t_valid :: "jval \<Rightarrow> bool"
  t_sha :: "bytes \<Rightarrow> bytes"

definition New :: "'k repo" where
  "New = \<lparr>r_primitive = None, r_fingerprint = [], r_closed = False, r_state = Locked\<rparr>"

definition Close :: "'k repo \<Rightarrow> 'k repo" where
  "Close r = r\<lparr>r_closed := True, r_primitive := None, r_fingerprint := []\<rparr>"

definition mk_lease :: "'k tools \<Rightarrow> bool \<Rightarrow> identity \<Rightarrow> lease" where
  "mk_lease t w i = \<lparr>le_write = w, le_identity = i, le_valid = t_valid t, le_sha = t_sha t\<rparr>"

definition Snapshot :: "'k tools \<Rightarrow> venv \<Rightarrow> db \<Rightarrow> (profile list \<times> bytes) res" where
  "Snapshot t w d =
     (case w_lease w 0 of
        Inl e \<Rightarrow> Inl e
      | Inr i \<Rightarrow> ProfileSnapshot (w_db w 0) d (mk_lease t False i))"

section \<open>Unlock\<close>

text \<open>\<open>expected\<close> is empty when the caller has no revision to insist on.\<close>

definition stale :: "bytes \<Rightarrow> bytes \<Rightarrow> bool" where
  "stale expected rv \<longleftrightarrow> expected \<noteq> [] \<and> expected \<noteq> rv"

text \<open>
  A short write lease that checks the revision and saves the keyset record; \<open>n\<close> numbers the
  leases of the call.
\<close>

definition save_keyset_lease :: "'k tools \<Rightarrow> venv \<Rightarrow> nat \<Rightarrow> bytes \<Rightarrow> keyset_row \<Rightarrow> db \<Rightarrow> unit res \<times> db" where
  "save_keyset_lease t w n expected k d0 =
     (let d = w_others w n d0 in
      case w_lease w n of
        Inl e \<Rightarrow> (Inl e, d)
      | Inr i \<Rightarrow>
          (let l = mk_lease t True i in
           case ProfileSnapshot (w_db w n) d l of
             Inl e \<Rightarrow> (Inl e, d)
           | Inr (_, rv) \<Rightarrow> if stale expected rv then (Inl ErrRevision, d) else SaveKeyset (w_db w n) d l k))"

text \<open>The end of \<open>Unlock\<close>, once the keyset bytes are known to match the record \<open>k\<close>.\<close>

definition finish_unlock ::
  "'k tools \<Rightarrow> venv \<Rightarrow> bool \<Rightarrow> bytes \<Rightarrow> keyset_row \<Rightarrow> bytes \<Rightarrow> 'k repo \<Rightarrow> db \<Rightarrow> unit res \<times> 'k repo \<times> db" where
  "finish_unlock t w create expected k raw r d =
     (case parseKeyset (t_tink t) raw of
        Inl e \<Rightarrow> (Inl e, r, d)
      | Inr a \<Rightarrow>
          (case w_ctx w 1 of
             Some e \<Rightarrow> (Inl e, r, d)
           | None \<Rightarrow>
               if k_phase k = ''intent'' \<and> \<not> create then (Inl ErrRepair, r, d)
               else
                 (case (if k_phase k = ''intent''
                        then save_keyset_lease t w 2 expected (k\<lparr>k_phase := ''ready''\<rparr>) d else (Inr (), d)) of
                    (Inl e, d') \<Rightarrow> (Inl e, r, d')
                  | (Inr _, d') \<Rightarrow>
                      if r_closed r \<or> w_closed w then (Inl (Sentinel Vault_Unavailable), if w_closed w then Close r else r, d')
                      else
                        (case w_ctx w 2 of
                           Some e \<Rightarrow> (Inl e, r, d')
                         | None \<Rightarrow>
                             (Inr (), r\<lparr>r_primitive := Some a, r_fingerprint := k_fingerprint k, r_state := Ready\<rparr>, d')))))"

text \<open>A new keyset: its intent is recorded before the key store is asked to create it.\<close>

definition create_keyset ::
  "'k tools \<Rightarrow> venv \<Rightarrow> identity \<Rightarrow> bytes \<Rightarrow> 'k repo \<Rightarrow> db \<Rightarrow> unit res \<times> 'k repo \<times> db" where
  "create_keyset t w i expected r d =
     (case w_generate w of
        None \<Rightarrow> (Inl (Sentinel Vault_Unavailable), r, d)
      | Some raw \<Rightarrow>
          (let k = \<lparr>k_account = id_key_account i, k_phase = ''intent'',
                    k_fingerprint = key_fingerprint (t_tink t) raw, k_reserved = 0\<rparr> in
           case save_keyset_lease t w 1 expected k d of
             (Inl e, d') \<Rightarrow> (Inl e, r, d')
           | (Inr _, d') \<Rightarrow>
               (case w_point w ''before-key-create'' of
                  Some e \<Rightarrow> (Inl e, r, d')
                | None \<Rightarrow>
                    (case providerCall (w_ctx w 4) (w_create w (id_key_account i) raw) of
                       Inl e \<Rightarrow> (Inl (providerError e), r, d')
                     | Inr loaded \<Rightarrow>
                         if key_fingerprint (t_tink t) loaded \<noteq> k_fingerprint k then (Inl ErrRepair, r, d')
                         else
                           (case w_point w ''after-key-create'' of
                              Some e \<Rightarrow> (Inl e, r, d')
                            | None \<Rightarrow> finish_unlock t w True expected k raw r d')))))"

text \<open>What follows the metadata: load the key the record names, or create one.\<close>

definition obtain_keyset ::
  "'k tools \<Rightarrow> venv \<Rightarrow> bool \<Rightarrow> identity \<Rightarrow> bytes \<Rightarrow> keyset_row \<Rightarrow> 'k repo \<Rightarrow> db \<Rightarrow> unit res \<times> 'k repo \<times> db" where
  "obtain_keyset t w create i expected k r d =
     (if k_phase k = [] then create_keyset t w i expected r d
      else
        (case providerCall (w_ctx w 0) (w_load w (id_key_account i)) of
           Inl e \<Rightarrow>
             if errors_is e Vault_Missing \<and> k_phase k = ''intent'' \<and> create \<and> k_reserved k = 0
             then create_keyset t w i expected r d
             else (Inl (providerError e), r, d)
         | Inr raw \<Rightarrow>
             if key_fingerprint (t_tink t) raw \<noteq> k_fingerprint k then (Inl ErrRepair, r, d)
             else finish_unlock t w create expected k raw r d))"

text \<open>The deferred function: a failure after the metadata leaves the vault locked or unavailable.\<close>

definition locking_error :: "goerr \<Rightarrow> bool" where
  "locking_error e \<longleftrightarrow> list_ex (errors_is e) [Vault_Locked, Vault_Denied, Vault_Password, Vault_Terminal]"

definition note_failure :: "unit res \<times> 'k repo \<times> db \<Rightarrow> unit res \<times> 'k repo \<times> db" where
  "note_failure x =
     (case x of
        (Inl e, r, d) \<Rightarrow> (Inl e, r\<lparr>r_state := if locking_error e then Locked else Unavailable\<rparr>, d)
      | (Inr u, r, d) \<Rightarrow> (Inr u, r, d))"

definition Unlock ::
  "'k tools \<Rightarrow> venv \<Rightarrow> bool \<Rightarrow> bytes \<Rightarrow> 'k repo \<Rightarrow> db \<Rightarrow> unit res \<times> 'k repo \<times> db" where
  "Unlock t w create expected r d0 =
     (case w_gate w of
        Some e \<Rightarrow> (Inl e, r, d0)
      | None \<Rightarrow>
          if r_closed r then (Inl (Sentinel Vault_Unavailable), r, d0)
          else if r_primitive r \<noteq> None then ((case w_ctx w 3 of Some e \<Rightarrow> Inl e | None \<Rightarrow> Inr ()), r, d0)
          else
            (case (if create then w_lifecycle w else None) of
               Some e \<Rightarrow> (Inl e, r, d0)
             | None \<Rightarrow>
                 (let d = w_others w 0 d0 in
                  case w_lease w 0 of
                    Inl e \<Rightarrow> (Inl e, r, d)
                  | Inr i \<Rightarrow>
                      (let l = mk_lease t False i in
                       case Keyset (w_db w 0) d l of
                         Inl _ \<Rightarrow> (Inl ErrRepair, r, d)
                       | Inr k \<Rightarrow>
                           (case ProfileSnapshot (w_db w 0) d l of
                              Inl e \<Rightarrow> (Inl e, r, d)
                            | Inr (_, rv) \<Rightarrow>
                                if stale expected rv then (Inl ErrRevision, r, d)
                                else
                                  let r' = (if k_phase k = [] then r\<lparr>r_state := Absent\<rparr> else r) in
                                  if k_phase k = [] \<and> \<not> create then (Inr (), r', d)
                                  else note_failure (obtain_keyset t w create i expected k r' d))))))"

section \<open>Reading credentials\<close>

definition aad :: "identity \<Rightarrow> profile \<Rightarrow> int \<Rightarrow> bytes" where
  "aad i p version =
     marshal (JArr (map JStr [''data-mate/credential-bundle'', show_int version, id_root i, id_id i, p_id p, p_cred p]))"

definition vault_cipher :: "env \<Rightarrow> db \<Rightarrow> lease \<Rightarrow> 'k repo \<Rightarrow> 'k res" where
  "vault_cipher v d l r =
     (case Keyset v d l of
        Inl _ \<Rightarrow> Inl ErrRepair
      | Inr k \<Rightarrow>
          if k_phase k \<noteq> ''ready'' then Inl ErrRepair
          else
            (case r_primitive r of
               None \<Rightarrow> Inl (Sentinel Vault_Locked)
             | Some a \<Rightarrow> if r_closed r \<or> r_fingerprint r \<noteq> k_fingerprint k then Inl ErrRepair else Inr a))"

definition profile_credential :: "'k tools \<Rightarrow> env \<Rightarrow> db \<Rightarrow> lease \<Rightarrow> 'k repo \<Rightarrow> profile \<Rightarrow> secrets res" where
  "profile_credential t v d l r p =
     (if p_cred p = [] then Inr no_secrets
      else
        (case Bundle v d l (p_cred p) of
           Inl e \<Rightarrow> Inl (if errors_is e Os_NotExist then Sentinel Vault_CredentialMissing else e)
         | Inr b \<Rightarrow>
             if b_conn b \<noteq> p_id p \<or> b_version b \<noteq> 1 \<or> length (b_data b) > MaxPlaintextBytes + 33
             then Inl (Sentinel Vault_Binding)
             else
               (case vault_cipher v d l r of
                  Inl e \<Rightarrow> Inl e
                | Inr a \<Rightarrow>
                    (case tk_decrypt (t_tink t) a (b_data b) (aad (le_identity l) p (b_version b)) of
                       None \<Rightarrow> Inl ErrRepair
                     | Some plain \<Rightarrow>
                         (case decode_bundle plain of Inl _ \<Rightarrow> Inl ErrRepair | Inr s \<Rightarrow> Inr s)))))"

definition Credential :: "'k tools \<Rightarrow> venv \<Rightarrow> env \<Rightarrow> db \<Rightarrow> lease \<Rightarrow> 'k repo \<Rightarrow> bytes \<Rightarrow> secrets res" where
  "Credential t w v d l r i =
     (case w_ctx w 0 of
        Some e \<Rightarrow> Inl e
      | None \<Rightarrow>
          (case ProfileSnapshot v d l of
             Inl e \<Rightarrow> Inl e
           | Inr (ps, _) \<Rightarrow>
               (case find (\<lambda>p. p_id p = i) ps of
                  None \<Rightarrow> Inl (Sentinel Vault_CredentialMissing)
                | Some p \<Rightarrow> profile_credential t v d l r p)))"

fun credentials_ok :: "'k tools \<Rightarrow> env \<Rightarrow> db \<Rightarrow> lease \<Rightarrow> 'k repo \<Rightarrow> profile list \<Rightarrow> unit res" where
  "credentials_ok t v d l r [] = Inr ()"
| "credentials_ok t v d l r (p # ps) =
     (case profile_credential t v d l r p of Inl e \<Rightarrow> Inl e | Inr _ \<Rightarrow> credentials_ok t v d l r ps)"

definition ValidateExisting :: "'k tools \<Rightarrow> venv \<Rightarrow> env \<Rightarrow> db \<Rightarrow> lease \<Rightarrow> 'k repo \<Rightarrow> unit res" where
  "ValidateExisting t w v d l r =
     (case ProfileSnapshot v d l of
        Inl e \<Rightarrow> Inl e
      | Inr (ps, _) \<Rightarrow>
          (case credentials_ok t v d l r ps of
             Inl e \<Rightarrow> Inl e
           | Inr _ \<Rightarrow> (case w_ctx w 0 of Some e \<Rightarrow> Inl e | None \<Rightarrow> Inr ())))"

section \<open>Applying an edit\<close>

text \<open>The maps of a mutation, as lists of their entries with distinct keys.\<close>

record mutation =
  m_expected :: bytes
  m_profiles :: "profile list"
  m_patches :: "(bytes \<times> patch) list"
  m_replacements :: "(bytes \<times> secrets) list"
  m_host_key :: bool

record outcome =
  o_revision :: bytes
  o_saved :: bool
  o_uncertain :: bool

definition no_outcome :: outcome where
  "no_outcome = \<lparr>o_revision = [], o_saved = False, o_uncertain = False\<rparr>"

text \<open>\<open>Mutation.NeedsKey\<close>: the loop over the patches, each over all connections.\<close>

fun patches_need :: "profile list \<Rightarrow> bool \<Rightarrow> (bytes \<times> patch) list \<Rightarrow> bool res" where
  "patches_need ps need [] = Inr need"
| "patches_need ps need ((i, p) # rest) =
     (if \<not> ValidUUID i then Inl ErrRepair
      else
        (case patch_apply p no_secrets of
           Inl _ \<Rightarrow> Inl ErrRepair
         | Inr check \<Rightarrow>
             (let matches = filter (\<lambda>c. p_id c = i) ps in
              if matches = [] then Inl ErrRepair
              else patches_need ps (need \<or> list_ex (\<lambda>c. check \<noteq> no_secrets \<or> p_cred c \<noteq> []) matches) rest)))"

definition NeedsKey :: "mutation \<Rightarrow> bool res" where
  "NeedsKey m = patches_need (m_profiles m) (m_replacements m \<noteq> []) (m_patches m)"

text \<open>The zero profile a missing entry of the map \<open>old\<close> gives; only its reference is read.\<close>

definition zero_profile :: profile where
  "zero_profile =
     \<lparr>p_id = [], p_alias = [], p_driver = [],
      p_connection = \<lparr>n_host = [], n_port = 0, n_database = [], n_username = []\<rparr>, p_cred = [],
      p_tls = \<lparr>tls_mode = [], tls_ca = []\<rparr>, p_ssh = None, p_proxy = None, p_limits = None\<rparr>"

definition old_profile :: "profile list \<Rightarrow> bytes \<Rightarrow> profile" where
  "old_profile previous i =
     (case find (\<lambda>c. p_id c = i) (rev previous) of None \<Rightarrow> zero_profile | Some c \<Rightarrow> c)"

text \<open>The secrets a connection is to have: \<open>None\<close> keeps what is stored.\<close>

definition new_secrets ::
  "'k tools \<Rightarrow> env \<Rightarrow> db \<Rightarrow> lease \<Rightarrow> 'k repo \<Rightarrow> mutation \<Rightarrow> profile \<Rightarrow> profile \<Rightarrow> secrets option res" where
  "new_secrets t v d l r m before p =
     (let replaced = map_of (m_replacements m) (p_id p) in
      case map_of (m_patches m) (p_id p) of
        None \<Rightarrow> Inr replaced
      | Some [] \<Rightarrow> Inr replaced
      | Some patch \<Rightarrow>
          (case (case profile_credential t v d l r before of
                   Inr s \<Rightarrow> Inr s
                 | Inl e \<Rightarrow>
                     if errors_is e Vault_CredentialMissing \<and> patch_complete patch p then Inr no_secrets else Inl e) of
             Inl e \<Rightarrow> Inl e
           | Inr s \<Rightarrow> (case patch_apply patch s of Inl e \<Rightarrow> Inl e | Inr s' \<Rightarrow> Inr (Some s'))))"

text \<open>
  Encrypting one connection's secrets: the reservation of one encryption is saved first and
  stays saved whatever fails afterwards.  \<open>n\<close> is the connection's position.
\<close>

definition encrypt_secrets ::
  "'k tools \<Rightarrow> venv \<Rightarrow> env \<Rightarrow> lease \<Rightarrow> 'k repo \<Rightarrow> nat \<Rightarrow> profile \<Rightarrow> secrets \<Rightarrow> db \<Rightarrow>
     (profile \<times> ciphertext) res \<times> db" where
  "encrypt_secrets t w v l r n p s d =
     (case vault_cipher v d l r of
        Inl e \<Rightarrow> (Inl e, d)
      | Inr a \<Rightarrow>
          (case NewID (w_random w n) of
             Inl e \<Rightarrow> (Inl e, d)
           | Inr ref \<Rightarrow>
               (let p' = p\<lparr>p_cred := ref\<rparr>; plain = marshal (bundle_json s) in
                if length plain > MaxPlaintextBytes then (Inl ErrRepair, d)
                else
                  (case Keyset v d l of
                     Inl _ \<Rightarrow> (Inl ErrRepair, d)
                   | Inr k \<Rightarrow>
                       if k_reserved k \<ge> MaxReservations then (Inl (Sentinel Vault_Limit), d)
                       else
                         (case SaveKeyset v d l (k\<lparr>k_reserved := k_reserved k + 1\<rparr>) of
                            (Inl e, d') \<Rightarrow> (Inl e, d')
                          | (Inr _, d') \<Rightarrow>
                              (case (w_point w ''after-reservation'', w_ctx w (n + 6)) of
                                 (Some e, _) \<Rightarrow> (Inl e, d')
                               | (None, Some e) \<Rightarrow> (Inl e, d')
                               | (None, None) \<Rightarrow>
                                   (case tk_encrypt (t_tink t) a (w_nonce w n) plain (aad (le_identity l) p' 1) of
                                      None \<Rightarrow> (Inl ErrRepair, d')
                                    | Some encrypted \<Rightarrow>
                                        (case w_point w ''after-encryption'' of
                                           Some e \<Rightarrow> (Inl e, d')
                                         | None \<Rightarrow>
                                             (Inr (p', \<lparr>b_ref = ref, b_conn = p_id p, b_version = 1, b_data = encrypted\<rparr>),
                                              d')))))))))"

definition apply_profile ::
  "'k tools \<Rightarrow> venv \<Rightarrow> env \<Rightarrow> lease \<Rightarrow> 'k repo \<Rightarrow> mutation \<Rightarrow> profile list \<Rightarrow> nat \<Rightarrow> profile \<Rightarrow> db \<Rightarrow>
     (profile \<times> ciphertext list) res \<times> db" where
  "apply_profile t w v l r m previous n p d =
     (let before = old_profile previous (p_id p) in
      if p_cred p \<noteq> p_cred before then (Inl (Sentinel Vault_Binding), d)
      else
        (case new_secrets t v d l r m before p of
           Inl e \<Rightarrow> (Inl e, d)
         | Inr None \<Rightarrow>
             (if p_cred p = [] then (Inr (p, []), d)
              else
                (case Bundle v d l (p_cred p) of
                   Inl e \<Rightarrow> (Inl (if errors_is e Os_NotExist then Sentinel Vault_CredentialMissing else e), d)
                 | Inr _ \<Rightarrow> (Inr (p, []), d)))
         | Inr (Some s) \<Rightarrow>
             if \<not> secrets_valid s then (Inl ErrRepair, d)
             else if s = no_secrets then (Inr (p\<lparr>p_cred := []\<rparr>, []), d)
             else
               (case encrypt_secrets t w v l r n p s d of
                  (Inl e, d') \<Rightarrow> (Inl e, d')
                | (Inr (p', b), d') \<Rightarrow> (Inr (p', [b]), d'))))"

fun apply_profiles ::
  "'k tools \<Rightarrow> venv \<Rightarrow> env \<Rightarrow> lease \<Rightarrow> 'k repo \<Rightarrow> mutation \<Rightarrow> profile list \<Rightarrow> nat \<Rightarrow> profile list \<Rightarrow> db \<Rightarrow>
     (profile list \<times> ciphertext list) res \<times> db" where
  "apply_profiles t w v l r m previous n [] d = (Inr ([], []), d)"
| "apply_profiles t w v l r m previous n (p # ps) d =
     (case apply_profile t w v l r m previous n p d of
        (Inl e, d') \<Rightarrow> (Inl e, d')
      | (Inr (p', bs), d') \<Rightarrow>
          (case apply_profiles t w v l r m previous (Suc n) ps d' of
             (Inl e, d'') \<Rightarrow> (Inl e, d'')
           | (Inr (ps', bs'), d'') \<Rightarrow> (Inr (p' # ps', bs @ bs'), d'')))"

definition all_known :: "profile list \<Rightarrow> mutation \<Rightarrow> bool" where
  "all_known ps m \<longleftrightarrow>
     list_all (\<lambda>(i, _). i \<in> p_id ` set ps) (m_patches m) \<and>
     list_all (\<lambda>(i, _). i \<in> p_id ` set ps) (m_replacements m)"

text \<open>The part of \<open>Apply\<close> under the write lease.\<close>

definition apply_leased ::
  "'k tools \<Rightarrow> venv \<Rightarrow> env \<Rightarrow> lease \<Rightarrow> 'k repo \<Rightarrow> mutation \<Rightarrow> profile list \<Rightarrow> db \<Rightarrow> (outcome \<times> goerr option) \<times> db" where
  "apply_leased t w v l r m p d =
     (case ProfileSnapshot v d l of
        Inl e \<Rightarrow> ((no_outcome, Some e), d)
      | Inr (previous, rv) \<Rightarrow>
          if rv \<noteq> m_expected m then ((no_outcome, Some ErrRevision), d)
          else
            (case apply_profiles t w v l r m previous 0 p d of
               (Inl e, d') \<Rightarrow> ((no_outcome, Some e), d')
             | (Inr (p', bs), d') \<Rightarrow>
                 if \<not> all_known p' m then ((no_outcome, Some ErrRepair), d')
                 else
                   (case (if m_host_key m then w_host_key w else None, w_ctx w 5) of
                      (Some e, _) \<Rightarrow> ((no_outcome, Some e), d')
                    | (None, Some e) \<Rightarrow> ((no_outcome, Some e), d')
                    | (None, None) \<Rightarrow>
                        (case Publish v d' l p' (m_expected m) bs of
                           (Inl e, d'') \<Rightarrow> ((no_outcome\<lparr>o_uncertain := errors_is e Cfg_CommitUnknown\<rparr>, Some e), d'')
                         | (Inr rv', d'') \<Rightarrow>
                             ((no_outcome\<lparr>o_revision := rv', o_saved := True\<rparr>,
                               w_point w ''after-profile-publication''), d'')))))"

definition Apply ::
  "'k tools \<Rightarrow> venv \<Rightarrow> mutation \<Rightarrow> 'k repo \<Rightarrow> db \<Rightarrow> (outcome \<times> goerr option) \<times> 'k repo \<times> db" where
  "Apply t w m r d0 =
     (case DecodeProfiles (t_valid t) (t_sha t) (marshal (profiles_json (m_profiles m))) of
        Inl e \<Rightarrow> ((no_outcome, Some e), r, d0)
      | Inr (p, _) \<Rightarrow>
          (case NeedsKey m of
             Inl e \<Rightarrow> ((no_outcome, Some e), r, d0)
           | Inr needs \<Rightarrow>
               (case (if needs then Unlock t w True (m_expected m) r d0 else (Inr (), r, d0)) of
                  (Inl e, r', d1) \<Rightarrow> ((no_outcome, Some e), r', d1)
                | (Inr _, r', d1) \<Rightarrow>
                    (let d = w_others w 3 d1 in
                     case w_lease w 3 of
                       Inl e \<Rightarrow> ((no_outcome, Some e), r', d)
                     | Inr i \<Rightarrow>
                         (let (x, d') = apply_leased t w (w_db w 3) (mk_lease t True i) r' m p d in (x, r', d'))))))"

section \<open>What unlocking may change\<close>

text \<open>The parts of a database that a keyset record does not belong to.\<close>

definition same_contents :: "db \<Rightarrow> db \<Rightarrow> bool" where
  "same_contents d d' \<longleftrightarrow>
     d_inst d' = d_inst d \<and> d_profiles d' = d_profiles d \<and> d_bundles d' = d_bundles d"

lemma same_contents_refl [simp]: "same_contents d d"
  by (simp add: same_contents_def)

lemma same_contents_trans: "same_contents a b \<Longrightarrow> same_contents b c \<Longrightarrow> same_contents a c"
  by (simp add: same_contents_def)

lemma SaveKeyset_contents: "SaveKeyset v d l k = (x, d') \<Longrightarrow> same_contents d d'"
  by (auto simp: SaveKeyset_def same_contents_def split: if_splits sum.splits)

text \<open>No other process touches the database during the call.\<close>

definition alone :: "venv \<Rightarrow> bool" where
  "alone w \<longleftrightarrow> (\<forall>n d. w_others w n d = d)"

lemma save_keyset_lease_contents:
  "alone w \<Longrightarrow> save_keyset_lease t w n expected k d = (x, d') \<Longrightarrow> same_contents d d'"
  by (auto simp: save_keyset_lease_def alone_def Let_def dest: SaveKeyset_contents split: sum.splits if_splits)

lemma finish_unlock_contents:
  assumes "alone w" and "finish_unlock t w create expected k raw r d = (x, r', d')"
  shows "same_contents d d'"
proof (cases "k_phase k = ''intent''")
  case True
  obtain y d1 where "save_keyset_lease t w 2 expected (k\<lparr>k_phase := ''ready''\<rparr>) d = (y, d1)"
    by (cases "save_keyset_lease t w 2 expected (k\<lparr>k_phase := ''ready''\<rparr>) d")
  with True assms show ?thesis
    using save_keyset_lease_contents [of w t 2 expected "k\<lparr>k_phase := ''ready''\<rparr>" d y d1]
    by (auto simp: finish_unlock_def split: sum.splits option.splits if_splits)
next
  case False
  with assms show ?thesis by (auto simp: finish_unlock_def split: sum.splits option.splits if_splits)
qed

lemma finish_unlock_ready:
  "k_phase k \<noteq> ''intent'' \<Longrightarrow> finish_unlock t w create expected k raw r d = (x, r', d') \<Longrightarrow> d' = d"
  by (auto simp: finish_unlock_def split: sum.splits option.splits if_splits)

text \<open>Every way through the creation of a keyset.\<close>

lemma create_keyset_cases:
  assumes "create_keyset t w i expected r d = (x, r', d')"
  obtains (nothing) e where "x = Inl e" "r' = r" "d' = d"
    | (recorded) raw e where "w_generate w = Some raw" "x = Inl e" "r' = r"
        "\<exists>y. save_keyset_lease t w 1 expected \<lparr>k_account = id_key_account i, k_phase = ''intent'',
           k_fingerprint = key_fingerprint (t_tink t) raw, k_reserved = 0\<rparr> d = (y, d')"
    | (created) raw loaded d1 where "w_generate w = Some raw"
        "save_keyset_lease t w 1 expected \<lparr>k_account = id_key_account i, k_phase = ''intent'',
           k_fingerprint = key_fingerprint (t_tink t) raw, k_reserved = 0\<rparr> d = (Inr (), d1)"
        "w_create w (id_key_account i) raw = Inr loaded"
        "key_fingerprint (t_tink t) loaded = key_fingerprint (t_tink t) raw"
        "finish_unlock t w True expected \<lparr>k_account = id_key_account i, k_phase = ''intent'',
           k_fingerprint = key_fingerprint (t_tink t) raw, k_reserved = 0\<rparr> raw r d1 = (x, r', d')"
proof (cases "w_generate w")
  case None
  with assms have "x = Inl (Sentinel Vault_Unavailable)" "r' = r" "d' = d" by (auto simp: create_keyset_def)
  then show thesis by (rule nothing)
next
  case (Some raw)
  let ?k = "\<lparr>k_account = id_key_account i, k_phase = ''intent'',
           k_fingerprint = key_fingerprint (t_tink t) raw, k_reserved = 0\<rparr>"
  obtain y d1 where s: "save_keyset_lease t w 1 expected ?k d = (y, d1)"
    by (cases "save_keyset_lease t w 1 expected ?k d")
  show thesis
  proof (cases "\<exists>loaded. y = Inr () \<and> w_point w ''before-key-create'' = None \<and>
      providerCall (w_ctx w 4) (w_create w (id_key_account i) raw) = Inr loaded \<and>
      key_fingerprint (t_tink t) loaded = key_fingerprint (t_tink t) raw \<and> w_point w ''after-key-create'' = None")
    case True
    then obtain loaded where l: "y = Inr ()" "w_point w ''before-key-create'' = None"
      "providerCall (w_ctx w 4) (w_create w (id_key_account i) raw) = Inr loaded"
      "key_fingerprint (t_tink t) loaded = key_fingerprint (t_tink t) raw" "w_point w ''after-key-create'' = None"
      by blast
    then have "w_create w (id_key_account i) raw = Inr loaded" by (auto simp: providerCall_def split: option.splits)
    moreover have "finish_unlock t w True expected ?k raw r d1 = (x, r', d')"
      using assms Some s l by (simp add: create_keyset_def Let_def)
    ultimately show thesis using created [OF Some] s l(1,4) by simp
  next
    case False
    then have "\<exists>e. x = Inl e \<and> r' = r \<and> d' = d1"
      using assms Some s
      by (cases y; simp add: create_keyset_def Let_def)
        (auto split: option.splits sum.splits if_splits)
    with recorded [OF Some] s show thesis by blast
  qed
qed

lemma create_keyset_contents:
  assumes "alone w" and "create_keyset t w i expected r d = (x, r', d')"
  shows "same_contents d d'"
  using assms(2)
proof (cases rule: create_keyset_cases)
  case (recorded raw e)
  then show ?thesis using save_keyset_lease_contents [OF assms(1)] by blast
next
  case (created raw loaded d1)
  then show ?thesis
    using save_keyset_lease_contents [OF assms(1)] finish_unlock_contents [OF assms(1)] same_contents_trans by blast
qed simp

lemma obtain_keyset_cases:
  assumes "obtain_keyset t w create i expected k r d = (x, r', d')"
  obtains (failed) e where "x = Inl e" "r' = r" "d' = d"
    | (creating) "k_phase k = [] \<or> (k_phase k = ''intent'' \<and> create \<and> k_reserved k = 0)"
        "create_keyset t w i expected r d = (x, r', d')"
    | (loaded) raw where "k_phase k \<noteq> []" "key_fingerprint (t_tink t) raw = k_fingerprint k"
        "finish_unlock t w create expected k raw r d = (x, r', d')"
  using assms by (auto simp: obtain_keyset_def split: if_splits sum.splits)

lemma obtain_keyset_contents:
  assumes "alone w" and "obtain_keyset t w create i expected k r d = (x, r', d')"
  shows "same_contents d d'"
  using assms(2)
  by (cases rule: obtain_keyset_cases)
    (auto intro: create_keyset_contents [OF assms(1)] finish_unlock_contents [OF assms(1)])

text \<open>\<open>Unlock\<close> either stops early or goes through \<open>obtain_keyset\<close>.\<close>

lemma Unlock_cases:
  assumes "Unlock t w create expected r d0 = (x, r', d')"
  obtains (early) "d' = d0 \<or> d' = w_others w 0 d0" "r' = r \<or> (r_primitive r = None \<and> r' = r\<lparr>r_state := Absent\<rparr>)"
    | (through) i k y r1 where "\<not> r_closed r" "r_primitive r = None" "w_lease w 0 = Inr i"
        "Keyset (w_db w 0) (w_others w 0 d0) (mk_lease t False i) = Inr k"
        "obtain_keyset t w create i expected k (if k_phase k = [] then r\<lparr>r_state := Absent\<rparr> else r) (w_others w 0 d0) = (y, r1, d')"
        "(x, r', d') = note_failure (y, r1, d')"
proof -
  let ?d = "w_others w 0 d0"
  show thesis
  proof (cases "\<exists>i k ps rv. w_gate w = None \<and> \<not> r_closed r \<and> r_primitive r = None \<and> w_lease w 0 = Inr i \<and>
      (if create then w_lifecycle w else None) = None \<and>
      Keyset (w_db w 0) ?d (mk_lease t False i) = Inr k \<and> ProfileSnapshot (w_db w 0) ?d (mk_lease t False i) = Inr (ps, rv) \<and>
      \<not> stale expected rv \<and> \<not> (k_phase k = [] \<and> \<not> create)")
    case True
    then obtain i k ps rv where t: "w_gate w = None" "\<not> r_closed r" "r_primitive r = None" "w_lease w 0 = Inr i"
      "(if create then w_lifecycle w else None) = None"
      "Keyset (w_db w 0) ?d (mk_lease t False i) = Inr k" "ProfileSnapshot (w_db w 0) ?d (mk_lease t False i) = Inr (ps, rv)"
      "\<not> stale expected rv" "\<not> (k_phase k = [] \<and> \<not> create)" by blast
    let ?r = "if k_phase k = [] then r\<lparr>r_state := Absent\<rparr> else r"
    obtain y r1 d1 where o: "obtain_keyset t w create i expected k ?r ?d = (y, r1, d1)"
      by (cases "obtain_keyset t w create i expected k ?r ?d")
    have "Unlock t w create expected r d0 = note_failure (y, r1, d1)"
      unfolding Unlock_def Let_def using t(1-3) t(5) t(9)
      by (simp only: t(4,6,7,8) o option.case sum.case prod.case if_False simp_thms not_False_eq_True)
    moreover have "d1 = d'" using calculation assms by (auto simp: note_failure_def split: sum.splits)
    ultimately show thesis using through t(2-4,6) o assms by metis
  next
    case False
    then have "(d' = d0 \<or> d' = ?d) \<and> (r' = r \<or> (r_primitive r = None \<and> r' = r\<lparr>r_state := Absent\<rparr>))"
      using assms unfolding Unlock_def Let_def
      by (auto split: option.splits sum.splits if_splits)
    with early show thesis by blast
  qed
qed

lemma Keyset_phase:
  "Keyset v d l = Inr k \<Longrightarrow> d_keyset d = Some k0 \<Longrightarrow> k_phase k = take 7 (k_phase k0)"
  by (auto simp: Keyset_def Let_def split: sum.splits if_splits)

lemma Unlock_contents:
  assumes "alone w" and "Unlock t w create expected r d = (x, r', d')"
  shows "same_contents d d'"
  using assms(2)
proof (cases rule: Unlock_cases)
  case early
  then show ?thesis using assms(1) by (auto simp: alone_def)
next
  case (through i k y r1)
  then show ?thesis using obtain_keyset_contents [OF assms(1) through(5)] assms(1) by (simp add: alone_def)
qed


section \<open>The vault as a state machine\<close>

inductive vault_step :: "'k tools \<Rightarrow> 'k repo \<Rightarrow> 'k repo \<Rightarrow> bool" for t where
  unlock: "Unlock t w create expected r d = (x, r', d') \<Longrightarrow> vault_step t r r'"
| edit: "Apply t w m r d = (x, r', d') \<Longrightarrow> vault_step t r r'"
| close: "vault_step t r (Close r)"

inductive_cases vault_stepE: "vault_step t r r'"

text \<open>The primitive in use belongs to the recorded fingerprint, and a closed vault has none.\<close>

definition vault_ok :: "'k tools \<Rightarrow> 'k repo \<Rightarrow> bool" where
  "vault_ok t r \<longleftrightarrow>
     (case r_primitive r of
        None \<Rightarrow> True
      | Some a \<Rightarrow>
          \<not> r_closed r \<and> r_state r = Ready \<and>
          (\<exists>raw. parseKeyset (t_tink t) raw = Inr a \<and> key_fingerprint (t_tink t) raw = r_fingerprint r))"

lemma finish_unlock_repo:
  assumes "finish_unlock t w create expected k raw r d = (x, r', d')"
  shows "(\<exists>e. x = Inl e \<and> (r' = r \<or> r' = Close r)) \<or>
    (x = Inr () \<and> \<not> r_closed r \<and> (\<exists>a. parseKeyset (t_tink t) raw = Inr a \<and>
       r' = r\<lparr>r_primitive := Some a, r_fingerprint := k_fingerprint k, r_state := Ready\<rparr>))"
proof -
  obtain y d1 where "(if k_phase k = ''intent''
                        then save_keyset_lease t w 2 expected (k\<lparr>k_phase := ''ready''\<rparr>) d else (Inr (), d)) = (y, d1)"
    by (cases "(if k_phase k = ''intent''
                        then save_keyset_lease t w 2 expected (k\<lparr>k_phase := ''ready''\<rparr>) d else (Inr (), d))")
  with assms show ?thesis
    unfolding finish_unlock_def by (auto split: sum.splits option.splits if_split_asm)
qed

lemma obtain_keyset_repo:
  assumes "obtain_keyset t w create i expected k r d = (x, r', d')"
  shows "(\<exists>e. x = Inl e \<and> (r' = r \<or> r' = Close r)) \<or>
    (x = Inr () \<and> \<not> r_closed r \<and> (\<exists>a raw. parseKeyset (t_tink t) raw = Inr a \<and>
       r' = r\<lparr>r_primitive := Some a, r_fingerprint := key_fingerprint (t_tink t) raw, r_state := Ready\<rparr>))"
  using assms
proof (cases rule: obtain_keyset_cases)
  case creating
  from creating(2) show ?thesis
  proof (cases rule: create_keyset_cases)
    case (created raw loaded d1)
    from finish_unlock_repo [OF created(5)] show ?thesis by (simp only: keyset_row.simps) blast
  qed simp_all
next
  case (loaded raw)
  from finish_unlock_repo [OF loaded(3)] loaded(2) show ?thesis by metis
qed simp

lemma Unlock_vault_ok:
  assumes "Unlock t w create expected r d = (x, r', d')" and "vault_ok t r"
  shows "vault_ok t r' \<and> (r_closed r \<longrightarrow> r_closed r')"
  using assms(1)
proof (cases rule: Unlock_cases)
  case early
  then show ?thesis using assms(2) by (auto simp: vault_ok_def)
next
  case (through i k y r1)
  have "r_primitive (if k_phase k = [] then r\<lparr>r_state := Absent\<rparr> else r) = None" using through(2) by simp
  with obtain_keyset_repo [OF through(5)] through(6) show ?thesis
    by (auto simp: note_failure_def vault_ok_def Close_def split: if_splits)
qed

lemma Apply_repo:
  assumes "Apply t w m r d = (x, r', d')"
  shows "r' = r \<or> (\<exists>y d1. Unlock t w True (m_expected m) r d = (y, r', d1))"
proof -
  obtain y r1 d1 where u: "Unlock t w True (m_expected m) r d = (y, r1, d1)"
    by (cases "Unlock t w True (m_expected m) r d")
  with assms have "r' = r \<or> r' = r1"
    unfolding Apply_def by (auto simp: Let_def split: sum.splits if_split_asm prod.splits)
  with u show ?thesis by blast
qed

lemma vault_ok_none [simp]: "vault_ok t New" "vault_ok t (Close r)" "r_closed (Close r)"
  by (simp_all add: vault_ok_def New_def Close_def)

lemma vault_step_ok: "vault_step t r r' \<Longrightarrow> vault_ok t r \<Longrightarrow> vault_ok t r' \<and> (r_closed r \<longrightarrow> r_closed r')"
  by (erule vault_stepE) (auto dest: Unlock_vault_ok Apply_repo)

inductive vault_reachable :: "'k tools \<Rightarrow> 'k repo \<Rightarrow> bool" for t where
  created: "vault_reachable t New"
| stepped: "vault_reachable t r \<Longrightarrow> vault_step t r r' \<Longrightarrow> vault_reachable t r'"

lemma vault_reachable_ok: "vault_reachable t r \<Longrightarrow> vault_ok t r"
  by (induction rule: vault_reachable.induct) (auto dest: vault_step_ok)

text \<open>
  C19.  Whatever sequence of unlocks, edits and closes has run, the key the vault holds is a
  valid AES-256 keyset with exactly the recorded fingerprint, the vault then says it is
  ready, and a closed vault holds no key and stays closed.
\<close>

theorem vault_invariant:
  assumes "vault_reachable t r"
  shows "(\<forall>a. r_primitive r = Some a \<longrightarrow> r_state r = Ready \<and> \<not> r_closed r \<and>
      (\<exists>raw. parseKeyset (t_tink t) raw = Inr a \<and> key_fingerprint (t_tink t) raw = r_fingerprint r)) \<and>
    (r_closed r \<longrightarrow> r_primitive r = None \<and> (\<forall>r'. vault_step t r r' \<longrightarrow> r_closed r' \<and> r_primitive r' = None))"
proof -
  have ok: "vault_ok t r" using assms by (rule vault_reachable_ok)
  moreover have "r_closed r' \<and> r_primitive r' = None" if "r_closed r" "vault_step t r r'" for r'
    using vault_step_ok [OF that(2) ok] that(1) by (auto simp: vault_ok_def split: option.splits)
  ultimately show ?thesis by (auto simp: vault_ok_def split: option.splits)
qed

section \<open>What an edit changes\<close>

lemma encrypt_secrets_cases:
  assumes "encrypt_secrets t w v l r n p s d = (x, d')"
  obtains (failed) e where "x = Inl e" "d' = d"
    | (reserved) e k y where "x = Inl e" "Keyset v d l = Inr k" "k_reserved k < MaxReservations"
        "SaveKeyset v d l (k\<lparr>k_reserved := k_reserved k + 1\<rparr>) = (y, d')"
    | (encrypted) a ref k encrypted where "vault_cipher v d l r = Inr a" "NewID (w_random w n) = Inr ref"
        "Keyset v d l = Inr k" "k_reserved k < MaxReservations"
        "SaveKeyset v d l (k\<lparr>k_reserved := k_reserved k + 1\<rparr>) = (Inr (), d')"
        "tk_encrypt (t_tink t) a (w_nonce w n) (marshal (bundle_json s)) (aad (le_identity l) (p\<lparr>p_cred := ref\<rparr>) 1) = Some encrypted"
        "x = Inr (p\<lparr>p_cred := ref\<rparr>, \<lparr>b_ref = ref, b_conn = p_id p, b_version = 1, b_data = encrypted\<rparr>)"
proof (cases "\<exists>a ref k. vault_cipher v d l r = Inr a \<and> NewID (w_random w n) = Inr ref \<and> Keyset v d l = Inr k \<and>
    k_reserved k < MaxReservations \<and> length (marshal (bundle_json s)) \<le> MaxPlaintextBytes")
  case True
  then obtain a ref k where t: "vault_cipher v d l r = Inr a" "NewID (w_random w n) = Inr ref" "Keyset v d l = Inr k"
    "k_reserved k < MaxReservations" "\<not> MaxPlaintextBytes < length (marshal (bundle_json s))" by (auto simp: not_less)
  obtain y d1 where y: "SaveKeyset v d l (k\<lparr>k_reserved := k_reserved k + 1\<rparr>) = (y, d1)"
    by (cases "SaveKeyset v d l (k\<lparr>k_reserved := k_reserved k + 1\<rparr>)")
  have "d' = d1 \<and> ((\<exists>e. x = Inl e) \<or> y = Inr () \<and> (\<exists>encrypted.
      tk_encrypt (t_tink t) a (w_nonce w n) (marshal (bundle_json s)) (aad (le_identity l) (p\<lparr>p_cred := ref\<rparr>) 1) = Some encrypted \<and>
      x = Inr (p\<lparr>p_cred := ref\<rparr>, \<lparr>b_ref = ref, b_conn = p_id p, b_version = 1, b_data = encrypted\<rparr>)))"
    using assms t y unfolding encrypt_secrets_def Let_def by (auto split: sum.splits option.splits)
  then show thesis using reserved [OF _ t(3,4)] encrypted [OF t(1-4)] y by blast
next
  case False
  then have "(\<exists>e. x = Inl e) \<and> d' = d"
    using assms unfolding encrypt_secrets_def Let_def by (auto split: sum.splits if_split_asm)
  with failed show thesis by blast
qed

lemma encrypt_secrets_contents:
  "encrypt_secrets t w v l r n p s d = (x, d') \<Longrightarrow> same_contents d d'"
  by (erule encrypt_secrets_cases) (auto dest: SaveKeyset_contents)

lemma apply_profile_contents:
  "apply_profile t w v l r m previous n p d = (x, d') \<Longrightarrow> same_contents d d'"
  unfolding apply_profile_def Let_def
  by (auto dest: encrypt_secrets_contents split: sum.splits option.splits if_splits prod.splits)

lemma apply_profiles_contents:
  "apply_profiles t w v l r m previous n ps d = (x, d') \<Longrightarrow> same_contents d d'"
proof (induction ps arbitrary: n d x d')
  case (Cons p ps)
  obtain y d1 where p: "apply_profile t w v l r m previous n p d = (y, d1)"
    by (cases "apply_profile t w v l r m previous n p d")
  obtain z d2 where q: "apply_profiles t w v l r m previous (Suc n) ps d1 = (z, d2)"
    by (cases "apply_profiles t w v l r m previous (Suc n) ps d1")
  have "d' = d1 \<or> d' = d2" using Cons.prems p q by (auto split: sum.splits prod.splits)
  then show ?case
    using apply_profile_contents [OF p] Cons.IH [OF q] same_contents_trans by blast
qed simp

text \<open>Every outcome of the leased part: nothing published, or exactly what \<open>Publish\<close> did.\<close>

lemma apply_leased_cases:
  assumes "apply_leased t w v l r m p d = ((out, e), d')"
  obtains (failed) e' where "out = no_outcome" "e = Some e'" "same_contents d d'"
    | (rejected) e' d1 p1 bs where "out = no_outcome\<lparr>o_uncertain := errors_is e' Cfg_CommitUnknown\<rparr>" "e = Some e'"
        "same_contents d d1" "Publish v d1 l p1 (m_expected m) bs = (Inl e', d')"
    | (saved) previous d1 p1 bs rv where "out = no_outcome\<lparr>o_revision := rv, o_saved := True\<rparr>"
        "e = w_point w ''after-profile-publication''"
        "ProfileSnapshot v d l = Inr (previous, m_expected m)"
        "apply_profiles t w v l r m previous 0 p d = (Inr (p1, bs), d1)" "all_known p1 m"
        "Publish v d1 l p1 (m_expected m) bs = (Inr rv, d')"
proof (cases "ProfileSnapshot v d l")
  case (Inl x)
  with assms failed show thesis by (auto simp: apply_leased_def)
next
  case (Inr ps)
  obtain previous rv where ps: "ps = (previous, rv)" by (cases ps)
  obtain y d1 where a: "apply_profiles t w v l r m previous 0 p d = (y, d1)"
    by (cases "apply_profiles t w v l r m previous 0 p d")
  have same: "same_contents d d1" using a by (rule apply_profiles_contents)
  show thesis
  proof (cases "rv = m_expected m \<and> (\<exists>p1 bs. y = Inr (p1, bs) \<and> all_known p1 m) \<and>
      (if m_host_key m then w_host_key w else None) = None \<and> w_ctx w 5 = None")
    case True
    then obtain p1 bs where t: "rv = m_expected m" "y = Inr (p1, bs)" "all_known p1 m"
      "(if m_host_key m then w_host_key w else None) = None" "w_ctx w 5 = None" by blast
    obtain z d2 where z: "Publish v d1 l p1 (m_expected m) bs = (z, d2)"
      by (cases "Publish v d1 l p1 (m_expected m) bs")
    have "((out, e), d') =
        (case z of
           Inl e \<Rightarrow> ((no_outcome\<lparr>o_uncertain := errors_is e Cfg_CommitUnknown\<rparr>, Some e), d2)
         | Inr rv' \<Rightarrow> ((no_outcome\<lparr>o_revision := rv', o_saved := True\<rparr>, w_point w ''after-profile-publication''), d2))"
      using assms unfolding apply_leased_def
      by (simp only: Inr ps a t z sum.case prod.case option.case if_False simp_thms not_True_eq_False)
    then show thesis using rejected [OF _ _ same, of _ p1 bs] saved [of _ previous p1 bs d1] z Inr ps a t(1-3)
      by (cases z) auto
  next
    case False
    then have "out = no_outcome \<and> (\<exists>e'. Some e' = e) \<and> (d' = d \<or> d' = d1)"
      using assms Inr ps a unfolding apply_leased_def
      by (cases y; cases "w_ctx w 5"; cases "if m_host_key m then w_host_key w else None") (auto split: if_split_asm)
    with failed same show thesis by auto
  qed
qed

lemma Publish_failed_contents:
  assumes "Publish v d l p expected rp = (Inl e, d')" and "\<not> errors_is e Cfg_CommitUnknown"
  shows "d' = d"
  using assms(1) by (cases rule: Publish_cases) (use assms(2) in auto)

text \<open>\<open>Apply\<close> either stops before the write lease or ends with its leased part.\<close>

lemma Apply_cases:
  assumes "alone w" and "Apply t w m r d = ((out, e), r', d')"
  obtains (stopped) e' where "out = no_outcome" "e = Some e'" "same_contents d d'"
        "d' = d \<or> (\<exists>y. Unlock t w True (m_expected m) r d = (y, r', d'))"
    | (leased) p digest i d1 where
        "DecodeProfiles (t_valid t) (t_sha t) (marshal (profiles_json (m_profiles m))) = Inr (p, digest)"
        "same_contents d d1" "w_lease w 3 = Inr i"
        "apply_leased t w (w_db w 3) (mk_lease t True i) r' m p d1 = ((out, e), d')"
        "\<exists>needs. NeedsKey m = Inr needs \<and>
           (needs \<longrightarrow> Unlock t w True (m_expected m) r d = (Inr (), r', d1)) \<and> (\<not> needs \<longrightarrow> r' = r \<and> d1 = d)"
proof -
  have others: "w_others w n x = x" for n x using assms(1) by (simp add: alone_def)
  show thesis
  proof (cases "DecodeProfiles (t_valid t) (t_sha t) (marshal (profiles_json (m_profiles m)))")
    case (Inl x)
    with assms(2) stopped show thesis by (auto simp: Apply_def)
  next
    case (Inr pd)
    obtain p digest where pd: "pd = (p, digest)" by (cases pd)
    show thesis
    proof (cases "NeedsKey m")
      case (Inl x)
      with assms(2) stopped Inr pd show thesis by (auto simp: Apply_def)
    next
      case needs: (Inr needs)
      obtain y r1 d1 where u: "(if needs then Unlock t w True (m_expected m) r d else (Inr (), r, d)) = (y, r1, d1)"
        by (cases "if needs then Unlock t w True (m_expected m) r d else (Inr (), r, d)")
      have same: "same_contents d d1"
        using u Unlock_contents [OF assms(1)] by (cases needs) auto
      obtain z d2 where z: "\<And>i. w_lease w 3 = Inr i \<Longrightarrow> apply_leased t w (w_db w 3) (mk_lease t True i) r1 m p d1 = (z, d2)"
        by (cases "w_lease w 3") (simp, metis sum.inject(2) surj_pair)
      show thesis
      proof (cases "\<exists>i. y = Inr () \<and> w_lease w 3 = Inr i")
        case True
        then obtain i where i: "y = Inr ()" "w_lease w 3 = Inr i" by blast
        then have "((out, e), r', d') = (z, r1, d2)"
          using assms(2) unfolding Apply_def Let_def
          by (simp only: Inr pd needs u i others z [OF i(2)] sum.case prod.case)
        then show thesis using leased [OF Inr [unfolded pd] same i(2)] z [OF i(2)] needs u i(1) by (cases needs) auto
      next
        case False
        then have "out = no_outcome \<and> (\<exists>e'. e = Some e') \<and> d' = d1 \<and> r' = r1"
          using assms(2) Inr pd needs u others unfolding Apply_def
          by (cases y; cases "w_lease w 3") auto
        moreover have "d1 = d \<or> Unlock t w True (m_expected m) r d = (y, r1, d1)"
          using u by (cases needs) auto
        ultimately show thesis using stopped same by blast
      qed
    qed
  qed
qed

lemma same_generation: "same_contents d d' \<Longrightarrow> db_generation d' = db_generation d"
  by (simp add: same_contents_def db_generation_def)

text \<open>
  C20.  What \<open>Apply\<close> reports is what happened: it claims the profiles saved exactly when one
  new generation was published under the revision it returns, and then only the last fault
  point can still report an error; otherwise it returns an error, and unless it says that
  the publication is uncertain, profiles, bundles and generation are untouched.
\<close>

theorem Apply_outcome:
  assumes "alone w" and "Apply t w m r d = ((out, e), r', d')"
  shows "if o_saved out
    then db_generation d' = Suc (db_generation d) \<and> revision_names (o_revision out) (db_generation d') \<and>
      revision_names (m_expected m) (db_generation d) \<and> e = w_point w ''after-profile-publication''
    else e \<noteq> None \<and> o_revision out = [] \<and> (o_uncertain out \<or> same_contents d d')"
  using assms
proof (cases rule: Apply_cases)
  case (stopped e')
  then show ?thesis by (simp add: no_outcome_def)
next
  case (leased p digest i d1)
  from leased(4) show ?thesis
  proof (cases rule: apply_leased_cases)
    case (failed e')
    then show ?thesis using same_contents_trans [OF leased(2)] by (simp add: no_outcome_def)
  next
    case (rejected e' d2 p1 bs)
    moreover have "same_contents d d'" if "\<not> errors_is e' Cfg_CommitUnknown"
      using Publish_failed_contents [OF rejected(4) that] same_contents_trans [OF leased(2) rejected(3)] by simp
    ultimately show ?thesis by (auto simp: no_outcome_def)
  next
    case (saved previous d2 p1 bs rv)
    have "same_contents d d2" using same_contents_trans [OF leased(2) apply_profiles_contents [OF saved(4)]] .
    then have "db_generation d2 = db_generation d" by (rule same_generation)
    with saved(1,2) Publish_generation [OF saved(6)] show ?thesis by (simp add: no_outcome_def)
  qed
qed

section \<open>Reservations\<close>

definition reserved :: "db \<Rightarrow> nat" where
  "reserved d = (case d_keyset d of None \<Rightarrow> 0 | Some k \<Rightarrow> k_reserved k)"

lemma Keyset_reserved: "Keyset v d l = Inr k \<Longrightarrow> k_reserved k = reserved d"
  by (auto simp: Keyset_def Let_def reserved_def zero_keyset_def split: sum.splits option.splits if_splits)

lemma Keyset_absent: "Keyset v d l = Inr k \<Longrightarrow> k_phase k = [] \<Longrightarrow> reserved d = 0"
  by (auto simp: Keyset_def Let_def reserved_def split: sum.splits option.splits if_splits)

lemma SaveKeyset_reserved:
  "SaveKeyset v d l k = (x, d') \<Longrightarrow> reserved d' = (if x = Inr () then k_reserved k else reserved d)"
  by (auto simp: SaveKeyset_def reserved_def split: if_splits sum.splits)

lemma save_keyset_lease_reserved:
  assumes "alone w" and "save_keyset_lease t w n expected k d = (x, d')" and "k_reserved k = reserved d"
  shows "reserved d' = reserved d"
  using assms
  by (auto simp: save_keyset_lease_def alone_def Let_def dest!: SaveKeyset_reserved split: sum.splits if_splits)

lemma finish_unlock_reserved:
  assumes "alone w" and "finish_unlock t w create expected k raw r d = (x, r', d')" and "k_reserved k = reserved d"
  shows "reserved d' = reserved d"
proof (cases "k_phase k = ''intent''")
  case True
  obtain y d1 where s: "save_keyset_lease t w 2 expected (k\<lparr>k_phase := ''ready''\<rparr>) d = (y, d1)"
    by (cases "save_keyset_lease t w 2 expected (k\<lparr>k_phase := ''ready''\<rparr>) d")
  have "reserved d1 = reserved d" by (rule save_keyset_lease_reserved [OF assms(1) s]) (simp add: assms(3))
  moreover have "d' = d \<or> d' = d1"
    using True assms(2) s by (auto simp: finish_unlock_def split: sum.splits option.splits if_splits)
  ultimately show ?thesis by auto
next
  case False
  with assms(2) show ?thesis by (auto dest: finish_unlock_ready)
qed

lemma create_keyset_reserved:
  assumes "alone w" and "create_keyset t w i expected r d = (x, r', d')" and "reserved d = 0"
  shows "reserved d' = 0"
  using assms(2)
proof (cases rule: create_keyset_cases)
  case (recorded raw e)
  then show ?thesis using save_keyset_lease_reserved [OF assms(1)] assms(3) by fastforce
next
  case (created raw loaded d1)
  have "reserved d1 = 0" using save_keyset_lease_reserved [OF assms(1) created(2)] assms(3) by simp
  then show ?thesis using finish_unlock_reserved [OF assms(1) created(5)] by simp
qed (use assms(3) in simp)

lemma Unlock_reserved:
  assumes "alone w" and "Unlock t w create expected r d = (x, r', d')"
  shows "reserved d' = reserved d"
  using assms(2)
proof (cases rule: Unlock_cases)
  case early
  then show ?thesis using assms(1) by (auto simp: alone_def)
next
  case (through i k y r1)
  have "Keyset (w_db w 0) d (mk_lease t False i) = Inr k" using through(4) assms(1) by (simp add: alone_def)
  then have k: "k_reserved k = reserved d" "k_phase k = [] \<Longrightarrow> reserved d = 0"
    by (rule Keyset_reserved, rule Keyset_absent)
  have "obtain_keyset t w create i expected k (if k_phase k = [] then r\<lparr>r_state := Absent\<rparr> else r) d = (y, r1, d')"
    using through(5) assms(1) by (simp add: alone_def)
  then show ?thesis
    by (cases rule: obtain_keyset_cases)
      (use k create_keyset_reserved [OF assms(1)] finish_unlock_reserved [OF assms(1)] in auto)
qed

text \<open>In the loop of \<open>Apply\<close> every ciphertext has moved the counter by one.\<close>

lemma encrypt_secrets_reserved:
  assumes "encrypt_secrets t w v l r n p s d = (x, d')"
  shows "reserved d \<le> reserved d' \<and> (is_ok x \<longrightarrow> reserved d' = Suc (reserved d))"
  using assms
proof (cases rule: encrypt_secrets_cases)
  case (reserved e k y)
  then show ?thesis using Keyset_reserved [OF reserved(2)] SaveKeyset_reserved [OF reserved(4)] by auto
next
  case (encrypted a ref k c)
  then show ?thesis using Keyset_reserved [OF encrypted(3)] SaveKeyset_reserved [OF encrypted(5)] by auto
qed simp

text \<open>What one connection contributes.\<close>

lemma apply_profile_cases:
  assumes "apply_profile t w v l r m previous n p d = (x, d')"
  obtains (failed) e where "x = Inl e" "d' = d \<or> (\<exists>s y. encrypt_secrets t w v l r n p s d = (y, d'))"
    | (kept) "x = Inr (p, [])" "d' = d" "new_secrets t v d l r m (old_profile previous (p_id p)) p = Inr None"
    | (cleared) "x = Inr (p\<lparr>p_cred := []\<rparr>, [])" "d' = d"
        "new_secrets t v d l r m (old_profile previous (p_id p)) p = Inr (Some no_secrets)"
    | (replaced) s p' b where "x = Inr (p', [b])" "secrets_valid s" "s \<noteq> no_secrets"
        "new_secrets t v d l r m (old_profile previous (p_id p)) p = Inr (Some s)"
        "encrypt_secrets t w v l r n p s d = (Inr (p', b), d')"
proof (cases "p_cred p = p_cred (old_profile previous (p_id p))")
  case False
  with assms failed show thesis by (auto simp: apply_profile_def Let_def)
next
  case True
  show thesis
  proof (cases "new_secrets t v d l r m (old_profile previous (p_id p)) p")
    case (Inl e)
    with assms failed True show thesis by (auto simp: apply_profile_def Let_def)
  next
    case (Inr so)
    show thesis
    proof (cases so)
      case None
      with assms failed kept True Inr show thesis
        by (auto simp: apply_profile_def Let_def split: if_split_asm sum.splits)
    next
      case (Some s)
      obtain y d1 where y: "encrypt_secrets t w v l r n p s d = (y, d1)"
        by (cases "encrypt_secrets t w v l r n p s d")
      show thesis
      proof (cases "secrets_valid s \<and> s \<noteq> no_secrets")
        case False
        with assms failed cleared True Inr Some show thesis
          by (auto simp: apply_profile_def Let_def split: if_split_asm)
      next
        case valid: True
        with assms True Inr Some y have "(x, d') =
            (case y of Inl e \<Rightarrow> (Inl e, d1) | Inr (p', b) \<Rightarrow> (Inr (p', [b]), d1))"
          by (auto simp: apply_profile_def Let_def)
        then show thesis using failed [of _] replaced [of _ _ s] valid Inr Some y
          by (cases y) (force split: prod.splits)+
      qed
    qed
  qed
qed

lemma apply_profiles_reserved:
  "apply_profiles t w v l r m previous n ps d = (x, d') \<Longrightarrow>
     reserved d \<le> reserved d' \<and> (case x of Inl _ \<Rightarrow> True | Inr (ps', bs) \<Rightarrow> reserved d' = reserved d + length bs)"
proof (induction ps arbitrary: n d x d')
  case (Cons p ps)
  obtain y d1 where p: "apply_profile t w v l r m previous n p d = (y, d1)"
    by (cases "apply_profile t w v l r m previous n p d")
  have one: "reserved d \<le> reserved d1 \<and>
      (case y of Inl _ \<Rightarrow> True | Inr (p', bs) \<Rightarrow> reserved d1 = reserved d + length bs)"
    using p by (cases rule: apply_profile_cases) (auto dest!: encrypt_secrets_reserved)
  show ?case
  proof (cases y)
    case (Inl e)
    with Cons.prems p one show ?thesis by auto
  next
    case (Inr pb)
    obtain z d2 where q: "apply_profiles t w v l r m previous (Suc n) ps d1 = (z, d2)"
      by (cases "apply_profiles t w v l r m previous (Suc n) ps d1")
    from Cons.IH [OF q] Cons.prems p q one Inr show ?thesis
      by (cases z) (auto split: prod.splits)
  qed
qed simp

section \<open>Every stored ciphertext was reserved\<close>

lemma replace_bundles_set:
  "replace_bundles v rp bs = Some bs' \<Longrightarrow> set bs' \<subseteq> set rp \<union> {b \<in> set bs. b_conn b \<notin> b_conn ` set rp}"
proof (induction rp arbitrary: bs)
  case (Cons b rp)
  let ?bs = "filter (\<lambda>x. b_conn x \<noteq> b_conn b) bs"
  from Cons.prems have "replace_bundles v rp (?bs @ [b]) = Some bs'"
    by (auto simp: insert_bundle_def split: if_splits option.splits)
  from Cons.IH [OF this] show ?case by auto
qed simp

lemma publish_tx_bundles:
  assumes "publish_tx v d p rp = Some (d', g)"
  shows "set (d_bundles d') \<subseteq> set rp \<union> {b \<in> set (d_bundles d). b_conn b \<notin> b_conn ` set rp}"
    "d_keyset d' = d_keyset d"
proof -
  obtain bs i where bs: "replace_bundles v rp (d_bundles d) = Some bs"
    "d' = d\<lparr>d_inst := Some (i\<lparr>in_generation := g\<rparr>), d_profiles := map row_of p,
            d_bundles := drop_unreferenced (map row_of p) bs\<rparr>"
    using assms by (rule publish_tx_Some)
  have "set (d_bundles d') \<subseteq> set bs" using bs(2) by (auto simp: drop_unreferenced_def)
  with replace_bundles_set [OF bs(1)]
  show "set (d_bundles d') \<subseteq> set rp \<union> {b \<in> set (d_bundles d). b_conn b \<notin> b_conn ` set rp}" by blast
  show "d_keyset d' = d_keyset d" using bs(2) by simp
qed

lemma Publish_bundles:
  assumes "Publish v d l p expected rp = (x, d')"
  shows "set (d_bundles d') \<subseteq> set rp \<union> set (d_bundles d)" "d_keyset d' = d_keyset d"
proof -
  have "set (d_bundles d') \<subseteq> set rp \<union> set (d_bundles d) \<and> d_keyset d' = d_keyset d"
    using assms
  proof (cases rule: Publish_cases)
    case (unknown e q d1 g)
    then show ?thesis using publish_tx_bundles [OF unknown(3)] by auto
  next
    case (finished q digest d1 g current)
    then show ?thesis using publish_tx_bundles [OF finished(5)] by auto
  qed auto
  then show "set (d_bundles d') \<subseteq> set rp \<union> set (d_bundles d)" "d_keyset d' = d_keyset d" by simp_all
qed

lemma reserved_keyset: "d_keyset d' = d_keyset d \<Longrightarrow> reserved d' = reserved d"
  by (simp add: reserved_def)

lemma card_new: "set bs' \<subseteq> set rp \<union> set bs \<Longrightarrow> card (set bs' - set bs) \<le> length rp"
  by (rule order_trans [OF card_mono [of "set rp"] card_length]) auto

lemma apply_leased_reserved:
  assumes "apply_leased t w v l r m p d = ((out, e), d')"
  shows "reserved d + card (set (d_bundles d') - set (d_bundles d)) \<le> reserved d'"
proof (cases "\<exists>previous. ProfileSnapshot v d l = Inr (previous, m_expected m)")
  case False
  then have "d' = d" using assms by (auto simp: apply_leased_def split: sum.splits if_splits)
  then show ?thesis by simp
next
  case True
  then obtain previous where s: "ProfileSnapshot v d l = Inr (previous, m_expected m)" by blast
  obtain y d1 where a: "apply_profiles t w v l r m previous 0 p d = (y, d1)"
    by (cases "apply_profiles t w v l r m previous 0 p d")
  have same: "d_bundles d1 = d_bundles d" using apply_profiles_contents [OF a] by (simp add: same_contents_def)
  show ?thesis
  proof (cases "\<exists>p1 bs z. y = Inr (p1, bs) \<and> Publish v d1 l p1 (m_expected m) bs = (z, d')")
    case True
    then obtain p1 bs z where t: "y = Inr (p1, bs)" "Publish v d1 l p1 (m_expected m) bs = (z, d')" by blast
    have "reserved d' = reserved d + length bs"
      using apply_profiles_reserved [OF a] t(1) reserved_keyset [OF Publish_bundles(2) [OF t(2)]] by simp
    then show ?thesis using card_new [OF Publish_bundles(1) [OF t(2)]] same by simp
  next
    case False
    then have "d' = d1"
      using assms s a unfolding apply_leased_def
      by (auto split: sum.splits if_split_asm option.splits prod.splits)
    then show ?thesis using apply_profiles_reserved [OF a] same by simp
  qed
qed

text \<open>
  C6.  Encryptions are bounded: in every outcome of an edit, failed and uncertain ones
  included, each ciphertext that is new in the database was paid for by a reservation
  recorded before it was made, and reservations are never given back.
\<close>

theorem encryptions_reserved:
  assumes "alone w" and "Apply t w m r d = (x, r', d')"
  shows "reserved d + card (set (d_bundles d') - set (d_bundles d)) \<le> reserved d'"
proof -
  obtain out e where "x = (out, e)" by (cases x)
  with assms(2) have "Apply t w m r d = ((out, e), r', d')" by simp
  with assms(1) show ?thesis
  proof (cases rule: Apply_cases)
    case (stopped e')
    then have "reserved d' = reserved d" using Unlock_reserved [OF assms(1)] by auto
    with stopped(3) show ?thesis by (simp add: same_contents_def)
  next
    case (leased p digest i d1)
    then have "reserved d1 = reserved d"
      using Unlock_reserved [OF assms(1), of t True "m_expected m" r d "Inr ()" r' d1] by metis
    with apply_leased_reserved [OF leased(4)] leased(2) show ?thesis by (simp add: same_contents_def)
  qed
qed

end
