(* ===== verification/Vault_Readback.thy ===== *)
theory Vault_Readback
  imports Vault
begin

text \<open>
  What the loop of \<open>Apply\<close> leaves alone, and the end-to-end property of an edit: the secrets
  it stored are the secrets a later \<open>Credential\<close> returns.
\<close>

section \<open>The keyset during an edit\<close>

lemma lease_database_keyset: "same_contents d d' \<Longrightarrow> lease_database v d' l = lease_database v d l"
  unfolding lease_database_def validateDatabase_def same_contents_def by (elim conjE) (simp only:)

definition cut_keyset :: "keyset_row \<Rightarrow> keyset_row" where
  "cut_keyset k =
     \<lparr>k_account = take 65 (k_account k), k_phase = take 7 (k_phase k),
      k_fingerprint = take 65 (k_fingerprint k), k_reserved = k_reserved k\<rparr>"

definition keyset_accepted :: "env \<Rightarrow> lease \<Rightarrow> ciphertext list \<Rightarrow> keyset_row \<Rightarrow> bool" where
  "keyset_accepted v l bs k \<longleftrightarrow>
     k_account k = id_key_account (le_identity l) \<and> (k_phase k = ''intent'' \<or> k_phase k = ''ready'') \<and>
     length (k_fingerprint k) = 64 \<and> k_reserved k \<le> max_reserved \<and> fingerprint_ok (k_fingerprint k) \<and>
     \<not> v_sql v ''keyset'' \<and> \<not> v_sql v ''bundle totals'' \<and> length bs \<le> 128 \<and> total_size bs \<le> max_total \<and>
     (bs \<noteq> [] \<longrightarrow> k_phase k = ''ready'' \<and> length bs \<le> k_reserved k)"

lemma Keyset_Some:
  assumes "d_keyset d = Some k0"
  shows "Keyset v d l = Inr k \<longleftrightarrow>
    is_ok (lease_database v d l) \<and> k = cut_keyset k0 \<and> keyset_accepted v l (d_bundles d) k"
proof (cases "lease_database v d l")
  case (Inl e)
  then show ?thesis by (simp add: Keyset_def)
next
  case (Inr u)
  then show ?thesis
    using assms
    unfolding Keyset_def Let_def keyset_accepted_def cut_keyset_def [symmetric]
    by (simp only: sum.case option.case is_ok.simps) (auto simp: not_less simp del: cut_keyset_def)
qed

lemma Snapshot_contents: "same_contents d d' \<Longrightarrow> ProfileSnapshot v d' l = ProfileSnapshot v d l"
  using lease_database_keyset [of d d' v l]
  unfolding ProfileSnapshot_def same_contents_def by (elim conjE) (simp only:)

lemma Keyset_advance:
  assumes "Keyset v d l = Inr k" and "SaveKeyset v d l (k\<lparr>k_reserved := n\<rparr>) = (Inr (), d')" and "reserved d \<le> n"
  shows "Keyset v d' l = Inr (k\<lparr>k_reserved := n\<rparr>)"
proof -
  have d': "d' = d\<lparr>d_keyset := Some (k\<lparr>k_reserved := n\<rparr>)\<rparr>" "k_phase k \<in> {''intent'', ''ready''}" "n \<le> max_reserved"
    using assms(2) by (auto simp: SaveKeyset_def split: if_splits sum.splits)
  then have "k_phase k \<noteq> []" by auto
  then obtain k0 where k0: "d_keyset d = Some k0"
    using assms(1) by (auto simp: Keyset_def zero_keyset_def split: sum.splits if_splits option.splits)
  have k: "is_ok (lease_database v d l)" "k = cut_keyset k0" "keyset_accepted v l (d_bundles d) k"
    using assms(1) Keyset_Some [OF k0] by blast+
  have "is_ok (lease_database v d' l)"
    using k(1) lease_database_keyset [of d d' v l] by (simp add: d'(1) same_contents_def)
  moreover have "k\<lparr>k_reserved := n\<rparr> = cut_keyset (k\<lparr>k_reserved := n\<rparr>)"
    using k(2) by (simp add: cut_keyset_def)
  moreover have "keyset_accepted v l (d_bundles d') (k\<lparr>k_reserved := n\<rparr>)"
    using k(3) assms(3) d'(1,3) Keyset_reserved [OF assms(1)] by (auto simp: keyset_accepted_def)
  moreover have "d_keyset d' = Some (k\<lparr>k_reserved := n\<rparr>)" using d'(1) by simp
  ultimately show ?thesis using Keyset_Some by blast
qed

lemma encrypt_secrets_cipher:
  assumes "encrypt_secrets t w v l r n p s d = (x, d')"
  shows "vault_cipher v d' l r = vault_cipher v d l r"
proof -
  have "vault_cipher v d' l r = vault_cipher v d l r"
    if "Keyset v d l = Inr k" "SaveKeyset v d l (k\<lparr>k_reserved := k_reserved k + 1\<rparr>) = (y, d')" for k y
  proof (cases y)
    case (Inr u)
    then have "Keyset v d' l = Inr (k\<lparr>k_reserved := k_reserved k + 1\<rparr>)"
      using Keyset_advance [OF that(1), of "k_reserved k + 1" d'] that Keyset_reserved [OF that(1)] by simp
    with that(1) show ?thesis by (cases "r_primitive r") (simp_all add: vault_cipher_def)
  next
    case (Inl e)
    with that(2) have "d' = d" by (auto simp: SaveKeyset_def split: if_splits sum.splits)
    then show ?thesis by simp
  qed
  with assms show ?thesis by (cases rule: encrypt_secrets_cases) auto
qed

lemma apply_profile_cipher:
  "apply_profile t w v l r m previous n p d = (x, d') \<Longrightarrow> vault_cipher v d' l r = vault_cipher v d l r"
  by (erule apply_profile_cases) (auto dest: encrypt_secrets_cipher)

lemma apply_profiles_cipher:
  "apply_profiles t w v l r m previous n ps d = (x, d') \<Longrightarrow> vault_cipher v d' l r = vault_cipher v d l r"
proof (induction ps arbitrary: n d x d')
  case (Cons p ps)
  obtain y d1 where p: "apply_profile t w v l r m previous n p d = (y, d1)"
    by (cases "apply_profile t w v l r m previous n p d")
  obtain z d2 where q: "apply_profiles t w v l r m previous (Suc n) ps d1 = (z, d2)"
    by (cases "apply_profiles t w v l r m previous (Suc n) ps d1")
  have "d' = d1 \<or> d' = d2" using Cons.prems p q by (auto split: sum.splits prod.splits)
  then show ?case using apply_profile_cipher [OF p] Cons.IH [OF q] by auto
qed simp

lemma Bundle_contents: "same_contents d d' \<Longrightarrow> Bundle v d' l ref = Bundle v d l ref"
  using lease_database_keyset [of d d' v l]
  unfolding Bundle_def same_contents_def by (elim conjE) (simp only:)

lemma new_secrets_same:
  assumes "same_contents d d'" and "vault_cipher v d' l r = vault_cipher v d l r"
  shows "new_secrets t v d' l r m before p = new_secrets t v d l r m before p"
proof -
  have "profile_credential t v d' l r before = profile_credential t v d l r before"
    unfolding profile_credential_def Bundle_contents [OF assms(1)] assms(2) ..
  then show ?thesis unfolding new_secrets_def by (simp only:)
qed

text \<open>The ciphertext of one connection.\<close>

definition encrypts :: "'k tools \<Rightarrow> 'k \<Rightarrow> identity \<Rightarrow> secrets \<Rightarrow> ciphertext \<Rightarrow> bool" where
  "encrypts t a i s b \<longleftrightarrow>
     b_version b = 1 \<and> b_ref b \<noteq> [] \<and> secrets_valid s \<and>
     (\<exists>n p. p_id p = b_conn b \<and> p_cred p = b_ref b \<and>
       tk_encrypt (t_tink t) a n (marshal (bundle_json s)) (aad i p 1) = Some (b_data b))"

lemma NewID_nonempty: "NewID x = Inr ref \<Longrightarrow> ref \<noteq> []"
  by (auto simp: NewID_def Let_def split: option.splits)

lemma NewID_ascii: "NewID x = Inr ref \<Longrightarrow> utf8_valid ref"
proof -
  have hex: "\<forall>c \<in> set (hex_text bs). byte_of c < 128" for bs
  proof -
    have "byte_of (hex_digit n) < 128" if "n < 16" for n using that by (simp add: hex_digit_def of_char_of)
    moreover have "byte_of c div 16 < 16" for c using byte_of_less_256 [of c] by (simp add: less_mult_imp_div_less)
    ultimately show ?thesis by (auto simp: hex_text_def)
  qed
  assume "NewID x = Inr ref"
  then show ?thesis using hex by (intro utf8_valid_ascii) (auto simp: NewID_def Let_def split: option.splits)
qed

lemma apply_profiles_sources:
  "apply_profiles t w v l r m previous n ps d = (Inr (ps', bs), d') \<Longrightarrow>
     map p_id ps' = map p_id ps \<and> set (map b_conn bs) \<subseteq> set (map p_id ps) \<and>
     (distinct (map p_id ps) \<longrightarrow> distinct (map b_conn bs)) \<and>
     (\<forall>p' \<in> set ps'. \<exists>p \<in> set ps. \<exists>ref. p' = p\<lparr>p_cred := ref\<rparr> \<and> (ref = p_cred p \<or> utf8_valid ref))"
proof (induction ps arbitrary: n d ps' bs)
  case (Cons p ps)
  obtain y d1 where p: "apply_profile t w v l r m previous n p d = (y, d1)"
    by (cases "apply_profile t w v l r m previous n p d")
  with Cons.prems obtain p1 b1 ps1 bs1 where y: "y = Inr (p1, b1)" "ps' = p1 # ps1" "bs = b1 @ bs1"
    "apply_profiles t w v l r m previous (Suc n) ps d1 = (Inr (ps1, bs1), d')"
    by (auto split: sum.splits prod.splits)
  have one: "p_id p1 = p_id p \<and> (b1 = [] \<or> (\<exists>b. b1 = [b] \<and> b_conn b = p_id p)) \<and>
      (\<exists>ref. p1 = p\<lparr>p_cred := ref\<rparr> \<and> (ref = p_cred p \<or> utf8_valid ref))"
    using p
  proof (cases rule: apply_profile_cases)
    case (replaced s p2 b)
    from replaced(5) show ?thesis
      by (cases rule: encrypt_secrets_cases) (use replaced(1) y(1) NewID_ascii in auto)
  qed (use y(1) in \<open>auto intro: exI [of _ "p_cred p"] exI [of _ "[]"]\<close>)
  note rest = Cons.IH [OF y(4)]
  have "map p_id ps' = map p_id (p # ps)" using one rest y(2) by simp
  moreover have "set (map b_conn bs) \<subseteq> set (map p_id (p # ps))" using one rest y(3) by auto
  moreover have "distinct (map b_conn bs)" if "distinct (map p_id (p # ps))"
    using that one rest y(3) by auto
  moreover have "\<forall>p' \<in> set ps'. \<exists>q \<in> set (p # ps). \<exists>ref. p' = q\<lparr>p_cred := ref\<rparr> \<and> (ref = p_cred q \<or> utf8_valid ref)"
    using one rest unfolding y(2) by (simp only: list.set ball_simps bex_simps) blast
  ultimately show ?case by blast
qed simp

lemma apply_profiles_secrets:
  "apply_profiles t w v l r m previous n ps d = (Inr (ps', bs), d') \<Longrightarrow> p \<in> set ps \<Longrightarrow>
   new_secrets t v d l r m (old_profile previous (p_id p)) p = Inr (Some s) \<Longrightarrow> s \<noteq> no_secrets \<Longrightarrow>
   \<exists>a b. vault_cipher v d l r = Inr a \<and> b \<in> set bs \<and> b_conn b = p_id p \<and>
     encrypts t a (le_identity l) s b \<and> p\<lparr>p_cred := b_ref b\<rparr> \<in> set ps'"
proof (induction ps arbitrary: n d ps' bs)
  case (Cons q ps)
  obtain y d1 where q: "apply_profile t w v l r m previous n q d = (y, d1)"
    by (cases "apply_profile t w v l r m previous n q d")
  with Cons.prems(1) obtain p1 b1 ps1 bs1 where y: "y = Inr (p1, b1)" "ps' = p1 # ps1" "bs = b1 @ bs1"
    "apply_profiles t w v l r m previous (Suc n) ps d1 = (Inr (ps1, bs1), d')"
    by (auto split: sum.splits prod.splits)
  show ?case
  proof (cases "p = q")
    case True
    from q show ?thesis
    proof (cases rule: apply_profile_cases)
      case (replaced s' p2 b)
      have "s' = s" using replaced(4) Cons.prems(3) True by simp
      from replaced(5) show ?thesis
      proof (cases rule: encrypt_secrets_cases)
        case (encrypted a ref k c)
        have "encrypts t a (le_identity l) s b" "b_conn b = p_id p" "p\<lparr>p_cred := b_ref b\<rparr> = p2"
          using encrypted(2,6,7) replaced(2) \<open>s' = s\<close> True NewID_nonempty [OF encrypted(2)]
          by (auto simp: encrypts_def intro!: exI [of _ "w_nonce w n"] exI [of _ "q\<lparr>p_cred := ref\<rparr>"])
        then show ?thesis using encrypted(1) replaced(1) y by auto
      qed simp_all
    qed (use y Cons.prems True in auto)
  next
    case False
    have "same_contents d d1" using q by (rule apply_profile_contents)
    moreover have c: "vault_cipher v d1 l r = vault_cipher v d l r" using q by (rule apply_profile_cipher)
    ultimately have "new_secrets t v d1 l r m (old_profile previous (p_id p)) p = Inr (Some s)"
      using new_secrets_same [of d d1 v l r t m] Cons.prems(3) by simp
    then show ?thesis using Cons.IH [OF y(4)] Cons.prems(2,4) False c y(2,3) by auto
  qed
qed simp

section \<open>What publishing stores\<close>

lemma normalize_map: "normalize ids aliases rs ps = Inr qs \<Longrightarrow> qs = map (\<lambda>c. with_limits (lower_ids c)) ps"
proof (induction ps arbitrary: ids aliases rs qs)
  case (Cons c0 cs)
  obtain c r where "c = with_limits (lower_ids c0)" "qs = c # r"
    "normalize (p_id c # ids) (p_alias c # aliases) (if p_cred c \<noteq> [] then p_cred c # rs else rs) cs = Inr r"
    using Cons.prems by (rule normalize_step)
  then show ?case using Cons.IH by simp
qed simp

lemma DecodeProfiles_printed:
  assumes "list_all good_profile ps" and "DecodeProfiles valid sha (marshal (profiles_json ps)) = Inr (qs, digest)"
  shows "set qs = (\<lambda>c. with_limits (lower_ids c)) ` set ps" "normalized qs"
proof -
  obtain v xs ys where d: "length (marshal (profiles_json ps)) \<le> MaxProfileBytes"
    "json_parse (marshal (profiles_json ps)) = Some v" "valid v" "decode_profiles v = Some xs"
    "normalize [] [] [] xs = Inr ys" "qs = sort_key p_id ys"
    using assms(2) by (rule DecodeProfiles_cases)
  have "printable (profiles_json ps)"
    using assms(1) by (intro printable_profiles) (simp add: list_all_iff good_profile_def)
  then have "v = profiles_json ps" using checkJSON_marshal(2) [OF _ profiles_json_shape] d(2) by simp
  then have "xs = ps" using d(4) assms(1) decode_profiles_json [of ps] by (simp add: list_all_iff good_profile_def)
  then have "ys = map (\<lambda>c. with_limits (lower_ids c)) ps" using normalize_map d(5) by blast
  then show "set qs = (\<lambda>c. with_limits (lower_ids c)) ` set ps" using d(6) by simp
  show "normalized qs" using normalize_sound [OF d(5)] d(6) by (simp add: normalized_sort)
qed

lemma good_profile_cred: "good_profile p \<Longrightarrow> utf8_valid ref \<Longrightarrow> good_profile (p\<lparr>p_cred := ref\<rparr>)"
  by (simp add: good_profile_def encodable_def profile_text_def)

lemma replace_bundles_blob: "replace_bundles v rp bs = Some bs' \<Longrightarrow> list_all blob_ok rp"
proof (induction rp arbitrary: bs)
  case (Cons b rp)
  then obtain bs1 where "replace_bundles v rp bs1 = Some bs'" "blob_ok b"
    by (auto simp: insert_bundle_def split: if_splits option.splits)
  with Cons.IH show ?case by simp
qed simp

lemma refs_unique:
  assumes "normalized qs" and "q \<in> set qs" and "q' \<in> set qs" and "p_cred q = p_cred q'" and "p_cred q \<noteq> []"
  shows "q = q'"
proof -
  have "distinct (map p_cred (filter (\<lambda>p. p_cred p \<noteq> []) qs))"
    using assms(1) by (simp add: normalized_def refs_def filter_map comp_def)
  then show ?thesis using assms(2-5) by (auto simp: distinct_map dest: inj_onD)
qed

lemma foreign_keys_bundle:
  assumes "foreign_keys d" and "b \<in> set (d_bundles d)"
  shows "\<exists>r \<in> set (d_profiles d). pr_id r = b_conn b \<and> pr_ref r = Some (b_ref b)"
proof -
  have "list_all (\<lambda>b. list_ex (\<lambda>r. pr_id r = b_conn b \<and> pr_ref r = Some (b_ref b)) (d_profiles d)) (d_bundles d)"
    using assms(1) by (simp only: foreign_keys_def)
  with assms(2) show ?thesis by (simp add: list_all_iff list_ex_iff)
qed

lemma foreign_keys_row:
  assumes "foreign_keys d" and "r \<in> set (d_profiles d)"
  shows "case pr_ref r of None \<Rightarrow> True | Some ref \<Rightarrow> list_ex (\<lambda>b. b_ref b = ref \<and> b_conn b = pr_id r) (d_bundles d)"
proof -
  have "list_all (\<lambda>r. case pr_ref r of None \<Rightarrow> True
      | Some ref \<Rightarrow> list_ex (\<lambda>b. b_ref b = ref \<and> b_conn b = pr_id r) (d_bundles d)) (d_profiles d)"
    using assms(1) by (simp only: foreign_keys_def)
  from this [unfolded list_all_iff] assms(2) show ?thesis by (rule bspec)
qed

text \<open>The bundle a stored profile refers to is the one that was published for it.\<close>

lemma published_bundle:
  assumes "publish_tx v d qs bs = Some (d', g)" and "foreign_keys d'" and "normalized qs"
    and "q \<in> set qs" and "p_cred q \<noteq> []" and "b \<in> set bs" and "b_conn b = p_id q" and "distinct (map b_conn bs)"
  shows "b_ref b = p_cred q" "\<exists>rest. filter (\<lambda>x. b_ref x = p_cred q) (d_bundles d') = b # rest" "blob_ok b"
proof -
  obtain bs0 i where t: "replace_bundles v bs (d_bundles d) = Some bs0"
    "d' = d\<lparr>d_inst := Some (i\<lparr>in_generation := g\<rparr>), d_profiles := map row_of qs,
            d_bundles := drop_unreferenced (map row_of qs) bs0\<rparr>"
    using assms(1) by (rule publish_tx_Some)
  have rows: "d_profiles d' = map row_of qs" using t(2) by simp
  show "blob_ok b" using replace_bundles_blob [OF t(1)] assms(6) by (simp add: list_all_iff)
  have only: "x = b" if x: "x \<in> set (d_bundles d')" "b_ref x = p_cred q" for x
  proof -
    obtain row where "row \<in> set (d_profiles d')" "pr_id row = b_conn x" "pr_ref row = Some (b_ref x)"
      using foreign_keys_bundle [OF assms(2) x(1)] by blast
    then obtain q' where q': "q' \<in> set qs" "p_id q' = b_conn x" "p_cred q' = p_cred q"
      using rows x(2) assms(5) by (auto simp: row_of_def split: if_splits)
    then have "q' = q" using refs_unique [OF assms(3)] assms(4,5) by metis
    then have "b_conn x = b_conn b" using q'(2) assms(7) by simp
    have "b_conn x \<in> b_conn ` set bs" unfolding \<open>b_conn x = b_conn b\<close> using assms(6) by (rule imageI)
    then have "x \<in> set bs" using publish_tx_bundles(1) [OF assms(1)] x(1) by blast
    moreover have "inj_on b_conn (set bs)" using assms(8) by (simp add: distinct_map)
    ultimately show ?thesis using \<open>b_conn x = b_conn b\<close> assms(6) by (blast dest: inj_onD)
  qed
  have "pr_ref (row_of q) = Some (p_cred q)" using assms(5) by (simp add: row_of_def)
  then have "list_ex (\<lambda>x. b_ref x = p_cred q \<and> b_conn x = pr_id (row_of q)) (d_bundles d')"
    using foreign_keys_row [OF assms(2), of "row_of q"] rows assms(4) by (simp only: option.case) simp
  then obtain x where x: "x \<in> set (d_bundles d')" "b_ref x = p_cred q" by (auto simp: list_ex_iff)
  then show "b_ref b = p_cred q" using only by blast
  from x have "filter (\<lambda>x. b_ref x = p_cred q) (d_bundles d') \<noteq> []" by (auto simp: filter_empty_conv)
  then obtain y rest where y: "filter (\<lambda>x. b_ref x = p_cred q) (d_bundles d') = y # rest"
    by (cases "filter (\<lambda>x. b_ref x = p_cred q) (d_bundles d')") auto
  then have "y \<in> set (filter (\<lambda>x. b_ref x = p_cred q) (d_bundles d'))" by simp
  then have "y \<in> set (d_bundles d')" "b_ref y = p_cred q" by simp_all
  with only y show "\<exists>rest. filter (\<lambda>x. b_ref x = p_cred q) (d_bundles d') = b # rest" by blast
qed

section \<open>The secrets of an edited connection\<close>

lemma credential_of_bundle:
  assumes law: "\<And>a n plain ad c. tk_encrypt (t_tink t) a n plain ad = Some c \<Longrightarrow> tk_decrypt (t_tink t) a c ad = Some plain"
    and "p_cred q \<noteq> []" and "Bundle v d l (p_cred q) = Inr b" and "b_conn b = p_id q" and "b_ref b = p_cred q"
    and "length (b_data b) \<le> max_blob" and "vault_cipher v d l r = Inr a" and "encrypts t a (le_identity l) s b"
  shows "profile_credential t v d l r q = Inr s"
proof -
  obtain n p where e: "p_id p = b_conn b" "p_cred p = b_ref b" "b_version b = 1" "secrets_valid s"
    "tk_encrypt (t_tink t) a n (marshal (bundle_json s)) (aad (le_identity l) p 1) = Some (b_data b)"
    using assms(8) by (auto simp: encrypts_def)
  have "aad (le_identity l) q (b_version b) = aad (le_identity l) p 1"
    using assms(4,5) e(1-3) by (simp add: aad_def)
  then have "tk_decrypt (t_tink t) a (b_data b) (aad (le_identity l) q (b_version b)) = Some (marshal (bundle_json s))"
    using law [OF e(5)] by simp
  then show ?thesis
    using assms(2-7) e(3) decode_bundle_json [OF e(4)]
    by (simp add: profile_credential_def MaxPlaintextBytes_def max_blob_def)
qed

lemma Bundle_found:
  assumes "quiet v" and "is_ok (lease_database v d l)" and "filter (\<lambda>x. b_ref x = ref) (d_bundles d) = b # rest"
    and "blob_ok b" and "length (b_conn b) \<le> 37"
  shows "Bundle v d l ref = Inr b"
proof -
  have "b \<in> set (filter (\<lambda>x. b_ref x = ref) (d_bundles d))" unfolding assms(3) by simp
  then have "b_ref b = ref" by simp
  then show ?thesis
    using assms by (auto simp: Bundle_def quiet_def blob_ok_def is_ok_iff Suc_le_eq)
qed

text \<open>The keyset record stays acceptable after a publication that stores reserved bundles.\<close>

lemma replace_bundles_length: "replace_bundles v rp bs = Some bs' \<Longrightarrow> length bs' \<le> length bs + length rp"
proof (induction rp arbitrary: bs)
  case (Cons b rp)
  let ?bs = "filter (\<lambda>x. b_conn x \<noteq> b_conn b) bs"
  from Cons.prems have "replace_bundles v rp (?bs @ [b]) = Some bs'"
    by (auto simp: insert_bundle_def split: if_splits option.splits)
  from Cons.IH [OF this] have "length bs' \<le> Suc (length ?bs) + length rp" by simp
  moreover have "length ?bs \<le> length bs" by (rule length_filter_le)
  ultimately show ?case by (simp del: length_filter_le)
qed simp

lemma publish_keeps_cipher:
  assumes "vault_cipher v d0 l r = Inr a" and "vault_cipher v d l r = Inr a" and "reserved d = reserved d0 + length bs"
    and "d_bundles d = d_bundles d0" and "publish_tx v d qs bs = Some (d', g)"
    and "length (d_bundles d') \<le> 128" and "quiet v'"
  shows "vault_cipher v' d' l r = Inr a" "is_ok (lease_database v' d' l)"
proof -
  obtain k k0 where k: "Keyset v d l = Inr k" "k_phase k = ''ready''" "Keyset v d0 l = Inr k0" "k_phase k0 = ''ready''"
    using assms(1,2) by (auto simp: vault_cipher_def split: sum.splits if_splits)
  obtain bs0 i where t: "replace_bundles v bs (d_bundles d) = Some bs0" "d_inst d = Some i"
    "total_size (d_bundles d') \<le> max_total"
    "d' = d\<lparr>d_inst := Some (i\<lparr>in_generation := g\<rparr>), d_profiles := map row_of qs,
            d_bundles := drop_unreferenced (map row_of qs) bs0\<rparr>"
    using assms(5) by (rule publish_tx_Some)
  have "length (d_bundles d') \<le> length (d_bundles d) + length bs"
  proof -
    have "length (d_bundles d') \<le> length bs0" using t(4) by (simp add: drop_unreferenced_def)
    with replace_bundles_length [OF t(1)] show ?thesis by linarith
  qed
  moreover have "length (d_bundles d0) \<le> reserved d0"
    using k(3,4) Keyset_reserved [OF k(3)]
    by (auto simp: Keyset_def Let_def zero_keyset_def split: sum.splits option.splits if_splits)
  ultimately have count: "length (d_bundles d') \<le> reserved d" using assms(3,4) by simp
  obtain kr where kr: "d_keyset d = Some kr"
    using k(1,2) by (auto simp: Keyset_def zero_keyset_def split: sum.splits if_splits option.splits)
  have acc: "is_ok (lease_database v d l)" "k = cut_keyset kr" "keyset_accepted v l (d_bundles d) k"
    using k(1) Keyset_Some [OF kr] by blast+
  have "validateDatabase v d (le_identity l) = Inr ()"
    using acc(1) by (auto simp: lease_database_def is_ok_iff split: option.splits)
  then show lease: "is_ok (lease_database v' d' l)"
    using t(2,4) assms(7) by (auto simp: lease_database_def validateDatabase_def quiet_def split: if_splits)
  have "keyset_accepted v' l (d_bundles d') k"
    using acc(3) count k(2) Keyset_reserved [OF k(1)] t(3) assms(6,7) by (auto simp: keyset_accepted_def quiet_def)
  moreover have "d_keyset d' = Some kr" using t(4) kr by simp
  ultimately have "Keyset v' d' l = Inr k" using Keyset_Some lease acc(2) by blast
  then show "vault_cipher v' d' l r = Inr a" using assms(2) k(1) by (simp add: vault_cipher_def)
qed

lemma to_lower_Nil: "to_lower s = [] \<longleftrightarrow> s = []"
  by (simp add: to_lower_def)

lemma apply_leased_read_back:
  assumes law: "\<And>a n plain ad c. tk_encrypt (t_tink t) a n plain ad = Some c \<Longrightarrow> tk_decrypt (t_tink t) a c ad = Some plain"
    and p: "list_all good_profile p" "normalized p" "x \<in> set p" "length (p_id x) \<le> 37"
    and run: "apply_leased t w v l r m p d = ((out, e), d')" "o_saved out" "ProfileSnapshot v d l = Inr (previous, m_expected m)"
    and new: "new_secrets t v d l r m (old_profile previous (p_id x)) x = Inr (Some s)" "s \<noteq> no_secrets"
    and after: "quiet v'" "length (d_bundles d') \<le> 128"
  shows "\<exists>q. row_of q \<in> set (d_profiles d') \<and> p_id q = p_id x \<and> profile_credential t v' d' l r q = Inr s"
  using run(1)
proof (cases rule: apply_leased_cases)
  case (saved prev d1 p1 bs rv)
  have a: "apply_profiles t w v l r m previous 0 p d = (Inr (p1, bs), d1)" using saved(3,4) run(3) by simp
  obtain c b where b: "vault_cipher v d l r = Inr c" "b \<in> set bs" "b_conn b = p_id x"
    "encrypts t c (le_identity l) s b" "x\<lparr>p_cred := b_ref b\<rparr> \<in> set p1"
    using apply_profiles_secrets [OF a p(3) new] by blast
  have good: "list_all good_profile p1"
    unfolding list_all_iff
  proof
    fix y assume "y \<in> set p1"
    then obtain z ref where "z \<in> set p" "y = z\<lparr>p_cred := ref\<rparr>" "ref = p_cred z \<or> utf8_valid ref"
      using apply_profiles_sources [OF a] by blast
    then show "good_profile y" using p(1) good_profile_cred [of z ref] by (auto simp: list_all_iff)
  qed
  have conns: "distinct (map b_conn bs)"
    using p(2) apply_profiles_sources [OF a] by (simp add: normalized_def)
  show ?thesis
    using saved(6)
  proof (cases rule: Publish_cases)
    case (finished p2 digest d2 g current)
    let ?q = "with_limits (lower_ids (x\<lparr>p_cred := b_ref b\<rparr>))"
    have q: "?q \<in> set p2" "normalized p2" using DecodeProfiles_printed [OF good finished(2)] b(5) by auto
    have id: "p_id ?q = p_id x" using p(2,3) by (simp add: normalized_def list_all_iff profile_ok_def)
    have cred: "p_cred ?q \<noteq> []" using b(4) by (simp add: encrypts_def to_lower_Nil)
    have tx: "publish_tx v d1 p2 bs = Some (d', g)" "foreign_keys d'" using finished(5-7) by simp_all
    obtain rest where f: "b_ref b = p_cred ?q" "filter (\<lambda>y. b_ref y = p_cred ?q) (d_bundles d') = b # rest" "blob_ok b"
      using published_bundle [OF tx q(2,1) cred b(2) _ conns] b(3) id by metis
    have "reserved d1 = reserved d + length bs" using apply_profiles_reserved [OF a] by simp
    moreover have same: "d_bundles d1 = d_bundles d" using apply_profiles_contents [OF a] by (simp add: same_contents_def)
    moreover have "vault_cipher v d1 l r = Inr c" using apply_profiles_cipher [OF a] b(1) by simp
    ultimately have later: "vault_cipher v' d' l r = Inr c" "is_ok (lease_database v' d' l)"
      using publish_keeps_cipher [OF b(1)] tx(1) after by blast+
    have "Bundle v' d' l (p_cred ?q) = Inr b"
      using Bundle_found [OF after(1) later(2) f(2,3)] b(3) p(4) by simp
    moreover have "length (b_data b) \<le> max_blob" using f(3) by (simp add: blob_ok_def)
    moreover have "b_conn b = p_id ?q" using b(3) id by simp
    ultimately have "profile_credential t v' d' l r ?q = Inr s"
      by (intro credential_of_bundle [OF law cred _ _ f(1) _ later(1) b(4)])
    moreover have "row_of ?q \<in> set (d_profiles d')"
      using tx(1) q(1) by (auto elim!: publish_tx_Some)
    ultimately show ?thesis using id by blast
  qed simp_all
qed (use run(2) in \<open>simp_all add: no_outcome_def\<close>)

lemma patches_need_ok:
  "patches_need ps need l = Inr b \<Longrightarrow> (i, p) \<in> set l \<Longrightarrow> ValidUUID i \<and> is_ok (patch_apply p no_secrets)"
proof (induction ps need l rule: patches_need.induct)
  case (2 ps need j q rest)
  then show ?case by (auto simp: Let_def split: if_splits sum.splits)
qed simp

lemma ready_unlock:
  assumes "r_primitive r = Some a" and "Unlock t w create expected r d = (Inr (), r', d')"
  shows "r' = r" "d' = d"
  using assms by (auto simp: Unlock_def split: option.splits if_splits)

text \<open>
  C3.  Patching a connection of an unlocked vault does what the user asked: when the edit is
  reported saved, the stored profile of that connection yields exactly the old secrets with
  the patch's fields replaced, whoever reads them next.  The one assumption on Tink is that
  it decrypts what it encrypted under the same associated data.
\<close>

theorem patched_secrets_read_back:
  assumes "\<And>a n plain ad c. tk_encrypt (t_tink t) a n plain ad = Some c \<Longrightarrow> tk_decrypt (t_tink t) a c ad = Some plain"
    and "alone w" and "r_primitive r = Some a" and "w_lease w 3 = Inr ident"
    and "Apply t w m r d = ((out, e), r', d')" and "o_saved out"
    and "map_of (m_patches m) i = Some patch" and "patch \<noteq> []" and "distinct (map fst patch)"
    and "ProfileSnapshot (w_db w 3) d (mk_lease t True ident) = Inr (previous, m_expected m)"
    and "profile_credential t (w_db w 3) d (mk_lease t True ident) r (old_profile previous i) = Inr s"
    and "patched patch s \<noteq> no_secrets" and "quiet v" and "length (d_bundles d') \<le> 128"
  shows "\<exists>q. row_of q \<in> set (d_profiles d') \<and> p_id q = i \<and>
    profile_credential t v d' (mk_lease t True ident) r' q = Inr (patched patch s)"
  using assms(2,5)
proof (cases rule: Apply_cases)
  case (stopped e')
  with assms(6) show ?thesis by (simp add: no_outcome_def)
next
  case (leased p digest j d1)
  obtain needs where needs: "NeedsKey m = Inr needs" "r' = r" "d1 = d"
    using leased(5) ready_unlock [OF assms(3), of t w True "m_expected m" d r' d1] by (metis (full_types))
  have run: "apply_leased t w (w_db w 3) (mk_lease t True ident) r m p d = ((out, e), d')"
    using leased(3,4) assms(4) needs(2,3) by simp
  have patch: "ValidUUID i" "is_ok (patch_apply patch no_secrets)"
    using patches_need_ok needs(1) map_of_SomeD [OF assms(7)] unfolding NeedsKey_def by blast+
  then have "patch_apply patch s = Inr (patched patch s)"
    using assms(9) by (simp add: patch_apply_iff split: if_splits)
  then have new: "new_secrets t (w_db w 3) d (mk_lease t True ident) r m (old_profile previous i) x = Inr (Some (patched patch s))"
    if "p_id x = i" for x
    using that assms(7,8,11) by (cases patch) (simp_all add: new_secrets_def)
  from run obtain x where x: "x \<in> set p" "p_id x = i"
  proof (cases rule: apply_leased_cases)
    case (saved prev d2 p1 bs rv)
    have "i \<in> p_id ` set p1" using saved(5) map_of_SomeD [OF assms(7)] by (auto simp: all_known_def list_all_iff)
    then have "i \<in> set (map p_id p)" using apply_profiles_sources [OF saved(4)] by (metis list.set_map)
    then show thesis using that by auto
  qed (use assms(6) in \<open>simp_all add: no_outcome_def\<close>)
  have len: "length (p_id x) \<le> 37" using patch(1) x(2) by (simp add: ValidUUID_def)
  obtain v0 ps0 qs where dec: "normalize [] [] [] ps0 = Inr qs" "p = sort_key p_id qs"
    using leased(1) by (rule DecodeProfiles_cases)
  have norm: "normalized p" using normalize_sound [OF dec(1)] dec(2) by (simp add: normalized_sort)
  have n: "new_secrets t (w_db w 3) d (mk_lease t True ident) r m (old_profile previous (p_id x)) x = Inr (Some (patched patch s))"
    using new [OF x(2)] x(2) by simp
  show ?thesis
    using apply_leased_read_back [OF assms(1) DecodeProfiles_good [OF leased(1)] norm x(1) len run assms(6,10) n assms(12-14)]
      x(2) needs(2) by simp
qed

section \<open>An example\<close>

definition ex_uuid :: bytes where
  "ex_uuid = ''00000000-0000-4000-8000-000000000000''"

definition ex_profile :: profile where
  "ex_profile = example_profile\<lparr>p_id := ex_uuid, p_cred := []\<rparr>"

definition ex_stored :: profile where
  "ex_stored = example_profile\<lparr>p_id := ex_uuid, p_cred := ex_uuid\<rparr>"

definition ex_handle :: keyset_handle where
  "ex_handle =
     \<lparr>h_primary = 7,
      h_infos = [\<lparr>ki_enabled = True, ki_id = 7, ki_tink_prefix = True,
                  ki_type_url = ''type.googleapis.com/google.crypto.tink.AesGcmKey''\<rparr>],
      h_material = [\<lparr>km_symmetric = True, km_value = ''v''\<rparr>]\<rparr>"

definition ex_tools :: "unit tools" where
  "ex_tools =
     \<lparr>t_tink = \<lparr>tk_read = (\<lambda>_. Some ex_handle), tk_new = (\<lambda>_. Some ()),
                tk_aes_key = (\<lambda>_. Some (0, replicate 32 (CHR ''k''))),
                tk_encrypt = (\<lambda>_ _ plain _. Some plain), tk_decrypt = (\<lambda>_ c _. Some c),
                tk_sha = (\<lambda>_. replicate 32 (CHR 0xAA))\<rparr>,
      t_valid = (\<lambda>_. True), t_sha = id\<rparr>"

definition ex_fingerprint :: bytes where
  "ex_fingerprint = replicate 64 (CHR ''a'')"

definition ex_repo :: "unit repo" where
  "ex_repo = \<lparr>r_primitive = Some (), r_fingerprint = ex_fingerprint, r_closed = False, r_state = Ready\<rparr>"

definition ex_keyset :: "nat \<Rightarrow> keyset_row" where
  "ex_keyset n = \<lparr>k_account = ''k'', k_phase = ''ready'', k_fingerprint = ex_fingerprint, k_reserved = n\<rparr>"

abbreviation ex_identity :: identity where
  "ex_identity \<equiv> le_identity example_lease"

definition ex_world :: venv where
  "ex_world =
     \<lparr>w_gate = None, w_ctx = (\<lambda>_. None), w_lifecycle = None, w_lease = (\<lambda>_. Inr ex_identity),
      w_db = (\<lambda>_. calm), w_others = (\<lambda>_ d. d), w_load = (\<lambda>_. Inr ''k''), w_generate = None,
      w_create = (\<lambda>_ k. Inr k), w_delete = (\<lambda>_. Inr ()), w_point = (\<lambda>_. None), w_closed = False,
      w_random = (\<lambda>_. Some (replicate 16 (CHR 0x00))), w_nonce = id, w_host_key = None\<rparr>"

definition ex_patch :: patch where
  "ex_patch = [(''password'', ''s'')]"

definition ex_mutation :: mutation where
  "ex_mutation =
     \<lparr>m_expected = databaseRevision (marshal (profiles_json [])) 0, m_profiles = [ex_profile],
      m_patches = [(ex_uuid, ex_patch)], m_replacements = [], m_host_key = False\<rparr>"

definition ex_secrets :: secrets where
  "ex_secrets = no_secrets\<lparr>s_password := ''s''\<rparr>"

definition ex_bundle :: ciphertext where
  "ex_bundle = \<lparr>b_ref = ex_uuid, b_conn = ex_uuid, b_version = 1, b_data = marshal (bundle_json ex_secrets)\<rparr>"

definition ex_before :: "nat \<Rightarrow> db" where
  "ex_before n = (new_db ex_identity)\<lparr>d_keyset := Some (ex_keyset n)\<rparr>"

definition ex_after :: db where
  "ex_after =
     \<lparr>d_inst = Some \<lparr>in_version = 1, in_id = ''i'', in_root = ''r'', in_generation = 1\<rparr>,
      d_profiles = [row_of ex_stored], d_bundles = [ex_bundle], d_keyset = Some (ex_keyset 1)\<rparr>"

lemma ex_lease: "mk_lease ex_tools True ex_identity = example_lease"
  by (simp add: mk_lease_def ex_tools_def example_lease_def)

lemma ex_utf8: "utf8_valid ex_uuid" "utf8_valid ''s''"
  unfolding ex_uuid_def by (rule utf8_valid_ascii, simp)+

lemma ex_good: "good_profile ex_profile" "good_profile ex_stored"
  using good_profile_cred [of ex_profile ex_uuid] example_good(1) ex_utf8(1)
  by (auto simp: good_profile_def ex_profile_def ex_stored_def encodable_def profile_text_def example_profile_def)

lemma ex_normalize: "normalize [] [] [] [ex_profile] = Inr [ex_profile]" "normalize [] [] [] [ex_stored] = Inr [ex_stored]"
  by code_simp+

lemma ex_size:
  "length (marshal (profiles_json [ex_profile])) \<le> MaxProfileBytes"
  "length (marshal (profiles_json [ex_stored])) \<le> MaxProfileBytes"
  "length (marshal (profile_json ex_stored)) \<le> MaxProfileBytes"
  by (rule order_trans [OF length_marshal],
      simp add: profiles_json_def profile_json_def connection_json_def transport_json_def tls_json_def limits_json_def
        opt_member_def omitempty_def jint_def ex_profile_def ex_stored_def example_profile_def ex_uuid_def
        MaxProfileBytes_def show_int_def show_nat.simps)+

lemma ex_decodes:
  "DecodeProfiles (\<lambda>_. True) id (marshal (profiles_json [ex_profile])) = Inr ([ex_profile], marshal (profiles_json [ex_profile]))"
  "DecodeProfiles (\<lambda>_. True) id (marshal (profiles_json [ex_stored])) = Inr ([ex_stored], marshal (profiles_json [ex_stored]))"
  using DecodeProfiles_written [of "[ex_profile]" "\<lambda>_. True" id] DecodeProfiles_written [of "[ex_stored]" "\<lambda>_. True" id]
    ex_good ex_size ex_normalize
  by (simp_all add: profiles_revision_def del: normalize.simps)

lemma ex_uuid_valid: "ValidUUID ex_uuid"
  by (simp add: ValidUUID_def uuid_hex_def ex_uuid_def is_digit_def in_range_def)

lemma ex_new_id: "NewID (Some (replicate 16 (CHR 0x00))) = Inr ex_uuid"
proof -
  let ?z = "CHR 0x00"
  have r: "replicate 16 ?z = [?z, ?z, ?z, ?z, ?z, ?z, ?z, ?z, ?z, ?z, ?z, ?z, ?z, ?z, ?z, ?z]"
    by (simp add: eval_nat_numeral)
  have u: "[?z, ?z, ?z, ?z, ?z, ?z, ?z, ?z, ?z, ?z, ?z, ?z, ?z, ?z, ?z, ?z][6 := a, 8 := b] =
      [?z, ?z, ?z, ?z, ?z, ?z, a, ?z, b, ?z, ?z, ?z, ?z, ?z, ?z, ?z]" for a b
    by (simp add: eval_nat_numeral)
  have h: "hex_digit 0 = CHR ''0''" "hex_digit 4 = CHR ''4''" "hex_digit 8 = CHR ''8''"
    by code_simp+
  show ?thesis
    unfolding NewID_def r by (simp add: u Let_def hex_text_def h of_char_of ex_uuid_def)
qed

lemma ex_patch_apply: "patch_apply ex_patch no_secrets = Inr ex_secrets" "patched ex_patch no_secrets = ex_secrets"
  "secrets_valid ex_secrets" "ex_secrets \<noteq> no_secrets"
  using ex_utf8(2)
  by (simp_all add: ex_patch_def set_secret_def MaxSecretBytes_def ex_secrets_def patched_def no_secrets_def
      secrets_valid_def secret_ok_def utf8_valid_ascii del: utf8_valid.simps)

lemma ex_database:
  "lease_database calm (ex_before n) example_lease = Inr ()"
  "Keyset calm (ex_before n) example_lease = Inr (ex_keyset n)" if "n \<le> 1" for n
proof -
  show l: "lease_database calm (ex_before n) example_lease = Inr ()"
    by (simp add: lease_database_def calm_def validateDatabase_def ex_before_def new_db_def example_lease_def)
  have "fingerprint_ok ex_fingerprint" unfolding fingerprint_ok_def ex_fingerprint_def by code_simp
  moreover have "length ex_fingerprint = 64" by (simp add: ex_fingerprint_def)
  ultimately have "keyset_accepted calm example_lease [] (ex_keyset n)" "cut_keyset (ex_keyset n) = ex_keyset n"
    using that by (simp_all add: keyset_accepted_def cut_keyset_def ex_keyset_def example_lease_def total_size_def max_reserved_def)
  then show "Keyset calm (ex_before n) example_lease = Inr (ex_keyset n)"
    using Keyset_Some [of "ex_before n" "ex_keyset n" calm example_lease "ex_keyset n"] l
    by (simp add: ex_before_def new_db_def)
qed

lemma ex_snapshot:
  "ProfileSnapshot calm (ex_before 0) example_lease = Inr ([], databaseRevision (marshal (profiles_json [])) 0)"
  "ProfileSnapshot calm (ex_before 1) example_lease = Inr ([], databaseRevision (marshal (profiles_json [])) 0)"
proof -
  have "same_contents (new_db ex_identity) (ex_before n)" for n by (simp add: ex_before_def same_contents_def)
  from Snapshot_contents [OF this] empty_snapshot
  show "ProfileSnapshot calm (ex_before 0) example_lease = Inr ([], databaseRevision (marshal (profiles_json [])) 0)"
    "ProfileSnapshot calm (ex_before 1) example_lease = Inr ([], databaseRevision (marshal (profiles_json [])) 0)"
    by simp_all
qed

lemma ex_cipher: "n \<le> 1 \<Longrightarrow> vault_cipher calm (ex_before n) example_lease ex_repo = Inr ()"
  using ex_database(2) [of n] by (simp add: vault_cipher_def ex_keyset_def ex_repo_def)

lemma ex_save:
  "SaveKeyset calm (ex_before 0) example_lease (ex_keyset 0\<lparr>k_reserved := k_reserved (ex_keyset 0) + 1\<rparr>) = (Inr (), ex_before 1)"
proof -
  have "ex_keyset 0\<lparr>k_reserved := k_reserved (ex_keyset 0) + 1\<rparr> = ex_keyset 1" by (simp add: ex_keyset_def)
  then show ?thesis
    using ex_database(1) [of 0]
    by (simp add: SaveKeyset_def) (simp add: ex_keyset_def example_lease_def ex_before_def max_reserved_def)
qed

lemma ex_encrypt:
  "encrypt_secrets ex_tools ex_world calm example_lease ex_repo 0 ex_profile ex_secrets (ex_before 0) =
     (Inr (ex_stored, ex_bundle), ex_before 1)"
proof -
  have "ex_profile\<lparr>p_cred := ex_uuid\<rparr> = ex_stored" "p_id ex_profile = ex_uuid"
    by (simp_all add: ex_profile_def ex_stored_def)
  moreover have "length (marshal (bundle_json ex_secrets)) \<le> MaxPlaintextBytes"
    using ex_patch_apply(3) by (rule length_bundle)
  ultimately show ?thesis
    using ex_cipher [of 0] ex_database(2) [of 0] ex_save ex_new_id
    by (simp add: encrypt_secrets_def ex_world_def) (simp add: ex_tools_def ex_bundle_def ex_keyset_def MaxReservations_def)
qed

lemma ex_new_secrets:
  "new_secrets ex_tools calm (ex_before 0) example_lease ex_repo ex_mutation (old_profile [] ex_uuid) ex_profile = Inr (Some ex_secrets)"
proof -
  have "profile_credential ex_tools calm (ex_before 0) example_lease ex_repo (old_profile [] ex_uuid) = Inr no_secrets"
    by (simp add: profile_credential_def old_profile_def zero_profile_def)
  then show ?thesis
    using ex_patch_apply(1) by (simp add: new_secrets_def ex_mutation_def ex_profile_def ex_patch_def)
qed

lemma ex_apply_profiles:
  "apply_profiles ex_tools ex_world calm example_lease ex_repo ex_mutation [] 0 [ex_profile] (ex_before 0) =
     (Inr ([ex_stored], [ex_bundle]), ex_before 1)"
proof -
  have "p_id ex_profile = ex_uuid" "p_cred ex_profile = []" "p_cred (old_profile [] ex_uuid) = []"
    by (simp_all add: ex_profile_def old_profile_def zero_profile_def)
  then have "apply_profile ex_tools ex_world calm example_lease ex_repo ex_mutation [] 0 ex_profile (ex_before 0) =
      (Inr (ex_stored, [ex_bundle]), ex_before 1)"
    using ex_new_secrets ex_encrypt ex_patch_apply(3,4) by (simp add: apply_profile_def)
  then show ?thesis by simp
qed

lemma ex_publish_tx: "publish_tx calm (ex_before 1) [ex_stored] [ex_bundle] = Some (ex_after, 1)"
proof -
  have "insert_profiles calm [ex_stored] [] = Some [row_of ex_stored]"
    using ex_size(3) by (simp add: insert_profile_def)
  moreover have "marshal (bundle_json ex_secrets) \<noteq> []"
    by (simp add: bundle_json_def marshal_def)
  then have "blob_ok ex_bundle"
    using length_bundle [OF ex_patch_apply(3)] by (simp add: blob_ok_def ex_bundle_def MaxPlaintextBytes_def max_blob_def)
  then have "replace_bundles calm [ex_bundle] [] = Some [ex_bundle]" by (simp add: insert_bundle_def)
  moreover have "drop_unreferenced [row_of ex_stored] [ex_bundle] = [ex_bundle]"
    by (simp add: drop_unreferenced_def row_of_def ex_bundle_def ex_stored_def ex_uuid_def)
  moreover have "total_size [ex_bundle] \<le> max_total"
    using length_bundle [OF ex_patch_apply(3)] by (simp add: total_size_def ex_bundle_def MaxPlaintextBytes_def max_total_def)
  ultimately show ?thesis
    by (simp add: publish_tx_def ex_before_def new_db_def ex_after_def max_generation_def example_lease_def)
qed

lemma ex_publish:
  "Publish calm (ex_before 1) example_lease [ex_stored] (databaseRevision (marshal (profiles_json [])) 0) [ex_bundle] =
     (Inr (databaseRevision (marshal (profiles_json [ex_stored])) 1), ex_after)"
proof (rule Publish_succeeds [OF _ _ ex_snapshot(2) ex_publish_tx])
  show "foreign_keys ex_after"
    by (simp add: foreign_keys_def ex_after_def ex_bundle_def row_of_def ex_stored_def ex_uuid_def)
qed (use ex_decodes(2) in \<open>simp_all add: example_lease_def\<close>)

lemma ex_apply:
  "Apply ex_tools ex_world ex_mutation ex_repo (ex_before 0) =
     ((\<lparr>o_revision = databaseRevision (marshal (profiles_json [ex_stored])) 1, o_saved = True, o_uncertain = False\<rparr>, None),
      ex_repo, ex_after)"
proof -
  have ids: "p_id ex_profile = ex_uuid" "p_cred ex_profile = []" "p_id ex_stored = ex_uuid"
    by (simp_all add: ex_profile_def ex_stored_def)
  have m: "m_profiles ex_mutation = [ex_profile]" "m_expected ex_mutation = databaseRevision (marshal (profiles_json [])) 0"
    "m_patches ex_mutation = [(ex_uuid, ex_patch)]" "m_replacements ex_mutation = []" "\<not> m_host_key ex_mutation"
    by (simp_all add: ex_mutation_def)
  have w: "w_ctx ex_world = (\<lambda>_. None)" "w_point ex_world = (\<lambda>_. None)" "w_db ex_world n = calm"
    "w_others ex_world n d = d" "w_lease ex_world n = Inr ex_identity" "w_gate ex_world = None" for n d
    by (simp_all add: ex_world_def)
  have tools: "t_valid ex_tools = (\<lambda>_. True)" "t_sha ex_tools = id" by (simp_all add: ex_tools_def)
  have needs: "NeedsKey ex_mutation = Inr True"
    using ids ex_uuid_valid ex_patch_apply(1,4) by (simp add: NeedsKey_def m)
  have unlock: "Unlock ex_tools ex_world True x ex_repo d = (Inr (), ex_repo, d)" for x d
    by (simp add: Unlock_def w) (simp add: ex_repo_def)
  have known: "all_known [ex_stored] ex_mutation" by (simp add: all_known_def m ids)
  have "apply_leased ex_tools ex_world calm example_lease ex_repo ex_mutation [ex_profile] (ex_before 0) =
      ((no_outcome\<lparr>o_revision := databaseRevision (marshal (profiles_json [ex_stored])) 1, o_saved := True\<rparr>, None), ex_after)"
    unfolding apply_leased_def ex_snapshot(1) by (simp add: m ex_apply_profiles known w ex_publish [unfolded One_nat_def] del: apply_profiles.simps)
  then show ?thesis
    unfolding Apply_def by (simp add: m tools ex_decodes needs unlock w ex_lease no_outcome_def)
qed

theorem patched_secrets_read_back_witness:
  "\<exists>q. row_of q \<in> set (d_profiles ex_after) \<and> p_id q = ex_uuid \<and>
    profile_credential ex_tools calm ex_after example_lease ex_repo q = Inr ex_secrets"
proof -
  have "profile_credential ex_tools calm (ex_before 0) example_lease ex_repo (old_profile [] ex_uuid) = Inr no_secrets"
    by (simp add: profile_credential_def old_profile_def zero_profile_def)
  moreover have "ProfileSnapshot calm (ex_before 0) example_lease = Inr ([], m_expected ex_mutation)"
    using ex_snapshot(1) by (simp add: ex_mutation_def)
  ultimately show ?thesis
    using patched_secrets_read_back [OF _ _ _ _ ex_apply, of "()" ex_identity ex_uuid ex_patch "[]" no_secrets calm]
      ex_patch_apply(2,4)
    by (simp add: ex_lease alone_def ex_world_def ex_mutation_def ex_patch_def ex_after_def)
      (simp add: ex_tools_def ex_repo_def)
qed

text \<open>The same vault, unlocked from its initial state.\<close>

lemma ex_unlock: "Unlock ex_tools ex_world False [] New (ex_before 0) = (Inr (), ex_repo, ex_before 0)"
proof -
  have "length (replicate 32 (CHR ''k'')) = 32" by (rule length_replicate)
  then have parse: "parseKeyset (t_tink ex_tools) ''k'' = Inr ()"
    by (simp add: parseKeyset_def ex_tools_def ex_handle_def aes256_def MaxKeysetBytes_def)
  have print: "key_fingerprint (t_tink ex_tools) ''k'' = ex_fingerprint"
  proof -
    have "hex_text [CHR 0xAA] = ''aa''" by code_simp
    then have "hex_text (replicate n (CHR 0xAA)) = concat (replicate n ''aa'')" for n
      by (induction n) (simp_all add: hex_text_def)
    moreover have "concat (replicate 32 ''aa'') = replicate 64 (CHR ''a'')" by (simp add: eval_nat_numeral)
    ultimately show ?thesis by (simp add: key_fingerprint_def ex_tools_def ex_fingerprint_def)
  qed
  have w: "w_ctx ex_world n = None" "w_db ex_world n = calm" "w_others ex_world n d = d"
    "w_lease ex_world n = Inr ex_identity" "w_gate ex_world = None" "w_load ex_world a = Inr ''k''" "\<not> w_closed ex_world"
    for n d a by (simp_all add: ex_world_def)
  have k: "k_phase (ex_keyset 0) = ''ready''" "k_fingerprint (ex_keyset 0) = ex_fingerprint"
    by (simp_all add: ex_keyset_def)
  have l: "Keyset calm (ex_before 0) (mk_lease ex_tools False ex_identity) = Inr (ex_keyset 0)"
    "is_ok (ProfileSnapshot calm (ex_before 0) (mk_lease ex_tools False ex_identity))"
  proof -
    have u: "le_identity (l\<lparr>le_write := b\<rparr>) = le_identity l" "le_valid (l\<lparr>le_write := b\<rparr>) = le_valid l"
      "le_sha (l\<lparr>le_write := b\<rparr>) = le_sha l" for l b by simp_all
    have "Keyset calm (ex_before 0) (l\<lparr>le_write := b\<rparr>) = Keyset calm (ex_before 0) l"
      "ProfileSnapshot calm (ex_before 0) (l\<lparr>le_write := b\<rparr>) = ProfileSnapshot calm (ex_before 0) l" for l b
      unfolding Keyset_def ProfileSnapshot_def lease_database_def u by (rule refl)+
    moreover have "mk_lease ex_tools False ex_identity = example_lease\<lparr>le_write := False\<rparr>"
      using ex_lease by (simp add: mk_lease_def example_lease_def ex_tools_def)
    ultimately show "Keyset calm (ex_before 0) (mk_lease ex_tools False ex_identity) = Inr (ex_keyset 0)"
      "is_ok (ProfileSnapshot calm (ex_before 0) (mk_lease ex_tools False ex_identity))"
      using ex_database(2) [of 0] ex_snapshot(1) by simp_all
  qed
  have "obtain_keyset ex_tools ex_world False ex_identity [] (ex_keyset 0) New (ex_before 0) = (Inr (), ex_repo, ex_before 0)"
    by (simp add: obtain_keyset_def finish_unlock_def k w providerCall_def print parse) (simp add: New_def ex_repo_def)
  moreover have "\<not> r_closed (New :: unit repo)" "r_primitive (New :: unit repo) = None" by (simp_all add: New_def)
  ultimately show ?thesis
    using l by (auto simp: Unlock_def w k is_ok_iff stale_def note_failure_def)
qed

theorem vault_invariant_witness:
  "r_primitive ex_repo = Some () \<and> r_state ex_repo = Ready \<and> \<not> r_closed ex_repo"
proof -
  have "vault_step ex_tools New ex_repo" using ex_unlock by (rule vault_step.unlock)
  then have "vault_reachable ex_tools ex_repo" by (rule vault_reachable.stepped [OF vault_reachable.created])
  from vault_invariant [OF this] show ?thesis by (simp add: ex_repo_def)
qed

lemma ex_alone: "alone ex_world"
  by (simp add: alone_def ex_world_def)


theorem Apply_outcome_witness:
  "db_generation ex_after = Suc (db_generation (ex_before 0)) \<and>
   revision_names (databaseRevision (marshal (profiles_json [ex_stored])) 1) (db_generation ex_after)"
  using Apply_outcome [OF ex_alone ex_apply] unfolding outcome.simps if_True by blast

theorem encryptions_reserved_witness:
  "card (set (d_bundles ex_after)) \<le> reserved ex_after \<and> reserved ex_after = 1"
  using encryptions_reserved [OF ex_alone ex_apply]
  by (simp add: ex_before_def new_db_def reserved_def ex_keyset_def ex_after_def)

end
