(* ===== verification/Locks.thy ===== *)
theory Locks
  imports Prelude
begin

text \<open>
  The process-local reader/writer queue of config/locks.go as a step relation on its threads,
  and the order in which a lease takes and gives back its locks.  A step is one critical
  section of the queue's mutex.  The channel \<open>changed\<close> that \<open>signal\<close> closes and replaces is its
  generation: a sleeper remembers the generation it waits for and may run again once it has
  been replaced, or once its context is done.
\<close>

section \<open>The queue\<close>

record rw_queue =
  q_readers :: nat
  q_writer :: bool
  q_waiting :: nat
  q_changed :: nat

datatype phase = Outside | Sleeping bool nat | Holding bool | Refused bool

definition empty_queue :: rw_queue where
  "empty_queue = \<lparr>q_readers = 0, q_writer = False, q_waiting = 0, q_changed = 0\<rparr>"

definition signal :: "rw_queue \<Rightarrow> rw_queue" where
  "signal q = q\<lparr>q_changed := Suc (q_changed q)\<rparr>"

definition may_enter :: "bool \<Rightarrow> rw_queue \<Rightarrow> bool" where
  "may_enter wr q \<longleftrightarrow>
     \<not> q_writer q \<and> ((wr \<and> q_readers q = 0) \<or> (\<not> wr \<and> q_waiting q = 0))"

text \<open>One round of the loop of \<open>acquire\<close>: refused, granted, or asleep on the current channel.\<close>

definition attempt :: "bool \<Rightarrow> bool \<Rightarrow> rw_queue \<Rightarrow> phase \<times> rw_queue" where
  "attempt cancelled wr q =
     (if cancelled then
        (Refused wr, if wr then signal (q\<lparr>q_waiting := q_waiting q - 1\<rparr>) else q)
      else if may_enter wr q then
        (Holding wr,
         if wr then q\<lparr>q_waiting := q_waiting q - 1, q_writer := True\<rparr>
         else q\<lparr>q_readers := q_readers q + 1\<rparr>)
      else (Sleeping wr (q_changed q), q))"

definition acquire_queue :: "bool \<Rightarrow> bool \<Rightarrow> rw_queue \<Rightarrow> phase \<times> rw_queue" where
  "acquire_queue cancelled wr q =
     attempt cancelled wr (if wr then q\<lparr>q_waiting := q_waiting q + 1\<rparr> else q)"

definition release_queue :: "bool \<Rightarrow> rw_queue \<Rightarrow> rw_queue" where
  "release_queue wr q =
     signal (if wr then q\<lparr>q_writer := False\<rparr> else q\<lparr>q_readers := q_readers q - 1\<rparr>)"

text \<open>The threads are a list of phases; any thread may take the next step.\<close>

type_synonym queue_state = "phase list \<times> rw_queue"

inductive queue_step :: "queue_state \<Rightarrow> queue_state \<Rightarrow> bool" where
  enter: "t < length ps \<Longrightarrow> ps ! t \<in> {Outside, Refused True, Refused False} \<Longrightarrow> acquire_queue cancelled wr q = (p, q') \<Longrightarrow>
     queue_step (ps, q) (ps[t := p], q')"
| wake: "t < length ps \<Longrightarrow> ps ! t = Sleeping wr g \<Longrightarrow> cancelled \<or> q_changed q \<noteq> g \<Longrightarrow>
     attempt cancelled wr q = (p, q') \<Longrightarrow> queue_step (ps, q) (ps[t := p], q')"
| leave: "t < length ps \<Longrightarrow> ps ! t = Holding wr \<Longrightarrow>
     queue_step (ps, q) (ps[t := Outside], release_queue wr q)"

inductive_cases queue_stepE: "queue_step s s'"

inductive queue_reachable :: "queue_state \<Rightarrow> bool" where
  start: "queue_reachable (replicate n Outside, empty_queue)"
| step: "queue_reachable s \<Longrightarrow> queue_step s s' \<Longrightarrow> queue_reachable s'"

subsection \<open>The invariant\<close>

definition holders :: "bool \<Rightarrow> phase list \<Rightarrow> nat" where
  "holders wr ps = length (filter (\<lambda>p. p = Holding wr) ps)"

fun waits_to_write :: "phase \<Rightarrow> bool" where
  "waits_to_write (Sleeping w _) = w"
| "waits_to_write _ = False"

definition writers_waiting :: "phase list \<Rightarrow> nat" where
  "writers_waiting ps = length (filter waits_to_write ps)"

text \<open>A sleeper that nothing has woken could not enter: no wakeup is lost.\<close>

fun not_forgotten :: "rw_queue \<Rightarrow> phase \<Rightarrow> bool" where
  "not_forgotten q (Sleeping w g) = (g \<le> q_changed q \<and> (g = q_changed q \<longrightarrow> \<not> may_enter w q))"
| "not_forgotten q _ = True"

definition queue_ok :: "queue_state \<Rightarrow> bool" where
  "queue_ok s \<longleftrightarrow>
     (case s of (ps, q) \<Rightarrow>
        q_readers q = holders False ps \<and> (if q_writer q then 1 else 0) = holders True ps \<and>
        q_waiting q = writers_waiting ps \<and> (q_writer q \<longrightarrow> q_readers q = 0) \<and>
        list_all (not_forgotten q) ps)"

lemma filter_length_update:
  "t < length ps \<Longrightarrow>
     length (filter P (ps[t := p])) + (if P (ps ! t) then 1 else 0) = length (filter P ps) + (if P p then 1 else 0)"
proof (induction ps arbitrary: t)
  case (Cons x ps)
  then show ?case by (cases t) auto
qed simp

lemma holders_update:
  "t < length ps \<Longrightarrow>
     holders w (ps[t := p]) + (if ps ! t = Holding w then 1 else 0) = holders w ps + (if p = Holding w then 1 else 0)"
  unfolding holders_def using filter_length_update [of t ps "\<lambda>p. p = Holding w" p] by simp

lemma waiting_update:
  "t < length ps \<Longrightarrow>
     writers_waiting (ps[t := p]) + (if waits_to_write (ps ! t) then 1 else 0) =
     writers_waiting ps + (if waits_to_write p then 1 else 0)"
  unfolding writers_waiting_def by (rule filter_length_update)

lemma not_forgotten_update:
  "list_all (not_forgotten q) ps \<Longrightarrow> not_forgotten q p \<Longrightarrow> list_all (not_forgotten q) (ps[t := p])"
  by (induction ps arbitrary: t) (auto split: nat.splits)

lemma not_forgotten_mono:
  assumes "list_all (not_forgotten q) ps"
    and "q_changed q < q_changed q' \<or> (q_changed q = q_changed q' \<and> (\<forall>w. may_enter w q' \<longrightarrow> may_enter w q))"
  shows "list_all (not_forgotten q') ps"
  using assms(1) unfolding list_all_iff
proof (intro ballI)
  fix p assume "\<forall>p \<in> set ps. not_forgotten q p" "p \<in> set ps"
  then have "not_forgotten q p" by blast
  with assms(2) show "not_forgotten q' p" by (cases p) auto
qed

lemma holder_exists: "t < length ps \<Longrightarrow> ps ! t = Holding w \<Longrightarrow> 0 < holders w ps"
  using nth_mem [of t ps] unfolding holders_def by (auto simp: filter_empty_conv)

lemma waiter_exists: "t < length ps \<Longrightarrow> waits_to_write (ps ! t) \<Longrightarrow> 0 < writers_waiting ps"
  using nth_mem [of t ps] unfolding writers_waiting_def by (auto simp: filter_empty_conv)

lemma attempt_ok:
  assumes t: "t < length ps" "\<And>w. ps ! t \<noteq> Holding w"
    and counts: "q_readers q = holders False ps" "(if q_writer q then 1 else 0) = holders True ps"
      "q_waiting q + (if waits_to_write (ps ! t) then 1 else 0) = writers_waiting ps + (if wr then 1 else 0)"
      "q_writer q \<longrightarrow> q_readers q = 0"
    and others: "list_all (not_forgotten q) (ps[t := Outside])"
    and step: "attempt cancelled wr q = (p, q')"
  shows "queue_ok (ps[t := p], q')"
proof -
  have "ps[t := p] = (ps[t := Outside])[t := p]" by simp
  then have nf: "list_all (not_forgotten q') (ps[t := p])"
    if "not_forgotten q' p" "q_changed q < q_changed q' \<or> (q_changed q = q_changed q' \<and> (\<forall>w. may_enter w q' \<longrightarrow> may_enter w q))"
    using not_forgotten_update [OF not_forgotten_mono [OF others that(2)] that(1), of t] by simp
  have w: "q_waiting q \<ge> 1" if wr
    using counts(3) that waiter_exists [OF t(1)] by (cases "waits_to_write (ps ! t)") auto
  note h = holders_update [OF t(1), of _ p] and wu = waiting_update [OF t(1), of p]
  consider (refused) "cancelled" | (granted) "\<not> cancelled" "may_enter wr q" | (asleep) "\<not> cancelled" "\<not> may_enter wr q"
    by blast
  then show ?thesis
  proof cases
    case refused
    then have p: "p = Refused wr" "q' = (if wr then signal (q\<lparr>q_waiting := q_waiting q - 1\<rparr>) else q)"
      using step by (simp_all add: attempt_def)
    have "list_all (not_forgotten q') (ps[t := p])" by (rule nf) (auto simp: p signal_def)
    moreover have "q_waiting q' = writers_waiting (ps[t := p])"
      using wu counts(3) w p by (auto simp: signal_def split: if_splits)
    moreover have "q_readers q' = holders False (ps[t := p])" "(if q_writer q' then 1 else 0) = holders True (ps[t := p])"
      using h [of False] h [of True] counts(1,2) t(2) p by (auto simp: signal_def)
    moreover have "q_writer q' \<longrightarrow> q_readers q' = 0" using counts(4) p by (auto simp: signal_def)
    ultimately show ?thesis by (simp add: queue_ok_def)
  next
    case granted
    then have p: "p = Holding wr" "q' = (if wr then q\<lparr>q_waiting := q_waiting q - 1, q_writer := True\<rparr>
         else q\<lparr>q_readers := q_readers q + 1\<rparr>)"
      using step by (simp_all add: attempt_def)
    have enter: "\<not> q_writer q" "wr \<longrightarrow> q_readers q = 0" using granted(2) by (auto simp: may_enter_def)
    have "list_all (not_forgotten q') (ps[t := p])" by (rule nf) (auto simp: p may_enter_def)
    moreover have "q_waiting q' = writers_waiting (ps[t := p])"
      using wu counts(3) w p by (auto split: if_splits)
    moreover have "q_readers q' = holders False (ps[t := p])" "(if q_writer q' then 1 else 0) = holders True (ps[t := p])"
      using h [of False] h [of True] counts(1,2) t(2) p enter by auto
    moreover have "q_writer q' \<longrightarrow> q_readers q' = 0" using p enter by auto
    ultimately show ?thesis by (simp add: queue_ok_def)
  next
    case asleep
    then have p: "p = Sleeping wr (q_changed q)" "q' = q" using step by (auto simp: attempt_def)
    have "list_all (not_forgotten q') (ps[t := p])" by (rule nf) (use asleep(2) in \<open>auto simp: p\<close>)
    moreover have "q_waiting q' = writers_waiting (ps[t := p])" using wu counts(3) p by (auto split: if_splits)
    moreover have "q_readers q' = holders False (ps[t := p])" "(if q_writer q' then 1 else 0) = holders True (ps[t := p])"
      using h [of False] h [of True] counts(1,2) t(2) p by auto
    ultimately show ?thesis using counts(4) p by (simp add: queue_ok_def)
  qed
qed

lemma queue_step_ok: "queue_step s s' \<Longrightarrow> queue_ok s \<Longrightarrow> queue_ok s'"
proof (induction rule: queue_step.induct)
  case (enter t ps cancelled wr q p q')
  let ?q = "if wr then q\<lparr>q_waiting := q_waiting q + 1\<rparr> else q"
  have "list_all (not_forgotten ?q) ps"
  proof (rule not_forgotten_mono)
    show "list_all (not_forgotten q) ps" using enter.prems by (simp add: queue_ok_def)
    have "q_changed q = q_changed ?q" "\<forall>w. may_enter w ?q \<longrightarrow> may_enter w q"
      by (cases wr; simp add: may_enter_def)+
    then show "q_changed q < q_changed ?q \<or> (q_changed q = q_changed ?q \<and> (\<forall>w. may_enter w ?q \<longrightarrow> may_enter w q))"
      by blast
  qed
  then have "list_all (not_forgotten ?q) (ps[t := Outside])" by (rule not_forgotten_update) simp
  then show ?case
    using enter by (intro attempt_ok [of t ps ?q _ cancelled])
      (auto simp: queue_ok_def acquire_queue_def)
next
  case (wake t ps wr g cancelled q p q')
  have "list_all (not_forgotten q) (ps[t := Outside])"
    using wake.prems by (intro not_forgotten_update) (auto simp: queue_ok_def)
  then show ?case
    using wake by (intro attempt_ok [of t ps q _ cancelled])
      (auto simp: queue_ok_def)
next
  case (leave t ps wr q)
  have h: "0 < holders wr ps" using leave(1,2) by (rule holder_exists)
  have "list_all (not_forgotten (release_queue wr q)) ps"
  proof (rule not_forgotten_mono)
    show "list_all (not_forgotten q) ps" using leave.prems by (simp add: queue_ok_def)
    show "q_changed q < q_changed (release_queue wr q) \<or>
        (q_changed q = q_changed (release_queue wr q) \<and> (\<forall>w. may_enter w (release_queue wr q) \<longrightarrow> may_enter w q))"
      by (simp add: release_queue_def signal_def)
  qed
  then have nf: "list_all (not_forgotten (release_queue wr q)) (ps[t := Outside])" by (rule not_forgotten_update) simp
  have c: "q_readers q = holders False ps" "(if q_writer q then 1 else 0) = holders True ps"
    "q_waiting q = writers_waiting ps" "q_writer q \<longrightarrow> q_readers q = 0"
    using leave.prems unfolding queue_ok_def prod.case by blast+
  have u: "holders True (ps[t := Outside]) + (if wr then 1 else 0) = holders True ps"
    "holders False (ps[t := Outside]) + (if wr then 0 else 1) = holders False ps"
    "writers_waiting (ps[t := Outside]) = writers_waiting ps"
    using holders_update [OF leave(1), of True Outside] holders_update [OF leave(1), of False Outside]
      waiting_update [OF leave(1), of Outside] leave(2) by (cases wr; simp)+
  show ?case
  proof (cases wr)
    case True
    with c(2) u(1) have "q_writer q" by (cases "q_writer q") simp_all
    with True c u nf show ?thesis by (simp add: queue_ok_def release_queue_def signal_def)
  next
    case False
    with h c have "\<not> q_writer q" by auto
    with False c u nf show ?thesis by (simp add: queue_ok_def release_queue_def signal_def)
  qed
qed

lemma queue_reachable_ok: "queue_reachable s \<Longrightarrow> queue_ok s"
proof (induction rule: queue_reachable.induct)
  case (start n)
  show ?case by (simp add: queue_ok_def empty_queue_def holders_def writers_waiting_def list_all_iff)
next
  case (step s s')
  then show ?case by (blast intro: queue_step_ok)
qed

lemma may_enter_free:
  assumes "queue_ok (ps, q)" and "holders True ps = 0" and "holders False ps = 0"
  shows "may_enter wr q \<longleftrightarrow> wr \<or> writers_waiting ps = 0"
  using assms by (auto simp: queue_ok_def may_enter_def split: if_splits)

lemma sleeping_writer:
  assumes "0 < writers_waiting ps"
  obtains t g where "t < length ps" "ps ! t = Sleeping True g"
proof -
  from assms obtain p where "p \<in> set ps" "waits_to_write p"
    unfolding writers_waiting_def by (auto simp: filter_empty_conv)
  then obtain t where "t < length ps" "ps ! t = p" by (auto simp: in_set_conv_nth)
  moreover obtain g where "p = Sleeping True g" using \<open>waits_to_write p\<close> by (cases p) auto
  ultimately show thesis using that by simp
qed

lemma no_holders: "(\<And>t w. t < length ps \<Longrightarrow> ps ! t \<noteq> Holding w) \<Longrightarrow> holders w ps = 0"
  by (auto simp: holders_def filter_empty_conv in_set_conv_nth)

lemma writer_alone:
  assumes "queue_ok (ps, q)" and "t < length ps" and "u < length ps" and "ps ! t = Holding True" and "ps ! u = Holding w"
  shows "t = u"
proof (rule ccontr)
  assume "t \<noteq> u"
  have "0 < holders True ps" using assms(2,4) by (rule holder_exists)
  then have one: "holders True ps = 1" "holders False ps = 0"
    using assms(1) by (auto simp: queue_ok_def split: if_splits)
  have w: "w = True" using holder_exists [OF assms(3,5)] one(2) by (cases w) auto
  have "holders True (ps[t := Outside]) = 0"
    using holders_update [OF assms(2), of True Outside] assms(4) one(1) by simp
  moreover have "0 < holders True (ps[t := Outside])"
    using holder_exists [of u "ps[t := Outside]" True] assms(3,5) w \<open>t \<noteq> u\<close> by simp
  ultimately show False by simp
qed

lemma waiter_runs:
  assumes "queue_ok (ps, q)" and "t < length ps" and "ps ! t = Sleeping w g"
    and none: "\<And>t w. t < length ps \<Longrightarrow> ps ! t \<noteq> Holding w"
  shows "\<exists>t < length ps. \<exists>w g q'. ps ! t = Sleeping w g \<and> q_changed q \<noteq> g \<and> attempt False w q = (Holding w, q')"
proof -
  have free: "may_enter wr q \<longleftrightarrow> wr \<or> writers_waiting ps = 0" for wr
    by (rule may_enter_free [OF assms(1)]) (rule no_holders [OF none], assumption)+
  obtain u v h where u: "u < length ps" "ps ! u = Sleeping v h" "may_enter v q"
  proof (cases "writers_waiting ps = 0")
    case True
    then show thesis using that [OF assms(2,3)] free [of w] by simp
  next
    case False
    then obtain u h where "u < length ps" "ps ! u = Sleeping True h" using sleeping_writer [of ps] by blast
    then show thesis using that [of u True h] free [of True] by simp
  qed
  have "not_forgotten q (ps ! u)" using assms(1) u(1) by (simp add: queue_ok_def list_all_length)
  then have "q_changed q \<noteq> h" using u(2,3) by auto
  moreover have "\<exists>q'. attempt False v q = (Holding v, q')" using u(3) by (simp add: attempt_def)
  ultimately show ?thesis using u(1,2) by blast
qed


text \<open>A writer left while a reader slept behind it.\<close>

definition ex_queue :: queue_state where
  "ex_queue = ([Outside, Sleeping False 0], \<lparr>q_readers = 0, q_writer = False, q_waiting = 0, q_changed = 1\<rparr>)"

lemma ex_queue_reachable: "queue_reachable ex_queue"
proof -
  let ?q = "\<lparr>q_readers = 0, q_writer = True, q_waiting = 0, q_changed = 0\<rparr>"
  have "queue_reachable (replicate 2 Outside, empty_queue)" by (rule queue_reachable.start)
  then have "queue_reachable ([Outside, Outside], empty_queue)" by (simp add: numeral_2_eq_2)
  moreover have "queue_step ([Outside, Outside], empty_queue) ([Outside, Outside][0 := Holding True], ?q)"
    by (rule queue_step.enter [where cancelled = False and wr = True])
      (simp_all add: acquire_queue_def attempt_def may_enter_def empty_queue_def)
  ultimately have "queue_reachable ([Holding True, Outside], ?q)" by (auto intro: queue_reachable.step)
  moreover have "queue_step ([Holding True, Outside], ?q) ([Holding True, Outside][1 := Sleeping False 0], ?q)"
    by (rule queue_step.enter [where cancelled = False and wr = False])
      (simp_all add: acquire_queue_def attempt_def may_enter_def)
  ultimately have "queue_reachable ([Holding True, Sleeping False 0], ?q)" by (auto intro: queue_reachable.step)
  moreover have "queue_step ([Holding True, Sleeping False 0], ?q)
      ([Holding True, Sleeping False 0][0 := Outside], release_queue True ?q)"
    by (rule queue_step.leave) simp_all
  ultimately show ?thesis
    by (auto intro: queue_reachable.step simp: ex_queue_def release_queue_def signal_def)
qed


end
