(* ===== verification/Leases.thy ===== *)
theory Leases
  imports Prelude
begin

text \<open>
  State leases (config/locks.go): which locks a lease takes, in which order, what a failed
  acquisition gives back, and the guards of a lease's operations.  The run of a lease is the
  sequence of its lock actions, so that any number of threads, in any number of processes,
  can be interleaved and shown not to block each other for ever.
\<close>

section \<open>Locks and their order\<close>

text \<open>
  The two queues are local to a process, the three files are locked with \<open>flock\<close> and shared
  by all processes of the installation.
\<close>

datatype lock = Lifecycle_Queue | Lifecycle_File | State_Queue | Gate_File | State_File

fun lock_rank :: "lock \<Rightarrow> nat" where
  "lock_rank Lifecycle_Queue = 0"
| "lock_rank Lifecycle_File = 1"
| "lock_rank State_Queue = 2"
| "lock_rank Gate_File = 3"
| "lock_rank State_File = 4"

lemma lock_rank_inj: "lock_rank a = lock_rank b \<Longrightarrow> a = b"
  by (cases a; cases b) simp_all

instantiation lock :: linorder
begin

definition less_eq_lock :: "lock \<Rightarrow> lock \<Rightarrow> bool" where
  "less_eq_lock a b \<longleftrightarrow> lock_rank a \<le> lock_rank b"

definition less_lock :: "lock \<Rightarrow> lock \<Rightarrow> bool" where
  "less_lock a b \<longleftrightarrow> lock_rank a < lock_rank b"

instance
  by standard (auto simp: less_eq_lock_def less_lock_def dest: lock_rank_inj)

end

fun in_process :: "lock \<Rightarrow> bool" where
  "in_process Lifecycle_Queue = True"
| "in_process State_Queue = True"
| "in_process _ = False"

section \<open>The run of a lease\<close>

text \<open>\<open>Take l True\<close> is exclusive, \<open>Take l False\<close> shared.\<close>

datatype action = Take lock bool | Give lock

record lease_env =
  x_fails :: "lock \<Rightarrow> goerr option"
  x_check :: "goerr option"
  x_ctx :: "goerr option"

definition lease_locks :: "bool \<Rightarrow> bool \<Rightarrow> (lock \<times> bool) list" where
  "lease_locks wr purge =
     (if purge then [(Lifecycle_Queue, True), (Lifecycle_File, True)] else []) @
     [(State_Queue, wr), (Gate_File, True), (State_File, wr)]"

text \<open>Taking the locks one by one until one fails.\<close>

fun take_locks :: "lease_env \<Rightarrow> (lock \<times> bool) list \<Rightarrow> (lock \<times> bool) list \<times> goerr option" where
  "take_locks v [] = ([], None)"
| "take_locks v ((l, x) # rest) =
     (case x_fails v l of
        Some e \<Rightarrow> ([], Some e)
      | None \<Rightarrow> (let (taken, e) = take_locks v rest in ((l, x) # taken, e)))"

text \<open>\<open>Lease.Release\<close>: the locks that are held, state before admission before lifecycle.\<close>

definition release_actions :: "lock list \<Rightarrow> action list" where
  "release_actions held =
     map Give (filter (\<lambda>l. l \<in> set held) [State_File, Gate_File, State_Queue, Lifecycle_File, Lifecycle_Queue])"

text \<open>\<open>Store.acquire\<close>: the actions done, the locks then held, and the result.\<close>

definition acquire_lease :: "lease_env \<Rightarrow> bool \<Rightarrow> bool \<Rightarrow> action list \<times> lock list \<times> unit res" where
  "acquire_lease v wr purge =
     (case take_locks v (lease_locks wr purge) of
        (taken, err) \<Rightarrow>
          (let takes = map (\<lambda>(l, x). Take l x) taken; held = map fst taken;
               failed = (\<lambda>e. (takes @ release_actions held, [], Inl e)) in
           case (err, x_check v, x_ctx v) of
             (Some e, _, _) \<Rightarrow> failed e
           | (None, Some e, _) \<Rightarrow> failed e
           | (None, None, Some e) \<Rightarrow> failed e
           | (None, None, None) \<Rightarrow>
               if wr then (takes, held, Inr ())
               else (takes @ [Give Gate_File], filter (\<lambda>l. l \<noteq> Gate_File) held, Inr ())))"

text \<open>A whole lease, from the acquisition to its release.\<close>

definition lease_run :: "lease_env \<Rightarrow> bool \<Rightarrow> bool \<Rightarrow> action list" where
  "lease_run v wr purge = (case acquire_lease v wr purge of (done_actions, held, _) \<Rightarrow> done_actions @ release_actions held)"

text \<open>A lifecycle lease with the state leases taken while it is held.\<close>

definition lifecycle_run :: "(lease_env \<times> bool) list \<Rightarrow> action list" where
  "lifecycle_run inner =
     [Take Lifecycle_Queue True, Take Lifecycle_File True] @
     concat (map (\<lambda>(v, wr). lease_run v wr False) inner) @ [Give Lifecycle_File, Give Lifecycle_Queue]"

section \<open>Runs respect the lock order\<close>

text \<open>
  \<open>ordered held acts\<close>: every lock taken is above all that are held, every lock given back is
  held, and at the end none is held.
\<close>

fun ordered :: "lock list \<Rightarrow> action list \<Rightarrow> bool" where
  "ordered held [] = (held = [])"
| "ordered held (Take l _ # acts) = ((\<forall>h \<in> set held. h < l) \<and> ordered (l # held) acts)"
| "ordered held (Give l # acts) = (l \<in> set held \<and> ordered (remove1 l held) acts)"

lemma lock_less [simp]: "a < b \<longleftrightarrow> lock_rank a < lock_rank b"
  by (rule less_lock_def)

lemma ordered_append: "ordered held acts \<Longrightarrow> ordered held (acts @ rest) = ordered [] rest"
  by (induction held acts rule: ordered.induct) auto

text \<open>What can be taken of a list of locks is a prefix of it.\<close>

lemma take_locks_prefix: "\<exists>n. fst (take_locks v locks) = take n locks"
proof (induction v locks rule: take_locks.induct)
  case (2 v l x rest)
  show ?case
  proof (cases "x_fails v l")
    case None
    with 2 obtain n where "fst (take_locks v rest) = take n rest" by blast
    with None show ?thesis by (intro exI [of _ "Suc n"]) (auto split: prod.splits)
  next
    case (Some e)
    then show ?thesis by (intro exI [of _ 0]) simp
  qed
qed simp

text \<open>Every prefix, given back at once, and the full list are ordered runs.\<close>

lemma ordered_takes:
  "sorted_wrt (<) (rev held @ map fst xs) \<Longrightarrow>
     ordered held (map (\<lambda>(l, x). Take l x) xs @ rest) = ordered (rev (map fst xs) @ held) rest"
proof (induction xs arbitrary: held)
  case (Cons x xs)
  then show ?case by (cases x) (simp add: sorted_wrt_append)
qed simp

lemma ordered_gives:
  "distinct held \<Longrightarrow> distinct ls \<Longrightarrow> set ls = set held \<Longrightarrow> ordered held (map Give ls)"
proof (induction ls arbitrary: held)
  case (Cons l ls)
  then have "set ls = set (remove1 l held)" by auto
  with Cons show ?case by (auto simp: distinct_remove1)
qed simp

definition release_order :: "lock list" where
  "release_order = [State_File, Gate_File, State_Queue, Lifecycle_File, Lifecycle_Queue]"

lemma release_order_all: "set release_order = UNIV" "distinct release_order"
  by (auto simp: release_order_def intro: lock.exhaust)

lemma ordered_release:
  "distinct held \<Longrightarrow> set ls = set held \<Longrightarrow> ordered held (release_actions ls)"
  unfolding release_actions_def release_order_def [symmetric]
  by (rule ordered_gives) (simp_all add: release_order_all)

lemma lease_locks_sorted: "sorted_wrt (<) (map fst (lease_locks wr purge))"
  by (simp add: lease_locks_def)

lemma sorted_locks_distinct: "sorted_wrt (<) (ls :: lock list) \<Longrightarrow> distinct ls"
  by (simp add: strict_sorted_iff)

lemma prefix_run:
  "ordered [] (map (\<lambda>(l, x). Take l x) (take n (lease_locks wr purge)) @ release_actions (map fst (take n (lease_locks wr purge))))"
proof -
  have "sorted_wrt (<) (map fst (take n (lease_locks wr purge)))"
    unfolding take_map [symmetric] by (rule sorted_wrt_take [OF lease_locks_sorted])
  then show ?thesis by (subst ordered_takes) (simp_all add: ordered_release sorted_locks_distinct)
qed

lemma read_run:
  "ordered [] (map (\<lambda>(l, x). Take l x) (lease_locks False purge) @ [Give Gate_File] @
     release_actions (filter (\<lambda>l. l \<noteq> Gate_File) (map fst (lease_locks False purge))))"
proof -
  have d: "distinct (map fst (lease_locks False purge))" using lease_locks_sorted by (rule sorted_locks_distinct)
  have "Gate_File \<in> set (map fst (lease_locks False purge))" by (simp add: lease_locks_def)
  moreover have "ordered (remove1 Gate_File (rev (map fst (lease_locks False purge))))
      (release_actions (filter (\<lambda>l. l \<noteq> Gate_File) (map fst (lease_locks False purge))))"
    using d by (intro ordered_release) (auto simp: distinct_remove1)
  ultimately show ?thesis by (subst ordered_takes) (simp_all add: lease_locks_sorted)
qed

lemma take_locks_complete: "take_locks v locks = (taken, None) \<Longrightarrow> taken = locks"
  by (induction v locks arbitrary: taken rule: take_locks.induct) (auto split: option.splits prod.splits)

lemma lease_run_ordered: "ordered [] (lease_run v wr purge)"
proof -
  obtain taken err where t: "take_locks v (lease_locks wr purge) = (taken, err)"
    by (cases "take_locks v (lease_locks wr purge)")
  obtain n where n: "taken = take n (lease_locks wr purge)"
    using take_locks_prefix [of v "lease_locks wr purge"] t by auto
  let ?takes = "map (\<lambda>(l, x). Take l x) taken" and ?held = "map fst taken"
  have prefix: "ordered [] (?takes @ release_actions ?held)" using prefix_run n by simp
  have none: "release_actions [] = []" by (simp add: release_actions_def)
  consider (failed) e where "acquire_lease v wr purge = (?takes @ release_actions ?held, [], Inl e)"
    | (exclusive) "acquire_lease v wr purge = (?takes, ?held, Inr ())"
    | (shared) "acquire_lease v wr purge = (?takes @ [Give Gate_File], filter (\<lambda>l. l \<noteq> Gate_File) ?held, Inr ())"
        "err = None" "\<not> wr"
    unfolding acquire_lease_def t Let_def prod.case
    by (cases err; cases "x_check v"; cases "x_ctx v"; cases wr) auto
  then show ?thesis
  proof cases
    case shared
    then have "taken = lease_locks False purge" using t take_locks_complete by auto
    with shared(1) read_run show ?thesis by (simp add: lease_run_def)
  qed (use prefix none in \<open>simp_all add: lease_run_def\<close>)
qed

text \<open>A run that only takes locks above those already held can be put in between.\<close>

fun takes_above :: "lock list \<Rightarrow> action list \<Rightarrow> bool" where
  "takes_above below [] = True"
| "takes_above below (Take l _ # acts) = ((\<forall>h \<in> set below. h < l) \<and> takes_above below acts)"
| "takes_above below (Give l # acts) = (l \<notin> set below \<and> takes_above below acts)"

lemma ordered_inside:
  "ordered held acts \<Longrightarrow> takes_above below acts \<Longrightarrow> ordered (held @ below) (acts @ rest) = ordered below rest"
proof (induction held acts rule: ordered.induct)
  case (3 held l acts)
  then have "remove1 l (held @ below) = remove1 l held @ below" by (simp add: remove1_append)
  with 3 show ?case by simp
qed auto

lemma takes_above_release: "set below \<inter> set held = {} \<Longrightarrow> takes_above below (release_actions held)"
  by (auto simp: release_actions_def)

lemma takes_above_append: "takes_above below (a @ b) \<longleftrightarrow> takes_above below a \<and> takes_above below b"
  by (induction below a rule: takes_above.induct) auto

lemma lease_run_above: "takes_above [Lifecycle_File, Lifecycle_Queue] (lease_run v wr False)"
proof -
  obtain taken err where t: "take_locks v (lease_locks wr False) = (taken, err)"
    by (cases "take_locks v (lease_locks wr False)")
  obtain n where n: "taken = take n (lease_locks wr False)"
    using take_locks_prefix [of v "lease_locks wr False"] t by auto
  have sub: "set taken \<subseteq> {(State_Queue, wr), (Gate_File, True), (State_File, wr)}"
    unfolding n by (rule order_trans [OF set_take_subset]) (simp add: lease_locks_def)
  then have "takes_above [Lifecycle_File, Lifecycle_Queue] (map (\<lambda>(l, x). Take l x) taken)"
    by (induction taken) auto
  moreover have "set [Lifecycle_File, Lifecycle_Queue] \<inter> set (map fst taken) = {}" using sub by auto
  moreover from this have "takes_above [Lifecycle_File, Lifecycle_Queue] (release_actions (map fst taken))"
    "takes_above [Lifecycle_File, Lifecycle_Queue] (release_actions (filter (\<lambda>l. l \<noteq> Gate_File) (map fst taken)))"
    "takes_above [Lifecycle_File, Lifecycle_Queue] (release_actions [])"
    by (intro takes_above_release; auto)+
  ultimately show ?thesis
    unfolding lease_run_def acquire_lease_def t Let_def prod.case
    by (cases err; cases "x_check v"; cases "x_ctx v"; cases wr) (simp_all add: takes_above_append)
qed

lemma ordered_all_inside:
  "(\<And>r. r \<in> set runs \<Longrightarrow> ordered [] r \<and> takes_above below r) \<Longrightarrow>
     ordered below (concat runs @ rest) = ordered below rest"
proof (induction runs)
  case (Cons r runs)
  then show ?case using ordered_inside [of "[]" r below "concat runs @ rest"] by simp
qed simp

lemma lifecycle_run_ordered: "ordered [] (lifecycle_run inner)"
proof -
  have "ordered [Lifecycle_File, Lifecycle_Queue]
      (concat (map (\<lambda>(v, wr). lease_run v wr False) inner) @ [Give Lifecycle_File, Give Lifecycle_Queue])"
    by (subst ordered_all_inside) (auto simp: lease_run_ordered lease_run_above)
  then show ?thesis by (simp add: lifecycle_run_def)
qed

section \<open>Threads and processes\<close>

record thread =
  t_process :: nat
  t_held :: "(lock \<times> bool) list"
  t_actions :: "action list"

fun drop_held :: "lock \<Rightarrow> (lock \<times> bool) list \<Rightarrow> (lock \<times> bool) list" where
  "drop_held l [] = []"
| "drop_held l ((m, y) # held) = (if m = l then held else (m, y) # drop_held l held)"

definition sees :: "thread \<Rightarrow> thread \<Rightarrow> lock \<Rightarrow> bool" where
  "sees t u l \<longleftrightarrow> (in_process l \<longrightarrow> t_process t = t_process u)"

text \<open>
  A lock is refused while another thread holds it and one of the two is exclusive; the
  process-local queue also lets no reader past a waiting writer.
\<close>

definition holds_against :: "thread \<Rightarrow> lock \<Rightarrow> bool \<Rightarrow> bool" where
  "holds_against u l x \<longleftrightarrow> (\<exists>y. (l, y) \<in> set (t_held u) \<and> (x \<or> y))"

definition waits_before :: "thread \<Rightarrow> lock \<Rightarrow> bool \<Rightarrow> bool" where
  "waits_before u l x \<longleftrightarrow> \<not> x \<and> in_process l \<and> (\<exists>rest. t_actions u = Take l True # rest)"

definition obstructed :: "thread list \<Rightarrow> nat \<Rightarrow> lock \<Rightarrow> bool \<Rightarrow> bool" where
  "obstructed ts i l x \<longleftrightarrow>
     (\<exists>j < length ts. j \<noteq> i \<and> sees (ts ! i) (ts ! j) l \<and> (holds_against (ts ! j) l x \<or> waits_before (ts ! j) l x))"

inductive threads_step :: "thread list \<Rightarrow> thread list \<Rightarrow> bool" where
  take: "i < length ts \<Longrightarrow> t_actions (ts ! i) = Take l x # rest \<Longrightarrow> \<not> obstructed ts i l x \<Longrightarrow>
     threads_step ts (ts[i := (ts ! i)\<lparr>t_held := (l, x) # t_held (ts ! i), t_actions := rest\<rparr>])"
| give: "i < length ts \<Longrightarrow> t_actions (ts ! i) = Give l # rest \<Longrightarrow>
     threads_step ts (ts[i := (ts ! i)\<lparr>t_held := drop_held l (t_held (ts ! i)), t_actions := rest\<rparr>])"

text \<open>A thread's program: any number of leases, of any kind, one after the other.\<close>

inductive lease_program :: "action list \<Rightarrow> bool" where
  finished: "lease_program []"
| lease: "lease_program rest \<Longrightarrow> lease_program (lease_run v wr purge @ rest)"
| lifecycle: "lease_program rest \<Longrightarrow> lease_program (lifecycle_run inner @ rest)"

lemma lease_program_ordered: "lease_program acts \<Longrightarrow> ordered [] acts"
  by (induction rule: lease_program.induct)
    (simp_all add: ordered_append [OF lease_run_ordered] ordered_append [OF lifecycle_run_ordered])

definition thread_ok :: "thread \<Rightarrow> bool" where
  "thread_ok t \<longleftrightarrow> ordered (map fst (t_held t)) (t_actions t)"

definition actions_left :: "thread list \<Rightarrow> nat" where
  "actions_left ts = sum_list (map (length \<circ> t_actions) ts)"

lemma map_drop_held: "map fst (drop_held l held) = remove1 l (map fst held)"
  by (induction l held rule: drop_held.induct) auto

lemma threads_step_ok: "threads_step ts ts' \<Longrightarrow> list_all thread_ok ts \<Longrightarrow> list_all thread_ok ts'"
proof (induction rule: threads_step.induct)
  case (take i ts l x rest)
  then have "thread_ok (ts ! i)" by (simp add: list_all_length)
  with take show ?case by (auto simp: list_all_length nth_list_update thread_ok_def)
next
  case (give i ts l rest)
  then have "thread_ok (ts ! i)" by (simp add: list_all_length)
  with give show ?case by (auto simp: list_all_length nth_list_update thread_ok_def map_drop_held)
qed

lemma actions_left_update:
  "i < length ts \<Longrightarrow> length (t_actions t) < length (t_actions (ts ! i)) \<Longrightarrow> actions_left (ts[i := t]) < actions_left ts"
proof (induction ts arbitrary: i)
  case (Cons u ts)
  then show ?case by (cases i) (auto simp: actions_left_def)
qed simp

lemma threads_step_left: "threads_step ts ts' \<Longrightarrow> actions_left ts' < actions_left ts"
  by (induction rule: threads_step.induct) (auto intro: actions_left_update)

lemma wants_above_held:
  assumes "thread_ok t" and "(l, y) \<in> set (t_held t)"
  shows "(\<exists>m x rest. t_actions t = Take m x # rest \<and> l < m) \<or> (\<exists>m rest. t_actions t = Give m # rest)"
proof (cases "t_actions t")
  case Nil
  with assms show ?thesis by (simp add: thread_ok_def)
next
  case (Cons a rest)
  have "l \<in> fst ` set (t_held t)" using assms(2) by force
  with assms(1) Cons show ?thesis by (cases a) (auto simp: thread_ok_def)
qed

section \<open>Leases never deadlock\<close>

text \<open>The rank of the lock a thread waits for, when nothing can move.\<close>

definition wants :: "thread \<Rightarrow> lock \<Rightarrow> bool \<Rightarrow> bool" where
  "wants t l x \<longleftrightarrow> (\<exists>rest. t_actions t = Take l x # rest)"

lemma stuck_wants:
  assumes "\<not> (\<exists>ts'. threads_step ts ts')" and "i < length ts" and "t_actions (ts ! i) \<noteq> []"
  obtains l x where "wants (ts ! i) l x" "obstructed ts i l x"
proof -
  obtain a rest where a: "t_actions (ts ! i) = a # rest" using assms(3) by (cases "t_actions (ts ! i)") auto
  show thesis
  proof (cases a)
    case (Take l x)
    with a assms(1,2) have "obstructed ts i l x" by (blast intro: threads_step.take)
    with a Take show thesis using that by (auto simp: wants_def)
  next
    case (Give l)
    with a assms(1,2) show thesis by (blast intro: threads_step.give)
  qed
qed

lemma stuck_holder:
  assumes "\<not> (\<exists>ts'. threads_step ts ts')" and "list_all thread_ok ts" and "j < length ts" and "holds_against (ts ! j) l x"
  shows "\<exists>m y. wants (ts ! j) m y \<and> l < m"
proof -
  obtain y where y: "(l, y) \<in> set (t_held (ts ! j))" using assms(4) by (auto simp: holds_against_def)
  have "thread_ok (ts ! j)" using assms(2,3) by (simp add: list_all_length)
  from wants_above_held [OF this y] show ?thesis
  proof (elim disjE exE conjE)
    fix m z rest assume "t_actions (ts ! j) = Take m z # rest" "l < m"
    then show ?thesis unfolding wants_def by blast
  next
    fix m rest assume "t_actions (ts ! j) = Give m # rest"
    with assms(1,3) show ?thesis by (blast intro: threads_step.give)
  qed
qed

text \<open>Whoever obstructs a stuck thread leads to a thread that wants a higher lock.\<close>

lemma stuck_higher:
  assumes stuck: "\<not> (\<exists>ts'. threads_step ts ts')" and ok: "list_all thread_ok ts"
    and "i < length ts" and "obstructed ts i l x"
  shows "\<exists>j < length ts. \<exists>m y. wants (ts ! j) m y \<and> l < m"
proof -
  obtain j where j: "j < length ts" "holds_against (ts ! j) l x \<or> waits_before (ts ! j) l x"
    using assms(4) by (auto simp: obstructed_def)
  from j(2) show ?thesis
  proof
    assume "holds_against (ts ! j) l x"
    from stuck_holder [OF stuck ok j(1) this] j(1) show ?thesis by blast
  next
    assume "waits_before (ts ! j) l x"
    then obtain rest where r: "t_actions (ts ! j) = Take l True # rest" by (auto simp: waits_before_def)
    with stuck j(1) have "obstructed ts j l True" by (blast intro: threads_step.take)
    then obtain k where "k < length ts" "holds_against (ts ! k) l True"
      by (auto simp: obstructed_def waits_before_def)
    with stuck_holder [OF stuck ok this] show ?thesis by blast
  qed
qed

lemma not_empty_of_mem: "x \<in> A \<Longrightarrow> A \<noteq> {}"
  by blast

lemma wants_unique: "wants t l x \<Longrightarrow> wants t m y \<Longrightarrow> l = m"
  by (auto simp: wants_def)

lemma threads_progress:
  assumes ok: "list_all thread_ok ts" and "i < length ts" and "t_actions (ts ! i) \<noteq> []"
  shows "\<exists>ts'. threads_step ts ts'"
proof (rule ccontr)
  assume stuck: "\<not> (\<exists>ts'. threads_step ts ts')"
  define wanted where "wanted = {l. \<exists>j < length ts. \<exists>x. wants (ts ! j) l x}"
  have mem: "l \<in> wanted \<longleftrightarrow> (\<exists>j < length ts. \<exists>x. wants (ts ! j) l x)" for l
    unfolding wanted_def by (rule mem_Collect_eq)
  have "finite (set release_order)" by (rule List.finite_set)
  then have fin: "finite wanted" unfolding release_order_all(1) by (rule finite_subset [OF subset_UNIV])
  from stuck assms(2,3) obtain l x where lx: "wants (ts ! i) l x" by (rule stuck_wants)
  have "l \<in> wanted" unfolding mem by (intro exI conjI) (rule assms(2), rule lx)
  then have "wanted \<noteq> {}" by (rule not_empty_of_mem)
  with fin have "Max wanted \<in> wanted" by (rule Max_in)
  then obtain j x where j: "j < length ts" "wants (ts ! j) (Max wanted) x" unfolding mem by (elim exE conjE)
  then have "t_actions (ts ! j) \<noteq> []" by (auto simp: wants_def)
  from stuck j(1) this obtain l y where ly: "wants (ts ! j) l y" "obstructed ts j l y" by (rule stuck_wants)
  from wants_unique [OF ly(1) j(2)] ly(2) have "obstructed ts j (Max wanted) y" by (rule subst)
  from stuck_higher [OF stuck ok j(1) this] obtain k m z where k: "k < length ts" "wants (ts ! k) m z" "Max wanted < m"
    by (elim exE conjE)
  have "m \<in> wanted" unfolding mem by (intro exI conjI) (rule k(1), rule k(2))
  from leD [OF Max_ge [OF fin this]] k(3) show False by (rule notE)
qed

text \<open>
  C9.  Leases cannot deadlock: however many threads and processes take however many read,
  write, purge and lifecycle leases, whichever acquisitions fail on the way, whenever some
  thread is not finished some thread can move, and every move brings the end closer, so all
  leases are given back after finitely many steps.
\<close>

theorem leases_never_deadlock:
  assumes "list_all (\<lambda>t. t_held t = [] \<and> lease_program (t_actions t)) ts" and "threads_step\<^sup>*\<^sup>* ts ts'"
  shows "((\<exists>t \<in> set ts'. t_actions t \<noteq> [] \<or> t_held t \<noteq> []) \<longrightarrow> (\<exists>ts''. threads_step ts' ts'')) \<and>
    (\<forall>ts''. threads_step ts' ts'' \<longrightarrow> actions_left ts'' < actions_left ts')"
proof -
  have "list_all thread_ok ts"
    using assms(1) lease_program_ordered by (auto simp: list_all_iff thread_ok_def)
  with assms(2) have ok: "list_all thread_ok ts'"
    by (induction rule: rtranclp_induct) (auto intro: threads_step_ok)
  have "\<exists>ts''. threads_step ts' ts''" if t: "t \<in> set ts'" "t_actions t \<noteq> [] \<or> t_held t \<noteq> []" for t
  proof -
    obtain i where i: "i < length ts'" "ts' ! i = t" using t(1) by (auto simp: in_set_conv_nth)
    have "thread_ok t" using ok t(1) by (simp add: list_all_iff)
    then have "t_actions t \<noteq> []" using t(2) by (cases "t_actions t") (auto simp: thread_ok_def)
    with i show ?thesis using threads_progress [OF ok i(1)] by simp
  qed
  then show ?thesis using threads_step_left by blast
qed

text \<open>Two leases, one of which fails on its last lock, and a purge, in two processes.\<close>

definition ex_threads :: "thread list" where
  "ex_threads =
     [\<lparr>t_process = 0, t_held = [],
       t_actions = lease_run \<lparr>x_fails = (\<lambda>_. None), x_check = None, x_ctx = None\<rparr> False False @ []\<rparr>,
      \<lparr>t_process = 1, t_held = [],
       t_actions = lease_run \<lparr>x_fails = (\<lambda>l. if l = State_File then Some ExceededMaxBody else None),
                              x_check = None, x_ctx = None\<rparr> True True @ []\<rparr>]"

theorem leases_never_deadlock_witness:
  "\<exists>ts. threads_step ex_threads ts"
proof -
  have "list_all (\<lambda>t. t_held t = [] \<and> lease_program (t_actions t)) ex_threads"
    unfolding ex_threads_def list.pred_inject thread.simps
    by (intro conjI refl lease_program.lease lease_program.finished) simp
  note live = conjunct1 [OF leases_never_deadlock [OF this rtranclp.rtrancl_refl], THEN mp]
  have "\<exists>t \<in> set ex_threads. t_actions t \<noteq> [] \<or> t_held t \<noteq> []"
  proof (rule bexI [of _ "hd ex_threads"])
    have "t_actions (hd ex_threads) \<noteq> []" by code_simp
    then show "t_actions (hd ex_threads) \<noteq> [] \<or> t_held (hd ex_threads) \<noteq> []" by blast
  qed (simp add: ex_threads_def)
  then show ?thesis by (rule live)
qed

end
