(* ===== verification/Identity_Doc.thy ===== *)
theory Identity_Doc
  imports Secrets Uuids
begin

text \<open>
  The installation's identity document (config/storage.go, config/environment.go,
  config/paths.go, config/platform.go): the paths an installation owns, its identity record
  with the JSON form, and \<open>decodeIdentity\<close>, which accepts only the identity of this root.
  SHA-256 in hexadecimal and the operating system are arguments.
\<close>

section \<open>Paths\<close>

text \<open>\<open>filepath.Clean(p) == p\<close> for an absolute path: no empty, \<open>.\<close> or \<open>..\<close> component.\<close>

fun components :: "bytes \<Rightarrow> bytes \<Rightarrow> bytes list" where
  "components acc [] = [acc]"
| "components acc (c # s) = (if c = CHR ''/'' then acc # components [] s else components (acc @ [c]) s)"

definition clean_abs :: "bytes \<Rightarrow> bool" where
  "clean_abs p \<longleftrightarrow>
     (case p of
        c # s \<Rightarrow> c = CHR ''/'' \<and>
          (s = [] \<or> list_all (\<lambda>x. x \<noteq> [] \<and> x \<noteq> ''.'' \<and> x \<noteq> ''..'') (components [] s))
      | [] \<Rightarrow> False)"

text \<open>\<open>filepath.Dir\<close> and \<open>filepath.Join\<close> on clean absolute paths.\<close>

definition path_dir :: "bytes \<Rightarrow> bytes" where
  "path_dir p =
     (let d = rev (dropWhile (\<lambda>c. c \<noteq> CHR ''/'') (rev p)) in
      if length d \<le> 1 then ''/'' else butlast d)"

definition path_join :: "bytes \<Rightarrow> bytes \<Rightarrow> bytes" where
  "path_join d x = (if d = ''/'' then d @ x else d @ ''/'' @ x)"

definition ServiceFile :: "bool \<Rightarrow> bytes" where
  "ServiceFile linux = (if linux then ''service.unit.json'' else ''service.plist'')"

definition ownedPaths :: "bool \<Rightarrow> bytes list" where
  "ownedPaths linux =
     [''data-mate.db'', ''data-mate.db-journal'',
      ''installation.json'', ''installation.json.tmp'',
      ''lifecycle.lock'', ''state-gate.lock'', ''state.lock'',
      ''known_hosts'', ''known_hosts.tmp'',
      ''service.json'', ''service.json.tmp'',
      ServiceFile linux, ServiceFile linux @ ''.tmp'',
      ''registrations.json'', ''registrations.json.tmp'',
      ''purge.json'', ''purge.json.tmp'']"

section \<open>Roots\<close>

record root =
  rt_path :: bytes
  rt_digest :: bytes
  rt_env :: bytes

definition Kind :: "bytes \<Rightarrow> bytes" where
  "Kind e = (if e = [] then ''development'' else e)"

definition ExecutablePath :: "root \<Rightarrow> bytes" where
  "ExecutablePath rt =
     (if Kind (rt_env rt) = ''production'' then path_join (path_join (rt_path rt) ''bin'') ''data-mate''
      else path_join (path_join (path_dir (rt_path rt)) ''bin'') ''data-mate'')"

definition validateRoot :: "(bytes \<Rightarrow> bytes) \<Rightarrow> root \<Rightarrow> unit res" where
  "validateRoot sha rt =
     (if \<not> clean_abs (rt_path rt) \<or> sha (rt_path rt) \<noteq> rt_digest rt then Inl (Sentinel Cfg_Ownership)
      else if Kind (rt_env rt) \<noteq> ''development'' \<and> Kind (rt_env rt) \<noteq> ''production'' then Inl (Sentinel Cfg_Ownership)
      else Inr ())"

section \<open>The identity record and its JSON form\<close>

record inst =
  i_version :: int
  i_env :: bytes
  i_id :: bytes
  i_root :: bytes
  i_established :: bool
  i_purging :: bool
  i_pending :: bool
  i_owned :: "bytes list"
  i_key :: bytes
  i_exe :: bytes

definition no_inst :: inst where
  "no_inst = \<lparr>i_version = 0, i_env = [], i_id = [], i_root = [], i_established = False, i_purging = False,
     i_pending = False, i_owned = [], i_key = [], i_exe = []\<rparr>"

definition inst_tags :: "(bytes \<times> bool) list" where
  "inst_tags =
     [(''version'', False), (''environment'', True), (''installation_id'', False), (''root_digest'', False),
      (''profiles_established'', False), (''purging'', False), (''pending'', True), (''owned'', False),
      (''key_account'', False), (''executable'', True)]"

definition inst_json :: "inst \<Rightarrow> jval" where
  "inst_json i =
     JObj ([(''version'', jint (i_version i))] @ omitempty ''environment'' (i_env i) @
       [(''installation_id'', JStr (i_id i)), (''root_digest'', JStr (i_root i)),
        (''profiles_established'', JBool (i_established i)), (''purging'', JBool (i_purging i))] @
       (if i_pending i then [(''pending'', JBool True)] else []) @
       [(''owned'', JArr (map JStr (i_owned i))), (''key_account'', JStr (i_key i))] @
       omitempty ''executable'' (i_exe i))"

definition encodeIdentity :: "inst \<Rightarrow> bytes" where
  "encodeIdentity i = marshal (inst_json i)"

text \<open>
  Go matches a member to a field by its exact name or else without regard to case, where two
  letters outside ASCII fold to \<open>k\<close> and \<open>s\<close>.  Members are stored in their order.
\<close>

fun fold_name :: "bytes \<Rightarrow> bytes" where
  "fold_name [] = []"
| "fold_name (c # s) =
     (if take 3 (c # s) = [CHR 0xE2, CHR 0x84, CHR 0xAA] then CHR ''k'' # fold_name (drop 2 s)
      else if take 2 (c # s) = [CHR 0xC5, CHR 0xBF] then CHR ''s'' # fold_name (drop 1 s)
      else to_lower [c] @ fold_name s)"

definition find_field :: "bytes list \<Rightarrow> bytes \<Rightarrow> bytes option" where
  "find_field names k =
     (if k \<in> set names then Some k else List.find (\<lambda>n. fold_name n = fold_name k) names)"

definition put_int :: "jval \<Rightarrow> int \<Rightarrow> int option" where
  "put_int v old = (case v of JNum n \<Rightarrow> ParseInt n 64 | JNull \<Rightarrow> Some old | _ \<Rightarrow> None)"

definition put_str :: "jval \<Rightarrow> bytes \<Rightarrow> bytes option" where
  "put_str v old = (case v of JStr s \<Rightarrow> Some s | JNull \<Rightarrow> Some old | _ \<Rightarrow> None)"

definition put_bool :: "jval \<Rightarrow> bool \<Rightarrow> bool option" where
  "put_bool v old = (case v of JBool b \<Rightarrow> Some b | JNull \<Rightarrow> Some old | _ \<Rightarrow> None)"

definition put_strs :: "jval \<Rightarrow> bytes list \<Rightarrow> bytes list option" where
  "put_strs v old = (case v of JArr vs \<Rightarrow> decode_list (\<lambda>x. put_str x []) vs | JNull \<Rightarrow> Some [] | _ \<Rightarrow> None)"

definition set_member :: "bytes \<times> jval \<Rightarrow> inst \<Rightarrow> inst option" where
  "set_member m i =
     (case find_field (map fst inst_tags) (fst m) of
        None \<Rightarrow> None
      | Some k \<Rightarrow>
          (let v = snd m in
           if k = ''version'' then map_option (\<lambda>x. i\<lparr>i_version := x\<rparr>) (put_int v (i_version i))
           else if k = ''environment'' then map_option (\<lambda>x. i\<lparr>i_env := x\<rparr>) (put_str v (i_env i))
           else if k = ''installation_id'' then map_option (\<lambda>x. i\<lparr>i_id := x\<rparr>) (put_str v (i_id i))
           else if k = ''root_digest'' then map_option (\<lambda>x. i\<lparr>i_root := x\<rparr>) (put_str v (i_root i))
           else if k = ''profiles_established'' then map_option (\<lambda>x. i\<lparr>i_established := x\<rparr>) (put_bool v (i_established i))
           else if k = ''purging'' then map_option (\<lambda>x. i\<lparr>i_purging := x\<rparr>) (put_bool v (i_purging i))
           else if k = ''pending'' then map_option (\<lambda>x. i\<lparr>i_pending := x\<rparr>) (put_bool v (i_pending i))
           else if k = ''owned'' then map_option (\<lambda>x. i\<lparr>i_owned := x\<rparr>) (put_strs v (i_owned i))
           else if k = ''key_account'' then map_option (\<lambda>x. i\<lparr>i_key := x\<rparr>) (put_str v (i_key i))
           else map_option (\<lambda>x. i\<lparr>i_exe := x\<rparr>) (put_str v (i_exe i))))"

fun set_members :: "(bytes \<times> jval) list \<Rightarrow> inst \<Rightarrow> inst option" where
  "set_members [] i = Some i"
| "set_members (m # ms) i = Option.bind (set_member m i) (set_members ms)"

definition inst_of :: "jval \<Rightarrow> inst option" where
  "inst_of v = (case v of JObj ms \<Rightarrow> set_members ms no_inst | _ \<Rightarrow> None)"

definition has_control :: "bytes \<Rightarrow> bool" where
  "has_control s \<longleftrightarrow> list_ex (\<lambda>c. c \<in> {CHR 0x00, CHR 0x0A, CHR 0x0D, CHR 0x09}) s"

section \<open>decodeIdentity\<close>

definition decodeIdentity :: "(bytes \<Rightarrow> bytes) \<Rightarrow> bool \<Rightarrow> root \<Rightarrow> bytes \<Rightarrow> inst res" where
  "decodeIdentity sha linux rt raw =
     (case DecodeStrict inst_tags inst_of raw 8192 of
        Inl _ \<Rightarrow> Inl (Sentinel Cfg_Ownership)
      | Inr i \<Rightarrow>
          if i_exe i \<noteq> [] \<and> (i_exe i \<noteq> ExecutablePath rt \<or> has_control (i_exe i)) then Inl (Sentinel Cfg_Ownership)
          else if i_version i \<noteq> 2 \<and> i_version i \<noteq> 3 then Inl (Sentinel Cfg_Obsolete)
          else if Kind (i_env i) \<noteq> Kind (rt_env rt) \<or> (i_version i = 2 \<and> i_env i \<noteq> []) \<or> (i_version i = 3 \<and> i_env i = [])
          then Inl (Sentinel Cfg_Ownership)
          else if \<not> ValidUUID (i_id i) \<or> i_root i \<noteq> rt_digest rt \<or>
            i_key i \<noteq> sha (rt_digest rt @ '':'' @ i_id i) \<or> i_owned i \<noteq> ownedPaths linux
          then Inl (Sentinel Cfg_Ownership)
          else Inr i)"

section \<open>What an accepted identity is\<close>

definition inst_checks :: "(bytes \<Rightarrow> bytes) \<Rightarrow> bool \<Rightarrow> root \<Rightarrow> inst \<Rightarrow> bool" where
  "inst_checks sha linux rt i \<longleftrightarrow>
     (i_exe i = [] \<or> i_exe i = ExecutablePath rt \<and> \<not> has_control (i_exe i)) \<and>
     (i_version i = 2 \<and> i_env i = [] \<and> Kind (rt_env rt) = ''development'' \<or>
      i_version i = 3 \<and> i_env i \<noteq> [] \<and> i_env i = Kind (rt_env rt)) \<and>
     ValidUUID (i_id i) \<and> i_root i = rt_digest rt \<and>
     i_key i = sha (rt_digest rt @ '':'' @ i_id i) \<and> i_owned i = ownedPaths linux"

lemma environment_ok:
  "(\<not> (v \<noteq> 2 \<and> v \<noteq> 3)) \<and> \<not> (Kind e \<noteq> Kind r \<or> (v = 2 \<and> e \<noteq> []) \<or> (v = 3 \<and> e = [])) \<longleftrightarrow>
     v = (2 :: int) \<and> e = [] \<and> Kind r = ''development'' \<or> v = 3 \<and> e \<noteq> [] \<and> e = Kind r"
  by (auto simp: Kind_def [of e])

lemma if_else_Inr: "(if c then Inl e else r) = Inr x \<longleftrightarrow> \<not> c \<and> r = Inr x"
  by simp

lemma decodeIdentity_iff:
  "decodeIdentity sha linux rt raw = Inr i \<longleftrightarrow>
     DecodeStrict inst_tags inst_of raw 8192 = Inr i \<and> inst_checks sha linux rt i"
proof (cases "DecodeStrict inst_tags inst_of raw 8192")
  case (Inr j)
  have "decodeIdentity sha linux rt raw = Inr i \<longleftrightarrow> j = i \<and> inst_checks sha linux rt j"
    unfolding decodeIdentity_def Inr sum.case if_else_Inr inst_checks_def environment_ok [symmetric] Inr_inject
    by blast
  with Inr show ?thesis by (simp only: Inr_inject) blast
qed (simp add: decodeIdentity_def)

lemma decodeIdentity_checks: "decodeIdentity sha linux rt raw = Inr i \<Longrightarrow> inst_checks sha linux rt i"
  by (simp add: decodeIdentity_iff)

lemma decodeIdentity_fails:
  "decodeIdentity sha linux rt raw = Inl e \<Longrightarrow> e = Sentinel Cfg_Ownership \<or> e = Sentinel Cfg_Obsolete"
  by (auto simp: decodeIdentity_def split: sum.splits if_splits)

section \<open>Writing and reading back\<close>

lemma find_field_exact: "k \<in> set names \<Longrightarrow> find_field names k = Some k"
  by (simp add: find_field_def)

lemma set_member_simps [simp]:
  "set_member (''version'', v) i = map_option (\<lambda>x. i\<lparr>i_version := x\<rparr>) (put_int v (i_version i))"
  "set_member (''environment'', v) i = map_option (\<lambda>x. i\<lparr>i_env := x\<rparr>) (put_str v (i_env i))"
  "set_member (''installation_id'', v) i = map_option (\<lambda>x. i\<lparr>i_id := x\<rparr>) (put_str v (i_id i))"
  "set_member (''root_digest'', v) i = map_option (\<lambda>x. i\<lparr>i_root := x\<rparr>) (put_str v (i_root i))"
  "set_member (''profiles_established'', v) i = map_option (\<lambda>x. i\<lparr>i_established := x\<rparr>) (put_bool v (i_established i))"
  "set_member (''purging'', v) i = map_option (\<lambda>x. i\<lparr>i_purging := x\<rparr>) (put_bool v (i_purging i))"
  "set_member (''pending'', v) i = map_option (\<lambda>x. i\<lparr>i_pending := x\<rparr>) (put_bool v (i_pending i))"
  "set_member (''owned'', v) i = map_option (\<lambda>x. i\<lparr>i_owned := x\<rparr>) (put_strs v (i_owned i))"
  "set_member (''key_account'', v) i = map_option (\<lambda>x. i\<lparr>i_key := x\<rparr>) (put_str v (i_key i))"
  "set_member (''executable'', v) i = map_option (\<lambda>x. i\<lparr>i_exe := x\<rparr>) (put_str v (i_exe i))"
  by (simp_all add: set_member_def find_field_exact inst_tags_def)

lemma put_simps [simp]:
  "put_str (JStr s) old = Some s" "put_bool (JBool b) old2 = Some b" "put_int (JNum n) old3 = ParseInt n 64"
  by (simp_all add: put_str_def put_bool_def put_int_def)

lemma put_strs_map [simp]: "put_strs (JArr (map JStr xs)) old = Some xs"
proof -
  have "decode_list (\<lambda>x. put_str x []) (map JStr xs) = Some xs" by (induction xs) simp_all
  then show ?thesis by (simp add: put_strs_def)
qed

lemma set_members_omitempty:
  "set_members (omitempty k s @ ms) i =
     (if s = [] then set_members ms i else Option.bind (set_member (k, JStr s) i) (set_members ms))"
  by (simp add: omitempty_def)

lemma inst_of_json:
  assumes "int64 (i_version i)"
  shows "inst_of (inst_json i) = Some i"
proof (cases "i_pending i")
  case True
  with assms show ?thesis
    by (cases i) (simp add: inst_of_def inst_json_def no_inst_def jint_def set_members_omitempty
        set_members_omitempty [where ms = "[]", simplified])
next
  case False
  with assms show ?thesis
    by (cases i) (simp add: inst_of_def inst_json_def no_inst_def jint_def set_members_omitempty
        set_members_omitempty [where ms = "[]", simplified])
qed

definition inst_text :: "inst \<Rightarrow> bool" where
  "inst_text i \<longleftrightarrow> list_all utf8_valid [i_env i, i_id i, i_root i, i_key i, i_exe i] \<and> list_all utf8_valid (i_owned i)"

lemma utf8_inst_names [simp]:
  "utf8_valid ''environment''" "utf8_valid ''installation_id''" "utf8_valid ''root_digest''"
  "utf8_valid ''profiles_established''" "utf8_valid ''purging''" "utf8_valid ''pending''"
  "utf8_valid ''owned''" "utf8_valid ''key_account''" "utf8_valid ''executable''"
  by (rule utf8_valid_ascii, simp)+

lemma printable_inst: "inst_text i \<Longrightarrow> printable (inst_json i)"
  by (cases "i_pending i") (simp_all add: inst_json_def inst_text_def omitempty_def list_all_iff del: utf8_valid.simps)

lemma inst_json_shape:
  "nests 2 (inst_json i)" "dup_free (inst_json i)" "\<not> containsNull (inst_json i)"
  by (cases "i_pending i"; simp add: inst_json_def omitempty_def jint_def list_all_iff list_ex_iff numeral_2_eq_2)+

declare map_of_append [simp del]

lemma inst_json_members: "\<exists>ms. inst_json i = JObj ms \<and> \<not> missing_member inst_tags ms"
  by (cases "i_pending i") (simp_all add: inst_json_def missing_member_def inst_tags_def)

definition inst_encodable :: "inst \<Rightarrow> bool" where
  "inst_encodable i \<longleftrightarrow> inst_text i \<and> length (encodeIdentity i) \<le> 8192"

lemma strict_encode:
  assumes "int64 (i_version i)" and "inst_encodable i"
  shows "DecodeStrict inst_tags inst_of (encodeIdentity i) 8192 = Inr i"
proof -
  obtain ms where ms: "inst_json i = JObj ms" "\<not> missing_member inst_tags ms"
    using inst_json_members by blast
  show ?thesis
    unfolding encodeIdentity_def
    using assms ms(2) by (intro DecodeStrict_marshal [OF ms(1)])
      (simp_all add: printable_inst inst_json_shape inst_of_json inst_encodable_def encodeIdentity_def
        nests_mono [OF inst_json_shape(1)])
qed

lemma decode_encode:
  assumes "inst_checks sha linux rt i" and "inst_encodable i"
  shows "decodeIdentity sha linux rt (encodeIdentity i) = Inr i"
proof -
  have "int64 (i_version i)" using assms(1) by (auto simp: inst_checks_def int64_def)
  from strict_encode [OF this assms(2)] assms(1) show ?thesis by (simp add: decodeIdentity_iff)
qed

text \<open>
  C36.  An identity is read back from its document exactly when it is this root's identity:
  its UUID canonical, its digest, key account and inventory those of the root, its version
  fitting the build's environment and its executable the root's.  In particular an identity
  written by another root, another build environment or with another inventory is refused.
\<close>

theorem identity_roundtrip:
  assumes "inst_encodable i"
  shows "decodeIdentity sha linux rt (encodeIdentity i) = Inr i \<longleftrightarrow> inst_checks sha linux rt i"
  using assms decode_encode decodeIdentity_checks by blast

section \<open>A concrete identity\<close>

definition ex_sha :: "bytes \<Rightarrow> bytes" where
  "ex_sha s = replicate 64 (CHR ''0'')"

definition ex_root :: root where
  "ex_root = \<lparr>rt_path = ''/a/d'', rt_digest = replicate 64 (CHR ''0''), rt_env = []\<rparr>"

definition ex_inst :: inst where
  "ex_inst = \<lparr>i_version = 3, i_env = ''development'', i_id = ''00000000-0000-4000-8000-000000000000'',
     i_root = replicate 64 (CHR ''0''), i_established = True, i_purging = False, i_pending = False,
     i_owned = ownedPaths True, i_key = replicate 64 (CHR ''0''), i_exe = ''/a/bin/data-mate''\<rparr>"

lemma ex_root_valid: "validateRoot ex_sha ex_root = Inr ()"
  by (simp add: validateRoot_def ex_root_def ex_sha_def clean_abs_def Kind_def)

lemma ex_executable: "ExecutablePath ex_root = ''/a/bin/data-mate''"
  by (simp add: ExecutablePath_def ex_root_def Kind_def path_join_def path_dir_def)

lemma ex_inst_checks: "inst_checks ex_sha True ex_root ex_inst"
  by (simp add: inst_checks_def ex_inst_def ex_executable has_control_def)
    (simp add: ex_root_def Kind_def ex_sha_def ValidUUID_def uuid_hex_def is_digit_def in_range_def)

lemma ex_inst_encodable: "inst_encodable ex_inst"
proof -
  have "json_size (inst_json ex_inst) \<le> 8192"
    by (simp add: inst_json_def ex_inst_def omitempty_def jint_def ownedPaths_def ServiceFile_def show_int_def show_nat.simps [of 3])
  then have "length (encodeIdentity ex_inst) \<le> 8192"
    unfolding encodeIdentity_def by (rule order_trans [OF length_marshal])
  moreover have "inst_text ex_inst"
    unfolding inst_text_def list.pred_inject
    by (intro conjI TrueI) (simp_all add: ex_inst_def ownedPaths_def ServiceFile_def utf8_valid_ascii del: utf8_valid.simps)
  ultimately show ?thesis by (simp add: inst_encodable_def)
qed

theorem identity_roundtrip_witness:
  "decodeIdentity ex_sha True ex_root (encodeIdentity ex_inst) = Inr ex_inst"
  unfolding identity_roundtrip [OF ex_inst_encodable] by (rule ex_inst_checks)

end
