(* ===== verification/Disk.thy ===== *)
theory Disk
  imports Identity_Doc
begin

text \<open>
  The world of the installation directory: its contents and their history, the operations
  that may fail at any instant, and a weakest-precondition calculus for them.  The disk
  remembers all contents it ever had, so that a property of a whole operation also covers
  every moment at which the process could be killed.
\<close>

section \<open>Disk and world\<close>

text \<open>
  The files of the installation directory and the accounts of the native key store; the
  executable is the file \<open>bin/data-mate\<close> and its directory the entry \<open>bin/\<close>.
\<close>

record contents =
  c_files :: "bytes \<Rightarrow> bytes option"
  c_keys :: "bytes \<Rightarrow> bool"

record disk =
  d_now :: contents
  d_past :: "contents list"
  d_clock :: nat

text \<open>
  What the world answers at each instant: whether the opened directory is still the one at
  its path, whether a name is a private regular file (and still the one opened), whether a
  system call succeeds and how much a failed write left, the errors of fault points and
  contexts, the polls of a file lock, random bytes, the answers of the database and of the
  key store, whether a directory is a link or empty, and what the external stages of an
  uninstallation (services, agents, shell files) do to the lifecycle's own files.
\<close>

datatype poll = Granted | Busy | Broken

record world =
  o_sha :: "bytes \<Rightarrow> bytes"
  o_linux :: bool
  o_absent :: "nat \<Rightarrow> bool"
  o_open :: "nat \<Rightarrow> goerr option"
  o_root :: "nat \<Rightarrow> bool"
  o_safe :: "nat \<Rightarrow> bytes \<Rightarrow> bool"
  o_sys :: "nat \<Rightarrow> bool"
  o_short :: "nat \<Rightarrow> nat"
  o_point :: "nat \<Rightarrow> goerr option"
  o_ctx :: "nat \<Rightarrow> goerr option"
  o_polls :: "nat \<Rightarrow> (goerr option \<times> poll) list"
  o_random :: "nat \<Rightarrow> bytes option"
  o_obsolete :: "nat \<Rightarrow> goerr option"
  o_database :: "nat \<Rightarrow> (bytes option \<times> bytes option) \<times> goerr option"
  o_keyset :: "bytes \<Rightarrow> bool res"
  o_delete :: "nat \<Rightarrow> goerr option \<times> bool"
  o_link :: "nat \<Rightarrow> bool"
  o_empty :: "nat \<Rightarrow> bool"
  o_ext :: "bytes \<Rightarrow> nat \<Rightarrow> (bytes \<Rightarrow> bytes option) \<times> goerr option"

type_synonym 'a io = "world \<Rightarrow> disk \<Rightarrow> 'a res \<times> disk"

definition io_return :: "'a \<Rightarrow> 'a io" where
  "io_return x w d = (Inr x, d)"

definition io_fail :: "goerr \<Rightarrow> 'a io" where
  "io_fail e w d = (Inl e, d)"

text \<open>Running on after success, and after any result.\<close>

definition io_try :: "'a io \<Rightarrow> ('a res \<Rightarrow> 'b io) \<Rightarrow> 'b io" where
  "io_try m k w d = (case m w d of (r, d') \<Rightarrow> k r w d')"

definition io_then :: "'a io \<Rightarrow> ('a \<Rightarrow> 'b io) \<Rightarrow> 'b io" where
  "io_then m k = io_try m (\<lambda>r. case r of Inl e \<Rightarrow> io_fail e | Inr x \<Rightarrow> k x)"

text \<open>A deferred action: it runs after the body and its own result is dropped.\<close>

definition io_finally :: "'a io \<Rightarrow> 'b io \<Rightarrow> 'a io" where
  "io_finally m fin =
     io_try m (\<lambda>r. io_try fin (\<lambda>_. case r of Inl e \<Rightarrow> io_fail e | Inr x \<Rightarrow> io_return x))"

text \<open>Asking the world (time passes), looking at the disk, changing it.\<close>

definition ask :: "(world \<Rightarrow> nat \<Rightarrow> 'a res) \<Rightarrow> 'a io" where
  "ask f w d = (f w (d_clock d), d\<lparr>d_clock := Suc (d_clock d)\<rparr>)"

definition look :: "(world \<Rightarrow> contents \<Rightarrow> 'a res) \<Rightarrow> 'a io" where
  "look f w d = (f w (d_now d), d)"

definition change :: "(contents \<Rightarrow> contents) \<Rightarrow> unit io" where
  "change f w d = (Inr (), d\<lparr>d_now := f (d_now d), d_past := d_now d # d_past d\<rparr>)"

definition set_file :: "bytes \<Rightarrow> bytes option \<Rightarrow> contents \<Rightarrow> contents" where
  "set_file path v c = c\<lparr>c_files := (c_files c)(path := v)\<rparr>"

definition holds_or :: "bool \<Rightarrow> goerr \<Rightarrow> unit res" where
  "holds_or b e = (if b then Inr () else Inl e)"

definition no_error :: "goerr option \<Rightarrow> unit res" where
  "no_error e = (case e of None \<Rightarrow> Inr () | Some x \<Rightarrow> Inl x)"

definition sys :: "bytes \<Rightarrow> unit io" where
  "sys msg = ask (\<lambda>w t. holds_or (o_sys w t) (Other msg))"

definition point :: "unit io" where
  "point = ask (\<lambda>w t. no_error (o_point w t))"

definition ctx_err :: "unit io" where
  "ctx_err = ask (\<lambda>w t. no_error (o_ctx w t))"

section \<open>Weakest preconditions\<close>

named_theorems wps

text \<open>
  \<open>wp w I m Q c\<close>: started with contents \<open>c\<close>, the operation ends with \<open>Q\<close>, and \<open>I\<close> holds of all
  contents in between if it held at the start.
\<close>

definition throughout :: "(contents \<Rightarrow> bool) \<Rightarrow> disk \<Rightarrow> disk \<Rightarrow> bool" where
  "throughout I d d' \<longleftrightarrow> (\<exists>ps. d_past d' = ps @ d_past d \<and> list_all I ps) \<and> I (d_now d')"

definition wp :: "world \<Rightarrow> (contents \<Rightarrow> bool) \<Rightarrow> 'a io \<Rightarrow> ('a res \<Rightarrow> contents \<Rightarrow> bool) \<Rightarrow> contents \<Rightarrow> bool" where
  "wp w I m Q c \<longleftrightarrow>
     (\<forall>d. d_now d = c \<longrightarrow> I c \<longrightarrow> throughout I d (snd (m w d)) \<and> Q (fst (m w d)) (d_now (snd (m w d))))"

lemma throughout_refl: "I (d_now d) \<Longrightarrow> throughout I d d"
  by (simp add: throughout_def)

lemma throughout_trans: "throughout I d d' \<Longrightarrow> throughout I d' d'' \<Longrightarrow> throughout I d d''"
  by (auto simp: throughout_def)

lemma wpD:
  assumes "wp w I m Q c" and "d_now d = c" and "I c" and "m w d = (r, d')"
  shows "throughout I d d'" and "Q r (d_now d')"
  using assms by (auto simp: wp_def)

lemma wp_mono: "wp w I m Q c \<Longrightarrow> (\<And>r c. I c \<Longrightarrow> Q r c \<Longrightarrow> Q' r c) \<Longrightarrow> wp w I m Q' c"
  by (auto simp: wp_def throughout_def)

lemma case_InrI [wps]: "g x \<Longrightarrow> (case Inr x of Inl e \<Rightarrow> f e | Inr y \<Rightarrow> g y)"
  by simp

lemma case_InlI [wps]: "f e \<Longrightarrow> (case Inl e of Inl e \<Rightarrow> f e | Inr y \<Rightarrow> g y)"
  by simp

lemma wp_return [wps]: "Q (Inr x) c \<Longrightarrow> wp w I (io_return x) Q c"
  by (simp add: wp_def io_return_def throughout_refl)

lemma wp_fail [wps]: "Q (Inl e) c \<Longrightarrow> wp w I (io_fail e) Q c"
  by (simp add: wp_def io_fail_def throughout_refl)

lemma wp_ask: "(\<And>t. Q (f w t) c) \<Longrightarrow> wp w I (ask f) Q c"
  by (simp add: wp_def ask_def throughout_def)

lemma wp_look: "Q (f w c) c \<Longrightarrow> wp w I (look f) Q c"
  by (simp add: wp_def look_def throughout_refl)

lemma wp_change: "(I c \<Longrightarrow> I (f c)) \<Longrightarrow> Q (Inr ()) (f c) \<Longrightarrow> wp w I (change f) Q c"
  by (simp add: wp_def change_def throughout_def)

lemma wp_try:
  assumes "wp w I m (\<lambda>r c. wp w I (k r) Q c) c"
  shows "wp w I (io_try m k) Q c"
  unfolding wp_def
proof (intro allI impI)
  fix d :: disk
  assume d: "d_now d = c" "I c"
  obtain r d' where m: "m w d = (r, d')" by (cases "m w d")
  obtain r' d'' where k: "k r w d' = (r', d'')" by (cases "k r w d'")
  note t = wpD [OF assms d m]
  then have "I (d_now d')" by (simp add: throughout_def)
  note u = wpD [OF t(2) refl this k]
  show "throughout I d (snd (io_try m k w d)) \<and> Q (fst (io_try m k w d)) (d_now (snd (io_try m k w d)))"
    using throughout_trans [OF t(1) u(1)] u(2) by (simp add: io_try_def m k)
qed

lemma wp_then:
  assumes "wp w I m (\<lambda>r c. case r of Inl e \<Rightarrow> Q (Inl e) c | Inr x \<Rightarrow> wp w I (k x) Q c) c"
  shows "wp w I (io_then m k) Q c"
  unfolding io_then_def
  by (rule wp_try, rule wp_mono [OF assms]) (auto intro: wp_fail split: sum.splits)

lemma wp_finally [wps]:
  assumes "wp w I m (\<lambda>r c. wp w I fin (\<lambda>_ c. Q r c) c) c"
  shows "wp w I (io_finally m fin) Q c"
  unfolding io_finally_def
  by (rule wp_try, rule wp_mono [OF assms], rule wp_try, erule wp_mono)
    (auto intro: wp_fail wp_return split: sum.splits)

lemma holds_or_simps [simp]: "holds_or True e = Inr ()" "holds_or False e = Inl e"
  by (simp_all add: holds_or_def)

lemma no_error_simps [simp]: "no_error None = Inr ()" "no_error (Some e) = Inl e"
  by (simp_all add: no_error_def)

text \<open>A world in which nothing fails; one poll grants each lock.\<close>

definition calm :: "world \<Rightarrow> bool" where
  "calm w \<longleftrightarrow>
     (\<forall>t. \<not> o_absent w t \<and> o_open w t = None \<and> o_root w t \<and> (\<forall>p. o_safe w t p) \<and> o_sys w t \<and> o_point w t = None \<and>
        o_ctx w t = None \<and> o_polls w t = [(None, Granted)] \<and> o_obsolete w t = None \<and>
        snd (o_database w t) = None \<and> fst (o_delete w t) = None \<and> (\<forall>s. snd (o_ext w s t) = None) \<and>
        (\<exists>b. o_random w t = Some b))"

lemma calmD:
  "calm w \<Longrightarrow> \<not> o_absent w t" "calm w \<Longrightarrow> o_open w t = None" "calm w \<Longrightarrow> o_root w t" "calm w \<Longrightarrow> o_safe w t p"
  "calm w \<Longrightarrow> o_sys w t" "calm w \<Longrightarrow> o_point w t = None" "calm w \<Longrightarrow> o_ctx w t = None"
  "calm w \<Longrightarrow> o_polls w t = [(None, Granted)]" "calm w \<Longrightarrow> o_obsolete w t = None" "calm w \<Longrightarrow> fst (o_delete w t) = None"
  "calm w \<Longrightarrow> snd (o_database w t) = None" "calm w \<Longrightarrow> snd (o_ext w s t) = None" "calm w \<Longrightarrow> o_random w t \<noteq> None"
  by (simp_all add: calm_def)

text \<open>Steps of a sequence: a check, a look at the disk, and a change.\<close>

lemma wp_ask_holds:
  assumes "\<And>t. \<not> b w t \<Longrightarrow> Q (Inl e) c" and "\<And>t. b w t \<Longrightarrow> wp w I (k ()) Q c"
  shows "wp w I (io_then (ask (\<lambda>w t. holds_or (b w t) e)) k) Q c"
proof (rule wp_then, rule wp_ask)
  fix t
  show "case holds_or (b w t) e of Inl e \<Rightarrow> Q (Inl e) c | Inr x \<Rightarrow> wp w I (k x) Q c"
    using assms by (cases "b w t") auto
qed

lemma wp_check [wps]:
  assumes "\<And>t. calm w \<Longrightarrow> b w t" and "\<not> calm w \<Longrightarrow> Q (Inl e) c" and "wp w I (k ()) Q c"
  shows "wp w I (io_then (ask (\<lambda>w t. holds_or (b w t) e)) k) Q c"
  by (rule wp_ask_holds) (use assms in auto)

lemma wp_no_error [wps]:
  assumes "\<And>t. calm w \<Longrightarrow> f w t = None" and "\<And>e. \<not> calm w \<Longrightarrow> Q (Inl e) c" and "wp w I (k ()) Q c"
  shows "wp w I (io_then (ask (\<lambda>w t. no_error (f w t))) k) Q c"
proof (rule wp_then, rule wp_ask)
  fix t
  show "case no_error (f w t) of Inl e \<Rightarrow> Q (Inl e) c | Inr x \<Rightarrow> wp w I (k x) Q c"
    using assms(1) [of t] assms(2,3) by (cases "f w t") auto
qed

lemma wp_sys [wps]: "(\<not> calm w \<Longrightarrow> Q (Inl (Other msg)) c) \<Longrightarrow> wp w I (k ()) Q c \<Longrightarrow> wp w I (io_then (sys msg) k) Q c"
  unfolding sys_def by (rule wp_check) (simp_all add: calmD)

lemma wp_point [wps]: "(\<And>e. \<not> calm w \<Longrightarrow> Q (Inl e) c) \<Longrightarrow> wp w I (k ()) Q c \<Longrightarrow> wp w I (io_then point k) Q c"
  unfolding point_def by (rule wp_no_error) (simp_all add: calmD)

lemma wp_ctx [wps]: "(\<And>e. \<not> calm w \<Longrightarrow> Q (Inl e) c) \<Longrightarrow> wp w I (k ()) Q c \<Longrightarrow> wp w I (io_then ctx_err k) Q c"
  unfolding ctx_err_def by (rule wp_no_error) (simp_all add: calmD)

lemma io_then_assoc: "io_then (io_then m k) h = io_then m (\<lambda>x. io_then (k x) h)"
  by (rule ext)+ (auto simp: io_then_def io_try_def io_fail_def split: prod.splits sum.splits)

lemma io_then_return: "io_then (io_return x) k = k x"
  by (rule ext)+ (simp add: io_then_def io_try_def io_return_def)

lemma wp_assoc [wps]: "wp w I (io_then m (\<lambda>x. io_then (k x) h)) Q c \<Longrightarrow> wp w I (io_then (io_then m k) h) Q c"
  by (simp only: io_then_assoc)

lemma wp_return_then [wps]: "wp w I (k x) Q c \<Longrightarrow> wp w I (io_then (io_return x) k) Q c"
  by (simp only: io_then_return)

lemma wp_fail_then [wps]: "Q (Inl e) c \<Longrightarrow> wp w I (io_then (io_fail e) k) Q c"
  by (rule wp_then, rule wp_fail) simp

lemma wp_if_then [wps]:
  "(b \<Longrightarrow> wp w I (io_then m k) Q c) \<Longrightarrow> (\<not> b \<Longrightarrow> wp w I (io_then n k) Q c) \<Longrightarrow> wp w I (io_then (if b then m else n) k) Q c"
  by simp

lemma wp_finally_then [wps]:
  "wp w I m (\<lambda>r c. wp w I fin (\<lambda>_ c. case r of Inl e \<Rightarrow> Q (Inl e) c | Inr x \<Rightarrow> wp w I (k x) Q c) c) c \<Longrightarrow>
     wp w I (io_then (io_finally m fin) k) Q c"
  by (rule wp_then, rule wp_finally)

text \<open>An operation at the end of a sequence is one followed by a plain return.\<close>

lemma io_then_unit: "io_then m io_return = m"
  by (rule ext)+ (auto simp: io_then_def io_try_def io_fail_def io_return_def split: prod.splits sum.splits)

lemma wp_last: "wp w I (io_then m io_return) Q c \<Longrightarrow> wp w I m Q c"
  by (simp only: io_then_unit)

lemma wp_ask_then: "(\<And>e. Q (Inl e) c) \<Longrightarrow> (\<And>x. wp w I (k x) Q c) \<Longrightarrow> wp w I (io_then (ask f) k) Q c"
  by (rule wp_then, rule wp_ask) (simp split: sum.split)

lemma wp_look_then: "(case f w c of Inl e \<Rightarrow> Q (Inl e) c | Inr x \<Rightarrow> wp w I (k x) Q c) \<Longrightarrow> wp w I (io_then (look f) k) Q c"
  by (rule wp_then, rule wp_look)

lemma wp_change_then [wps]: "(I c \<Longrightarrow> I (f c)) \<Longrightarrow> wp w I (k ()) Q (f c) \<Longrightarrow> wp w I (io_then (change f) k) Q c"
  by (rule wp_then, rule wp_change) simp_all

lemma wp_if [wps]: "(b \<Longrightarrow> wp w I m Q c) \<Longrightarrow> (\<not> b \<Longrightarrow> wp w I n Q c) \<Longrightarrow> wp w I (if b then m else n) Q c"
  by simp

end
