(* ===== verification/Storage.thy ===== *)
theory Storage
  imports Disk
begin

text \<open>
  The installation directory (config/storage.go): opening, reading, publishing and removing
  owned files with every check and failure of the code, the identity read through them, and
  opening an installation.
\<close>

section \<open>Opening owned files\<close>

definition validRoot :: "unit io" where
  "validRoot = ask (\<lambda>w t. holds_or (o_root w t) (Sentinel Cfg_Stale))"

definition directory :: "unit io" where
  "directory = io_then validRoot (\<lambda>_. ask (\<lambda>w t. holds_or (o_sys w t) (Sentinel Cfg_Ownership)))"

definition splitOwned :: "bytes \<Rightarrow> unit io" where
  "splitOwned path = look (\<lambda>w c. holds_or (path \<in> set (ownedPaths (o_linux w))) (Sentinel Cfg_Ownership))"

definition in_directory :: "bytes \<Rightarrow> unit io" where
  "in_directory path = io_then (splitOwned path) (\<lambda>_. directory)"

definition sameNamed :: "bytes \<Rightarrow> goerr \<Rightarrow> unit io" where
  "sameNamed path e =
     io_then (look (\<lambda>w c. holds_or (c_files c path \<noteq> None) e))
       (\<lambda>_. ask (\<lambda>w t. holds_or (o_safe w t path) e))"

text \<open>\<open>openFile\<close>; with \<open>create\<close> a missing file is created empty.\<close>

definition openFile :: "bytes \<Rightarrow> bool \<Rightarrow> unit io" where
  "openFile path create =
     io_then (in_directory path) (\<lambda>_.
     io_then (ask (\<lambda>w t. holds_or (o_sys w t) (Sentinel Cfg_Ownership))) (\<lambda>_.
     io_then (look (\<lambda>w c. Inr (c_files c path = None))) (\<lambda>missing.
     io_then (if \<not> missing then io_return () else if create then change (set_file path (Some [])) else io_fail (Sentinel Os_NotExist)) (\<lambda>_.
     sameNamed path (Sentinel Cfg_Ownership)))))"

definition read :: "bytes \<Rightarrow> nat \<Rightarrow> bytes io" where
  "read path limit =
     io_then (openFile path False) (\<lambda>_.
     io_then (look (\<lambda>w c. Inr (case c_files c path of Some b \<Rightarrow> b | None \<Rightarrow> []))) (\<lambda>b.
     io_then (ask (\<lambda>w t. holds_or (o_sys w t \<and> length b \<le> limit) (Other ''persisted document exceeds limit''))) (\<lambda>_.
     io_then (sys ''cannot read bounded document'') (\<lambda>_.
     io_return b))))"

section \<open>Publishing and removing\<close>

text \<open>An owned file may be missing; another failure of opening it is passed on.\<close>

definition open_if_exists :: "bytes \<Rightarrow> bool io" where
  "open_if_exists path =
     io_try (openFile path False) (\<lambda>r.
       case r of
         Inr _ \<Rightarrow> io_return True
       | Inl e \<Rightarrow> if errors_is e Os_NotExist then io_return False else io_fail e)"

definition tmp_of :: "bytes \<Rightarrow> bytes" where
  "tmp_of path = path @ ''.tmp''"

definition write_tmp :: "bytes \<Rightarrow> bytes \<Rightarrow> unit io" where
  "write_tmp tmp b =
     io_then (ask (\<lambda>w t. Inr (if o_sys w t then None else Some (o_short w t)))) (\<lambda>short.
       case short of
         None \<Rightarrow> change (set_file tmp (Some b))
       | Some n \<Rightarrow> io_then (change (set_file tmp (Some (take n b)))) (\<lambda>_. io_fail (Other ''cannot write publication file'')))"

definition rename_file :: "bytes \<Rightarrow> bytes \<Rightarrow> unit io" where
  "rename_file old new = change (\<lambda>c. set_file old None (set_file new (c_files c old) c))"

definition publish_file :: "bytes \<Rightarrow> bytes \<Rightarrow> unit io" where
  "publish_file path b =
     io_then (write_tmp (tmp_of path) b) (\<lambda>_.
     io_then point (\<lambda>_.
     io_then (sys ''cannot sync publication file'') (\<lambda>_.
     io_then point (\<lambda>_.
     io_then validRoot (\<lambda>_.
     io_then (ask (\<lambda>w t. holds_or (o_root w t) (Sentinel Cfg_Stale))) (\<lambda>_.
     io_then (open_if_exists path) (\<lambda>_.
     io_then point (\<lambda>_.
     io_then (sys ''cannot publish document'') (\<lambda>_.
     io_then (rename_file (tmp_of path) path) (\<lambda>_.
     io_then point (\<lambda>_.
     io_then point (\<lambda>_.
     io_then (sys ''cannot sync publication directory'') (\<lambda>_.
     point)))))))))))))"

definition unlink_quietly :: "bytes \<Rightarrow> unit io" where
  "unlink_quietly path = io_then (sys ''unlink'') (\<lambda>_. change (set_file path None))"

definition replace :: "bytes \<Rightarrow> bytes \<Rightarrow> unit io" where
  "replace path b =
     io_then (in_directory path) (\<lambda>_.
     io_then (open_if_exists path) (\<lambda>_.
     io_then (open_if_exists (tmp_of path)) (\<lambda>stale.
     io_then (if stale then
         io_then (sameNamed (tmp_of path) (Sentinel Cfg_Stale)) (\<lambda>_.
         io_then (sys ''cannot recover publication sibling'') (\<lambda>_. change (set_file (tmp_of path) None)))
       else io_return ()) (\<lambda>_.
     io_then (sys ''cannot create publication file'') (\<lambda>_.
     io_then (change (set_file (tmp_of path) (Some []))) (\<lambda>_.
     io_finally (publish_file path b) (unlink_quietly (tmp_of path))))))))"

definition remove :: "bytes \<Rightarrow> unit io" where
  "remove path =
     io_then (in_directory path) (\<lambda>_.
     io_then (open_if_exists path) (\<lambda>there.
     if \<not> there then io_return ()
     else
       io_then (sameNamed path (Sentinel Cfg_Stale)) (\<lambda>_.
       io_then (ask (\<lambda>w t. holds_or (o_root w t) (Sentinel Cfg_Stale))) (\<lambda>_.
       io_then point (\<lambda>_.
       io_then (sys ''cannot remove owned document'') (\<lambda>_.
       io_then (change (set_file path None)) (\<lambda>_.
       io_then point (\<lambda>_.
       io_then point (\<lambda>_.
       io_then (sys ''cannot sync cleanup'') (\<lambda>_.
       point))))))))))"

section \<open>What the file operations do\<close>

definition owned :: "world \<Rightarrow> bytes \<Rightarrow> bool" where
  "owned w path \<longleftrightarrow> path \<in> set (ownedPaths (o_linux w))"

lemma wp_in_directory [wps]:
  assumes "\<And>s. \<not> (calm w \<and> owned w path) \<Longrightarrow> s \<noteq> Os_NotExist \<Longrightarrow> Q (Inl (Sentinel s)) c"
    and "owned w path \<Longrightarrow> wp w I (k ()) Q c"
  shows "wp w I (io_then (in_directory path) k) Q c"
proof (cases "owned w path")
  case True
  then have o: "path \<in> set (ownedPaths (o_linux w))" by (simp add: owned_def)
  show ?thesis
    unfolding in_directory_def splitOwned_def directory_def validRoot_def io_then_assoc
    by (rule wp_look_then, simp add: o, rule wp_check, erule calmD, rule assms(1), simp, simp,
        rule wp_check, erule calmD, rule assms(1), simp, simp, rule assms(2), rule True)
next
  case False
  then have o: "path \<notin> set (ownedPaths (o_linux w))" by (simp add: owned_def)
  show ?thesis
    unfolding in_directory_def splitOwned_def io_then_assoc
    by (rule wp_look_then) (simp add: o, rule assms(1), simp_all add: False)
qed

lemma wp_sameNamed [wps]:
  assumes "\<not> calm w \<Longrightarrow> Q (Inl e) c" and "c_files c path = None \<Longrightarrow> Q (Inl e) c"
    and "c_files c path \<noteq> None \<Longrightarrow> wp w I (k ()) Q c"
  shows "wp w I (io_then (sameNamed path e) k) Q c"
  unfolding sameNamed_def io_then_assoc
proof (rule wp_look_then, cases "c_files c path")
  case (Some b)
  have "wp w I (io_then (ask (\<lambda>w t. holds_or (o_safe w t path) e)) k) Q c"
    using assms Some by (intro wp_check) (simp_all add: calmD)
  with Some show "case holds_or (c_files c path \<noteq> None) e of Inl e \<Rightarrow> Q (Inl e) c
      | Inr x \<Rightarrow> wp w I (io_then (ask (\<lambda>w t. holds_or (o_safe w t path) e)) k) Q c" by simp
qed (simp add: assms(2))

lemma wp_openFile [wps]:
  assumes "\<And>s. \<not> (calm w \<and> owned w path) \<Longrightarrow> s \<noteq> Os_NotExist \<Longrightarrow> Q (Inl (Sentinel s)) c"
    and "c_files c path = None \<Longrightarrow> owned w path \<Longrightarrow> Q (Inl (Sentinel Os_NotExist)) c"
    and "c_files c path \<noteq> None \<Longrightarrow> owned w path \<Longrightarrow> wp w I (k ()) Q c"
  shows "wp w I (io_then (openFile path False) k) Q c"
  unfolding openFile_def io_then_assoc
  by (rule wp_in_directory, rule assms(1), assumption, assumption, rule wp_check, erule calmD, rule assms(1), simp, simp,
      rule wp_look_then, cases "c_files c path")
    (auto simp: io_then_return intro!: wp_then [OF wp_fail] wp_sameNamed assms)

lemma wp_open_create [wps]:
  assumes "\<And>s. \<not> (calm w \<and> owned w path) \<Longrightarrow> s \<noteq> Os_NotExist \<Longrightarrow> Q (Inl (Sentinel s)) c"
    and "\<And>s. \<not> calm w \<Longrightarrow> s \<noteq> Os_NotExist \<Longrightarrow> c_files c path = None \<Longrightarrow> Q (Inl (Sentinel s)) (set_file path (Some []) c)"
    and "I c \<Longrightarrow> c_files c path = None \<Longrightarrow> I (set_file path (Some []) c)"
    and "c_files c path = None \<Longrightarrow> owned w path \<Longrightarrow> wp w I (k ()) Q (set_file path (Some []) c)"
    and "c_files c path \<noteq> None \<Longrightarrow> owned w path \<Longrightarrow> wp w I (k ()) Q c"
  shows "wp w I (io_then (openFile path True) k) Q c"
  unfolding openFile_def io_then_assoc
  by (rule wp_in_directory, rule assms(1), assumption, assumption, rule wp_check, erule calmD, rule assms(1), simp, simp,
      rule wp_look_then, cases "c_files c path")
    (auto simp: io_then_return set_file_def intro!: wp_change_then wp_sameNamed assms [unfolded set_file_def])

lemma wp_open_if_exists [wps]:
  assumes "\<And>e. \<not> (calm w \<and> owned w path) \<Longrightarrow> Q (Inl e) c" and "owned w path \<Longrightarrow> wp w I (k (c_files c path \<noteq> None)) Q c"
  shows "wp w I (io_then (open_if_exists path) k) Q c"
  unfolding open_if_exists_def
  by (rule wp_then, rule wp_try, rule wp_last, rule wp_openFile)
    (use assms in \<open>auto intro!: wp_fail wp_return\<close>)

text \<open>The contents that differ from \<open>c\<close> at most in a temporary file.\<close>

definition but_for :: "bytes \<Rightarrow> contents \<Rightarrow> contents \<Rightarrow> bool" where
  "but_for tmp c c' \<longleftrightarrow> (\<exists>v. c' = set_file tmp v c)"

lemma set_file_simps [simp]:
  "set_file p u (set_file p v c) = set_file p u c" "c_files (set_file p v c) = (c_files c)(p := v)"
  "c_keys (set_file p v c) = c_keys c"
  by (simp_all add: set_file_def)

lemma set_file_commute: "p \<noteq> q \<Longrightarrow> set_file p u (set_file q v c) = set_file q v (set_file p u c)"
  by (simp add: set_file_def fun_upd_twist)

lemma set_file_id [simp]: "set_file p (c_files c p) c = c"
  by (simp add: set_file_def)

lemma but_for_refl [simp]: "but_for tmp c c"
  unfolding but_for_def by (rule exI [of _ "c_files c tmp"]) simp

lemma but_for_set [simp]: "but_for tmp c (set_file tmp v c') \<longleftrightarrow> but_for tmp c c'"
proof
  assume "but_for tmp c (set_file tmp v c')"
  then obtain u where "set_file tmp v c' = set_file tmp u c" by (auto simp: but_for_def)
  then have "set_file tmp (c_files c' tmp) (set_file tmp v c') = set_file tmp (c_files c' tmp) (set_file tmp u c)" by simp
  then show "but_for tmp c c'" by (auto simp: but_for_def)
qed (auto simp: but_for_def)

lemma tmp_neq [simp]: "tmp_of p \<noteq> p" "p \<noteq> tmp_of p"
  by (simp_all add: tmp_of_def)

lemma wp_write_tmp [wps]:
  assumes "\<And>v. I c \<Longrightarrow> I (set_file tmp v c)" and "\<And>e v. \<not> calm w \<Longrightarrow> Q (Inl e) (set_file tmp v c)"
    and "wp w I (k ()) Q (set_file tmp (Some b) c)"
  shows "wp w I (io_then (write_tmp tmp b) k) Q c"
  unfolding write_tmp_def io_then_assoc
proof (rule wp_then, rule wp_ask)
  fix t
  show "case Inr (if o_sys w t then None else Some (o_short w t)) of Inl e \<Rightarrow> Q (Inl e) c
      | Inr short \<Rightarrow> wp w I (io_then (case short of None \<Rightarrow> change (set_file tmp (Some b))
          | Some n \<Rightarrow> io_then (change (set_file tmp (Some (take n b)))) (\<lambda>_. io_fail (Other ''cannot write publication file''))) k) Q c"
  proof (cases "o_sys w t")
    case True
    then show ?thesis using assms by (auto intro!: wp_change_then)
  next
    case False
    then have "\<not> calm w" by (auto dest: calmD)
    with False show ?thesis using assms(1,2)
      by (auto simp: io_then_assoc intro!: wp_change_then wp_then [OF wp_fail])
  qed
qed

lemma wp_publish_file:
  assumes "but_for (tmp_of path) c0 c"
    and inv: "\<And>c. but_for (tmp_of path) c0 c \<or> but_for (tmp_of path) (set_file path (Some b) c0) c \<Longrightarrow> I c"
    and err: "\<And>e c. \<not> (calm w \<and> owned w path) \<Longrightarrow>
      but_for (tmp_of path) c0 c \<or> but_for (tmp_of path) (set_file path (Some b) c0) c \<Longrightarrow> Q (Inl e) c"
    and ok: "\<And>c. but_for (tmp_of path) (set_file path (Some b) c0) c \<Longrightarrow> Q (Inr ()) c"
  shows "wp w I (publish_file path b) Q c"
proof -
  have moved: "but_for (tmp_of path) (set_file path (Some b) c0) (set_file path (Some b) (set_file (tmp_of path) v c))" for v
    using assms(1) by (auto simp: but_for_def set_file_commute)
  show ?thesis
    by (rule wp_last, unfold publish_file_def rename_file_def validRoot_def io_then_assoc, intro wps)
      (use assms(1) moved in \<open>auto simp: calmD intro!: inv err ok\<close>)
qed

lemma wp_unlink_quietly:
  assumes "I c \<Longrightarrow> I (set_file p None c)" and "\<And>r. Q r c" and "\<And>r. Q r (set_file p None c)"
  shows "wp w I (unlink_quietly p) Q c"
  by (rule wp_last, unfold unlink_quietly_def io_then_assoc, intro wps) (rule assms; assumption?)+

text \<open>Publishing: the old contents or the new ones, up to the temporary file.\<close>

lemma wp_replace [wps]:
  fixes path b c
  defines "before \<equiv> but_for (tmp_of path) c" and "after \<equiv> but_for (tmp_of path) (set_file path (Some b) c)"
  assumes inv: "\<And>c'. before c' \<or> after c' \<Longrightarrow> I c'"
    and err: "\<And>e c'. \<not> (calm w \<and> owned w path \<and> owned w (tmp_of path)) \<Longrightarrow> before c' \<or> after c' \<Longrightarrow> Q (Inl e) c'"
    and ok: "\<And>c'. after c' \<Longrightarrow> owned w path \<Longrightarrow> wp w I (k ()) Q c'"
  shows "wp w I (io_then (replace path b) k) Q c"
proof -
  have 1: "before (set_file (tmp_of path) v c') \<longleftrightarrow> before c'" "after (set_file (tmp_of path) v c') \<longleftrightarrow> after c'" "before c" for v c'
    by (simp_all add: before_def after_def)
  show ?thesis
    by (unfold replace_def, intro wps wp_publish_file [where ?c0.0 = c] wp_unlink_quietly)
      (auto simp: calmD 1 simp flip: before_def after_def intro!: inv err ok split: sum.split)
qed

lemma wp_remove [wps]:
  assumes inv: "I c \<Longrightarrow> I (set_file path None c)"
    and err: "\<And>e c'. \<not> (calm w \<and> owned w path) \<Longrightarrow> c' = c \<or> c' = set_file path None c \<Longrightarrow> Q (Inl e) c'"
    and ok: "owned w path \<Longrightarrow> wp w I (k ()) Q (set_file path None c)"
  shows "wp w I (io_then (remove path) k) Q c"
proof -
  have "set_file path None c = c" if "c_files c path = None" using that set_file_id [of path c] by simp
  then show ?thesis
    by (unfold remove_def, intro wps) (use ok in \<open>auto simp: calmD intro!: inv err\<close>)
qed

text \<open>A missing file is told apart from every other failure to read one.\<close>

definition file_error :: "goerr \<Rightarrow> bool" where
  "file_error e \<longleftrightarrow> \<not> errors_is e Os_NotExist"

lemma file_error_simps [simp]: "file_error (Sentinel s) \<longleftrightarrow> s \<noteq> Os_NotExist" "file_error (Other msg)"
  by (simp_all add: file_error_def)

lemma wp_read [wps]:
  assumes err: "\<And>e. \<not> (calm w \<and> owned w path \<and> (\<forall>b. c_files c path = Some b \<longrightarrow> length b \<le> limit)) \<Longrightarrow> file_error e \<Longrightarrow> Q (Inl e) c"
    and missing: "c_files c path = None \<Longrightarrow> owned w path \<Longrightarrow> Q (Inl (Sentinel Os_NotExist)) c"
    and ok: "\<And>b. c_files c path = Some b \<Longrightarrow> length b \<le> limit \<Longrightarrow> owned w path \<Longrightarrow> wp w I (k b) Q c"
  shows "wp w I (io_then (read path limit) k) Q c"
proof -
  have "wp w I (io_then (ask (\<lambda>w t. holds_or (o_sys w t \<and> length b \<le> limit) (Other ''persisted document exceeds limit'')))
      (\<lambda>_. io_then (sys ''cannot read bounded document'') (\<lambda>_. k b))) Q c"
    if "c_files c path = Some b" "owned w path" for b
    by (rule wp_ask_holds, rule err) (use that in \<open>auto simp: calmD intro!: wps err ok\<close>)
  then show ?thesis
    by (unfold read_def, intro wp_assoc wp_openFile wp_look_then) (auto simp: io_then_assoc io_then_return intro!: err missing)
qed

section \<open>The identity on disk\<close>

definition readIdentity :: "root \<Rightarrow> (bytes \<times> bool) io" where
  "readIdentity rt =
     io_try (read ''installation.json'' 8192) (\<lambda>r.
       case r of
         Inr b \<Rightarrow> io_return (b, False)
       | Inl e \<Rightarrow>
           if \<not> errors_is e Os_NotExist then io_fail e
           else
             io_then (read ''purge.json'' 8192) (\<lambda>b.
             io_then (look (\<lambda>w c. case decodeIdentity (o_sha w) (o_linux w) rt b of
                 Inl _ \<Rightarrow> Inl (Sentinel Cfg_Ownership)
               | Inr i \<Rightarrow> holds_or (i_purging i) (Sentinel Cfg_Ownership))) (\<lambda>_.
             io_return (b, True))))"

definition decode_io :: "root \<Rightarrow> bytes \<Rightarrow> inst io" where
  "decode_io rt b = look (\<lambda>w c. decodeIdentity (o_sha w) (o_linux w) rt b)"

definition writeIdentity :: "inst \<Rightarrow> unit io" where
  "writeIdentity i = replace ''installation.json'' (encodeIdentity i)"

text \<open>The identity that governs the installation: its document, or else the final receipt.\<close>

definition doc :: "world \<Rightarrow> root \<Rightarrow> contents \<Rightarrow> bytes \<Rightarrow> inst option" where
  "doc w rt c path =
     (case c_files c path of
        None \<Rightarrow> None
      | Some b \<Rightarrow> (case decodeIdentity (o_sha w) (o_linux w) rt b of Inl _ \<Rightarrow> None | Inr i \<Rightarrow> Some i))"

lemma json_owned [simp]:
  "owned w ''installation.json''" "owned w ''purge.json''" "owned w (tmp_of ''installation.json'')" "owned w (tmp_of ''purge.json'')"
  "owned w ''lifecycle.lock''" "owned w ''state-gate.lock''" "owned w ''state.lock''" "owned w ''purge.json.tmp''"
  by (simp_all add: owned_def ownedPaths_def tmp_of_def)

definition readable :: "contents \<Rightarrow> bytes \<Rightarrow> bool" where
  "readable c path \<longleftrightarrow> (\<forall>b. c_files c path = Some b \<longrightarrow> length b \<le> 8192)"

definition governed :: "world \<Rightarrow> root \<Rightarrow> contents \<Rightarrow> bool" where
  "governed w rt c \<longleftrightarrow> readable c ''installation.json'' \<and>
     (c_files c ''installation.json'' = None \<longrightarrow>
        readable c ''purge.json'' \<and> (\<exists>i. doc w rt c ''purge.json'' = Some i \<and> i_purging i))"

lemma wp_readIdentity [wps]:
  assumes err: "\<And>e. \<not> (calm w \<and> governed w rt c) \<Longrightarrow>
      file_error e \<or> c_files c ''installation.json'' = None \<and> c_files c ''purge.json'' = None \<Longrightarrow> Q (Inl e) c"
    and installed: "\<And>b. c_files c ''installation.json'' = Some b \<Longrightarrow> wp w I (k (b, False)) Q c"
    and receipt: "\<And>b i. c_files c ''installation.json'' = None \<Longrightarrow> c_files c ''purge.json'' = Some b \<Longrightarrow>
        doc w rt c ''purge.json'' = Some i \<Longrightarrow> i_purging i \<Longrightarrow> wp w I (k (b, True)) Q c"
  shows "wp w I (io_then (readIdentity rt) k) Q c"
  unfolding readIdentity_def
proof (rule wp_then, rule wp_try, rule wp_last, rule wp_read)
  let ?Q = "\<lambda>r c. case r of Inl e \<Rightarrow> Q (Inl e) c | Inr x \<Rightarrow> wp w I (k x) Q c"
  let ?other = "io_then (read ''purge.json'' 8192) (\<lambda>b.
             io_then (look (\<lambda>w c. case decodeIdentity (o_sha w) (o_linux w) rt b of
                 Inl _ \<Rightarrow> Inl (Sentinel Cfg_Ownership)
               | Inr i \<Rightarrow> holds_or (i_purging i) (Sentinel Cfg_Ownership))) (\<lambda>_.
             io_return (b, True)))"
  let ?handle = "\<lambda>r. case r of Inr b \<Rightarrow> io_return (b, False)
       | Inl e \<Rightarrow> if \<not> errors_is e Os_NotExist then io_fail e else ?other"
  show "wp w I (?handle (Inl e)) ?Q c"
    if "\<not> (calm w \<and> owned w ''installation.json'' \<and> (\<forall>b. c_files c ''installation.json'' = Some b \<longrightarrow> length b \<le> 8192))"
      "file_error e" for e
    using that err [of e] by (auto simp: file_error_def governed_def readable_def intro!: wp_fail)
  show "wp w I (io_return b) (\<lambda>r. wp w I (?handle r) ?Q) c" if "c_files c ''installation.json'' = Some b" for b
    using installed [OF that] by (auto intro!: wp_return)
  show "wp w I (?handle (Inl (Sentinel Os_NotExist))) ?Q c" if none: "c_files c ''installation.json'' = None"
  proof -
    have "wp w I ?other ?Q c"
    proof (rule wp_read)
      show "?Q (Inl e) c"
        if "\<not> (calm w \<and> owned w ''purge.json'' \<and> (\<forall>b. c_files c ''purge.json'' = Some b \<longrightarrow> length b \<le> 8192))" "file_error e" for e
        using that none err [of e] by (auto simp: governed_def readable_def)
      show "?Q (Inl (Sentinel Os_NotExist)) c" if "c_files c ''purge.json'' = None"
        using that none err [of "Sentinel Os_NotExist"] by (auto simp: governed_def doc_def)
      show "wp w I (io_then (look (\<lambda>w c. case decodeIdentity (o_sha w) (o_linux w) rt b of
                 Inl _ \<Rightarrow> Inl (Sentinel Cfg_Ownership)
               | Inr i \<Rightarrow> holds_or (i_purging i) (Sentinel Cfg_Ownership))) (\<lambda>_. io_return (b, True))) ?Q c"
        if b: "c_files c ''purge.json'' = Some b" for b
      proof (rule wp_look_then)
        show "case case decodeIdentity (o_sha w) (o_linux w) rt b of Inl _ \<Rightarrow> Inl (Sentinel Cfg_Ownership)
               | Inr i \<Rightarrow> holds_or (i_purging i) (Sentinel Cfg_Ownership) of
            Inl e \<Rightarrow> ?Q (Inl e) c | Inr x \<Rightarrow> wp w I (io_return (b, True)) ?Q c"
        proof (cases "\<exists>i. decodeIdentity (o_sha w) (o_linux w) rt b = Inr i \<and> i_purging i")
          case True
          with b receipt [OF none b] show ?thesis by (auto simp: doc_def intro!: wp_return)
        next
          case False
          then have "\<not> governed w rt c" using none b by (auto simp: governed_def doc_def split: sum.splits)
          with err [of "Sentinel Cfg_Ownership"] False show ?thesis
            by (auto simp: holds_or_def split: sum.split)
        qed
      qed
    qed
    then show ?thesis by simp
  qed
qed

end
