(* ===== verification/Installation.thy ===== *)
theory Installation
  imports Storage
begin

text \<open>
  Opening an installation and the leases on it (config/storage.go, locks.go, lifecycle.go,
  cleanup.go): file locks, the verification every lease operation makes, initialisation,
  lifecycle leases and the operations they guard.  A handle is the name of its file; whether
  the name still refers to it is asked of the world.  The effects on other processes of the
  locks themselves are the subject of theory Leases.
\<close>

section \<open>Stores and locks\<close>

record store =
  st_root :: root
  st_id :: inst
  st_terminal :: bool

text \<open>Polling a file lock; a context that outlives the given polls ends the wait.\<close>

fun poll_lock :: "(goerr option \<times> poll) list \<Rightarrow> unit res" where
  "poll_lock [] = Inl (Sentinel Ctx_Canceled)"
| "poll_lock ((Some e, _) # ps) = Inl e"
| "poll_lock ((None, Granted) # ps) = Inr ()"
| "poll_lock ((None, Broken) # ps) = Inl (Other ''cannot acquire installation lock'')"
| "poll_lock ((None, Busy) # ps) = poll_lock ps"

definition verifyLock :: "bytes \<Rightarrow> unit io" where
  "verifyLock path = io_then (in_directory path) (\<lambda>_. sameNamed path (Sentinel Cfg_Stale))"

definition lock :: "bytes \<Rightarrow> bool \<Rightarrow> unit io" where
  "lock path create =
     io_then (openFile path create) (\<lambda>_.
     io_then point (\<lambda>_.
     io_then (ask (\<lambda>w t. poll_lock (o_polls w t))) (\<lambda>_.
     verifyLock path)))"

text \<open>\<open>rwQueue.acquire\<close> fails only by its context.\<close>

definition queue :: "unit io" where
  "queue = ctx_err"

definition verifyIdentity :: "store \<Rightarrow> unit io" where
  "verifyIdentity s =
     io_try (io_then (readIdentity (st_root s)) (\<lambda>(b, _). decode_io (st_root s) b)) (\<lambda>r.
       case r of
         Inl _ \<Rightarrow> io_fail (Sentinel Cfg_Stale)
       | Inr i \<Rightarrow>
           if i_id i \<noteq> i_id (st_id s) then io_fail (Sentinel Cfg_Stale)
           else if i_purging i then io_fail (Sentinel Cfg_Purging)
           else if i_pending i then io_fail (Sentinel Cfg_Pending)
           else if \<not> i_established i then io_fail (Sentinel Cfg_Stale)
           else io_return ())"

section \<open>Leases\<close>

text \<open>A lease: its parent, the lock files it holds, what it permits, whether it is released.\<close>

datatype lease =
  Lease (l_parent: "lease option") (l_held: "bytes list") (l_write: bool) (l_purge: bool) (l_released: bool)

fun check_held :: "bytes list \<Rightarrow> unit io" where
  "check_held [] = io_return ()"
| "check_held (p # ps) = io_then (verifyLock p) (\<lambda>_. check_held ps)"

definition check_identity :: "store \<Rightarrow> bool \<Rightarrow> unit io" where
  "check_identity s purge =
     io_try (verifyIdentity s) (\<lambda>r.
       case r of
         Inr _ \<Rightarrow> io_return ()
       | Inl e \<Rightarrow> if purge \<and> (errors_is e Cfg_Purging \<or> errors_is e Cfg_Pending) then io_return () else io_fail e)"

fun check :: "store \<Rightarrow> lease \<Rightarrow> unit io" where
  "check s (Lease parent held wr purge released) =
     io_then (case parent of None \<Rightarrow> io_return () | Some p \<Rightarrow> check s p) (\<lambda>_.
     if released then io_fail (Sentinel Cfg_Stale)
     else io_then (check_held held) (\<lambda>_. check_identity s purge))"

declare check.simps [simp del]

definition lifecycle_lock :: bytes where "lifecycle_lock = ''lifecycle.lock''"
definition gate_lock :: bytes where "gate_lock = ''state-gate.lock''"
definition state_lock :: bytes where "state_lock = ''state.lock''"

text \<open>\<open>Store.acquire\<close>.\<close>

definition acquire :: "store \<Rightarrow> bool \<Rightarrow> bool \<Rightarrow> lease io" where
  "acquire s wr purge =
     io_then (if purge then io_then queue (\<lambda>_. lock lifecycle_lock False) else io_return ()) (\<lambda>_.
     io_then queue (\<lambda>_.
     io_then (lock gate_lock False) (\<lambda>_.
     io_then (lock state_lock False) (\<lambda>_.
     (let held = (if purge then [lifecycle_lock] else []) @ [gate_lock, state_lock] in
      io_then (check s (Lease None held wr purge False)) (\<lambda>_.
      io_then ctx_err (\<lambda>_.
      io_return (Lease None (if wr then held else filter (\<lambda>p. p \<noteq> gate_lock) held) wr purge False))))))))"

definition lease_read :: "store \<Rightarrow> lease \<Rightarrow> bytes \<Rightarrow> nat \<Rightarrow> bytes io" where
  "lease_read s l path limit =
     io_then (check s l) (\<lambda>_.
     if limit < 1 \<or> 8388608 < limit then io_fail (Sentinel Cfg_Ownership) else read path limit)"

definition lease_replace :: "store \<Rightarrow> lease \<Rightarrow> bytes \<Rightarrow> bytes \<Rightarrow> unit io" where
  "lease_replace s l path b =
     (if \<not> l_write l \<or> path \<noteq> ''known_hosts'' \<or> 8388608 < length b then io_fail (Sentinel Cfg_Ownership)
      else io_then (check s l) (\<lambda>_. replace path b))"

definition lease_remove :: "store \<Rightarrow> lease \<Rightarrow> bytes \<Rightarrow> unit io" where
  "lease_remove s l path =
     (if \<not> l_write l \<or> trim_suffix path ''.tmp'' \<notin> {''data-mate.db'', ''data-mate.db-journal'', ''known_hosts''}
      then io_fail (Sentinel Cfg_Ownership)
      else io_then (check s l) (\<lambda>_. remove path))"

definition BeginPurge :: "store \<Rightarrow> lease \<Rightarrow> store io" where
  "BeginPurge s l =
     (if \<not> l_purge l then io_fail (Sentinel Cfg_Ownership)
      else
        io_then (check s l) (\<lambda>_.
        (let i = (st_id s)\<lparr>i_purging := True\<rparr> in
         io_then (replace ''installation.json'' (encodeIdentity i)) (\<lambda>_.
         io_return (s\<lparr>st_id := i\<rparr>)))))"

section \<open>Opening\<close>

definition openExisting :: "root \<Rightarrow> bool \<Rightarrow> store io" where
  "openExisting rt cleanup =
     io_then ctx_err (\<lambda>_.
     io_then (ask (\<lambda>w t. holds_or (\<not> (Kind (rt_env rt) = ''production'' \<and> o_absent w t)) (Sentinel Os_NotExist))) (\<lambda>_.
     io_then (look (\<lambda>w c. holds_or (is_ok (validateRoot (o_sha w) rt)) (Sentinel Cfg_Ownership))) (\<lambda>_.
     io_then (ask (\<lambda>w t. no_error (o_open w t))) (\<lambda>_.
     io_then validRoot (\<lambda>_.
     io_then (readIdentity rt) (\<lambda>(raw, terminal).
     io_then (decode_io rt raw) (\<lambda>i.
     if i_pending i \<and> \<not> cleanup then io_fail (Sentinel Cfg_Pending)
     else if i_purging i \<and> \<not> cleanup then io_fail (Sentinel Cfg_Purging)
     else io_return \<lparr>st_root = rt, st_id = i, st_terminal = terminal\<rparr>)))))))"

definition initializeDatabase :: "unit io" where
  "initializeDatabase =
     io_then queue (\<lambda>_.
     io_then (lock gate_lock False) (\<lambda>_.
     io_then (lock state_lock False) (\<lambda>_.
     io_then (ask (\<lambda>w t. Inr (o_database w t))) (\<lambda>((db, journal), e).
     io_then (change (\<lambda>c. set_file ''data-mate.db'' db (set_file ''data-mate.db-journal'' journal c))) (\<lambda>_.
     ask (\<lambda>w t. no_error e))))))"

text \<open>The identity that \<open>Open\<close> makes for a fresh installation, and the upgraded one.\<close>

definition fresh_inst :: "world \<Rightarrow> root \<Rightarrow> bytes \<Rightarrow> inst" where
  "fresh_inst w rt ident =
     \<lparr>i_version = 3, i_env = Kind (rt_env rt), i_id = ident, i_root = rt_digest rt, i_established = False,
      i_purging = False, i_pending = False, i_owned = ownedPaths (o_linux w),
      i_key = o_sha w (rt_digest rt @ '':'' @ ident), i_exe = []\<rparr>"

definition upgraded :: "bool \<Rightarrow> root \<Rightarrow> inst \<Rightarrow> inst" where
  "upgraded linux rt i = i\<lparr>i_version := 3, i_env := Kind (rt_env rt), i_owned := ownedPaths linux\<rparr>"

definition new_identity :: "root \<Rightarrow> inst io" where
  "new_identity rt =
     io_then (ask (\<lambda>w t. holds_or (o_sys w t) (Sentinel Cfg_Ownership))) (\<lambda>_.
     io_then (look (\<lambda>w c. holds_or (c_files c ''data-mate.db'' = None) (Sentinel Cfg_Ownership))) (\<lambda>_.
     io_then (ask (\<lambda>w t. NewID (o_random w t))) (\<lambda>ident.
     io_then (look (\<lambda>w c. Inr (fresh_inst w rt ident))) (\<lambda>i.
     io_then (writeIdentity i) (\<lambda>_. io_return i)))))"

definition known_identity :: "root \<Rightarrow> bytes \<Rightarrow> inst io" where
  "known_identity rt raw =
     io_then (decode_io rt raw) (\<lambda>i.
     io_then (look (\<lambda>w c. Inr (o_linux w))) (\<lambda>linux.
     if i_version i = 2 \<or> i_owned i \<noteq> ownedPaths linux then
       io_then (writeIdentity (upgraded linux rt i)) (\<lambda>_. io_return (upgraded linux rt i))
     else io_return i))"

definition establish :: "inst \<Rightarrow> inst io" where
  "establish i =
     (if i_purging i then io_return i
      else
        io_then (ask (\<lambda>w t. Inr (o_sys w t))) (\<lambda>answered.
        io_then (look (\<lambda>w c. Inr (c_files c ''data-mate.db-journal'' \<noteq> None))) (\<lambda>journal.
        io_then (if \<not> i_established i \<or> journal \<or> \<not> answered then initializeDatabase else io_return ()) (\<lambda>_.
        if \<not> i_established i then
          io_then (writeIdentity (i\<lparr>i_established := True\<rparr>)) (\<lambda>_. io_return (i\<lparr>i_established := True\<rparr>))
        else io_return i))))"

text \<open>\<open>Open\<close>, with the lifecycle lock held from its acquisition to the end.\<close>

definition Open :: "root \<Rightarrow> store io" where
  "Open rt =
     io_then ctx_err (\<lambda>_.
     io_then (look (\<lambda>w c. holds_or (is_ok (validateRoot (o_sha w) rt)) (Sentinel Cfg_Ownership))) (\<lambda>_.
     io_then (ask (\<lambda>w t. no_error (o_open w t))) (\<lambda>_.
     io_then (ask (\<lambda>w t. holds_or (o_sys w t) (Sentinel Cfg_Ownership))) (\<lambda>_.
     io_then (ask (\<lambda>w t. no_error (o_obsolete w t))) (\<lambda>_.
     io_then (sys ''cannot sync installation root'') (\<lambda>_.
     io_then queue (\<lambda>_.
     io_then (io_try (read ''installation.json'' 8192) (\<lambda>r.
       case r of
         Inr _ \<Rightarrow> io_return False
       | Inl e \<Rightarrow> if errors_is e Os_NotExist then io_return True else io_fail e)) (\<lambda>absent.
     io_then (lock lifecycle_lock absent) (\<lambda>_.
     io_then (io_try (read ''purge.json'' 8192) (\<lambda>r.
       case r of
         Inr _ \<Rightarrow> io_fail (Sentinel Cfg_Purging)
       | Inl e \<Rightarrow> if errors_is e Os_NotExist then io_return () else io_fail e)) (\<lambda>_.
     io_then (io_try (read ''installation.json'' 8192) (\<lambda>r.
       case r of
         Inr raw \<Rightarrow> known_identity rt raw
       | Inl e \<Rightarrow> if errors_is e Os_NotExist then new_identity rt else io_fail e)) (\<lambda>i.
     io_then (openFile gate_lock (\<not> i_established i)) (\<lambda>_.
     io_then (openFile state_lock (\<not> i_established i)) (\<lambda>_.
     io_then directory (\<lambda>_.
     io_then (sys ''cannot sync lock directory'') (\<lambda>_.
     io_then (establish i) (\<lambda>i.
     io_return \<lparr>st_root = rt, st_id = i, st_terminal = False\<rparr>))))))))))))))))"

section \<open>What a lease verifies\<close>

definition opened :: "bytes \<Rightarrow> bool \<Rightarrow> contents \<Rightarrow> contents" where
  "opened path create c = (if create \<and> c_files c path = None then set_file path (Some []) c else c)"

lemma wp_verifyLock [wps]:
  assumes "\<And>e. \<not> (calm w \<and> owned w path \<and> c_files c path \<noteq> None) \<Longrightarrow> Q (Inl e) c"
    and "owned w path \<Longrightarrow> c_files c path \<noteq> None \<Longrightarrow> wp w I (k ()) Q c"
  shows "wp w I (io_then (verifyLock path) k) Q c"
  by (unfold verifyLock_def, intro wps) (use assms in auto)

lemma wp_polls:
  assumes "\<And>e. \<not> calm w \<Longrightarrow> Q (Inl e) c" and "wp w I (k ()) Q c"
  shows "wp w I (io_then (ask (\<lambda>w t. poll_lock (o_polls w t))) k) Q c"
proof (rule wp_then, rule wp_ask)
  fix t
  have "calm w \<Longrightarrow> poll_lock (o_polls w t) = Inr ()" by (simp add: calmD)
  then show "case poll_lock (o_polls w t) of Inl e \<Rightarrow> Q (Inl e) c | Inr x \<Rightarrow> wp w I (k x) Q c"
    using assms by (cases "calm w") (auto split: sum.split)
qed

lemma wp_lock [wps]:
  assumes err: "\<And>e c'. \<not> (calm w \<and> owned w path \<and> (create \<or> c_files c path \<noteq> None)) \<Longrightarrow> c' = c \<or> c' = opened path create c \<Longrightarrow> Q (Inl e) c'"
    and inv: "I c \<Longrightarrow> I (opened path create c)"
    and ok: "c_files (opened path create c) path \<noteq> None \<Longrightarrow> owned w path \<Longrightarrow> wp w I (k ()) Q (opened path create c)"
  shows "wp w I (io_then (lock path create) k) Q c"
proof (cases create)
  case True
  then show ?thesis
    by (unfold lock_def, simp only: True) (intro wps wp_polls, use err inv ok True in \<open>auto simp: opened_def\<close>)
next
  case False
  then show ?thesis
    by (unfold lock_def, simp only: False) (intro wps wp_polls, use err inv ok False in \<open>auto simp: opened_def\<close>)
qed

text \<open>The identity that governs the root: the document, or else a final receipt.\<close>

definition gov :: "world \<Rightarrow> root \<Rightarrow> contents \<Rightarrow> inst option" where
  "gov w rt c =
     (if c_files c ''installation.json'' \<noteq> None then doc w rt c ''installation.json''
      else (case doc w rt c ''purge.json'' of Some i \<Rightarrow> if i_purging i then Some i else None | None \<Rightarrow> None))"

lemma doc_readable: "doc w rt c path = Some i \<Longrightarrow> readable c path"
  by (auto simp: doc_def readable_def decodeIdentity_iff DecodeStrict_iff split: option.splits sum.splits)

lemma gov_governed: "gov w rt c = Some i \<Longrightarrow> governed w rt c"
  by (auto simp: gov_def governed_def readable_def dest: doc_readable split: if_splits option.splits)

lemma doc_checks: "doc w rt c path = Some i \<Longrightarrow> inst_checks (o_sha w) (o_linux w) rt i"
  by (auto simp: doc_def dest: decodeIdentity_checks split: option.splits sum.splits)

lemma gov_checks: "gov w rt c = Some i \<Longrightarrow> inst_checks (o_sha w) (o_linux w) rt i"
  by (auto simp: gov_def dest: doc_checks split: if_splits option.splits)

lemma wp_decode_io:
  assumes "\<And>e. decodeIdentity (o_sha w) (o_linux w) rt b = Inl e \<Longrightarrow> file_error e \<Longrightarrow> Q (Inl e) c"
    and "\<And>i. decodeIdentity (o_sha w) (o_linux w) rt b = Inr i \<Longrightarrow> wp w I (k i) Q c"
  shows "wp w I (io_then (decode_io rt b) k) Q c"
  unfolding decode_io_def
  by (rule wp_look_then) (use assms decodeIdentity_fails in \<open>fastforce split: sum.split\<close>)

text \<open>Reading and decoding the identity finds the governing one.\<close>

lemma wp_read_decode:
  assumes "\<And>e. \<not> (calm w \<and> gov w rt c \<noteq> None) \<Longrightarrow>
      file_error e \<or> c_files c ''installation.json'' = None \<and> c_files c ''purge.json'' = None \<Longrightarrow> Q (Inl e) c"
    and "\<And>b i. gov w rt c = Some i \<Longrightarrow> decodeIdentity (o_sha w) (o_linux w) rt b = Inr i \<Longrightarrow>
      wp w I (k (b, c_files c ''installation.json'' = None) i) Q c"
  shows "wp w I (io_then (readIdentity rt) (\<lambda>(b, t). io_then (decode_io rt b) (k (b, t)))) Q c"
proof (rule wp_readIdentity)
  show "Q (Inl e) c" if "\<not> (calm w \<and> governed w rt c)"
    "file_error e \<or> c_files c ''installation.json'' = None \<and> c_files c ''purge.json'' = None" for e
    using assms(1) [of e] that gov_governed by fastforce
  show "wp w I (case (b, False) of (b, t) \<Rightarrow> io_then (decode_io rt b) (k (b, t))) Q c"
    if b: "c_files c ''installation.json'' = Some b" for b
  proof -
    have "wp w I (io_then (decode_io rt b) (k (b, False))) Q c"
    proof (rule wp_decode_io)
      show "Q (Inl e) c" if "decodeIdentity (o_sha w) (o_linux w) rt b = Inl e" "file_error e" for e
        using assms(1) [of e] that b by (simp add: gov_def doc_def)
      show "wp w I (k (b, False) i) Q c" if "decodeIdentity (o_sha w) (o_linux w) rt b = Inr i" for i
        using assms(2) [of i b] that b by (simp add: gov_def doc_def)
    qed
    then show ?thesis by simp
  qed
  show "wp w I (case (b, True) of (b, t) \<Rightarrow> io_then (decode_io rt b) (k (b, t))) Q c"
    if "c_files c ''installation.json'' = None" "c_files c ''purge.json'' = Some b" "doc w rt c ''purge.json'' = Some i" "i_purging i"
    for b i
  proof -
    have "wp w I (io_then (decode_io rt b) (k (b, True))) Q c"
      by (rule wp_decode_io) (use assms(2) [of i b] that in \<open>auto simp: gov_def doc_def split: sum.splits\<close>)
    then show ?thesis by simp
  qed
qed

text \<open>What must be on disk for a lease to pass its checks.\<close>

definition identity_good :: "world \<Rightarrow> store \<Rightarrow> bool \<Rightarrow> contents \<Rightarrow> bool" where
  "identity_good w s purge c \<longleftrightarrow>
     (\<exists>i. gov w (st_root s) c = Some i \<and> i_id i = i_id (st_id s) \<and>
        (if i_purging i \<or> i_pending i then purge else i_established i))"

definition held_good :: "world \<Rightarrow> bytes list \<Rightarrow> contents \<Rightarrow> bool" where
  "held_good w held c \<longleftrightarrow> (\<forall>p \<in> set held. owned w p \<and> c_files c p \<noteq> None)"

fun lease_good :: "world \<Rightarrow> store \<Rightarrow> lease \<Rightarrow> contents \<Rightarrow> bool" where
  "lease_good w s (Lease parent held wr purge released) c \<longleftrightarrow>
     (case parent of None \<Rightarrow> True | Some p \<Rightarrow> lease_good w s p c) \<and> \<not> released \<and>
     held_good w held c \<and> identity_good w s purge c"

lemma wp_check_identity:
  assumes err: "\<And>e. \<not> (calm w \<and> identity_good w s purge c) \<Longrightarrow> Q (Inl e) c"
    and ok: "identity_good w s purge c \<Longrightarrow> Q (Inr ()) c"
  shows "wp w I (check_identity s purge) Q c"
proof -
  let ?R = "\<lambda>r c. wp w I (case r of Inr _ \<Rightarrow> io_return ()
       | Inl e \<Rightarrow> if purge \<and> (errors_is e Cfg_Purging \<or> errors_is e Cfg_Pending) then io_return () else io_fail e) Q c"
  let ?verdict = "\<lambda>r. case r of
         Inl _ \<Rightarrow> io_fail (Sentinel Cfg_Stale)
       | Inr i \<Rightarrow>
           if i_id i \<noteq> i_id (st_id s) then io_fail (Sentinel Cfg_Stale)
           else if i_purging i then io_fail (Sentinel Cfg_Purging)
           else if i_pending i then io_fail (Sentinel Cfg_Pending)
           else if \<not> i_established i then io_fail (Sentinel Cfg_Stale)
           else io_return ()"
  have fail: "wp w I (?verdict (Inl e)) ?R c" if "\<not> (calm w \<and> identity_good w s purge c)" for e
    using err that by (auto intro!: wp_fail)
  have seen: "wp w I (?verdict (Inr i)) ?R c" if "gov w (st_root s) c = Some i" for i
    using err ok that by (auto simp: identity_good_def intro!: wp_fail wp_return)
  have "wp w I (io_then (readIdentity (st_root s)) (\<lambda>(b, t). io_then (decode_io (st_root s) b) ((\<lambda>_. io_return) (b, t))))
      (\<lambda>r. wp w I (?verdict r) ?R) c"
  proof (rule wp_read_decode)
    show "wp w I (?verdict (Inl e)) ?R c" if "\<not> (calm w \<and> gov w (st_root s) c \<noteq> None)" for e
      using fail [of e] that by (auto simp: identity_good_def)
    show "wp w I (io_return i) (\<lambda>r. wp w I (?verdict r) ?R) c" if "gov w (st_root s) c = Some i" for b i
      using seen [OF that] by (rule wp_return)
  qed
  then show ?thesis
    unfolding check_identity_def verifyIdentity_def
    by (intro wp_try) (simp only: io_then_unit)
qed

lemma held_good_Cons:
  "held_good w (p # ps) c \<longleftrightarrow> owned w p \<and> c_files c p \<noteq> None \<and> held_good w ps c"
  by (auto simp: held_good_def)

lemma wp_check_held:
  "(\<And>e. \<not> (calm w \<and> held_good w held c) \<Longrightarrow> Q (Inl e) c) \<Longrightarrow> (held_good w held c \<Longrightarrow> wp w I (k ()) Q c) \<Longrightarrow>
     wp w I (io_then (check_held held) k) Q c"
proof (induction held)
  case Nil
  then show ?case by (simp add: io_then_return held_good_def)
next
  case (Cons p ps)
  have "wp w I (io_then (verifyLock p) (\<lambda>_. io_then (check_held ps) k)) Q c"
  proof (rule wp_verifyLock)
    show "Q (Inl e) c" if "\<not> (calm w \<and> owned w p \<and> c_files c p \<noteq> None)" for e
      using that by (intro Cons.prems(1)) (auto simp: held_good_Cons)
    show "wp w I (io_then (check_held ps) k) Q c" if "owned w p" "c_files c p \<noteq> None"
      by (rule Cons.IH) (use that Cons.prems in \<open>simp_all add: held_good_Cons\<close>)
  qed
  then show ?case by (simp add: io_then_assoc)
qed

lemma wp_check_lease [wps]:
  "(\<And>e. \<not> (calm w \<and> lease_good w s l c) \<Longrightarrow> Q (Inl e) c) \<Longrightarrow> (lease_good w s l c \<Longrightarrow> wp w I (k ()) Q c) \<Longrightarrow>
     wp w I (io_then (check s l) k) Q c"
proof (induction s l arbitrary: k rule: check.induct)
  case (1 s parent held wr purge released)
  let ?rest = "\<lambda>_. io_then (if released then io_fail (Sentinel Cfg_Stale) else io_then (check_held held) (\<lambda>_. check_identity s purge)) k"
  have rest: "wp w I (?rest ()) Q c" if "case parent of None \<Rightarrow> True | Some p \<Rightarrow> lease_good w s p c"
  proof (cases released)
    case True
    then show ?thesis using "1.prems"(1) by (auto intro!: wp_fail_then)
  next
    case False
    have "wp w I (io_then (check_held held) (\<lambda>x. io_then (check_identity s purge) k)) Q c"
    proof (rule wp_check_held, rule "1.prems"(1))
      show "wp w I (io_then (check_identity s purge) k) Q c" if "held_good w held c"
        using "1.prems" False that \<open>case parent of None \<Rightarrow> True | Some p \<Rightarrow> lease_good w s p c\<close>
        by (intro wp_then wp_check_identity) auto
    qed auto
    with False show ?thesis by (simp add: io_then_assoc)
  qed
  show ?case
  proof (cases parent)
    case None
    with rest show ?thesis by (simp add: check.simps io_then_return)
  next
    case (Some p)
    have "wp w I (io_then (check s p) ?rest) Q c"
      using Some "1.prems"(1) rest by (intro "1.IH") auto
    with Some show ?thesis by (simp add: check.simps io_then_assoc)
  qed
qed

section \<open>The tombstone of a purge\<close>

text \<open>Every identity of this root fits its document.\<close>

definition root_fits :: "world \<Rightarrow> root \<Rightarrow> bool" where
  "root_fits w rt \<longleftrightarrow> (\<forall>i. inst_checks (o_sha w) (o_linux w) rt i \<longrightarrow> inst_encodable i)"

definition tombed :: "world \<Rightarrow> root \<Rightarrow> contents \<Rightarrow> bool" where
  "tombed w rt c \<longleftrightarrow> (\<exists>i. gov w rt c = Some i \<and> i_purging i)"

lemma doc_other [simp]: "p \<noteq> q \<Longrightarrow> doc w rt (set_file p v c) q = doc w rt c q"
  by (simp add: doc_def)

lemma gov_other [simp]:
  "p \<noteq> ''installation.json'' \<Longrightarrow> p \<noteq> ''purge.json'' \<Longrightarrow> gov w rt (set_file p v c) = gov w rt c"
  by (simp add: gov_def)

lemma gov_opened [simp]:
  "p \<noteq> ''installation.json'' \<Longrightarrow> p \<noteq> ''purge.json'' \<Longrightarrow> gov w rt (opened p create c) = gov w rt c"
  by (simp add: opened_def)

lemma opened_lock_gov [simp]: "gov w rt (opened gate_lock b c) = gov w rt c" "gov w rt (opened state_lock b c) = gov w rt c"
  "gov w rt (opened lifecycle_lock b c) = gov w rt c"
  by (simp_all add: gate_lock_def state_lock_def lifecycle_lock_def)

lemma opened_False [simp]: "opened p False c = c"
  by (simp add: opened_def)

lemma locks_owned [simp]: "owned w lifecycle_lock" "owned w gate_lock" "owned w state_lock"
  by (simp_all add: lifecycle_lock_def gate_lock_def state_lock_def)

lemma opened_files: "c_files (opened p b c) q = (if q = p \<and> b \<and> c_files c p = None then Some [] else c_files c q)"
  by (simp add: opened_def)

lemma doc_encoded [simp]:
  "inst_checks (o_sha w) (o_linux w) rt i \<Longrightarrow> root_fits w rt \<Longrightarrow> doc w rt (set_file p (Some (encodeIdentity i)) c) p = Some i"
  by (simp add: doc_def root_fits_def decode_encode)

lemma gov_but_for:
  "but_for (tmp_of ''installation.json'') c c' \<or> but_for (tmp_of ''purge.json'') c c' \<Longrightarrow> gov w rt c' = gov w rt c"
  by (auto simp: but_for_def tmp_of_def)

lemma gov_encoded:
  "inst_checks (o_sha w) (o_linux w) rt i \<Longrightarrow> root_fits w rt \<Longrightarrow>
     gov w rt (set_file ''installation.json'' (Some (encodeIdentity i)) c) = Some i"
  by (simp add: gov_def)

text \<open>Writing an identity: before, the old one governs; afterwards, the new one.\<close>

lemma wp_writeIdentity [wps]:
  fixes c i rt
  defines "wrote \<equiv> \<lambda>c'. but_for (tmp_of ''installation.json'') (set_file ''installation.json'' (Some (encodeIdentity i)) c) c'"
  assumes inv: "\<And>c'. but_for (tmp_of ''installation.json'') c c' \<or> wrote c' \<Longrightarrow> I c'"
    and err: "\<And>e c'. \<not> calm w \<Longrightarrow> but_for (tmp_of ''installation.json'') c c' \<or> wrote c' \<Longrightarrow> Q (Inl e) c'"
    and ok: "\<And>c'. wrote c' \<Longrightarrow> wp w I (k ()) Q c'"
  shows "wp w I (io_then (writeIdentity i) k) Q c"
  unfolding writeIdentity_def
  by (rule wp_replace) (use inv err ok in \<open>auto simp: wrote_def\<close>)

lemma wp_acquire [wps]:
  assumes "\<And>e. \<not> (calm w \<and> identity_good w s purge c \<and> held_good w [lifecycle_lock, gate_lock, state_lock] c) \<Longrightarrow> Q (Inl e) c"
    and "\<And>l. lease_good w s l c \<Longrightarrow> l_parent l = None \<Longrightarrow> l_write l = wr \<Longrightarrow> l_purge l = purge \<Longrightarrow> wp w I (k l) Q c"
  shows "wp w I (io_then (acquire s wr purge) k) Q c"
proof -
  have gate: "wp w I (io_then ctx_err (\<lambda>_. io_then (lock gate_lock False) (\<lambda>_. io_then (lock state_lock False) (\<lambda>_.
      io_then (check s (Lease None held wr purge False)) (\<lambda>_. io_then ctx_err (\<lambda>_.
      io_then (io_return (Lease None (if wr then held else filter (\<lambda>p. p \<noteq> gate_lock) held) wr purge False)) k)))))) Q c"
    if "set held \<subseteq> {lifecycle_lock, gate_lock, state_lock}" for held
    by (intro wps)
      (use that in \<open>auto simp: held_good_def intro!: assms\<close>)
  show ?thesis
  proof (cases purge)
    case True
    let ?held = "[lifecycle_lock, gate_lock, state_lock]"
    have "wp w I (io_then ctx_err (\<lambda>_. io_then (lock lifecycle_lock False) (\<lambda>_. io_then ctx_err (\<lambda>_.
      io_then (lock gate_lock False) (\<lambda>_. io_then (lock state_lock False) (\<lambda>_.
      io_then (check s (Lease None ?held wr purge False)) (\<lambda>_. io_then ctx_err (\<lambda>_.
      io_then (io_return (Lease None (if wr then ?held else filter (\<lambda>p. p \<noteq> gate_lock) ?held) wr purge False)) k)))))))) Q c"
      by (rule wp_ctx, rule assms(1), simp, rule wp_lock)
        (auto simp only: opened_False intro!: gate, auto simp: held_good_def intro!: assms(1))
    with True show ?thesis by (simp add: acquire_def queue_def io_then_assoc Let_def)
  next
    case False
    with gate [of "[gate_lock, state_lock]"] show ?thesis
      by (simp add: acquire_def queue_def io_then_assoc io_then_return Let_def)
  qed
qed

lemma wp_openExisting [wps]:
  assumes err: "\<And>e. \<not> (calm w \<and> is_ok (validateRoot (o_sha w) rt) \<and>
      (\<exists>i. gov w rt c = Some i \<and> (cleanup \<or> \<not> i_purging i \<and> \<not> i_pending i))) \<Longrightarrow> Q (Inl e) c"
    and ok: "\<And>i. gov w rt c = Some i \<Longrightarrow> cleanup \<or> \<not> i_purging i \<and> \<not> i_pending i \<Longrightarrow>
      wp w I (k \<lparr>st_root = rt, st_id = i, st_terminal = (c_files c ''installation.json'' = None)\<rparr>) Q c"
  shows "wp w I (io_then (openExisting rt cleanup) k) Q c"
proof -
  have "wp w I (io_then (readIdentity rt) (\<lambda>(b, t). io_then (decode_io rt b) ((\<lambda>(b, t) i.
      io_then (if i_pending i \<and> \<not> cleanup then io_fail (Sentinel Cfg_Pending)
       else if i_purging i \<and> \<not> cleanup then io_fail (Sentinel Cfg_Purging)
       else io_return \<lparr>st_root = rt, st_id = i, st_terminal = t\<rparr>) k) (b, t)))) Q c"
    by (rule wp_read_decode) (auto simp: io_then_return intro!: wp_fail_then err ok)
  then have "wp w I (io_then (readIdentity rt) (\<lambda>(b, t). io_then (decode_io rt b) (\<lambda>i.
      io_then (if i_pending i \<and> \<not> cleanup then io_fail (Sentinel Cfg_Pending)
       else if i_purging i \<and> \<not> cleanup then io_fail (Sentinel Cfg_Purging)
       else io_return \<lparr>st_root = rt, st_id = i, st_terminal = t\<rparr>) k))) Q c"
    by simp
  then have read: "wp w I (io_then (io_then (readIdentity rt) (\<lambda>(raw, terminal). io_then (decode_io rt raw) (\<lambda>i.
      if i_pending i \<and> \<not> cleanup then io_fail (Sentinel Cfg_Pending)
       else if i_purging i \<and> \<not> cleanup then io_fail (Sentinel Cfg_Purging)
       else io_return \<lparr>st_root = rt, st_id = i, st_terminal = terminal\<rparr>))) k) Q c"
    by (simp add: io_then_assoc prod.case_distrib [of "\<lambda>m. io_then m k"])
  have valid: "wp w I (io_then (look (\<lambda>w c. holds_or (is_ok (validateRoot (o_sha w) rt)) (Sentinel Cfg_Ownership))) m) Q c"
    if "wp w I (m ()) Q c" for m
    by (rule wp_look_then) (use that in \<open>auto simp: holds_or_def intro!: err\<close>)
  show ?thesis
    unfolding openExisting_def validRoot_def io_then_assoc
    by (intro wp_ctx wp_check wp_no_error valid read [unfolded io_then_assoc]) (auto simp: calmD intro!: err)
qed

text \<open>Reading a file that may be missing.\<close>

lemma wp_probe [wps]:
  assumes err: "\<And>e. \<not> (calm w \<and> owned w path \<and> (\<forall>b. c_files c path = Some b \<longrightarrow> length b \<le> limit)) \<Longrightarrow> Q (Inl e) c"
    and there: "\<And>b. c_files c path = Some b \<Longrightarrow> owned w path \<Longrightarrow>
      wp w I (f b) (\<lambda>r c. case r of Inl e \<Rightarrow> Q (Inl e) c | Inr x \<Rightarrow> wp w I (k x) Q c) c"
    and missing: "c_files c path = None \<Longrightarrow> owned w path \<Longrightarrow>
      wp w I g (\<lambda>r c. case r of Inl e \<Rightarrow> Q (Inl e) c | Inr x \<Rightarrow> wp w I (k x) Q c) c"
  shows "wp w I (io_then (io_try (read path limit) (\<lambda>r.
       case r of Inr b \<Rightarrow> f b | Inl e \<Rightarrow> if errors_is e Os_NotExist then g else io_fail e)) k) Q c"
  by (rule wp_then, rule wp_try, rule wp_last, rule wp_read)
    (use assms in \<open>auto simp: file_error_def intro!: wp_fail wp_return\<close>)

lemma wp_valid [wps]:
  "(\<not> is_ok (validateRoot (o_sha w) rt) \<Longrightarrow> Q (Inl (Sentinel Cfg_Ownership)) c) \<Longrightarrow>
   (is_ok (validateRoot (o_sha w) rt) \<Longrightarrow> wp w I (k ()) Q c) \<Longrightarrow>
     wp w I (io_then (look (\<lambda>w c. holds_or (is_ok (validateRoot (o_sha w) rt)) (Sentinel Cfg_Ownership))) k) Q c"
  by (rule wp_look_then) (simp add: holds_or_def)

lemma upgraded_checks:
  "inst_checks (o_sha w) (o_linux w) rt i \<Longrightarrow> inst_checks (o_sha w) (o_linux w) rt (upgraded (o_linux w) rt i)"
  by (auto simp: inst_checks_def upgraded_def Kind_def)

lemma tombed_encoded:
  assumes "but_for (tmp_of ''installation.json'') c c' \<or>
      but_for (tmp_of ''installation.json'') (set_file ''installation.json'' (Some (encodeIdentity i)) c) c'"
    and "tombed w rt c" and "root_fits w rt" and "inst_checks (o_sha w) (o_linux w) rt i" and "i_purging i"
  shows "tombed w rt c'"
  using assms gov_encoded [of w rt i c] gov_but_for [of c c'] 
    gov_but_for [of "set_file ''installation.json'' (Some (encodeIdentity i)) c" c' w rt]
  by (auto simp: tombed_def)

lemma wp_known_tombed:
  assumes "root_fits w rt" and "tombed w rt c" and raw: "c_files c ''installation.json'' = Some raw"
    and err: "\<And>e c'. tombed w rt c' \<Longrightarrow> Q (Inl e) c'" and ok: "\<And>i c'. tombed w rt c' \<Longrightarrow> i_purging i \<Longrightarrow> Q (Inr i) c'"
  shows "wp w (tombed w rt) (known_identity rt raw) Q c"
proof -
  obtain i where i: "decodeIdentity (o_sha w) (o_linux w) rt raw = Inr i" "i_purging i"
    using assms(2) raw by (auto simp: tombed_def gov_def doc_def split: sum.splits)
  then have checks: "inst_checks (o_sha w) (o_linux w) rt (upgraded (o_linux w) rt i)"
    by (intro upgraded_checks) (rule decodeIdentity_checks)
  show ?thesis
    by (rule wp_last, unfold known_identity_def, intro wps wp_decode_io wp_look_then)
      (use i assms(2) checks in \<open>auto simp: upgraded_def [of _ _ i] intro!: err ok tombed_encoded [OF _ assms(2,1) checks]\<close>)
qed

lemma tombed_opened [simp]: "tombed w rt (opened gate_lock b c) = tombed w rt c" "tombed w rt (opened state_lock b c) = tombed w rt c"
  "tombed w rt (opened lifecycle_lock b c) = tombed w rt c"
  by (simp_all add: tombed_def)

lemma opened_files_other [simp]: "p \<noteq> q \<Longrightarrow> c_files (opened p b c) q = c_files c q"
  by (simp add: opened_def)

lemma lock_names [simp]:
  "gate_lock \<noteq> ''installation.json''" "state_lock \<noteq> ''installation.json''" "lifecycle_lock \<noteq> ''installation.json''"
  "gate_lock \<noteq> ''purge.json''" "state_lock \<noteq> ''purge.json''" "lifecycle_lock \<noteq> ''purge.json''"
  by (simp_all add: gate_lock_def state_lock_def lifecycle_lock_def)

lemma tombed_set_lock [simp]: "tombed w rt (set_file gate_lock v c) = tombed w rt c" "tombed w rt (set_file state_lock v c) = tombed w rt c"
  by (simp_all add: tombed_def)

lemma wp_openLock:
  assumes "p = gate_lock \<or> p = state_lock" and "tombed w rt c" and "\<And>e c'. tombed w rt c' \<Longrightarrow> Q (Inl e) c'"
    and "\<And>c'. tombed w rt c' \<Longrightarrow> wp w (tombed w rt) (k ()) Q c'"
  shows "wp w (tombed w rt) (io_then (openFile p create) k) Q c"
  by (cases create; simp only:; intro wps) (use assms in auto)

lemma tombed_present: "tombed w rt c \<Longrightarrow> c_files c ''installation.json'' = None \<Longrightarrow> c_files c ''purge.json'' \<noteq> None"
  by (auto simp: tombed_def gov_def doc_def split: option.splits)

lemma wp_Open_tombed:
  assumes "root_fits w rt" and "tombed w rt c"
  shows "wp w (tombed w rt) (Open rt) (\<lambda>r c. tombed w rt c \<and> (\<forall>s. r = Inr s \<longrightarrow> i_purging (st_id s))) c"
  by (rule wp_last, unfold Open_def establish_def queue_def directory_def validRoot_def, intro wps wp_openLock wp_known_tombed)
    (use assms tombed_present [OF assms(2)] in \<open>auto simp: calmD\<close>)

lemma tombed_not_good: "tombed w (st_root s) c \<Longrightarrow> \<not> identity_good w s False c"
  by (auto simp: tombed_def identity_good_def)

lemma wp_result: "wp w I m Q (d_now d) \<Longrightarrow> I (d_now d) \<Longrightarrow> throughout I d (snd (m w d)) \<and> Q (fst (m w d)) (d_now (snd (m w d)))"
  by (simp add: wp_def)

text \<open>
  C18.  The tombstone of a purge is durable: while the governing identity says purging, no
  opening, in whatever world, hands out an installation that is not purging or ever leaves
  contents governed otherwise, and neither an ordinary opening nor a read or write lease of
  any process that still holds the installation open succeeds.
\<close>

theorem tombstone_durable:
  assumes "root_fits w rt" and "tombed w rt (d_now d)"
  shows "throughout (tombed w rt) d (snd (Open rt w d)) \<and>
     (\<forall>s. fst (Open rt w d) = Inr s \<longrightarrow> i_purging (st_id s)) \<and>
     \<not> is_ok (fst (openExisting rt False w d)) \<and>
     (\<forall>(s :: store) wr. st_root s = rt \<longrightarrow> \<not> is_ok (fst (acquire s wr False w d)))"
proof (intro conjI)
  show "throughout (tombed w rt) d (snd (Open rt w d))" and "\<forall>s. fst (Open rt w d) = Inr s \<longrightarrow> i_purging (st_id s)"
    using wp_result [OF wp_Open_tombed [OF assms] assms(2)] by auto
  have "wp w (tombed w rt) (openExisting rt False) (\<lambda>r c. \<not> is_ok r) (d_now d)"
    by (rule wp_last, intro wps) (use assms(2) in \<open>auto simp: tombed_def\<close>)
  from wp_result [OF this assms(2)] show "\<not> is_ok (fst (openExisting rt False w d))" by simp
  show "\<forall>(s :: store) wr. st_root s = rt \<longrightarrow> \<not> is_ok (fst (acquire s wr False w d))"
  proof (intro allI impI)
    fix s :: store and wr
    assume s: "st_root s = rt"
    then have bad: "\<not> identity_good w s False (d_now d)" using assms(2) tombed_not_good by simp
    have "wp w (tombed w rt) (acquire s wr False) (\<lambda>r c. \<not> is_ok r) (d_now d)"
    proof (rule wp_last, rule wp_acquire)
      fix l
      assume "lease_good w s l (d_now d)" "l_parent l = None" "l_write l = wr" "l_purge l = False"
      then show "wp w (tombed w rt) (io_return l) (\<lambda>r c. \<not> is_ok r) (d_now d)" using bad by (cases l) simp
    qed simp
    from wp_result [OF this assms(2)] show "\<not> is_ok (fst (acquire s wr False w d))" by simp
  qed
qed

section \<open>Roots whose identities fit\<close>

definition hex_sha :: "(bytes \<Rightarrow> bytes) \<Rightarrow> bool" where
  "hex_sha sha \<longleftrightarrow> (\<forall>s. length (sha s) = 64 \<and> utf8_valid (sha s))"

definition ascii :: "bytes \<Rightarrow> bool" where
  "ascii s \<longleftrightarrow> (\<forall>c \<in> set s. byte_of c < 128)"

lemma uuid_hex_text: "uuid_hex n s \<Longrightarrow> ascii s"
  by (auto simp: ascii_def uuid_hex_def list_all_iff is_digit_def in_range_def)

lemma ascii_group:
  assumes "n + Suc k \<le> length s" "uuid_hex k (take k (drop n s))" "s ! (n + k) = CHR ''-''" "ascii (drop (n + Suc k) s)"
  shows "ascii (drop n s)"
proof -
  have "drop (n + k) s = s ! (n + k) # drop (n + Suc k) s" using assms(1) by (simp add: Cons_nth_drop_Suc)
  with assms(3,4) have "ascii (drop k (drop n s))" by (simp add: ascii_def add.commute)
  moreover have "ascii (take k (drop n s))" using assms(2) by (rule uuid_hex_text)
  ultimately have "ascii (take k (drop n s) @ drop k (drop n s))" by (auto simp only: ascii_def set_append)
  then show ?thesis by (simp only: append_take_drop_id)
qed

lemma ValidUUID_text:
  assumes "ValidUUID s"
  shows "length s = 36 \<and> utf8_valid s"
proof -
  have len: "length s = 36" using assms by (simp add: ValidUUID_def)
  have "ascii (drop 24 s)" using assms by (intro uuid_hex_text) (auto simp: ValidUUID_def)
  then have "ascii (drop 19 s)" using assms len by (intro ascii_group [of 19 4]) (simp_all add: ValidUUID_def)
  then have "ascii (drop 14 s)" using assms len by (intro ascii_group [of 14 4]) (simp_all add: ValidUUID_def)
  then have "ascii (drop 9 s)" using assms len by (intro ascii_group [of 9 4]) (simp_all add: ValidUUID_def)
  then have "ascii (drop 0 s)" using assms len by (intro ascii_group [of 0 8]) (simp_all add: ValidUUID_def)
  with len show ?thesis by (simp add: ascii_def utf8_valid_ascii)
qed

definition members_size :: "(bytes \<times> jval) list \<Rightarrow> nat" where
  "members_size ms = sum_list (map (\<lambda>(k, v). 4 + 6 * length k + json_size v) ms)"

lemma json_size_members: "json_size (JObj ms) = 2 + members_size ms"
  by (simp add: members_size_def)

lemma members_size_append: "members_size (a @ b) = members_size a + members_size b"
  by (simp add: members_size_def)

lemma ownedPaths_text: "list_all utf8_valid (ownedPaths linux)"
  unfolding ownedPaths_def ServiceFile_def list.pred_inject
  by (cases linux; intro conjI; (rule utf8_valid_ascii)?; simp)

lemma ownedPaths_size: "sum_list (map (\<lambda>v. 1 + json_size v) (map JStr (ownedPaths linux))) \<le> 1900"
  by (cases linux) (simp_all add: ownedPaths_def ServiceFile_def)

lemma root_fits_short:
  assumes "hex_sha (o_sha w)" and "validateRoot (o_sha w) rt = Inr ()"
    and "utf8_valid (ExecutablePath rt)" and "length (ExecutablePath rt) \<le> 700"
  shows "root_fits w rt"
  unfolding root_fits_def
proof (intro allI impI)
  fix i
  assume i: "inst_checks (o_sha w) (o_linux w) rt i"
  have digest: "length (rt_digest rt) = 64" "utf8_valid (rt_digest rt)"
  proof -
    have "rt_digest rt = o_sha w (rt_path rt)" using assms(2) by (auto simp: validateRoot_def split: if_splits)
    then show "length (rt_digest rt) = 64" "utf8_valid (rt_digest rt)" using assms(1) by (simp_all only: hex_sha_def)
  qed
  have key: "length (i_key i) = 64" "utf8_valid (i_key i)" "i_root i = rt_digest rt"
    using i assms(1) by (auto simp: inst_checks_def hex_sha_def)
  have ident: "length (i_id i) = 36" "utf8_valid (i_id i)"
    using i ValidUUID_text by (auto simp: inst_checks_def)
  have env: "i_env i = [] \<or> i_env i = ''development'' \<or> i_env i = ''production''"
    using i assms(2) by (auto simp: inst_checks_def validateRoot_def split: if_splits)
  moreover have "utf8_valid []" "utf8_valid ''development''" "utf8_valid ''production''" by (rule utf8_valid_ascii, simp)+
  ultimately have env_text: "length (i_env i) \<le> 11" "utf8_valid (i_env i)" by (auto simp del: utf8_valid.simps)
  have exe: "length (i_exe i) \<le> 700" "utf8_valid (i_exe i)"
    using i assms(3,4) by (auto simp: inst_checks_def)
  have version: "length (show_int (i_version i)) = 1"
    using i by (auto simp: inst_checks_def show_int_def show_nat.simps [of 2] show_nat.simps [of 3])
  have owned: "list_all utf8_valid (i_owned i)" "sum_list (map (\<lambda>v. 1 + json_size v) (map JStr (i_owned i))) \<le> 1900"
  proof -
    have "i_owned i = ownedPaths (o_linux w)" using i by (simp only: inst_checks_def)
    then show "list_all utf8_valid (i_owned i)" "sum_list (map (\<lambda>v. 1 + json_size v) (map JStr (i_owned i))) \<le> 1900"
      by (simp_all only: ownedPaths_text ownedPaths_size)
  qed
  have env_size: "members_size (omitempty ''environment'' (i_env i)) \<le> 140"
    using env_text(1) by (simp add: members_size_def omitempty_def)
  have exe_size: "members_size (omitempty ''executable'' (i_exe i)) \<le> 4270"
    using exe(1) by (simp add: members_size_def omitempty_def)
  have pending_size: "members_size (if i_pending i then [(''pending'', JBool True)] else []) \<le> 60"
    by (simp add: members_size_def)
  have version_size: "members_size [(''version'', jint (i_version i))] \<le> 60"
    using version by (simp add: members_size_def jint_def)
  have fixed_size: "members_size [(''installation_id'', JStr (i_id i)), (''root_digest'', JStr (i_root i)),
        (''profiles_established'', JBool (i_established i)), (''purging'', JBool (i_purging i))] \<le> 1000"
    using ident(1) digest(1) key(3) by (simp add: members_size_def)
  have owned_size: "members_size [(''owned'', JArr (map JStr (i_owned i))), (''key_account'', JStr (i_key i))] \<le> 2500"
    using owned(2) key(1) by (simp only: members_size_def list.map prod.case json_size.simps sum_list.Cons sum_list.Nil) simp
  have "json_size (inst_json i) \<le> 8192"
    unfolding inst_json_def json_size_members members_size_append
    using env_size exe_size pending_size version_size fixed_size owned_size by linarith
  then have "length (encodeIdentity i) \<le> 8192"
    unfolding encodeIdentity_def by (rule order_trans [OF length_marshal])
  with owned ident key digest env_text exe show "inst_encodable i"
    by (simp add: inst_encodable_def inst_text_def del: utf8_valid.simps)
qed

text \<open>A tombed installation in a world in which nothing fails.\<close>

definition ex_world :: world where
  "ex_world = \<lparr>o_sha = ex_sha, o_linux = True, o_absent = (\<lambda>_. False), o_open = (\<lambda>_. None), o_root = (\<lambda>_. True),
     o_safe = (\<lambda>_ _. True), o_sys = (\<lambda>_. True), o_short = (\<lambda>_. 0), o_point = (\<lambda>_. None), o_ctx = (\<lambda>_. None),
     o_polls = (\<lambda>_. [(None, Granted)]), o_random = (\<lambda>_. Some (replicate 16 CHR 0x00)), o_obsolete = (\<lambda>_. None),
     o_database = (\<lambda>_. ((Some [], None), None)), o_keyset = (\<lambda>_. Inr True), o_delete = (\<lambda>_. (None, True)),
     o_link = (\<lambda>_. False), o_empty = (\<lambda>_. True), o_ext = (\<lambda>_ _. (\<lambda>_. None, None))\<rparr>"

lemma ex_world_calm: "calm ex_world"
  by (simp add: calm_def ex_world_def)

definition ex_tombed :: disk where
  "ex_tombed = \<lparr>d_now = \<lparr>c_files = [''installation.json'' \<mapsto> encodeIdentity (ex_inst\<lparr>i_purging := True\<rparr>)],
     c_keys = (\<lambda>_. False)\<rparr>, d_past = [], d_clock = 0\<rparr>"

lemma ex_root_fits: "root_fits ex_world ex_root"
proof (rule root_fits_short)
  show "hex_sha (o_sha ex_world)"
    by (simp add: hex_sha_def ex_world_def ex_sha_def utf8_valid_ascii del: utf8_valid.simps)
  show "utf8_valid (ExecutablePath ex_root)"
    unfolding ex_executable by (rule utf8_valid_ascii) simp
qed (simp_all add: ex_world_def ex_root_valid ex_executable)

lemma ex_tombed_ok: "tombed ex_world ex_root (d_now ex_tombed)"
proof -
  have "inst_checks (o_sha ex_world) (o_linux ex_world) ex_root (ex_inst\<lparr>i_purging := True\<rparr>)"
    using ex_inst_checks by (simp add: inst_checks_def ex_world_def)
  then have "decodeIdentity ex_sha True ex_root (encodeIdentity (ex_inst\<lparr>i_purging := True\<rparr>)) = Inr (ex_inst\<lparr>i_purging := True\<rparr>)"
    using ex_root_fits by (simp add: root_fits_def decode_encode ex_world_def)
  then show ?thesis by (simp add: tombed_def gov_def doc_def ex_tombed_def ex_world_def)
qed

theorem tombstone_durable_witness:
  "throughout (tombed ex_world ex_root) ex_tombed (snd (Open ex_root ex_world ex_tombed)) \<and>
     \<not> is_ok (fst (openExisting ex_root False ex_world ex_tombed)) \<and>
     \<not> is_ok (fst (acquire \<lparr>st_root = ex_root, st_id = ex_inst, st_terminal = False\<rparr> True False ex_world ex_tombed))"
  using tombstone_durable [OF ex_root_fits ex_tombed_ok] by simp

definition old_or_new :: "bytes \<Rightarrow> bytes \<Rightarrow> contents \<Rightarrow> contents \<Rightarrow> bool" where
  "old_or_new path b c0 c \<longleftrightarrow>
     (c_files c path = c_files c0 path \<or> c_files c path = Some b) \<and> c_keys c = c_keys c0 \<and>
     (\<forall>p. p = path \<or> p = tmp_of path \<or> c_files c p = c_files c0 p)"

text \<open>
  C28.  Replacing a file is atomic: at every moment, killed or failing anywhere, the file
  has its old contents or the whole of the new ones, and nothing but it and its temporary
  name has changed; when it succeeds the file has the new contents.
\<close>

theorem replace_atomic:
  "throughout (old_or_new path b (d_now d)) d (snd (replace path b w d)) \<and>
   (fst (replace path b w d) = Inr () \<longrightarrow> c_files (d_now (snd (replace path b w d))) path = Some b)"
proof -
  have "wp w (old_or_new path b (d_now d)) (replace path b) (\<lambda>r c. r = Inr () \<longrightarrow> c_files c path = Some b) (d_now d)"
    by (rule wp_last, rule wp_replace) (auto simp: old_or_new_def but_for_def intro!: wp_return split: if_splits)
  from wp_result [OF this] show ?thesis by (simp add: old_or_new_def)
qed

theorem replace_atomic_witness:
  "throughout (old_or_new ''purge.json'' ''{}'' (d_now ex_tombed)) ex_tombed (snd (replace ''purge.json'' ''{}'' ex_world ex_tombed)) \<and>
   fst (replace ''purge.json'' ''{}'' ex_world ex_tombed) = Inr () \<and>
   c_files (d_now (snd (replace ''purge.json'' ''{}'' ex_world ex_tombed))) ''purge.json'' = Some ''{}''"
proof -
  have "fst (replace ''purge.json'' ''{}'' ex_world ex_tombed) = Inr ()"
  proof -
    have "wp ex_world (\<lambda>_. True) (replace ''purge.json'' ''{}'') (\<lambda>r c. r = Inr ()) (d_now ex_tombed)"
      by (rule wp_last, rule wp_replace) (use ex_world_calm in \<open>auto intro!: wp_return\<close>)
    from wp_result [OF this] show ?thesis by simp
  qed
  then show ?thesis using replace_atomic [of "''purge.json''" "''{}''" ex_tombed ex_world] by simp
qed

end
