(* ===== verification/Invariants.thy ===== *)
theory Invariants
  imports Installation
begin

text \<open>
  Rules for what an operation keeps whatever happens: an invariant that the names it writes
  do not affect holds throughout, by the structure of the operation alone.
\<close>

section \<open>Structure\<close>

definition always :: "world \<Rightarrow> (contents \<Rightarrow> bool) \<Rightarrow> 'a io \<Rightarrow> bool" where
  "always w I m \<longleftrightarrow> (\<forall>c. wp w I m (\<lambda>_ _. True) c)"

named_theorems always

lemma always_return [always]: "always w I (io_return x)" and always_fail [always]: "always w I (io_fail e)"
  and always_ask [always]: "always w I (ask f)" and always_look [always]: "always w I (look g)"
  by (simp_all add: always_def wp_return wp_fail wp_ask wp_look)

lemma always_change: "(\<And>c. I c \<Longrightarrow> I (f c)) \<Longrightarrow> always w I (change f)"
  by (simp add: always_def wp_change)

lemma always_try [always]: "always w I m \<Longrightarrow> (\<And>r. always w I (k r)) \<Longrightarrow> always w I (io_try m k)"
  unfolding always_def by (intro allI wp_try) (auto intro: wp_mono)

lemma always_then [always]: "always w I m \<Longrightarrow> (\<And>x. always w I (k x)) \<Longrightarrow> always w I (io_then m k)"
  unfolding io_then_def by (rule always_try) (auto split: sum.split intro: always_fail)

lemma always_look_then: "(\<And>c x. f w c = Inr x \<Longrightarrow> always w I (k x)) \<Longrightarrow> always w I (io_then (look f) k)"
  unfolding always_def by (intro allI wp_look_then) (auto split: sum.split)

lemma always_finally [always]: "always w I m \<Longrightarrow> always w I n \<Longrightarrow> always w I (io_finally m n)"
  unfolding io_finally_def by (intro always_try) (auto split: sum.split intro: always)

lemma always_if [always]: "always w I m \<Longrightarrow> always w I n \<Longrightarrow> always w I (if b then m else n)"
  by simp

lemma always_case_sum [always]:
  "(\<And>e. always w I (f e)) \<Longrightarrow> (\<And>x. always w I (g x)) \<Longrightarrow> always w I (case r of Inl e \<Rightarrow> f e | Inr x \<Rightarrow> g x)"
  by (simp split: sum.split)

lemma always_case_option [always]:
  "always w I m \<Longrightarrow> (\<And>x. always w I (g x)) \<Longrightarrow> always w I (case r of None \<Rightarrow> m | Some x \<Rightarrow> g x)"
  by (simp split: option.split)

lemma always_case_prod [always]: "(\<And>x y. always w I (g x y)) \<Longrightarrow> always w I (case r of (x, y) \<Rightarrow> g x y)"
  by (simp split: prod.split)

lemma always_case_triple [always]: "(\<And>x y. always w I (g x y z)) \<Longrightarrow> always w I ((case r of (x, y) \<Rightarrow> g x y) z)"
  by (simp split: prod.split)

section \<open>Files\<close>

text \<open>An invariant that a set of names does not affect is kept by whatever writes these only.\<close>

definition spares :: "(contents \<Rightarrow> bool) \<Rightarrow> bytes \<Rightarrow> bool" where
  "spares I p \<longleftrightarrow> (\<forall>v c. I c \<longrightarrow> I (set_file p v c))"

lemma always_set [always]: "spares I p \<Longrightarrow> always w I (change (set_file p v))"
  by (rule always_change) (simp add: spares_def)

lemma always_checks [always]: "always w I (sys m)" "always w I point" "always w I ctx_err" "always w I validRoot" "always w I directory"
    "always w I (splitOwned p)" "always w I (in_directory p)" "always w I (sameNamed p e)" "always w I queue"
    "always w I (decode_io rt b)"
  by (unfold sys_def point_def ctx_err_def validRoot_def directory_def splitOwned_def in_directory_def sameNamed_def queue_def
      decode_io_def) (intro always)+

lemma always_open [always]: "always w I (openFile p False)" "spares I p \<Longrightarrow> always w I (openFile p b)"
  by (unfold openFile_def) (auto intro!: always)

lemma always_read [always]: "always w I (read p n)" "always w I (open_if_exists p)"
  by (unfold read_def open_if_exists_def) (intro always)+

lemma always_replace [always]:
  assumes "spares I p" and "spares I (tmp_of p)"
  shows "always w I (replace p b)"
proof -
  have move: "I (set_file (tmp_of p) None (set_file p v c))" if "I c" for v c
    using assms that by (simp add: spares_def)
  show ?thesis
    unfolding replace_def publish_file_def write_tmp_def rename_file_def unlink_quietly_def
    by (intro always assms always_change move)
qed

lemma always_remove [always]: "spares I p \<Longrightarrow> always w I (remove p)"
  unfolding remove_def by (intro always)

lemma always_lock [always]: "always w I (lock p False)" "spares I p \<Longrightarrow> always w I (lock p b)" "always w I (verifyLock p)"
  unfolding lock_def verifyLock_def by (intro always; assumption?)+

lemma always_identity [always]: "always w I (readIdentity rt)" "always w I (verifyIdentity s)" "always w I (check_identity s p)"
  unfolding readIdentity_def check_identity_def verifyIdentity_def by (intro always)+

lemma always_held [always]: "always w I (check_held ps)"
  by (induction ps) (auto intro: always)

lemma always_check [always]: "always w I (check s l)"
proof (induction s l rule: check.induct)
  case (1 s parent held wr purge released)
  have "always w I (case parent of None \<Rightarrow> io_return () | Some p \<Rightarrow> check s p)"
    using 1 by (cases parent) (auto intro: always)
  then show ?case unfolding check.simps by (rule always_then) (intro always)
qed

lemma always_acquire [always]: "always w I (acquire s wr purge)"
  unfolding acquire_def Let_def by (intro always)

lemma always_leased [always]:
  "always w I (lease_read s l p n)" "spares I p \<Longrightarrow> always w I (lease_remove s l p)"
  "spares I p \<Longrightarrow> spares I (tmp_of p) \<Longrightarrow> always w I (lease_replace s l p b)"
  unfolding lease_read_def lease_remove_def lease_replace_def by (intro always; assumption)+

lemma always_writeIdentity [always]:
  "spares I ''installation.json'' \<Longrightarrow> spares I (tmp_of ''installation.json'') \<Longrightarrow> always w I (writeIdentity i)"
  unfolding writeIdentity_def by (intro always)

lemma always_openExisting [always]: "always w I (openExisting rt b)"
  unfolding openExisting_def by (intro always)

lemma always_Open:
  assumes "\<And>p. owned w p \<Longrightarrow> spares I p"
  shows "always w I (Open rt)"
proof -
  have lock: "spares I lifecycle_lock" "spares I gate_lock" "spares I state_lock" by (simp_all add: assms)
  have doc: "spares I ''installation.json''" "spares I (tmp_of ''installation.json'')" by (simp_all add: assms)
  have "spares I ''data-mate.db''" "spares I ''data-mate.db-journal''" by (simp_all add: assms owned_def ownedPaths_def)
  then have db: "I (set_file ''data-mate.db'' x (set_file ''data-mate.db-journal'' y c))" if "I c" for x y c
    using that by (simp add: spares_def)
  have init: "always w I initializeDatabase"
    unfolding initializeDatabase_def by (intro always lock always_change db)
  show ?thesis
    unfolding Open_def establish_def new_identity_def known_identity_def
    by (intro always lock doc init)
qed

section \<open>Using them\<close>

lemma always_result: "always w I m \<Longrightarrow> I (d_now d) \<Longrightarrow> throughout I d (snd (m w d))"
  unfolding always_def using wp_result by blast

lemma wp_always:
  assumes "always w I m" and "\<And>r c'. Q r c'"
  shows "wp w I m Q c"
  using assms(1) unfolding always_def by (blast intro: wp_mono assms(2))

text \<open>Weakening what holds throughout, and keeping it at the end.\<close>

lemma wp_weaken:
  assumes "wp w J m Q c" and "J c" and "\<And>c. J c \<Longrightarrow> I c"
  shows "wp w I m (\<lambda>r c. Q r c \<and> J c) c"
  unfolding wp_def
proof (intro allI impI)
  fix d :: disk
  assume d: "d_now d = c" "I c"
  obtain r d' where m: "m w d = (r, d')" by (cases "m w d")
  have t: "throughout J d d'" and q: "Q r (d_now d')" using wpD [OF assms(1) d(1) assms(2) m] by simp_all
  then obtain ps where "d_past d' = ps @ d_past d" "list_all J ps" "J (d_now d')" by (auto simp: throughout_def)
  then have "throughout I d d'" using assms(3) by (auto simp: throughout_def list_all_iff)
  then show "throughout I d (snd (m w d)) \<and> Q (fst (m w d)) (d_now (snd (m w d))) \<and> J (d_now (snd (m w d)))"
    using q \<open>J (d_now d')\<close> by (simp add: m)
qed

end
