(* ===== verification/Purge.thy ===== *)
theory Purge
  imports Invariants
begin

text \<open>
  Lifecycle leases and cleanup (config/lifecycle.go, config/cleanup.go), the purge of
  credentials (vault/repository.go) and the uninstallation that composes them
  (service/cleanup.go).  The properties hold of every moment of an operation, so they cover
  a process that is killed anywhere, and a retry that starts from what it left.
\<close>

section \<open>Lifecycle leases\<close>

record lifecycle_lease =
  ll_lease :: lease
  ll_id :: inst

text \<open>\<open>Store.Lifecycle\<close>.\<close>

definition current_identity :: "root \<Rightarrow> inst io" where
  "current_identity rt =
     io_then (readIdentity rt) (\<lambda>(raw, _).
     io_try (decode_io rt raw) (\<lambda>r. case r of Inl _ \<Rightarrow> io_fail (Sentinel Cfg_Stale) | Inr i \<Rightarrow> io_return i))"

definition Lifecycle :: "store \<Rightarrow> lifecycle_lease io" where
  "Lifecycle s =
     (let l = Lease None [lifecycle_lock] False True False in
      io_then queue (\<lambda>_.
      io_then (lock lifecycle_lock (st_terminal s)) (\<lambda>_.
      io_then (check s l) (\<lambda>_.
      io_then (current_identity (st_root s)) (\<lambda>i.
      if i_id i \<noteq> i_id (st_id s) then io_fail (Sentinel Cfg_Stale)
      else io_return \<lparr>ll_lease = l, ll_id = i\<rparr>)))))"

definition lifecycle_files :: "bool \<Rightarrow> bytes list" where
  "lifecycle_files linux = [''service.json'', ServiceFile linux, ''registrations.json'']"

definition lifecycle_replace :: "store \<Rightarrow> lifecycle_lease \<Rightarrow> bytes \<Rightarrow> bytes \<Rightarrow> unit io" where
  "lifecycle_replace s l path b =
     io_then (look (\<lambda>w c. holds_or (path \<in> set (lifecycle_files (o_linux w)) \<and> length b \<le> 16384) (Sentinel Cfg_Ownership))) (\<lambda>_.
     io_then (check s (ll_lease l)) (\<lambda>_. replace path b))"

definition lifecycle_remove :: "store \<Rightarrow> lifecycle_lease \<Rightarrow> bytes \<Rightarrow> unit io" where
  "lifecycle_remove s l path =
     io_then (look (\<lambda>w c. holds_or (trim_suffix path ''.tmp'' \<in> set (lifecycle_files (o_linux w))) (Sentinel Cfg_Ownership))) (\<lambda>_.
     io_then (check s (ll_lease l)) (\<lambda>_. remove path))"

text \<open>
  \<open>CleanupLease\<close>: the store's identity is refreshed from the lifecycle lease's, and an
  inventory that is not the current one would be replaced.
\<close>

definition CleanupLease :: "store \<Rightarrow> lifecycle_lease \<Rightarrow> (store \<times> lifecycle_lease \<times> lease) io" where
  "CleanupLease s l =
     (let n = Lease (Some (ll_lease l)) [gate_lock, state_lock] True True False in
      io_then (check s (ll_lease l)) (\<lambda>_.
      io_then queue (\<lambda>_.
      io_then (lock gate_lock (i_purging (ll_id l))) (\<lambda>_.
      io_then (lock state_lock (i_purging (ll_id l))) (\<lambda>_.
      io_then (check s n) (\<lambda>_.
      io_then (look (\<lambda>w c. Inr (ownedPaths (o_linux w)))) (\<lambda>paths.
      io_then (if i_owned (ll_id l) \<noteq> paths then
          io_then (writeIdentity ((ll_id l)\<lparr>i_owned := paths\<rparr>)) (\<lambda>_. io_return ((ll_id l)\<lparr>i_owned := paths\<rparr>))
        else io_return (ll_id l)) (\<lambda>i.
      io_then ctx_err (\<lambda>_.
      io_return (s\<lparr>st_id := i\<rparr>, l\<lparr>ll_id := i\<rparr>, n))))))))))"

definition SetDistributionPending :: "store \<Rightarrow> lifecycle_lease \<Rightarrow> bool \<Rightarrow> (store \<times> lifecycle_lease) io" where
  "SetDistributionPending s l pending =
     io_then (CleanupLease s l) (\<lambda>(s, l, _).
     (let i = (st_id s)\<lparr>i_pending := pending\<rparr> in
      io_then (writeIdentity i) (\<lambda>_. io_return (s\<lparr>st_id := i\<rparr>, l\<lparr>ll_id := i\<rparr>))))"

section \<open>The executable\<close>

definition bin_dir :: bytes where "bin_dir = ''bin/''"
definition bin_file :: bytes where "bin_file = ''bin/data-mate''"

text \<open>\<open>binaryDirectory\<close> and its check; the directory's name refers to the one opened.\<close>

definition bin_check :: "unit io" where
  "bin_check = ask (\<lambda>w t. holds_or (o_root w t) (Sentinel Cfg_Stale))"

definition binaryDirectory :: "unit io" where
  "binaryDirectory =
     io_then validRoot (\<lambda>_.
     io_then (ask (\<lambda>w t. holds_or (o_sys w t) (Sentinel Cfg_Ownership))) (\<lambda>_.
     io_then (look (\<lambda>w c. holds_or (c_files c bin_dir \<noteq> None) (Sentinel Os_NotExist))) (\<lambda>_.
     io_then (sys ''open bin'') (\<lambda>_. bin_check))))"

definition checkBinary :: "bytes \<Rightarrow> unit io" where
  "checkBinary name = sameNamed (bin_dir @ name) (Sentinel Cfg_Ownership)"

definition staged_name :: "bytes \<Rightarrow> bool" where
  "staged_name name \<longleftrightarrow> has_prefix name ''.data-mate.'' \<and> CHR ''/'' \<notin> set name \<and> char_of (92 :: nat) \<notin> set name"

text \<open>\<open>InstallBinary\<close>: cleanup authority is recorded before the executable appears.\<close>

definition InstallBinary :: "store \<Rightarrow> lifecycle_lease \<Rightarrow> bytes \<Rightarrow> (store \<times> lifecycle_lease) io" where
  "InstallBinary s l name =
     (if \<not> staged_name name then io_fail (Sentinel Cfg_Ownership)
      else
        io_then (check s (ll_lease l)) (\<lambda>_.
        io_then (io_try (verifyIdentity s) (\<lambda>r. case r of Inl e \<Rightarrow> if errors_is e Cfg_Pending then io_return () else io_fail e | Inr _ \<Rightarrow> io_return ())) (\<lambda>_.
        io_then binaryDirectory (\<lambda>_.
        io_then (checkBinary name) (\<lambda>_.
        io_then (sys ''sync executable'') (\<lambda>_.
        io_then (check s (ll_lease l)) (\<lambda>_.
        io_then bin_check (\<lambda>_.
        io_then (sameNamed (bin_dir @ name) (Sentinel Cfg_Stale)) (\<lambda>_.
        io_then (CleanupLease s l) (\<lambda>(s, l, state).
        io_then ctx_err (\<lambda>_.
        (let i = (st_id s)\<lparr>i_exe := ExecutablePath (st_root s)\<rparr>; s = s\<lparr>st_id := i\<rparr>; l = l\<lparr>ll_id := i\<rparr> in
         io_then (writeIdentity i) (\<lambda>_.
         io_then (check s state) (\<lambda>_.
         io_then bin_check (\<lambda>_.
         io_then (sameNamed (bin_dir @ name) (Sentinel Cfg_Stale)) (\<lambda>_.
         io_then ctx_err (\<lambda>_.
         io_then (sys ''replace executable'') (\<lambda>_.
         io_then (rename_file (bin_dir @ name) bin_file) (\<lambda>_.
         io_then (sys ''sync directory'') (\<lambda>_.
         io_return (s, l)))))))))))))))))))))"

definition RemoveBinary :: "store \<Rightarrow> lease \<Rightarrow> unit io" where
  "RemoveBinary s l =
     (if l_parent l = None \<or> \<not> l_write l then io_fail (Sentinel Cfg_Ownership)
      else
        io_then (check s l) (\<lambda>_.
        if i_exe (st_id s) = [] then io_return ()
        else
          io_then (io_try binaryDirectory (\<lambda>r.
            case r of Inr _ \<Rightarrow> io_return True
            | Inl e \<Rightarrow> if errors_is e Os_NotExist then io_return False else io_fail e)) (\<lambda>there.
          if \<not> there then io_return ()
          else
            io_then (sys ''stat executable'') (\<lambda>_.
            io_then (look (\<lambda>w c. Inr (c_files c bin_file \<noteq> None))) (\<lambda>exists.
            if \<not> exists then io_return ()
            else
              io_then (ask (\<lambda>w t. holds_or (o_safe w t bin_file) (Sentinel Cfg_Ownership))) (\<lambda>_.
              io_then (check s l) (\<lambda>_.
              io_then bin_check (\<lambda>_.
              io_then (sys ''unlink executable'') (\<lambda>_.
              io_then (change (set_file bin_file None)) (\<lambda>_.
              sys ''sync directory''))))))))))"

definition TrimBinaryDirectory :: "store \<Rightarrow> lease \<Rightarrow> unit io" where
  "TrimBinaryDirectory s l =
     (if l_parent l = None then io_fail (Sentinel Cfg_Ownership)
      else
        io_then (check s l) (\<lambda>_.
        if i_exe (st_id s) = [] then io_return ()
        else
          io_then (io_try binaryDirectory (\<lambda>r.
            case r of Inr _ \<Rightarrow> io_return True
            | Inl e \<Rightarrow> if errors_is e Os_NotExist then io_return False else io_fail e)) (\<lambda>there.
          if \<not> there then io_return ()
          else
            io_then bin_check (\<lambda>_.
            io_then (ask (\<lambda>w t. Inr (o_link w t))) (\<lambda>link.
            io_then (ask (\<lambda>w t. Inr (o_empty w t))) (\<lambda>no_other.
            io_then (look (\<lambda>w c. Inr (no_other \<and> c_files c bin_file = None))) (\<lambda>empty.
            if link \<or> \<not> empty then io_return ()
            else
              io_then (sys ''remove bin'') (\<lambda>_.
              io_then (change (set_file bin_dir None)) (\<lambda>_.
              sys ''sync directory'')))))))))"

section \<open>Purging\<close>

fun remove_all :: "bytes list \<Rightarrow> unit io" where
  "remove_all [] = io_return ()"
| "remove_all (p # ps) = io_then (remove p) (\<lambda>_. remove_all ps)"

definition kept_last :: "bytes list" where
  "kept_last = [''installation.json'', ''lifecycle.lock'', ''state-gate.lock'', ''state.lock'', ''purge.json'', ''purge.json.tmp'']"

definition purged_first :: "bool \<Rightarrow> bytes list" where
  "purged_first linux = filter (\<lambda>p. p \<notin> set kept_last) (ownedPaths linux)"

definition FinishPurge :: "store \<Rightarrow> lease \<Rightarrow> unit io" where
  "FinishPurge s l =
     (if l_parent l = None \<or> \<not> l_write l \<or> \<not> i_purging (st_id s) then io_fail (Sentinel Cfg_Ownership)
      else
        io_then (check s l) (\<lambda>_.
        io_then (look (\<lambda>w c. Inr (purged_first (o_linux w)))) (\<lambda>paths.
        io_then (remove_all paths) (\<lambda>_.
        io_then (RemoveBinary s l) (\<lambda>_.
        io_then (TrimBinaryDirectory s l) (\<lambda>_.
        io_then (replace ''purge.json'' (encodeIdentity (st_id s))) (\<lambda>_.
        io_then (remove_all [''state.lock'', ''state-gate.lock'', ''installation.json'', ''lifecycle.lock'']) (\<lambda>_.
        io_then (remove ''purge.json.tmp'') (\<lambda>_.
        io_then (remove ''purge.json'') (\<lambda>_.
        io_then validRoot (\<lambda>_.
        io_then (ask (\<lambda>w t. Inr (o_link w t))) (\<lambda>link.
        if link then io_return ()
        else io_then (ask (\<lambda>w t. Inr (o_empty w t))) (\<lambda>empty.
          if \<not> empty then io_return () else sys ''remove root'')))))))))))))"

text \<open>\<open>HasKeysetForPurge\<close>: a database that cannot be read counts as one that records a key.\<close>

definition HasKeyset :: "store \<Rightarrow> lease \<Rightarrow> bool io" where
  "HasKeyset s l =
     io_then (check s l) (\<lambda>_.
     io_then (io_try (openFile ''data-mate.db'' False) (\<lambda>r.
       case r of
         Inr _ \<Rightarrow> io_return True
       | Inl e \<Rightarrow> if errors_is e Os_NotExist \<and> i_purging (st_id s) then io_return False else io_fail e)) (\<lambda>there.
     if \<not> there then io_return False
     else
       io_then (ask (\<lambda>w t. Inr (o_sys w t))) (\<lambda>read.
       io_then (look (\<lambda>w c. Inr (case c_files c ''data-mate.db'' of Some b \<Rightarrow> o_keyset w b | None \<Rightarrow> Inl (Sentinel Cfg_State)))) (\<lambda>k.
       io_then (sys ''close'') (\<lambda>_.
       io_return (if read then (case k of Inr phase \<Rightarrow> phase | Inl _ \<Rightarrow> True) else True))))))"

text \<open>\<open>keys.Delete\<close>; a failure may come after the account is gone.\<close>

definition delete_key :: "bytes \<Rightarrow> unit io" where
  "delete_key account =
     io_then (ask (\<lambda>w t. Inr (o_delete w t))) (\<lambda>(e, gone).
     io_then (if e = None \<or> gone then change (\<lambda>c. c\<lparr>c_keys := (c_keys c)(account := False)\<rparr>) else io_return ()) (\<lambda>_.
     case e of None \<Rightarrow> io_return () | Some x \<Rightarrow> io_fail (providerError x)))"

definition PurgeLocked :: "store \<Rightarrow> lease \<Rightarrow> store io" where
  "PurgeLocked s l =
     io_then (HasKeyset s l) (\<lambda>has_key.
     io_then (BeginPurge s l) (\<lambda>s.
     io_then point (\<lambda>_.
     io_then (if has_key then delete_key (i_key (st_id s)) else io_return ()) (\<lambda>_.
     io_then point (\<lambda>_.
     io_then (lease_remove s l ''data-mate.db-journal'') (\<lambda>_.
     io_then (lease_remove s l ''data-mate.db'') (\<lambda>_.
     io_return s)))))))"

definition PurgeCredentials :: "store \<Rightarrow> store io" where
  "PurgeCredentials s = io_then (acquire s True True) (\<lambda>l. PurgeLocked s l)"

section \<open>Uninstalling\<close>

text \<open>
  Stopping the service, its runtime files, the agents' registrations and the shell files are
  external stages; they may rewrite the lifecycle's own files and nothing else of the root.
\<close>

definition lifecycle_names :: "bool \<Rightarrow> bytes list" where
  "lifecycle_names linux =
     [''registrations.json.tmp'', ''registrations.json'', ''service.json.tmp'', ''service.json'',
      ServiceFile linux @ ''.tmp'', ServiceFile linux]"

definition override_files :: "bytes list \<Rightarrow> (bytes \<Rightarrow> bytes option) \<Rightarrow> contents \<Rightarrow> contents" where
  "override_files names f c = c\<lparr>c_files := (\<lambda>p. if p \<in> set names then f p else c_files c p)\<rparr>"

definition external :: "bytes \<Rightarrow> unit io" where
  "external stage =
     io_then (look (\<lambda>w c. Inr (lifecycle_names (o_linux w)))) (\<lambda>names.
     io_then (ask (\<lambda>w t. Inr (o_ext w stage t))) (\<lambda>(f, e).
     io_then (change (override_files names f)) (\<lambda>_.
     ask (\<lambda>w t. no_error e))))"

text \<open>\<open>RemainingOwned\<close>: the names still there, and the error that ended the inspection.\<close>

fun remaining :: "bytes list \<Rightarrow> bytes list \<Rightarrow> (bytes list \<times> goerr option) io" where
  "remaining rem [] =
     io_try binaryDirectory (\<lambda>r.
       case r of
         Inr _ \<Rightarrow> io_then (look (\<lambda>w c. Inr (c_files c bin_file \<noteq> None))) (\<lambda>there.
           io_return (if there then rem @ [bin_file] else rem, None))
       | Inl e \<Rightarrow> io_return (rem, if errors_is e Os_NotExist then None else Some e))"
| "remaining rem (p # ps) =
     io_try directory (\<lambda>r.
       case r of
         Inl e \<Rightarrow> io_return (rem, Some e)
       | Inr _ \<Rightarrow>
           io_then (look (\<lambda>w c. Inr (c_files c p \<noteq> None))) (\<lambda>there.
           io_then (ask (\<lambda>w t. Inr (o_sys w t))) (\<lambda>ok.
           if there then remaining (rem @ [p]) ps
           else if ok then remaining rem ps
           else io_return (rem, Some (Sentinel Cfg_Ownership)))))"

definition RemainingOwned :: "(bytes list \<times> goerr option) io" where
  "RemainingOwned =
     io_then (ask (\<lambda>w t. Inr (o_open w t))) (\<lambda>e.
     case e of
       Some x \<Rightarrow> io_return ([], if errors_is x Os_NotExist then None else Some x)
     | None \<Rightarrow>
         io_try validRoot (\<lambda>r.
           case r of
             Inl e \<Rightarrow> io_return ([], Some e)
           | Inr _ \<Rightarrow> io_then (look (\<lambda>w c. Inr (ownedPaths (o_linux w)))) (\<lambda>paths. remaining [] paths)))"

datatype cleanup_error = CleanupError bytes "bytes list" goerr

definition at_stage :: "bytes \<Rightarrow> 'a io \<Rightarrow> ('a \<Rightarrow> cleanup_error option io) \<Rightarrow> cleanup_error option io" where
  "at_stage stage m k =
     io_try m (\<lambda>r.
       case r of
         Inr x \<Rightarrow> k x
       | Inl e \<Rightarrow> io_then RemainingOwned (\<lambda>(rem, _). io_return (Some (CleanupError stage rem e))))"

definition prepare_keyring :: "store \<Rightarrow> lifecycle_lease \<Rightarrow> (store \<times> lifecycle_lease) io" where
  "prepare_keyring s l =
     io_then (CleanupLease s l) (\<lambda>(s, l, state).
     io_then (HasKeyset s state) (\<lambda>has_key.
     io_then (if has_key then ask (\<lambda>w t. no_error (snd (o_ext w ''keyring preparation'' t))) else io_return ()) (\<lambda>_.
     io_return (s, l))))"

definition stop_service :: "store \<Rightarrow> lifecycle_lease \<Rightarrow> unit io" where
  "stop_service s l =
     io_then (io_try (lease_read s (ll_lease l) ''service.json'' 4096) (\<lambda>r.
       case r of Inr _ \<Rightarrow> io_return True
       | Inl e \<Rightarrow> if errors_is e Os_NotExist then io_return False else io_fail e)) (\<lambda>there.
     if there then external ''service shutdown'' else io_return ())"

fun lifecycle_remove_all :: "store \<Rightarrow> lifecycle_lease \<Rightarrow> bytes list \<Rightarrow> unit io" where
  "lifecycle_remove_all s l [] = io_return ()"
| "lifecycle_remove_all s l (p # ps) = io_then (lifecycle_remove s l p) (\<lambda>_. lifecycle_remove_all s l ps)"

definition remove_registrations :: "store \<Rightarrow> lifecycle_lease \<Rightarrow> unit io" where
  "remove_registrations s l =
     io_then (external ''agent registrations'') (\<lambda>_.
     io_then (look (\<lambda>w c. Inr (ServiceFile (o_linux w)))) (\<lambda>file.
     lifecycle_remove_all s l [''registrations.json.tmp'', ''registrations.json'', ''service.json.tmp'', file @ ''.tmp'', file]))"

definition end_pending :: "store \<Rightarrow> lifecycle_lease \<Rightarrow> (store \<times> lifecycle_lease) io" where
  "end_pending s l =
     io_then (external ''shell and command files'') (\<lambda>_.
     if i_pending (ll_id l) then SetDistributionPending s l False else io_return (s, l))"

definition drain_state :: "store \<Rightarrow> lifecycle_lease \<Rightarrow> (store \<times> lease) io" where
  "drain_state s l =
     io_then (CleanupLease s l) (\<lambda>(s, l, state). io_then ctx_err (\<lambda>_. io_return (s, state)))"

definition uninstall_held :: "store \<Rightarrow> lifecycle_lease \<Rightarrow> bool \<Rightarrow> cleanup_error option io" where
  "uninstall_held s l purge =
     at_stage ''service shutdown'' (if i_purging (ll_id l) \<and> \<not> purge then io_fail (Sentinel Cfg_Purging) else io_return ()) (\<lambda>_.
     at_stage ''keyring preparation'' (if purge then prepare_keyring s l else io_return (s, l)) (\<lambda>(s, l).
     at_stage ''service shutdown'' (stop_service s l) (\<lambda>_.
     at_stage ''runtime cleanup'' (external ''runtime cleanup'') (\<lambda>_.
     at_stage ''agent registrations'' (remove_registrations s l) (\<lambda>_.
     at_stage ''shell and command files'' (end_pending s l) (\<lambda>(s, l).
     at_stage ''state drain'' (drain_state s l) (\<lambda>(s, state).
     if purge then
       at_stage ''credential purge'' (PurgeLocked s state) (\<lambda>s.
       at_stage ''owned files and final identity'' (FinishPurge s state) (\<lambda>_. io_return None))
     else
       at_stage ''installed executable'' (io_then (RemoveBinary s state) (\<lambda>_. TrimBinaryDirectory s state)) (\<lambda>_.
       io_return None))))))))"

definition Uninstall :: "root \<Rightarrow> bool \<Rightarrow> cleanup_error option io" where
  "Uninstall rt purge =
     io_try (openExisting rt True) (\<lambda>r.
       case r of
         Inr s \<Rightarrow> io_then (Lifecycle s) (\<lambda>l. uninstall_held s l purge)
       | Inl e \<Rightarrow>
           if \<not> errors_is e Os_NotExist then io_fail e
           else
             io_then RemainingOwned (\<lambda>(rem, err).
             if err \<noteq> None \<or> rem \<noteq> [] then
               io_return (Some (CleanupError ''missing installation identity'' rem (Sentinel Svc_State)))
             else io_then (external ''shell and command files'') (\<lambda>_. io_return None)))"

section \<open>What the steps of an uninstallation do\<close>

lemma bin_names [simp]:
  "bin_file \<noteq> ''installation.json''" "bin_file \<noteq> ''purge.json''" "bin_dir \<noteq> ''installation.json''" "bin_dir \<noteq> ''purge.json''"
  "bin_dir \<noteq> bin_file" "bin_file \<noteq> bin_dir"
  by (simp_all add: bin_file_def bin_dir_def)

lemma wp_ask_value [wps]: "(\<And>x. wp w I (k x) Q c) \<Longrightarrow> wp w I (io_then (ask (\<lambda>w t. Inr (f w t))) k) Q c"
  by (rule wp_then, rule wp_ask) simp

definition lifecycle_held :: lease where
  "lifecycle_held = Lease None [lifecycle_lock] False True False"

lemma lifecycle_held_good: "lease_good w s lifecycle_held c \<longleftrightarrow> c_files c lifecycle_lock \<noteq> None \<and> identity_good w s True c"
  by (auto simp: lifecycle_held_def held_good_def)

definition cleanup_held :: lease where
  "cleanup_held = Lease (Some lifecycle_held) [gate_lock, state_lock] True True False"

lemma cleanup_held_good:
  "lease_good w s cleanup_held c \<longleftrightarrow>
     c_files c lifecycle_lock \<noteq> None \<and> c_files c gate_lock \<noteq> None \<and> c_files c state_lock \<noteq> None \<and> identity_good w s True c"
  by (auto simp: cleanup_held_def held_good_def lifecycle_held_good)

lemma cleanup_held_simps [simp]:
  "l_parent cleanup_held = Some lifecycle_held" "l_write cleanup_held" "l_purge cleanup_held"
  by (simp_all add: cleanup_held_def)

lemma gov_raw:
  "gov w rt c = Some i \<Longrightarrow> c_files c ''installation.json'' = Some b \<Longrightarrow> decodeIdentity (o_sha w) (o_linux w) rt b = Inr i"
  "gov w rt c = Some i \<Longrightarrow> c_files c ''installation.json'' = None \<Longrightarrow> c_files c ''purge.json'' = Some b \<Longrightarrow>
     decodeIdentity (o_sha w) (o_linux w) rt b = Inr i"
  by (auto simp: gov_def doc_def split: if_splits option.splits sum.splits)

lemma identity_good_opened [simp]: "identity_good w s b (opened gate_lock x c) = identity_good w s b c"
  "identity_good w s b (opened state_lock x c) = identity_good w s b c" "identity_good w s b (opened lifecycle_lock x c) = identity_good w s b c"
  by (simp_all add: identity_good_def)

lemma opened_there [simp]: "c_files (opened p b c) p \<noteq> None \<longleftrightarrow> b \<or> c_files c p \<noteq> None"
  by (auto simp: opened_def)

lemma lock_distinct [simp]:
  "gate_lock \<noteq> state_lock" "gate_lock \<noteq> lifecycle_lock" "state_lock \<noteq> lifecycle_lock"
  "state_lock \<noteq> gate_lock" "lifecycle_lock \<noteq> gate_lock" "lifecycle_lock \<noteq> state_lock"
  by (simp_all add: gate_lock_def state_lock_def lifecycle_lock_def)

lemma wp_current_identity:
  assumes gov: "gov w rt c = Some i" and err: "\<And>e. \<not> calm w \<Longrightarrow> Q (Inl e) c" and ok: "wp w I (k i) Q c"
  shows "wp w I (io_then (current_identity rt) k) Q c"
proof -
  have step: "wp w I (io_then (io_try (decode_io rt raw) (\<lambda>r. case r of Inl _ \<Rightarrow> io_fail (Sentinel Cfg_Stale) | Inr i \<Rightarrow> io_return i)) k) Q c"
    if "decodeIdentity (o_sha w) (o_linux w) rt raw = Inr i" for raw
    unfolding decode_io_def
    by (rule wp_then, rule wp_try, rule wp_look) (use that ok in \<open>auto intro!: wp_return\<close>)
  show ?thesis
    unfolding current_identity_def
    by (rule wp_assoc, rule wp_readIdentity) (use gov_governed [OF gov] gov_raw [OF gov] step in \<open>auto intro!: err\<close>)
qed

lemma wp_Lifecycle [wps]:
  fixes s c
  defines "c1 \<equiv> opened lifecycle_lock (st_terminal s) c"
  assumes inv: "I c \<Longrightarrow> I c1"
    and err: "\<And>e c'. \<not> (calm w \<and> (st_terminal s \<or> c_files c lifecycle_lock \<noteq> None) \<and> identity_good w s True c) \<Longrightarrow>
        c' = c \<or> c' = c1 \<Longrightarrow> Q (Inl e) c'"
    and ok: "\<And>i. gov w (st_root s) c = Some i \<Longrightarrow> i_id i = i_id (st_id s) \<Longrightarrow> lease_good w s lifecycle_held c1 \<Longrightarrow>
        wp w I (k \<lparr>ll_lease = lifecycle_held, ll_id = i\<rparr>) Q c1"
  shows "wp w I (io_then (Lifecycle s) k) Q c"
proof -
  have last: "wp w I (io_then (current_identity (st_root s)) (\<lambda>i.
      io_then (if i_id i \<noteq> i_id (st_id s) then io_fail (Sentinel Cfg_Stale) else io_return \<lparr>ll_lease = lifecycle_held, ll_id = i\<rparr>) k)) Q c1"
    if good: "lease_good w s lifecycle_held c1"
  proof -
    obtain i where i: "gov w (st_root s) c1 = Some i" "i_id i = i_id (st_id s)"
      using good by (auto simp: lifecycle_held_good identity_good_def)
    have "gov w (st_root s) c = Some i" using i(1) by (simp add: c1_def)
    with i good show ?thesis
      by (intro wp_current_identity [OF i(1)]) (auto simp: io_then_return intro!: err ok)
  qed
  have "lease_good w s lifecycle_held c1 \<longleftrightarrow>
      (st_terminal s \<or> c_files c lifecycle_lock \<noteq> None) \<and> identity_good w s True c"
    by (simp only: lifecycle_held_good c1_def opened_there identity_good_opened)
  then show ?thesis
    unfolding Lifecycle_def Let_def queue_def lifecycle_held_def [symmetric] io_then_assoc
    by (intro wp_ctx wp_lock wp_check_lease, fold c1_def) (use last inv in \<open>auto intro!: err\<close>)
qed

lemma wp_CleanupLease [wps]:
  fixes s l c
  defines "cg \<equiv> opened gate_lock (i_purging (ll_id l)) c"
  defines "c2 \<equiv> opened state_lock (i_purging (ll_id l)) cg"
  assumes held: "ll_lease l = lifecycle_held" and own: "i_owned (ll_id l) = ownedPaths (o_linux w)"
    and inv: "I c \<Longrightarrow> I cg" "I cg \<Longrightarrow> I c2"
    and err: "\<And>e c'. \<not> (calm w \<and> c_files c lifecycle_lock \<noteq> None \<and> identity_good w s True c \<and>
        (i_purging (ll_id l) \<or> c_files c gate_lock \<noteq> None \<and> c_files c state_lock \<noteq> None)) \<Longrightarrow>
        c' = c \<or> c' = cg \<or> c' = c2 \<Longrightarrow> Q (Inl e) c'"
    and ok: "lease_good w s cleanup_held c2 \<Longrightarrow> wp w I (k (s\<lparr>st_id := ll_id l\<rparr>, l, cleanup_held)) Q c2"
  shows "wp w I (io_then (CleanupLease s l) k) Q c"
proof -
  have good: "lease_good w s cleanup_held c2 \<longleftrightarrow> c_files c lifecycle_lock \<noteq> None \<and> identity_good w s True c \<and>
      (i_purging (ll_id l) \<or> c_files c gate_lock \<noteq> None \<and> c_files c state_lock \<noteq> None)"
    by (auto simp: cleanup_held_good c2_def cg_def opened_files)
  have same: "l\<lparr>ll_id := ll_id l\<rparr> = l" by simp
  have first: "lease_good w s lifecycle_held c \<longleftrightarrow> c_files c lifecycle_lock \<noteq> None \<and> identity_good w s True c"
    by (rule lifecycle_held_good)
  have other: "c_files cg state_lock = c_files c state_lock" by (simp add: cg_def)
  show ?thesis
    unfolding CleanupLease_def Let_def queue_def held cleanup_held_def [symmetric]
    by (intro wp_assoc wp_ctx wp_lock wp_check_lease wp_look_then case_InrI wp_if_then wp_return_then, fold cg_def, fold c2_def)
      (use own inv good first ok same other in \<open>auto intro!: err\<close>)
qed

lemma wp_lease_remove [wps]:
  assumes "I c \<Longrightarrow> I (set_file path None c)"
    and "\<And>e c'. \<not> (calm w \<and> owned w path \<and> l_write l \<and>
        trim_suffix path ''.tmp'' \<in> {''data-mate.db'', ''data-mate.db-journal'', ''known_hosts''} \<and> lease_good w s l c) \<Longrightarrow>
        c' = c \<or> c' = set_file path None c \<Longrightarrow> Q (Inl e) c'"
    and "wp w I (k ()) Q (set_file path None c)"
  shows "wp w I (io_then (lease_remove s l path) k) Q c"
  by (unfold lease_remove_def, intro wps) (use assms in auto)

text \<open>A stage outside leaves everything but the lifecycle's own files as it was.\<close>

definition outside :: "world \<Rightarrow> contents \<Rightarrow> contents \<Rightarrow> bool" where
  "outside w c c' \<longleftrightarrow>
     c_keys c' = c_keys c \<and> (\<forall>p. p \<notin> set (lifecycle_names (o_linux w)) \<longrightarrow> c_files c' p = c_files c p)"

lemma outside_refl [simp]: "outside w c c"
  by (simp add: outside_def)

lemma outside_override [simp]: "outside w c (override_files (lifecycle_names (o_linux w)) f c')  = outside w c c'"
  by (auto simp: outside_def override_files_def)

lemma outside_remove: "p \<in> set (lifecycle_names (o_linux w)) \<Longrightarrow> outside w c (set_file p v c') = outside w c c'"
  by (auto simp: outside_def)

lemma wp_external [wps]:
  assumes inv: "\<And>c'. outside w c c' \<Longrightarrow> I c'" and err: "\<And>e c'. \<not> calm w \<Longrightarrow> outside w c c' \<Longrightarrow> Q (Inl e) c'"
    and ok: "\<And>c'. outside w c c' \<Longrightarrow> wp w I (k ()) Q c'"
  shows "wp w I (io_then (external stage) k) Q c"
proof -
  have "wp w I (io_then (ask (\<lambda>w t. Inr (o_ext w stage t))) (\<lambda>(f, e). io_then (change (override_files (lifecycle_names (o_linux w)) f)) (\<lambda>_.
      io_then (ask (\<lambda>w t. no_error e)) k))) Q c"
  proof (rule wp_then, rule wp_ask, rule case_InrI)
    fix t
    obtain f e where fe: "o_ext w stage t = (f, e)" by (cases "o_ext w stage t")
    have calm: "calm w \<Longrightarrow> e = None" using fe by (auto dest: calmD(12) [where s = stage and t = t])
    have "wp w I (io_then (change (override_files (lifecycle_names (o_linux w)) f)) (\<lambda>_. io_then (ask (\<lambda>w t. no_error e)) k)) Q c"
      by (rule wp_change_then, rule inv, simp, rule wp_no_error) (use calm in \<open>auto intro!: err ok\<close>)
    then show "wp w I (case o_ext w stage t of (f, e) \<Rightarrow> io_then (change (override_files (lifecycle_names (o_linux w)) f)) (\<lambda>_.
      io_then (ask (\<lambda>w t. no_error e)) k)) Q c" by (simp add: fe)
  qed
  then have "wp w I (io_then (io_then (ask (\<lambda>w t. Inr (o_ext w stage t))) (\<lambda>(f, e). io_then (change (override_files (lifecycle_names (o_linux w)) f)) (\<lambda>_.
      ask (\<lambda>w t. no_error e)))) k) Q c"
    by (simp add: io_then_assoc prod.case_distrib [of "\<lambda>m. io_then m k"])
  then show ?thesis
    unfolding external_def io_then_assoc by (intro wp_look_then case_InrI) (simp add: io_then_assoc)
qed

lemma wp_lifecycle_remove [wps]:
  assumes path: "trim_suffix path ''.tmp'' \<in> set (lifecycle_files (o_linux w))" and held: "ll_lease l = lifecycle_held"
    and inv: "I c \<Longrightarrow> I (set_file path None c)"
    and err: "\<And>e c'. \<not> (calm w \<and> owned w path \<and> c_files c lifecycle_lock \<noteq> None \<and> identity_good w s True c) \<Longrightarrow>
        c' = c \<or> c' = set_file path None c \<Longrightarrow> Q (Inl e) c'"
    and ok: "wp w I (k ()) Q (set_file path None c)"
  shows "wp w I (io_then (lifecycle_remove s l path) k) Q c"
  unfolding lifecycle_remove_def
  by (rule wp_assoc, rule wp_look_then)
    (use path held inv ok in \<open>auto simp: lifecycle_held_good intro!: wps err\<close>)

lemma wp_HasKeyset [wps]:
  assumes err: "\<And>e. \<not> (calm w \<and> lease_good w s l c \<and> (i_purging (st_id s) \<or> c_files c ''data-mate.db'' \<noteq> None)) \<Longrightarrow> Q (Inl e) c"
    and ok: "\<And>b. b \<or> \<not> (\<exists>x. c_files c ''data-mate.db'' = Some x \<and> o_keyset w x \<noteq> Inr False) \<Longrightarrow> lease_good w s l c \<Longrightarrow> wp w I (k b) Q c"
  shows "wp w I (io_then (HasKeyset s l) k) Q c"
proof -
  have db: "owned w ''data-mate.db''" by (simp add: owned_def ownedPaths_def)
  have answer: "wp w I (io_then (ask (\<lambda>w t. Inr (o_sys w t))) (\<lambda>read.
       io_then (look (\<lambda>w c. Inr (case c_files c ''data-mate.db'' of Some b \<Rightarrow> o_keyset w b | None \<Rightarrow> Inl (Sentinel Cfg_State)))) (\<lambda>k'.
       io_then (sys ''close'') (\<lambda>_.
       k (if read then (case k' of Inr phase \<Rightarrow> phase | Inl _ \<Rightarrow> True) else True))))) Q c"
    if "lease_good w s l c" "c_files c ''data-mate.db'' \<noteq> None"
    by (rule wp_then, rule wp_ask, rule case_InrI, rule wp_look_then, rule case_InrI, rule wp_sys)
      (use that in \<open>auto intro!: err ok split: option.split sum.split\<close>)
  show ?thesis
    unfolding HasKeyset_def
    by (rule wp_assoc, rule wp_check_lease, rule err, blast, rule wp_assoc, rule wp_then, rule wp_try, rule wp_last, rule wp_openFile)
      (use db answer in \<open>auto simp: io_then_assoc io_then_return intro!: wp_fail wp_return err ok\<close>)
qed

lemma wp_delete_key [wps]:
  fixes c account
  defines "gone \<equiv> c\<lparr>c_keys := (c_keys c)(account := False)\<rparr>"
  assumes inv: "I c \<Longrightarrow> I gone" and err: "\<And>e c'. \<not> calm w \<Longrightarrow> c' = c \<or> c' = gone \<Longrightarrow> Q (Inl e) c'"
    and ok: "wp w I (k ()) Q gone"
  shows "wp w I (io_then (delete_key account) k) Q c"
  unfolding delete_key_def
proof (rule wp_assoc, rule wp_then, rule wp_ask, rule case_InrI)
  fix t
  obtain e lost where d: "o_delete w t = (e, lost)" by (cases "o_delete w t")
  have calm: "calm w \<Longrightarrow> e = None" using d by (auto dest: calmD(10) [where t = t])
  show "wp w I (io_then (case o_delete w t of (e, lost) \<Rightarrow>
      io_then (if e = None \<or> lost then change (\<lambda>c. c\<lparr>c_keys := (c_keys c)(account := False)\<rparr>) else io_return ()) (\<lambda>_.
      case e of None \<Rightarrow> io_return () | Some x \<Rightarrow> io_fail (providerError x))) k) Q c"
  proof (cases e)
    case None
    then show ?thesis using inv ok by (auto simp: d gone_def io_then_assoc io_then_return intro!: wp_change_then)
  next
    case (Some x)
    with calm have "\<not> calm w" by auto
    with Some show ?thesis using inv err
      by (cases lost) (auto simp: d gone_def io_then_assoc io_then_return intro!: wp_change_then wp_fail_then)
  qed
qed

text \<open>The directory of the executable, when there is one.\<close>

lemma wp_bin_probe [wps]:
  assumes err: "\<And>e. \<not> calm w \<Longrightarrow> Q (Inl e) c"
    and there: "c_files c bin_dir \<noteq> None \<Longrightarrow> wp w I (k True) Q c" and missing: "c_files c bin_dir = None \<Longrightarrow> wp w I (k False) Q c"
  shows "wp w I (io_then (io_try binaryDirectory (\<lambda>r.
            case r of Inr _ \<Rightarrow> io_return True
            | Inl e \<Rightarrow> if errors_is e Os_NotExist then io_return False else io_fail e)) k) Q c"
proof -
  have look: "wp w I (io_then (look (\<lambda>w c. holds_or (c_files c bin_dir \<noteq> None) (Sentinel Os_NotExist))) m) R c"
    if "c_files c bin_dir = None \<Longrightarrow> R (Inl (Sentinel Os_NotExist)) c" "c_files c bin_dir \<noteq> None \<Longrightarrow> wp w I (m ()) R c" for m :: "unit \<Rightarrow> unit io" and R
    by (rule wp_look_then) (use that in \<open>cases "c_files c bin_dir"; simp\<close>)
  show ?thesis
    by (rule wp_then, rule wp_try, rule wp_last, unfold binaryDirectory_def validRoot_def bin_check_def, intro wps look)
      (use there missing in \<open>auto simp: calmD intro!: wp_fail wp_return err\<close>)
qed

lemma wp_RemoveBinary [wps]:
  fixes s c
  defines "removed \<equiv> \<lambda>c. i_exe (st_id s) = [] \<or> c_files c bin_dir = None \<or> c_files c bin_file = None"
  assumes inv: "I c \<Longrightarrow> I (set_file bin_file None c)"
    and err: "\<And>e c'. \<not> (calm w \<and> lease_good w s l c \<and> l_parent l \<noteq> None \<and> l_write l) \<Longrightarrow>
        c' = c \<or> c' = set_file bin_file None c \<Longrightarrow> Q (Inl e) c'"
    and ok: "\<And>c'. c' = c \<or> c' = set_file bin_file None c \<Longrightarrow> removed c' \<Longrightarrow> wp w I (k ()) Q c'"
  shows "wp w I (io_then (RemoveBinary s l) k) Q c"
proof (cases "l_parent l = None \<or> \<not> l_write l")
  case True
  then show ?thesis by (auto simp: RemoveBinary_def intro!: wps err)
next
  case False
  then show ?thesis
    unfolding RemoveBinary_def bin_check_def
    by (simp only: if_False, intro wps wp_look_then)
      (use inv ok in \<open>auto simp: calmD removed_def intro!: wps err\<close>)
qed

lemma wp_TrimBinaryDirectory [wps]:
  assumes inv: "I c \<Longrightarrow> I (set_file bin_dir None c)"
    and err: "\<And>e c'. \<not> (calm w \<and> lease_good w s l c \<and> l_parent l \<noteq> None) \<Longrightarrow>
        c' = c \<or> c' = set_file bin_dir None c \<Longrightarrow> Q (Inl e) c'"
    and ok: "\<And>c'. c' = c \<or> c' = set_file bin_dir None c \<Longrightarrow> wp w I (k ()) Q c'"
  shows "wp w I (io_then (TrimBinaryDirectory s l) k) Q c"
proof (cases "l_parent l = None")
  case True
  then show ?thesis by (auto simp: TrimBinaryDirectory_def intro!: wps err)
next
  case False
  then show ?thesis
    unfolding TrimBinaryDirectory_def bin_check_def
    by (simp only: if_False, intro wps wp_look_then)
      (use inv ok in \<open>auto simp: calmD intro!: wps err\<close>)
qed

section \<open>Interrupted and retried\<close>

definition account :: "world \<Rightarrow> root \<Rightarrow> bytes \<Rightarrow> bytes" where
  "account w rt ident = o_sha w (rt_digest rt @ '':'' @ ident)"

text \<open>The database says that there may be a key, or it cannot be read.\<close>

definition db_records :: "world \<Rightarrow> contents \<Rightarrow> bool" where
  "db_records w c \<longleftrightarrow> (\<exists>b. c_files c ''data-mate.db'' = Some b \<and> o_keyset w b \<noteq> Inr False)"

text \<open>
  What cleanup needs to start, or to start again: the identity, the locks unless a tombstone
  lets it recreate them, and a database that leads to the key as long as the key exists.
\<close>

definition recoverable :: "world \<Rightarrow> root \<Rightarrow> bytes \<Rightarrow> contents \<Rightarrow> bool" where
  "recoverable w rt ident c \<longleftrightarrow>
     (\<exists>i. gov w rt c = Some i \<and> i_id i = ident \<and> (i_purging i \<or>
        i_established i \<and> c_files c ''data-mate.db'' \<noteq> None \<and> c_files c gate_lock \<noteq> None \<and> c_files c state_lock \<noteq> None)) \<and>
     (c_files c ''installation.json'' \<noteq> None \<longrightarrow> c_files c lifecycle_lock \<noteq> None) \<and>
     (c_keys c (account w rt ident) \<longrightarrow> db_records w c)"

text \<open>Nothing of the installation is left.\<close>

definition cleared :: "world \<Rightarrow> root \<Rightarrow> bytes \<Rightarrow> contents \<Rightarrow> bool" where
  "cleared w rt ident c \<longleftrightarrow>
     (\<forall>p \<in> set (ownedPaths (o_linux w)). c_files c p = None) \<and> \<not> c_keys c (account w rt ident)"

definition safe :: "world \<Rightarrow> root \<Rightarrow> bytes \<Rightarrow> contents \<Rightarrow> bool" where
  "safe w rt ident c \<longleftrightarrow> recoverable w rt ident c \<or> cleared w rt ident c"

text \<open>The files that decide this.\<close>

definition critical :: "bytes list" where
  "critical = [''installation.json'', ''purge.json'', ''data-mate.db'', lifecycle_lock, gate_lock, state_lock]"

lemma recoverable_cong:
  assumes "\<And>p. p \<in> set critical \<Longrightarrow> c_files c' p = c_files c p" and "c_keys c' = c_keys c"
  shows "recoverable w rt ident c' = recoverable w rt ident c"
proof -
  have "c_files c' p = c_files c p" if "p \<in> set critical" for p using assms(1) that .
  then have files: "c_files c' ''installation.json'' = c_files c ''installation.json''" "c_files c' ''purge.json'' = c_files c ''purge.json''"
    "c_files c' ''data-mate.db'' = c_files c ''data-mate.db''" "c_files c' lifecycle_lock = c_files c lifecycle_lock"
    "c_files c' gate_lock = c_files c gate_lock" "c_files c' state_lock = c_files c state_lock"
    by (simp_all add: critical_def)
  have "gov w rt c' = gov w rt c" by (simp add: gov_def doc_def files)
  then show ?thesis by (simp add: recoverable_def db_records_def files assms(2))
qed

lemma recoverable_other: "p \<notin> set critical \<Longrightarrow> recoverable w rt ident (set_file p v c) = recoverable w rt ident c"
  by (rule recoverable_cong) auto

lemma critical_not_lifecycle: "p \<in> set critical \<Longrightarrow> p \<notin> set (lifecycle_names linux)"
  by (auto simp: critical_def lifecycle_names_def ServiceFile_def lifecycle_lock_def gate_lock_def state_lock_def)

lemma recoverable_outside: "outside w c c' \<Longrightarrow> recoverable w rt ident c' = recoverable w rt ident c"
  by (rule recoverable_cong) (auto simp: outside_def dest: critical_not_lifecycle)

lemma recoverable_opened:
  assumes "p = lifecycle_lock \<or> p = gate_lock \<or> p = state_lock" and "recoverable w rt ident c"
  shows "recoverable w rt ident (opened p b c)"
proof -
  have "gov w rt (opened p b c) = gov w rt c" using assms(1) by auto
  moreover have "c_files (opened p b c) q \<noteq> None" if "c_files c q \<noteq> None" for q using that by (auto simp: opened_files)
  moreover have "c_files (opened p b c) q = c_files c q" if "q = ''installation.json'' \<or> q = ''data-mate.db''" for q
    using that assms(1) by (auto simp: opened_files lifecycle_lock_def gate_lock_def state_lock_def)
  moreover have "c_keys (opened p b c) = c_keys c" by (simp add: opened_def)
  ultimately show ?thesis using assms(2) by (auto simp: recoverable_def db_records_def)
qed

text \<open>A run that holds the lifecycle lease on a recoverable installation.\<close>

definition session :: "world \<Rightarrow> root \<Rightarrow> bytes \<Rightarrow> store \<Rightarrow> lifecycle_lease \<Rightarrow> inst \<Rightarrow> contents \<Rightarrow> bool" where
  "session w rt ident s l i c \<longleftrightarrow>
     recoverable w rt ident c \<and> gov w rt c = Some i \<and> i_id i = ident \<and> st_root s = rt \<and> st_id s = i \<and>
     ll_lease l = lifecycle_held \<and> ll_id l = i \<and> c_files c lifecycle_lock \<noteq> None"

lemma session_safe: "session w rt ident s l i c \<Longrightarrow> safe w rt ident c"
  by (simp add: session_def safe_def)

lemma session_good: "session w rt ident s l i c \<Longrightarrow> c_files c lifecycle_lock \<noteq> None \<and> identity_good w s True c"
  by (auto simp: session_def recoverable_def identity_good_def)

lemma session_owned: "session w rt ident s l i c \<Longrightarrow> i_owned (ll_id l) = ownedPaths (o_linux w)"
  by (auto simp: session_def inst_checks_def dest: gov_checks)

lemma session_locks: "session w rt ident s l i c \<Longrightarrow> i_purging (ll_id l) \<or> c_files c gate_lock \<noteq> None \<and> c_files c state_lock \<noteq> None"
  by (auto simp: session_def recoverable_def)

lemma gov_outside: "outside w c c' \<Longrightarrow> gov w rt c' = gov w rt c"
proof -
  assume o: "outside w c c'"
  have "c_files c' p = c_files c p" if "p \<in> set critical" for p
    using o critical_not_lifecycle [OF that] by (auto simp: outside_def)
  then show ?thesis by (simp add: gov_def doc_def critical_def)
qed

lemma session_outside:
  assumes "session w rt ident s l i c" and "outside w c c'"
  shows "session w rt ident s l i c'"
proof -
  have "c_files c' lifecycle_lock = c_files c lifecycle_lock"
    using assms(2) critical_not_lifecycle [of lifecycle_lock] by (auto simp: outside_def critical_def)
  with assms show ?thesis by (simp add: session_def recoverable_outside gov_outside)
qed

lemma session_opened:
  assumes "session w rt ident s l i c" and "p = gate_lock \<or> p = state_lock"
  shows "session w rt ident s l i (opened p b c)"
  using assms recoverable_opened [of p w rt ident c b] by (auto simp: session_def opened_files)

text \<open>A cleanup lease taken in a session.\<close>

lemma wp_session_cleanup:
  assumes ses: "session w rt ident s l i c" and err: "\<And>e c'. \<not> calm w \<Longrightarrow> Q (Inl e) c'"
    and ok: "\<And>c'. session w rt ident s l i c' \<Longrightarrow> lease_good w s cleanup_held c' \<Longrightarrow>
      c_files c' ''service.json'' = c_files c ''service.json'' \<Longrightarrow> wp w (safe w rt ident) (k (s, l, cleanup_held)) Q c'"
  shows "wp w (safe w rt ident) (io_then (CleanupLease s l) k) Q c"
proof (rule wp_CleanupLease)
  let ?g = "opened gate_lock (i_purging (ll_id l)) c"
  let ?c2 = "opened state_lock (i_purging (ll_id l)) ?g"
  have s1: "session w rt ident s l i ?g" using ses by (rule session_opened) simp
  then have s2: "session w rt ident s l i ?c2" by (rule session_opened) simp
  show "ll_lease l = lifecycle_held" using ses by (simp add: session_def)
  show "i_owned (ll_id l) = ownedPaths (o_linux w)" using ses by (rule session_owned)
  show "safe w rt ident ?g" "safe w rt ident ?c2" using s1 s2 by (simp_all add: session_safe)
  show "Q (Inl e) c'" if "\<not> (calm w \<and> c_files c lifecycle_lock \<noteq> None \<and> identity_good w s True c \<and>
        (i_purging (ll_id l) \<or> c_files c gate_lock \<noteq> None \<and> c_files c state_lock \<noteq> None))" for e c'
    using that session_good [OF ses] session_locks [OF ses] by (intro err) blast
  have same: "s\<lparr>st_id := ll_id l\<rparr> = s" using ses by (simp add: session_def)
  show "wp w (safe w rt ident) (k (s\<lparr>st_id := ll_id l\<rparr>, l, cleanup_held)) Q ?c2" if "lease_good w s cleanup_held ?c2"
    using ok [OF s2 that] by (simp add: same opened_files gate_lock_def state_lock_def)
qed

lemma wp_prepare:
  assumes ses: "session w rt ident s l i c" and err: "\<And>e c'. \<not> calm w \<Longrightarrow> Q (Inl e) c'"
    and ok: "\<And>c'. session w rt ident s l i c' \<Longrightarrow> c_files c' ''service.json'' = c_files c ''service.json'' \<Longrightarrow>
      wp w (safe w rt ident) (k (s, l)) Q c'"
  shows "wp w (safe w rt ident) (io_then (prepare_keyring s l) k) Q c"
  unfolding prepare_keyring_def
proof (rule wp_assoc, rule wp_session_cleanup [OF ses], erule err)
  fix c'
  assume s: "session w rt ident s l i c'" "lease_good w s cleanup_held c'" "c_files c' ''service.json'' = c_files c ''service.json''"
  have db: "i_purging (st_id s) \<or> c_files c' ''data-mate.db'' \<noteq> None"
    using s(1) by (auto simp: session_def recoverable_def)
  have "wp w (safe w rt ident) (io_then (HasKeyset s cleanup_held) (\<lambda>has_key.
     io_then (if has_key then ask (\<lambda>w t. no_error (snd (o_ext w ''keyring preparation'' t))) else io_return ()) (\<lambda>_. k (s, l)))) Q c'"
    by (intro wps) (use s db in \<open>auto simp: calmD intro!: err ok\<close>)
  then show "wp w (safe w rt ident) (io_then (case (s, l, cleanup_held) of (s, l, state) \<Rightarrow>
     io_then (HasKeyset s state) (\<lambda>has_key.
     io_then (if has_key then ask (\<lambda>w t. no_error (snd (o_ext w ''keyring preparation'' t))) else io_return ()) (\<lambda>_. io_return (s, l)))) k) Q c'"
    by (simp add: io_then_assoc io_then_return)
qed

definition small_record :: "contents \<Rightarrow> bool" where
  "small_record c \<longleftrightarrow> (\<forall>b. c_files c ''service.json'' = Some b \<longrightarrow> length b \<le> 4096)"

lemma service_owned [simp]: "owned w ''service.json''"
  by (simp add: owned_def ownedPaths_def)

lemma wp_stop:
  assumes ses: "session w rt ident s l i c" and err: "\<And>e c'. \<not> (calm w \<and> small_record c) \<Longrightarrow> Q (Inl e) c'"
    and ok: "\<And>c'. session w rt ident s l i c' \<Longrightarrow> wp w (safe w rt ident) (k ()) Q c'"
  shows "wp w (safe w rt ident) (io_then (stop_service s l) k) Q c"
proof -
  have held: "ll_lease l = lifecycle_held" using ses by (simp add: session_def)
  let ?R = "\<lambda>r c'. case r of Inl e \<Rightarrow> Q (Inl e) c' | Inr there \<Rightarrow>
      wp w (safe w rt ident) (io_then (if there then external ''service shutdown'' else io_return ()) k) Q c'"
  have go: "wp w (safe w rt ident) (io_then (if there then external ''service shutdown'' else io_return ()) k) Q c" for there
    by (intro wps) (use ses session_outside [OF ses] in \<open>auto intro!: err ok dest: session_safe\<close>)
  have "wp w (safe w rt ident) (lease_read s lifecycle_held ''service.json'' 4096) (\<lambda>r c'. wp w (safe w rt ident) (case r of Inr _ \<Rightarrow> io_return True
       | Inl e \<Rightarrow> if errors_is e Os_NotExist then io_return False else io_fail e) ?R c') c"
    by (rule wp_last, unfold lease_read_def, intro wps)
      (use session_good [OF ses] go [of True] go [of False] in \<open>auto simp: lifecycle_held_good small_record_def file_error_def intro!: wp_fail wp_return err\<close>)
  then show ?thesis
    unfolding stop_service_def held by (intro wp_assoc wp_then [OF wp_try])
qed

lemma wp_stage_external:
  assumes ses: "session w rt ident s l i c" and err: "\<And>e c'. \<not> calm w \<Longrightarrow> Q (Inl e) c'"
    and ok: "\<And>c'. session w rt ident s l i c' \<Longrightarrow> wp w (safe w rt ident) (k ()) Q c'"
  shows "wp w (safe w rt ident) (io_then (external stage) k) Q c"
  by (intro wps) (use session_outside [OF ses] in \<open>auto intro!: err ok dest: session_safe\<close>)

lemma lifecycle_names_files:
  "list_all (\<lambda>p. trim_suffix p ''.tmp'' \<in> set (lifecycle_files b) \<and> p \<in> set (ownedPaths b)) (lifecycle_names b)"
proof (cases b)
  case True
  then have b: "b = True" by simp
  show ?thesis unfolding b by code_simp
next
  case False
  then have b: "b = False" by simp
  show ?thesis unfolding b by code_simp
qed

lemma wp_registrations:
  assumes ses: "session w rt ident s l i c" and err: "\<And>e c'. \<not> calm w \<Longrightarrow> Q (Inl e) c'"
    and ok: "\<And>c'. session w rt ident s l i c' \<Longrightarrow> wp w (safe w rt ident) (k ()) Q c'"
  shows "wp w (safe w rt ident) (io_then (remove_registrations s l) k) Q c"
proof -
  have held: "ll_lease l = lifecycle_held" using ses by (simp add: session_def)
  have all: "wp w (safe w rt ident) (io_then (lifecycle_remove_all s l ps) k) Q c'"
    if "session w rt ident s l i c'" "set ps \<subseteq> set (lifecycle_names (o_linux w)) - {''service.json''}" for ps c'
    using that
  proof (induction ps arbitrary: c')
    case Nil
    then show ?case by (simp add: io_then_return ok)
  next
    case (Cons p ps)
    have next_ses: "session w rt ident s l i (set_file p None c')"
      using Cons.prems by (intro session_outside [OF Cons.prems(1)]) (simp add: outside_remove)
    have p: "trim_suffix p ''.tmp'' \<in> set (lifecycle_files (o_linux w))" "owned w p"
      using Cons.prems(2) lifecycle_names_files [of "o_linux w"] by (auto simp: list_all_iff owned_def)
    have "wp w (safe w rt ident) (io_then (lifecycle_remove s l p) (\<lambda>_. io_then (lifecycle_remove_all s l ps) k)) Q c'"
    proof (rule wp_lifecycle_remove [OF p(1) held])
      show "safe w rt ident (set_file p None c')" using next_ses by (rule session_safe)
      show "Q (Inl e) c''" if "\<not> (calm w \<and> owned w p \<and> c_files c' lifecycle_lock \<noteq> None \<and> identity_good w s True c')" for e c''
        using that session_good [OF Cons.prems(1)] p(2) by (intro err) blast
      show "wp w (safe w rt ident) (io_then (lifecycle_remove_all s l ps) k) Q (set_file p None c')"
        using Cons.prems(2) by (intro Cons.IH next_ses) auto
    qed
    then show ?case by (simp add: io_then_assoc)
  qed
  show ?thesis
    unfolding remove_registrations_def
    by (rule wp_assoc, rule wp_stage_external [OF ses], erule err, rule wp_assoc, rule wp_look_then, rule case_InrI, rule all)
      (auto simp: lifecycle_names_def ServiceFile_def)
qed

text \<open>Writing a new identity in a session.\<close>

lemma tmp_not_critical [simp]: "tmp_of ''installation.json'' \<notin> set critical" "tmp_of ''purge.json'' \<notin> set critical"
  by (simp_all add: critical_def tmp_of_def lifecycle_lock_def gate_lock_def state_lock_def)

lemma session_other:
  assumes "session w rt ident s l i c" and "p \<notin> set critical"
  shows "session w rt ident s l i (set_file p v c)"
  using assms recoverable_other [OF assms(2)] by (auto simp: session_def critical_def)

lemma session_before:
  "session w rt ident s l i c \<Longrightarrow> but_for (tmp_of ''installation.json'') c c' \<Longrightarrow> session w rt ident s l i c'"
  by (auto simp: but_for_def intro: session_other)

lemma session_written:
  assumes ses: "session w rt ident s l i c" and fits: "root_fits w rt" and checks: "inst_checks (o_sha w) (o_linux w) rt i'"
    and same: "i_id i' = ident" "i_purging i \<Longrightarrow> i_purging i'" "i_established i' = i_established i"
    and wrote: "but_for (tmp_of ''installation.json'') (set_file ''installation.json'' (Some (encodeIdentity i')) c) c'"
  shows "session w rt ident (s\<lparr>st_id := i'\<rparr>) (l\<lparr>ll_id := i'\<rparr>) i' c'"
proof -
  let ?c = "set_file ''installation.json'' (Some (encodeIdentity i')) c"
  have gov: "gov w rt ?c = Some i'" using checks fits by (rule gov_encoded)
  have files: "c_files ?c lifecycle_lock = c_files c lifecycle_lock" "c_files ?c gate_lock = c_files c gate_lock"
    "c_files ?c state_lock = c_files c state_lock" "c_files ?c ''data-mate.db'' = c_files c ''data-mate.db''"
    by simp_all
  have "recoverable w rt ident ?c"
    using ses same unfolding session_def recoverable_def db_records_def gov files set_file_simps(3) by auto
  then have "session w rt ident (s\<lparr>st_id := i'\<rparr>) (l\<lparr>ll_id := i'\<rparr>) i' ?c"
    using ses same(1) gov files by (simp add: session_def)
  then show ?thesis using wrote by (auto simp: but_for_def intro: session_other)
qed

lemma wp_session_write:
  assumes ses: "session w rt ident s l i c" and fits: "root_fits w rt" and checks: "inst_checks (o_sha w) (o_linux w) rt i'"
    and same: "i_id i' = ident" "i_purging i \<Longrightarrow> i_purging i'" "i_established i' = i_established i"
    and err: "\<And>e c'. \<not> calm w \<Longrightarrow> Q (Inl e) c'"
    and ok: "\<And>c'. session w rt ident (s\<lparr>st_id := i'\<rparr>) (l\<lparr>ll_id := i'\<rparr>) i' c' \<Longrightarrow>
      but_for (tmp_of ''installation.json'') (set_file ''installation.json'' (Some (encodeIdentity i')) c) c' \<Longrightarrow>
      wp w (safe w rt ident) (k ()) Q c'"
  shows "wp w (safe w rt ident) (io_then (writeIdentity i') k) Q c"
  by (rule wp_writeIdentity)
    (use session_before [OF ses] session_written [OF ses fits checks same] in \<open>auto intro!: err ok dest: session_safe\<close>)

lemma session_checks: "session w rt ident s l i c \<Longrightarrow> inst_checks (o_sha w) (o_linux w) rt i"
  by (auto simp: session_def dest: gov_checks)

lemma wp_end_pending:
  assumes ses: "session w rt ident s l i c" and fits: "root_fits w rt" and err: "\<And>e c'. \<not> calm w \<Longrightarrow> Q (Inl e) c'"
    and ok: "\<And>s l i' c'. session w rt ident s l i' c' \<Longrightarrow> i_exe i' = i_exe i \<Longrightarrow> wp w (safe w rt ident) (k (s, l)) Q c'"
  shows "wp w (safe w rt ident) (io_then (end_pending s l) k) Q c"
proof -
  have clear: "wp w (safe w rt ident) (io_then (SetDistributionPending s l False) k) Q c'" if s: "session w rt ident s l i c'" for c'
  proof -
    have "wp w (safe w rt ident) (io_then (writeIdentity (i\<lparr>i_pending := False\<rparr>))
        (\<lambda>_. k (s\<lparr>st_id := i\<lparr>i_pending := False\<rparr>\<rparr>, l\<lparr>ll_id := i\<lparr>i_pending := False\<rparr>\<rparr>))) Q c''"
      if s: "session w rt ident s l i c''" for c''
    proof (rule wp_session_write [OF s fits])
      show "inst_checks (o_sha w) (o_linux w) rt (i\<lparr>i_pending := False\<rparr>)"
        using session_checks [OF s] by (simp add: inst_checks_def)
      show "wp w (safe w rt ident) (k (s\<lparr>st_id := i\<lparr>i_pending := False\<rparr>\<rparr>, l\<lparr>ll_id := i\<lparr>i_pending := False\<rparr>\<rparr>)) Q c'"
        if "session w rt ident (s\<lparr>st_id := i\<lparr>i_pending := False\<rparr>\<rparr>) (l\<lparr>ll_id := i\<lparr>i_pending := False\<rparr>\<rparr>) (i\<lparr>i_pending := False\<rparr>) c'" for c'
        using that by (rule ok) simp
    qed (use s in \<open>auto simp: session_def intro!: err\<close>)
    moreover have "st_id s = i" using s by (simp add: session_def)
    ultimately show ?thesis
      unfolding SetDistributionPending_def Let_def
      by (intro wp_assoc wp_session_cleanup [OF s]) (auto simp: io_then_assoc io_then_return intro!: err)
  qed
  show ?thesis
    unfolding end_pending_def
    by (rule wp_assoc, rule wp_stage_external [OF ses], erule err, rule wp_if_then)
      (auto simp: io_then_return intro!: clear ok)
qed

lemma wp_drain:
  assumes ses: "session w rt ident s l i c" and err: "\<And>e c'. \<not> calm w \<Longrightarrow> Q (Inl e) c'"
    and ok: "\<And>c'. session w rt ident s l i c' \<Longrightarrow> lease_good w s cleanup_held c' \<Longrightarrow> wp w (safe w rt ident) (k (s, cleanup_held)) Q c'"
  shows "wp w (safe w rt ident) (io_then (drain_state s l) k) Q c"
  unfolding drain_state_def
  by (intro wp_assoc wp_session_cleanup [OF ses])
    (auto simp: io_then_assoc io_then_return intro!: wp_ctx err ok)

text \<open>A session with all locks, and one whose tombstone is set and whose key is gone.\<close>

definition ready :: "world \<Rightarrow> root \<Rightarrow> bytes \<Rightarrow> store \<Rightarrow> lifecycle_lease \<Rightarrow> inst \<Rightarrow> contents \<Rightarrow> bool" where
  "ready w rt ident s l i c \<longleftrightarrow>
     session w rt ident s l i c \<and> c_files c gate_lock \<noteq> None \<and> c_files c state_lock \<noteq> None"

definition keyless :: "world \<Rightarrow> root \<Rightarrow> bytes \<Rightarrow> inst \<Rightarrow> contents \<Rightarrow> bool" where
  "keyless w rt ident i c \<longleftrightarrow>
     i_purging i \<and> \<not> c_keys c (account w rt ident) \<and> c_files c ''installation.json'' \<noteq> None"

lemma ready_good: "ready w rt ident s l i c \<Longrightarrow> lease_good w s cleanup_held c"
  using session_good by (auto simp: ready_def cleanup_held_good)

lemma ready_safe: "ready w rt ident s l i c \<Longrightarrow> safe w rt ident c"
  by (auto simp: ready_def dest: session_safe)

lemma keyless_session:
  assumes "session w rt ident s l i c" and "keyless w rt ident i c"
    and "p \<noteq> ''installation.json''" "p \<noteq> ''purge.json''" "p \<noteq> lifecycle_lock"
  shows "session w rt ident s l i (set_file p v c)"
  using assms by (auto simp: session_def keyless_def recoverable_def)

lemma keyless_other: "p \<noteq> ''installation.json'' \<Longrightarrow> keyless w rt ident i (set_file p v c) = keyless w rt ident i c"
  by (simp add: keyless_def)

lemma keyless_ready:
  assumes "ready w rt ident s l i c" and "keyless w rt ident i c" and "p \<notin> set kept_last"
  shows "ready w rt ident s l i (set_file p v c)" and "keyless w rt ident i (set_file p v c)"
  using assms keyless_session [of w rt ident s l i c p v]
  by (auto simp: ready_def kept_last_def keyless_other lifecycle_lock_def gate_lock_def state_lock_def)

lemma gov_keys [simp]: "gov w rt (c\<lparr>c_keys := f\<rparr>) = gov w rt c"
  by (simp add: gov_def doc_def)

lemma key_account: "inst_checks (o_sha w) (o_linux w) rt i \<Longrightarrow> i_key i = account w rt (i_id i)"
  by (simp add: inst_checks_def account_def)

lemma wp_BeginPurge:
  assumes r: "ready w rt ident s l i c" and fits: "root_fits w rt" and err: "\<And>e c'. \<not> calm w \<Longrightarrow> Q (Inl e) c'"
    and ok: "\<And>c'. ready w rt ident (s\<lparr>st_id := i\<lparr>i_purging := True\<rparr>\<rparr>) (l\<lparr>ll_id := i\<lparr>i_purging := True\<rparr>\<rparr>) (i\<lparr>i_purging := True\<rparr>) c' \<Longrightarrow>
      c_files c' ''installation.json'' \<noteq> None \<Longrightarrow> c_keys c' = c_keys c \<Longrightarrow> db_records w c' = db_records w c \<Longrightarrow>
      wp w (safe w rt ident) (k (s\<lparr>st_id := i\<lparr>i_purging := True\<rparr>\<rparr>)) Q c'"
  shows "wp w (safe w rt ident) (io_then (BeginPurge s cleanup_held) k) Q c"
proof -
  let ?i = "i\<lparr>i_purging := True\<rparr>"
  have ses: "session w rt ident s l i c" and good: "lease_good w s cleanup_held c"
    using r ready_good by (auto simp: ready_def)
  have st: "st_id s = i" "i_id i = ident" using ses by (simp_all add: session_def)
  have "wp w (safe w rt ident) (io_then (writeIdentity ?i) (\<lambda>_. k (s\<lparr>st_id := ?i\<rparr>))) Q c"
  proof (rule wp_session_write [OF ses fits])
    show "inst_checks (o_sha w) (o_linux w) rt ?i" using session_checks [OF ses] by (simp add: inst_checks_def)
    show "wp w (safe w rt ident) (k (s\<lparr>st_id := ?i\<rparr>)) Q c'"
      if "session w rt ident (s\<lparr>st_id := ?i\<rparr>) (l\<lparr>ll_id := ?i\<rparr>) ?i c'"
        "but_for (tmp_of ''installation.json'') (set_file ''installation.json'' (Some (encodeIdentity ?i)) c) c'" for c'
      using that r by (intro ok) (auto simp: ready_def but_for_def db_records_def tmp_of_def gate_lock_def state_lock_def)
  qed (use st err in auto)
  then show ?thesis
    unfolding BeginPurge_def writeIdentity_def
    by (simp only: cleanup_held_simps not_True_eq_False if_False)
      (intro wps; use good st in \<open>auto simp: Let_def io_then_assoc io_then_return intro!: err\<close>)
qed

lemma wp_PurgeLocked:
  assumes r: "ready w rt ident s l i c" and fits: "root_fits w rt" and err: "\<And>e c'. \<not> calm w \<Longrightarrow> Q (Inl e) c'"
    and ok: "\<And>s l i' c'. ready w rt ident s l i' c' \<Longrightarrow> keyless w rt ident i' c' \<Longrightarrow> i_exe i' = i_exe i \<Longrightarrow>
      wp w (safe w rt ident) (k s) Q c'"
  shows "wp w (safe w rt ident) (io_then (PurgeLocked s cleanup_held) k) Q c"
proof -
  let ?i = "i\<lparr>i_purging := True\<rparr>"
  let ?s = "s\<lparr>st_id := ?i\<rparr>" and ?l = "l\<lparr>ll_id := ?i\<rparr>"
  have ses: "session w rt ident s l i c" using r by (simp add: ready_def)
  have db: "i_purging (st_id s) \<or> c_files c ''data-mate.db'' \<noteq> None" using ses by (auto simp: session_def recoverable_def)
  have drop: "wp w (safe w rt ident) (io_then point (\<lambda>_. io_then (lease_remove ?s cleanup_held ''data-mate.db-journal'') (\<lambda>_.
      io_then (lease_remove ?s cleanup_held ''data-mate.db'') (\<lambda>_. k ?s)))) Q c'"
    if "ready w rt ident ?s ?l ?i c'" "keyless w rt ident ?i c'" for c'
  proof -
    have names: "''data-mate.db-journal'' \<notin> set kept_last" "''data-mate.db'' \<notin> set kept_last" by (simp_all add: kept_last_def)
    have trims: "trim_suffix ''data-mate.db-journal'' ''.tmp'' = ''data-mate.db-journal''" "trim_suffix ''data-mate.db'' ''.tmp'' = ''data-mate.db''"
      by (simp_all add: trim_suffix_def has_suffix_def)
    have own: "owned w ''data-mate.db-journal''" "owned w ''data-mate.db''" by (simp_all add: owned_def ownedPaths_def)
    note one = keyless_ready [OF that names(1), of None]
    note two = keyless_ready [OF one names(2), of None]
    show ?thesis
      by (intro wps)
        (use that one two own ready_safe ready_good [OF that(1)] ready_good [OF one(1)] in \<open>auto simp: trims intro!: err ok [of _ ?l ?i]\<close>)
  qed
  have key: "wp w (safe w rt ident) (io_then (if has_key then delete_key (i_key ?i) else io_return ()) (\<lambda>_.
      io_then point (\<lambda>_. io_then (lease_remove ?s cleanup_held ''data-mate.db-journal'') (\<lambda>_.
      io_then (lease_remove ?s cleanup_held ''data-mate.db'') (\<lambda>_. k ?s))))) Q c'"
    if c': "ready w rt ident ?s ?l ?i c'" "c_files c' ''installation.json'' \<noteq> None" and has: "has_key \<or> \<not> db_records w c'" for has_key c'
  proof -
    have acct: "i_key ?i = account w rt ident"
      using key_account [OF session_checks [OF ses]] ses by (simp add: session_def)
    let ?gone = "c'\<lparr>c_keys := (c_keys c')(i_key ?i := False)\<rparr>"
    have files: "c_files ?gone = c_files c'" by simp
    have "recoverable w rt ident ?gone"
      using c'(1) unfolding ready_def session_def recoverable_def gov_keys db_records_def files by (simp add: acct)
    then have gone: "ready w rt ident ?s ?l ?i ?gone"
      using c'(1) by (simp add: ready_def session_def)
    have "keyless w rt ident ?i ?gone" using c'(2) by (simp add: keyless_def acct)
    moreover have "keyless w rt ident ?i c'" if "\<not> db_records w c'"
      using that c' by (auto simp: keyless_def ready_def session_def recoverable_def)
    ultimately show ?thesis
      using has drop [OF gone] drop [OF c'(1)] ready_safe [OF gone] err
      by (cases has_key) (auto simp: io_then_return intro!: wp_delete_key)
  qed
  have start: "wp w (safe w rt ident) (io_then (BeginPurge s cleanup_held) (\<lambda>s. io_then point (\<lambda>_.
     io_then (if has_key then delete_key (i_key (st_id s)) else io_return ()) (\<lambda>_.
     io_then point (\<lambda>_. io_then (lease_remove s cleanup_held ''data-mate.db-journal'') (\<lambda>_.
     io_then (lease_remove s cleanup_held ''data-mate.db'') (\<lambda>_. k s))))))) Q c"
    if has: "has_key \<or> \<not> db_records w c" for has_key
  proof (rule wp_BeginPurge [OF r fits], erule err)
    fix c'
    assume c': "ready w rt ident ?s ?l ?i c'" "c_files c' ''installation.json'' \<noteq> None" "c_keys c' = c_keys c"
      "db_records w c' = db_records w c"
    show "wp w (safe w rt ident) (io_then point (\<lambda>_.
     io_then (if has_key then delete_key (i_key (st_id ?s)) else io_return ()) (\<lambda>_.
     io_then point (\<lambda>_. io_then (lease_remove ?s cleanup_held ''data-mate.db-journal'') (\<lambda>_.
     io_then (lease_remove ?s cleanup_held ''data-mate.db'') (\<lambda>_. k ?s)))))) Q c'"
      using key [OF c'(1,2), of has_key] has c'(4) by (intro wp_point) (auto intro!: err)
  qed
  show ?thesis
    unfolding PurgeLocked_def io_then_assoc io_then_return
  proof (rule wp_HasKeyset)
    show "Q (Inl e) c" if "\<not> (calm w \<and> lease_good w s cleanup_held c \<and> (i_purging (st_id s) \<or> c_files c ''data-mate.db'' \<noteq> None))" for e
      using that ready_good [OF r] db by (intro err) blast
  next
    fix b
    assume "b \<or> \<not> (\<exists>x. c_files c ''data-mate.db'' = Some x \<and> o_keyset w x \<noteq> Inr False)"
    then have "b \<or> \<not> db_records w c" by (simp only: db_records_def)
    then show "wp w (safe w rt ident) (io_then (BeginPurge s cleanup_held) (\<lambda>s. io_then point (\<lambda>_.
     io_then (if b then delete_key (i_key (st_id s)) else io_return ()) (\<lambda>_.
     io_then point (\<lambda>_. io_then (lease_remove s cleanup_held ''data-mate.db-journal'') (\<lambda>_.
     io_then (lease_remove s cleanup_held ''data-mate.db'') (\<lambda>_. k s))))))) Q c"
      by (rule start)
  qed
qed

section \<open>The last steps of a purge\<close>

lemma wp_remove_each:
  assumes step: "\<And>p c. p \<in> set ps \<Longrightarrow> P c \<Longrightarrow> P (set_file p None c)" and inv: "\<And>c. P c \<Longrightarrow> I c"
    and own: "\<And>p. p \<in> set ps \<Longrightarrow> owned w p" and err: "\<And>e c. \<not> calm w \<Longrightarrow> Q (Inl e) c"
  shows "P c \<Longrightarrow> (\<And>c'. P c' \<Longrightarrow> \<forall>p \<in> set ps. c_files c' p = None \<Longrightarrow> \<forall>p. c_files c p = None \<longrightarrow> c_files c' p = None \<Longrightarrow>
      wp w I (k ()) Q c') \<Longrightarrow> wp w I (io_then (remove_all ps) k) Q c"
  using step own
proof (induction ps arbitrary: c)
  case Nil
  then show ?case by (simp add: io_then_return)
next
  case (Cons p ps)
  have "wp w I (io_then (remove p) (\<lambda>_. io_then (remove_all ps) k)) Q c"
  proof (rule wp_remove)
    show "wp w I (io_then (remove_all ps) k) Q (set_file p None c)"
      by (rule Cons.IH) (use Cons.prems in auto)
  qed (use Cons.prems inv err in auto)
  then show ?case by (simp add: io_then_assoc)
qed

text \<open>The final receipt keeps the installation recoverable when its identity is gone.\<close>

definition receipt :: "world \<Rightarrow> root \<Rightarrow> bytes \<Rightarrow> contents \<Rightarrow> bool" where
  "receipt w rt ident c \<longleftrightarrow>
     (\<exists>i. doc w rt c ''purge.json'' = Some i \<and> i_id i = ident \<and> i_purging i) \<and>
     \<not> c_keys c (account w rt ident) \<and> c_files c ''installation.json'' = None"

lemma receipt_safe: "receipt w rt ident c \<Longrightarrow> safe w rt ident c"
  by (auto simp: receipt_def safe_def recoverable_def gov_def)

lemma receipt_other [simp]:
  "p \<noteq> ''purge.json'' \<Longrightarrow> p \<noteq> ''installation.json'' \<Longrightarrow> receipt w rt ident (set_file p v c) = receipt w rt ident c"
  by (simp add: receipt_def)

lemma wp_remove_safe:
  assumes "owned w p" and "safe w rt ident (set_file p None c)" and "\<And>e c'. \<not> calm w \<Longrightarrow> Q (Inl e) c'"
    and "wp w (safe w rt ident) (k ()) Q (set_file p None c)"
  shows "wp w (safe w rt ident) (io_then (remove p) k) Q c"
  by (rule wp_remove) (use assms in auto)

lemma wp_finish_tail:
  assumes ses: "session w rt ident s l i c" and key: "keyless w rt ident i c" and doc: "doc w rt c ''purge.json'' = Some i"
    and gone: "\<And>p. p \<in> set (ownedPaths (o_linux w)) \<Longrightarrow> p \<notin> set kept_last \<Longrightarrow> c_files c p = None"
    and err: "\<And>e c'. \<not> calm w \<Longrightarrow> Q (Inl e) c'" and ok: "\<And>c'. cleared w rt ident c' \<Longrightarrow>
      c_files c' bin_file = c_files c bin_file \<Longrightarrow> c_files c' bin_dir = c_files c bin_dir \<Longrightarrow> wp w (safe w rt ident) (k ()) Q c'"
  shows "wp w (safe w rt ident) (io_then (remove ''state.lock'') (\<lambda>_. io_then (remove ''state-gate.lock'') (\<lambda>_.
    io_then (remove ''installation.json'') (\<lambda>_. io_then (remove ''lifecycle.lock'') (\<lambda>_.
    io_then (remove ''purge.json.tmp'') (\<lambda>_. io_then (remove ''purge.json'') k)))))) Q c"
proof -
  let ?c1 = "set_file ''state.lock'' None c" and ?c3 = "set_file ''installation.json'' None (set_file ''state-gate.lock'' None (set_file ''state.lock'' None c))"
  let ?c2 = "set_file ''state-gate.lock'' None ?c1"
  let ?c5 = "set_file ''purge.json.tmp'' None (set_file ''lifecycle.lock'' None ?c3)"
  let ?last = "set_file ''purge.json'' None ?c5"
  have s1: "session w rt ident s l i ?c1" "keyless w rt ident i ?c1"
    using ses key by (auto simp: keyless_other lifecycle_lock_def intro!: keyless_session)
  then have s2: "session w rt ident s l i ?c2" by (auto simp: lifecycle_lock_def intro!: keyless_session)
  have "i_id i = ident" "i_purging i" using ses key by (simp_all add: session_def keyless_def)
  then have r3: "receipt w rt ident ?c3" using key doc by (auto simp: receipt_def keyless_def)
  then have r5: "receipt w rt ident ?c5" and r4: "receipt w rt ident (set_file ''lifecycle.lock'' None ?c3)" by simp_all
  have "cleared w rt ident ?last"
    using key gone by (auto simp: cleared_def keyless_def kept_last_def)
  moreover from this have "safe w rt ident ?last" by (simp add: safe_def)
  moreover have "c_files ?last bin_file = c_files c bin_file" "c_files ?last bin_dir = c_files c bin_dir"
    by (simp_all add: bin_file_def bin_dir_def)
  ultimately have fin: "safe w rt ident ?last" "wp w (safe w rt ident) (k ()) Q ?last" by (blast, blast intro: ok)
  show ?thesis
    by (intro wp_remove_safe fin session_safe [OF s1(1)] session_safe [OF s2] receipt_safe [OF r3] receipt_safe [OF r4]
      receipt_safe [OF r5] json_owned err)
qed

lemma purged_first_owned: "p \<in> set (purged_first (o_linux w)) \<Longrightarrow> owned w p \<and> p \<notin> set kept_last"
  by (auto simp: purged_first_def owned_def)

lemma bin_not_kept [simp]: "bin_file \<notin> set kept_last" "bin_dir \<notin> set kept_last"
  by (simp_all add: bin_file_def bin_dir_def kept_last_def)

lemma wp_receipt:
  assumes ses: "session w rt ident s l i c" and key: "keyless w rt ident i c" and fits: "root_fits w rt"
    and err: "\<And>e c'. \<not> calm w \<Longrightarrow> Q (Inl e) c'"
    and ok: "\<And>c'. session w rt ident s l i c' \<Longrightarrow> keyless w rt ident i c' \<Longrightarrow> doc w rt c' ''purge.json'' = Some i \<Longrightarrow>
      \<forall>p. p \<notin> set kept_last \<longrightarrow> c_files c' p = c_files c p \<Longrightarrow> wp w (safe w rt ident) (k ()) Q c'"
  shows "wp w (safe w rt ident) (io_then (replace ''purge.json'' (encodeIdentity i)) k) Q c"
proof (rule wp_replace)
  let ?new = "set_file ''purge.json'' (Some (encodeIdentity i)) c"
  have checks: "inst_checks (o_sha w) (o_linux w) rt i" using ses by (rule session_checks)
  have own: "owned w ''purge.json''" "owned w (tmp_of ''purge.json'')" by (simp_all add: owned_def ownedPaths_def tmp_of_def)
  have gov: "gov w rt ?new = gov w rt c" using key by (auto simp: keyless_def gov_def)
  have "session w rt ident s l i ?new" "keyless w rt ident i ?new"
    using ses key unfolding session_def recoverable_def gov db_records_def by (auto simp: keyless_def lifecycle_lock_def gate_lock_def state_lock_def)
  note new = this
  have before: "session w rt ident s l i c'" if "but_for (tmp_of ''purge.json'') c c'" for c'
    using that ses by (auto simp: but_for_def intro: session_other)
  have after: "session w rt ident s l i c'" if "but_for (tmp_of ''purge.json'') ?new c'" for c'
    using that new by (auto simp: but_for_def intro: session_other)
  show "safe w rt ident c'" if "but_for (tmp_of ''purge.json'') c c' \<or> but_for (tmp_of ''purge.json'') ?new c'" for c'
    using that before after by (auto dest: session_safe)
  show "Q (Inl e) c'" if "\<not> (calm w \<and> owned w ''purge.json'' \<and> owned w (tmp_of ''purge.json''))" for e c'
    using that own by (intro err) blast
  show "wp w (safe w rt ident) (k ()) Q c'" if c': "but_for (tmp_of ''purge.json'') ?new c'" for c'
  proof (rule ok [OF after [OF c']])
    obtain v where v: "c' = set_file (tmp_of ''purge.json'') v ?new" using c' by (auto simp: but_for_def)
    show "keyless w rt ident i c'" using new(2) by (simp add: v keyless_other tmp_of_def)
    show "doc w rt c' ''purge.json'' = Some i" using checks fits by (simp add: v doc_def root_fits_def decode_encode)
    show "\<forall>p. p \<notin> set kept_last \<longrightarrow> c_files c' p = c_files c p" by (auto simp: v kept_last_def tmp_of_def)
  qed
qed

text \<open>The end of a purge after its last removal.\<close>

definition remove_root :: "unit io" where
  "remove_root =
     io_then validRoot (\<lambda>_.
     io_then (ask (\<lambda>w t. Inr (o_link w t))) (\<lambda>link.
     if link then io_return ()
     else io_then (ask (\<lambda>w t. Inr (o_empty w t))) (\<lambda>empty.
       if \<not> empty then io_return () else sys ''remove root'')))"

lemma wp_remove_root:
  assumes err: "\<And>e. \<not> calm w \<Longrightarrow> Q (Inl e) c" and ok: "Q (Inr ()) c"
  shows "wp w I remove_root Q c"
  by (rule wp_last, unfold remove_root_def validRoot_def, intro wps) (use ok in \<open>auto simp: calmD intro!: err\<close>)

lemma wp_finish_bin:
  assumes r: "ready w rt ident s l i c" and key: "keyless w rt ident i c" and fits: "root_fits w rt"
    and gone: "\<forall>p \<in> set (purged_first (o_linux w)). c_files c p = None"
    and bin: "i_exe i = [] \<or> c_files c bin_dir = None \<or> c_files c bin_file = None"
    and err: "\<And>e c'. \<not> calm w \<Longrightarrow> Q (Inl e) c'"
    and ok: "\<And>c'. cleared w rt ident c' \<Longrightarrow> i_exe i = [] \<or> c_files c' bin_dir = None \<or> c_files c' bin_file = None \<Longrightarrow>
      Q (Inr ()) c'"
  shows "wp w (safe w rt ident) (io_then (replace ''purge.json'' (encodeIdentity i)) (\<lambda>_.
    io_then (remove ''state.lock'') (\<lambda>_. io_then (remove ''state-gate.lock'') (\<lambda>_.
    io_then (remove ''installation.json'') (\<lambda>_. io_then (remove ''lifecycle.lock'') (\<lambda>_.
    io_then (remove ''purge.json.tmp'') (\<lambda>_. io_then (remove ''purge.json'') (\<lambda>_. remove_root)))))))) Q c"
proof (rule wp_receipt [OF _ key fits])
  show "session w rt ident s l i c" using r by (simp add: ready_def)
  show "Q (Inl e) c'" if "\<not> calm w" for e c' using that by (rule err)
  fix c'
  assume ses: "session w rt ident s l i c'" and k: "keyless w rt ident i c'" and d: "doc w rt c' ''purge.json'' = Some i"
    and same: "\<forall>p. p \<notin> set kept_last \<longrightarrow> c_files c' p = c_files c p"
  have none: "c_files c' p = None" if "p \<in> set (ownedPaths (o_linux w))" "p \<notin> set kept_last" for p
    using gone same that by (auto simp: purged_first_def)
  have bin': "c_files c' bin_file = c_files c bin_file" "c_files c' bin_dir = c_files c bin_dir" using same by simp_all
  show "wp w (safe w rt ident) (io_then (remove ''state.lock'') (\<lambda>_. io_then (remove ''state-gate.lock'') (\<lambda>_.
    io_then (remove ''installation.json'') (\<lambda>_. io_then (remove ''lifecycle.lock'') (\<lambda>_.
    io_then (remove ''purge.json.tmp'') (\<lambda>_. io_then (remove ''purge.json'') (\<lambda>_. remove_root))))))) Q c'"
    by (rule wp_finish_tail [OF ses k d], erule none, assumption, erule err, rule wp_remove_root)
      (use bin bin' in \<open>auto intro!: err ok\<close>)
qed

lemma wp_FinishPurge:
  assumes r: "ready w rt ident s l i c" and key: "keyless w rt ident i c" and fits: "root_fits w rt"
    and err: "\<And>e c'. \<not> calm w \<Longrightarrow> Q (Inl e) c'"
    and ok: "\<And>c'. cleared w rt ident c' \<Longrightarrow> i_exe i = [] \<or> c_files c' bin_dir = None \<or> c_files c' bin_file = None \<Longrightarrow>
      Q (Inr ()) c'"
  shows "wp w (safe w rt ident) (FinishPurge s cleanup_held) Q c"
proof -
  let ?P = "\<lambda>c. ready w rt ident s l i c \<and> keyless w rt ident i c"
  let ?gone = "\<lambda>c'. \<forall>p \<in> set (purged_first (o_linux w)). c_files c' p = None"
  let ?tail = "io_then (replace ''purge.json'' (encodeIdentity i)) (\<lambda>_.
    io_then (remove ''state.lock'') (\<lambda>_. io_then (remove ''state-gate.lock'') (\<lambda>_.
    io_then (remove ''installation.json'') (\<lambda>_. io_then (remove ''lifecycle.lock'') (\<lambda>_.
    io_then (remove ''purge.json.tmp'') (\<lambda>_. io_then (remove ''purge.json'') (\<lambda>_. remove_root)))))))"
  have st: "st_id s = i" and purging: "i_purging i" using r key by (auto simp: ready_def session_def keyless_def)
  have step: "?P (set_file p None c')" if "?P c'" "p \<notin> set kept_last" for p c'
    using that keyless_ready by blast
  have bins: "wp w (safe w rt ident) (io_then (RemoveBinary s cleanup_held) (\<lambda>_.
      io_then (TrimBinaryDirectory s cleanup_held) (\<lambda>_. ?tail))) Q c'" if c': "?P c'" "?gone c'" for c'
  proof (rule wp_RemoveBinary)
    show "safe w rt ident (set_file bin_file None c')" using step [OF c'(1), of bin_file] by (auto dest: ready_safe)
    show "Q (Inl e) x" if "\<not> (calm w \<and> lease_good w s cleanup_held c' \<and> l_parent cleanup_held \<noteq> None \<and> l_write cleanup_held)" for e x
      using that ready_good c'(1) by (intro err) auto
    fix c2
    assume "c2 = c' \<or> c2 = set_file bin_file None c'" and bin: "i_exe (st_id s) = [] \<or> c_files c2 bin_dir = None \<or> c_files c2 bin_file = None"
    then have c2: "?P c2" "?gone c2" using c' step [OF c'(1), of bin_file] by auto
    show "wp w (safe w rt ident) (io_then (TrimBinaryDirectory s cleanup_held) (\<lambda>_. ?tail)) Q c2"
    proof (rule wp_TrimBinaryDirectory)
      show "safe w rt ident (set_file bin_dir None c2)" using step [OF c2(1), of bin_dir] by (auto dest: ready_safe)
      show "Q (Inl e) x" if "\<not> (calm w \<and> lease_good w s cleanup_held c2 \<and> l_parent cleanup_held \<noteq> None)" for e x
        using that ready_good c2(1) by (intro err) auto
      fix c3
      assume "c3 = c2 \<or> c3 = set_file bin_dir None c2"
      then have "?P c3" "?gone c3" "i_exe i = [] \<or> c_files c3 bin_dir = None \<or> c_files c3 bin_file = None"
        using c2 step [OF c2(1), of bin_dir] bin st by auto
      then show "wp w (safe w rt ident) ?tail Q c3" by (intro wp_finish_bin) (use fits in \<open>auto intro!: err ok\<close>)
    qed
  qed
  have each: "wp w (safe w rt ident) (io_then (remove_all (purged_first (o_linux w))) (\<lambda>_. io_then (RemoveBinary s cleanup_held) (\<lambda>_.
      io_then (TrimBinaryDirectory s cleanup_held) (\<lambda>_. ?tail)))) Q c"
  proof (rule wp_remove_each [where P = ?P])
    show "?P (set_file p None c')" if "p \<in> set (purged_first (o_linux w))" "?P c'" for p c'
      using that by (intro step) (auto dest: purged_first_owned)
  qed (use r key bins in \<open>auto intro!: err dest: ready_safe purged_first_owned\<close>)
  show ?thesis
    unfolding FinishPurge_def remove_root_def [symmetric] st
    by (simp only: cleanup_held_simps purging not_True_eq_False simp_thms if_False option.distinct(1) option.distinct(2)) 
      (intro wp_check_lease wp_look_then case_InrI; use each ready_good [OF r] in \<open>auto simp: io_then_assoc io_then_return intro!: err\<close>)
qed

section \<open>The stages of an uninstallation\<close>

text \<open>Listing what remains changes nothing, and finds what is there.\<close>

lemma quiet_validRoot: "wp w I validRoot (\<lambda>r c'. c' = c) c"
  by (simp add: validRoot_def wp_ask)

lemma quiet_directory: "wp w I directory (\<lambda>r c'. c' = c) c"
  by (rule wp_last, unfold directory_def validRoot_def, intro wps) (simp_all add: calmD)

lemma quiet_binaryDirectory: "wp w I binaryDirectory (\<lambda>r c'. c' = c) c"
  by (rule wp_last, unfold binaryDirectory_def bin_check_def validRoot_def, intro wps wp_look_then)
    (auto simp: calmD split: sum.split intro!: wps)

lemma quiet_try:
  assumes "wp w I m (\<lambda>r c'. c' = c) c" and "\<And>r. wp w I (k r) Q c"
  shows "wp w I (io_try m k) Q c"
  by (rule wp_try, rule wp_mono [OF assms(1)]) (use assms(2) in simp)

lemma wp_remaining:
  "wp w I (remaining rem ps) (\<lambda>r c'. c' = c \<and> (\<exists>rem' e. r = Inr (rem', e) \<and>
     (rem \<noteq> [] \<or> (\<exists>p \<in> set ps. c_files c p \<noteq> None) \<longrightarrow> rem' \<noteq> [] \<or> e \<noteq> None))) c"
proof (induction ps arbitrary: rem)
  case Nil
  show ?case
    unfolding remaining.simps(1)
    by (rule quiet_try [OF quiet_binaryDirectory])
      (auto intro!: wp_return wp_look_then split: sum.split)
next
  case (Cons p ps)
  have ok: "wp w I (if c_files c p \<noteq> None then remaining (rem @ [p]) ps
      else if b then remaining rem ps else io_return (rem, Some (Sentinel Cfg_Ownership)))
     (\<lambda>r c'. c' = c \<and> (\<exists>rem' e. r = Inr (rem', e) \<and>
        (rem \<noteq> [] \<or> (\<exists>p \<in> set (p # ps). c_files c p \<noteq> None) \<longrightarrow> rem' \<noteq> [] \<or> e \<noteq> None))) c" for b
    using Cons.IH [of "rem @ [p]"] Cons.IH [of rem]
    by (intro wp_if) (auto elim!: wp_mono intro!: wp_return)
  show ?case
    unfolding remaining.simps(2)
  proof (rule quiet_try [OF quiet_directory])
    fix r :: "unit res"
    show "wp w I (case r of Inl e \<Rightarrow> io_return (rem, Some e) | Inr _ \<Rightarrow>
       io_then (look (\<lambda>w c. Inr (c_files c p \<noteq> None))) (\<lambda>there.
       io_then (ask (\<lambda>w t. Inr (o_sys w t))) (\<lambda>ok.
       if there then remaining (rem @ [p]) ps
       else if ok then remaining rem ps
       else io_return (rem, Some (Sentinel Cfg_Ownership)))))
     (\<lambda>r c'. c' = c \<and> (\<exists>rem' e. r = Inr (rem', e) \<and>
        (rem \<noteq> [] \<or> (\<exists>p \<in> set (p # ps). c_files c p \<noteq> None) \<longrightarrow> rem' \<noteq> [] \<or> e \<noteq> None))) c"
    proof (cases r)
      case (Inl e)
      then show ?thesis by (simp add: wp_return)
    next
      case (Inr u)
      show ?thesis unfolding Inr sum.case by (intro wp_look_then case_InrI wp_ask_value) (rule ok)
    qed
  qed
qed

text \<open>Whenever it is asked, the world admits that the root exists.\<close>

definition root_there :: "world \<Rightarrow> bool" where
  "root_there w \<longleftrightarrow> (\<forall>t e. o_open w t = Some e \<longrightarrow> \<not> errors_is e Os_NotExist)"

lemma wp_RemainingOwned:
  "wp w I RemainingOwned (\<lambda>r c'. c' = c \<and> (\<exists>rem e. r = Inr (rem, e) \<and>
     (root_there w \<and> (\<exists>p \<in> set (ownedPaths (o_linux w)). c_files c p \<noteq> None) \<longrightarrow> rem \<noteq> [] \<or> e \<noteq> None))) c"
  (is "wp w I _ ?Q c")
proof -
  have rest: "wp w I (io_try validRoot (\<lambda>r. case r of Inl e \<Rightarrow> io_return ([], Some e)
       | Inr _ \<Rightarrow> io_then (look (\<lambda>w c. Inr (ownedPaths (o_linux w)))) (\<lambda>paths. remaining [] paths))) ?Q c"
  proof (rule quiet_try [OF quiet_validRoot])
    fix r :: "unit res"
    have "wp w I (remaining [] (ownedPaths (o_linux w))) ?Q c" by (rule wp_mono [OF wp_remaining]) auto
    then show "wp w I (case r of Inl e \<Rightarrow> io_return ([], Some e)
       | Inr _ \<Rightarrow> io_then (look (\<lambda>w c. Inr (ownedPaths (o_linux w)))) (\<lambda>paths. remaining [] paths)) ?Q c"
      by (cases r) (auto intro!: wp_return wp_look_then)
  qed
  have one: "wp w I (case o_open w t of Some x \<Rightarrow> io_return ([], if errors_is x Os_NotExist then None else Some x)
     | None \<Rightarrow> io_try validRoot (\<lambda>r. case r of Inl e \<Rightarrow> io_return ([], Some e)
       | Inr _ \<Rightarrow> io_then (look (\<lambda>w c. Inr (ownedPaths (o_linux w)))) (\<lambda>paths. remaining [] paths))) ?Q c" for t
  proof (cases "o_open w t")
    case None
    then show ?thesis using rest by simp
  next
    case (Some x)
    then have "errors_is x Os_NotExist \<Longrightarrow> \<not> root_there w" by (auto simp: root_there_def)
    with Some show ?thesis by (auto intro!: wp_return)
  qed
  show ?thesis
    unfolding RemainingOwned_def by (rule wp_then, rule wp_ask, rule case_InrI, rule one)
qed

lemma wp_at_stage:
  assumes "wp w I (io_then m io_return) (\<lambda>r c. case r of Inr x \<Rightarrow> wp w I (k x) Q c
    | Inl e \<Rightarrow> (\<forall>rem. Q (Inr (Some (CleanupError stage rem e))) c)) c"
  shows "wp w I (at_stage stage m k) Q c"
  unfolding at_stage_def
proof (rule wp_try, rule wp_mono [OF wp_last [OF assms]])
  fix r c'
  assume r: "case r of Inr x \<Rightarrow> wp w I (k x) Q c' | Inl e \<Rightarrow> (\<forall>rem. Q (Inr (Some (CleanupError stage rem e))) c')"
  show "wp w I (case r of Inr x \<Rightarrow> k x
       | Inl e \<Rightarrow> io_then RemainingOwned (\<lambda>(rem, _). io_return (Some (CleanupError stage rem e)))) Q c'"
  proof (cases r)
    case (Inl e)
    have "wp w I (io_then RemainingOwned (\<lambda>(rem, _). io_return (Some (CleanupError stage rem e)))) Q c'"
      by (rule wp_then, rule wp_mono [OF wp_RemainingOwned]) (use r Inl in \<open>auto intro!: wp_return\<close>)
    then show ?thesis by (simp add: Inl)
  qed (use r in simp)
qed

lemma wp_uninstall_held:
  assumes ses: "session w rt ident s l i c" and fits: "root_fits w rt"
    and err: "\<And>x c'. \<not> (calm w \<and> small_record c) \<Longrightarrow> Q (Inr (Some x)) c'"
    and ok: "\<And>c'. cleared w rt ident c' \<Longrightarrow> i_exe i = [] \<or> c_files c' bin_dir = None \<or> c_files c' bin_file = None \<Longrightarrow>
      Q (Inr None) c'"
  shows "wp w (safe w rt ident) (uninstall_held s l True) Q c"
proof -
  have bad: "Q (Inr (Some x)) c'" if "\<not> calm w" for x c' using that by (intro err) blast
  let ?finish = "\<lambda>s state. at_stage ''owned files and final identity'' (FinishPurge s state) (\<lambda>_. io_return None)"
  let ?purge = "\<lambda>s state. at_stage ''credential purge'' (PurgeLocked s state) (\<lambda>s. ?finish s state)"
  let ?drain = "\<lambda>s l. at_stage ''state drain'' (drain_state s l) (\<lambda>(s, state). ?purge s state)"
  let ?files = "\<lambda>s l. at_stage ''shell and command files'' (end_pending s l) (\<lambda>(s, l). ?drain s l)"
  let ?regs = "\<lambda>s l. at_stage ''agent registrations'' (remove_registrations s l) (\<lambda>_. ?files s l)"
  let ?runtime = "\<lambda>s l. at_stage ''runtime cleanup'' (external ''runtime cleanup'') (\<lambda>_. ?regs s l)"
  let ?stop = "\<lambda>s l. at_stage ''service shutdown'' (stop_service s l) (\<lambda>_. ?runtime s l)"
  have finish: "wp w (safe w rt ident) (?finish s cleanup_held) Q c"
    if "ready w rt ident s l i' c" "keyless w rt ident i' c" "i_exe i' = i_exe i" for s l i' c
    by (rule wp_at_stage, unfold io_then_unit, rule wp_FinishPurge [OF that(1,2) fits]) (use that(3) in \<open>auto intro!: bad ok wp_return\<close>)
  have purge: "wp w (safe w rt ident) (?purge s cleanup_held) Q c"
    if "ready w rt ident s l i' c" "i_exe i' = i_exe i" for s l i' c
    by (rule wp_at_stage, rule wp_PurgeLocked [OF that(1) fits])
      (use that(2) finish in \<open>auto intro!: bad wp_return simp del: remaining.simps\<close>)
  have drain: "wp w (safe w rt ident) (?drain s l) Q c"
    if "session w rt ident s l i' c" "i_exe i' = i_exe i" for s l i' c
    by (rule wp_at_stage, rule wp_drain [OF that(1)])
      (use that(2) purge in \<open>auto simp: ready_def cleanup_held_good intro!: bad wp_return\<close>)
  have files: "wp w (safe w rt ident) (?files s l) Q c" if "session w rt ident s l i c" for s l c
    by (rule wp_at_stage, rule wp_end_pending [OF that fits]) (use drain in \<open>auto intro!: bad wp_return\<close>)
  have regs: "wp w (safe w rt ident) (?regs s l) Q c" if "session w rt ident s l i c" for s l c
    by (rule wp_at_stage, rule wp_registrations [OF that]) (use files in \<open>auto intro!: bad wp_return\<close>)
  have runtime: "wp w (safe w rt ident) (?runtime s l) Q c" if "session w rt ident s l i c" for s l c
    by (rule wp_at_stage, rule wp_stage_external [OF that]) (use regs in \<open>auto intro!: bad wp_return\<close>)
  have stop: "wp w (safe w rt ident) (?stop s l) Q c'"
    if "session w rt ident s l i c'" "c_files c' ''service.json'' = c_files c ''service.json''" for s l c'
    by (rule wp_at_stage, rule wp_stop [OF that(1)])
      (use that(2) runtime in \<open>auto simp: small_record_def intro!: err wp_return\<close>)
  have prepare: "wp w (safe w rt ident) (at_stage ''keyring preparation'' (prepare_keyring s l) (\<lambda>(s, l). ?stop s l)) Q c"
    by (rule wp_at_stage, rule wp_prepare [OF ses]) (use stop in \<open>auto intro!: bad wp_return\<close>)
  have first: "wp w (safe w rt ident) (at_stage ''service shutdown'' (io_return ()) (\<lambda>_.
      at_stage ''keyring preparation'' (prepare_keyring s l) (\<lambda>(s, l). ?stop s l))) Q c"
    by (rule wp_at_stage, unfold io_then_unit, rule wp_return) (simp add: prepare)
  show ?thesis
    using first by (simp add: uninstall_held_def)
qed

lemma wp_Uninstall:
  assumes rec: "recoverable w rt ident c" and fits: "root_fits w rt" and gov: "gov w rt c = Some i"
    and err: "\<And>r c'. \<not> (calm w \<and> is_ok (validateRoot (o_sha w) rt) \<and> small_record c) \<Longrightarrow> r \<noteq> Inr None \<or> \<not> root_there w \<Longrightarrow> Q r c'"
    and ok: "\<And>c'. cleared w rt ident c' \<Longrightarrow> i_exe i = [] \<or> c_files c' bin_dir = None \<or> c_files c' bin_file = None \<Longrightarrow>
      Q (Inr None) c'"
  shows "wp w (safe w rt ident) (Uninstall rt True) Q c"
proof -
  let ?terminal = "c_files c ''installation.json'' = None"
  let ?s = "\<lparr>st_root = rt, st_id = i, st_terminal = ?terminal\<rparr>"
  let ?c1 = "opened lifecycle_lock ?terminal c"
  let ?l = "\<lparr>ll_lease = lifecycle_held, ll_id = i\<rparr>"
  have rec1: "recoverable w rt ident ?c1" using rec by (intro recoverable_opened) auto
  have ident: "i_id i = ident" using rec gov by (auto simp: recoverable_def)
  have good: "identity_good w ?s True c" using rec gov by (auto simp: identity_good_def recoverable_def)
  have lock: "?terminal \<or> c_files c lifecycle_lock \<noteq> None" using rec by (auto simp: recoverable_def)
  have small: "small_record ?c1 = small_record c" by (simp add: small_record_def opened_files lifecycle_lock_def)
  have held: "wp w (safe w rt ident) (uninstall_held ?s ?l True) Q ?c1"
    if l: "lease_good w ?s lifecycle_held ?c1"
  proof (rule wp_uninstall_held [OF _ fits])
    show "session w rt ident ?s ?l i ?c1"
      using rec1 gov ident l by (simp add: session_def lifecycle_held_good)
    show "Q (Inr (Some x)) c'" if "\<not> (calm w \<and> small_record ?c1)" for x c'
      using that small by (intro err) auto
  qed (rule ok)
  have run: "wp w (safe w rt ident) (io_then (Lifecycle ?s) (\<lambda>l. uninstall_held ?s l True)) Q c"
  proof (rule wp_Lifecycle)
    show "safe w rt ident (opened lifecycle_lock (st_terminal ?s) c)" using rec1 by (simp add: safe_def)
    show "Q (Inl e) c'" if "\<not> (calm w \<and> (st_terminal ?s \<or> c_files c lifecycle_lock \<noteq> None) \<and> identity_good w ?s True c)" for e c'
      using that lock good by (intro err) auto
    show "wp w (safe w rt ident) (uninstall_held ?s \<lparr>ll_lease = lifecycle_held, ll_id = j\<rparr> True) Q (opened lifecycle_lock (st_terminal ?s) c)"
      if "gov w (st_root ?s) c = Some j" "lease_good w ?s lifecycle_held (opened lifecycle_lock (st_terminal ?s) c)" for j
      using held that gov by simp
  qed
  have some: "\<exists>p \<in> set (ownedPaths (o_linux w)). c_files c p \<noteq> None"
  proof (cases ?terminal)
    case True
    then have "c_files c ''purge.json'' \<noteq> None" using gov by (auto simp: gov_def doc_def split: option.splits)
    then show ?thesis by (intro bexI [of _ "''purge.json''"]) (simp_all add: ownedPaths_def)
  next
    case False
    then show ?thesis by (intro bexI [of _ "''installation.json''"]) (simp_all add: ownedPaths_def)
  qed
  let ?missing = "io_then RemainingOwned (\<lambda>(rem, err). if err \<noteq> None \<or> rem \<noteq> [] then
               io_return (Some (CleanupError ''missing installation identity'' rem (Sentinel Svc_State)))
             else io_then (external ''shell and command files'') (\<lambda>_. io_return None))"
  have missing: "wp w (safe w rt ident) ?missing Q c"
    if nc: "\<not> (calm w \<and> is_ok (validateRoot (o_sha w) rt))"
  proof (rule wp_then, rule wp_mono [OF wp_RemainingOwned], elim conjE exE)
    fix r :: "(bytes list \<times> goerr option) res" and c' rem e
    assume c': "c' = c" and r: "r = Inr (rem, e)"
      and found: "root_there w \<and> (\<exists>p \<in> set (ownedPaths (o_linux w)). c_files c p \<noteq> None) \<longrightarrow> rem \<noteq> [] \<or> e \<noteq> None"
    have quiet: "wp w (safe w rt ident) (io_then (external ''shell and command files'') (\<lambda>_. io_return None)) Q c"
      if "\<not> root_there w"
      by (rule wp_external) (use rec nc that in \<open>auto simp: safe_def recoverable_outside intro!: err wp_return\<close>)
    show "case r of Inl e \<Rightarrow> Q (Inl e) c' | Inr x \<Rightarrow> wp w (safe w rt ident) (case x of (rem, err) \<Rightarrow> if err \<noteq> None \<or> rem \<noteq> [] then
               io_return (Some (CleanupError ''missing installation identity'' rem (Sentinel Svc_State)))
             else io_then (external ''shell and command files'') (\<lambda>_. io_return None)) Q c'"
      unfolding r c' sum.case prod.case
      using quiet some found nc by (intro wp_if wp_return err) auto
  qed
  have branch: "wp w (safe w rt ident) (case r of
         Inr s \<Rightarrow> io_then (Lifecycle s) (\<lambda>l. uninstall_held s l True)
       | Inl e \<Rightarrow> if \<not> errors_is e Os_NotExist then io_fail e else ?missing) Q c"
    if "r = Inr ?s \<or> (\<exists>e. r = Inl e) \<and> \<not> (calm w \<and> is_ok (validateRoot (o_sha w) rt))" for r
    using that run missing by (auto intro!: wp_fail err)
  show ?thesis
    unfolding Uninstall_def
  proof (rule wp_try, rule wp_last, rule wp_openExisting, goal_cases)
    case (1 e)
    then show ?case using gov by (intro branch [of "Inl e"]) auto
  next
    case (2 j)
    then have "j = i" using gov by simp
    then show ?case by (auto intro!: wp_return branch)
  qed
qed

section \<open>Interrupted uninstallations\<close>

text \<open>
  C1.  An uninstallation with purge that is killed anywhere, in whatever world, leaves an
  installation that cleanup can still open, whose tombstone or locks and data are intact and
  whose key is still found through the database, or nothing of it; and it reports success
  only when no owned file, no key and no recorded executable are left.
\<close>

theorem uninstall_interrupted:
  assumes "root_fits w rt" and "recoverable w rt ident (d_now d)"
  shows "throughout (safe w rt ident) d (snd (Uninstall rt True w d)) \<and>
    (root_there w \<and> fst (Uninstall rt True w d) = Inr None \<longrightarrow>
       cleared w rt ident (d_now (snd (Uninstall rt True w d))) \<and>
       (\<forall>i. gov w rt (d_now d) = Some i \<longrightarrow> i_exe i = [] \<or>
          c_files (d_now (snd (Uninstall rt True w d))) bin_dir = None \<or>
          c_files (d_now (snd (Uninstall rt True w d))) bin_file = None))"
proof -
  obtain i where i: "gov w rt (d_now d) = Some i" using assms(2) by (auto simp: recoverable_def)
  have "wp w (safe w rt ident) (Uninstall rt True) (\<lambda>r c. root_there w \<and> r = Inr None \<longrightarrow>
      cleared w rt ident c \<and> (i_exe i = [] \<or> c_files c bin_dir = None \<or> c_files c bin_file = None)) (d_now d)"
    by (rule wp_Uninstall [OF assms(2,1) i]) auto
  from wp_result [OF this] assms(2) show ?thesis by (auto simp: safe_def i)
qed

text \<open>The contents a disk had from one moment to a later one.\<close>

definition moment :: "disk \<Rightarrow> disk \<Rightarrow> contents \<Rightarrow> bool" where
  "moment d d' c \<longleftrightarrow> c = d_now d' \<or> (\<exists>ps. d_past d' = ps @ d_past d \<and> c \<in> set ps)"

definition same_system :: "world \<Rightarrow> world \<Rightarrow> bool" where
  "same_system w w' \<longleftrightarrow> o_sha w' = o_sha w \<and> o_linux w' = o_linux w \<and> o_keyset w' = o_keyset w"

lemma throughout_moment: "throughout I d d' \<Longrightarrow> moment d d' c \<Longrightarrow> I c"
  by (auto simp: throughout_def moment_def list_all_iff)

lemma same_system_simps:
  assumes "same_system w w'"
  shows "recoverable w' rt ident c = recoverable w rt ident c" and "cleared w' rt ident c = cleared w rt ident c"
    and "root_fits w' rt = root_fits w rt"
proof -
  have e: "o_sha w' = o_sha w" "o_linux w' = o_linux w" "o_keyset w' = o_keyset w" using assms by (simp_all add: same_system_def)
  have doc: "doc w' rt = doc w rt" by (rule ext)+ (simp only: doc_def e)
  then have gov: "gov w' rt = gov w rt" by (intro ext) (simp only: gov_def doc)
  have acct: "account w' rt ident = account w rt ident" by (simp only: account_def e)
  show "recoverable w' rt ident c = recoverable w rt ident c" by (simp only: recoverable_def gov acct db_records_def e)
  show "cleared w' rt ident c = cleared w rt ident c" by (simp only: cleared_def acct e)
  show "root_fits w' rt = root_fits w rt" by (simp only: root_fits_def e)
qed

text \<open>
  C2.  Whatever moment an uninstallation with purge is killed at, running it again on what
  is left, in a world in which nothing fails, finishes it: nothing is left to do, or the
  second run succeeds and clears the installation.
\<close>

theorem uninstall_resumes:
  assumes "root_fits w rt" and "validateRoot (o_sha w) rt = Inr ()" and "recoverable w rt ident (d_now d)"
    and "moment d (snd (Uninstall rt True w d)) c" and "small_record c"
    and "calm w'" and "same_system w w'" and "d_now d' = c"
  shows "cleared w rt ident c \<or>
    fst (Uninstall rt True w' d') = Inr None \<and> cleared w rt ident (d_now (snd (Uninstall rt True w' d')))"
proof -
  obtain i where i: "gov w rt (d_now d) = Some i" using assms(3) by (auto simp: recoverable_def)
  have "wp w (safe w rt ident) (Uninstall rt True) (\<lambda>r c. True) (d_now d)"
    by (rule wp_Uninstall [OF assms(3,1) i]) auto
  from wp_result [OF this] assms(3) have "throughout (safe w rt ident) d (snd (Uninstall rt True w d))" by (simp add: safe_def)
  from throughout_moment [OF this assms(4)] have "safe w rt ident c" .
  then consider "cleared w rt ident c" | "recoverable w rt ident c" by (auto simp: safe_def)
  then show ?thesis
  proof cases
    case 2
    note same = same_system_simps [OF assms(7)]
    have r: "recoverable w' rt ident c" and f: "root_fits w' rt" using 2 assms(1) by (simp_all add: same)
    obtain j where j: "gov w' rt c = Some j" using r by (auto simp: recoverable_def)
    have "root_there w'" using assms(6) by (simp add: root_there_def calmD)
    moreover have "is_ok (validateRoot (o_sha w') rt)" using assms(2,7) by (simp add: same_system_def)
    ultimately have "wp w' (safe w' rt ident) (Uninstall rt True) (\<lambda>r c. r = Inr None \<and> cleared w' rt ident c) (d_now d')"
      unfolding assms(8) by (intro wp_Uninstall [OF r f j]) (use assms(5,6) in auto)
    from wp_result [OF this] r show ?thesis by (simp add: safe_def same assms(8))
  qed simp
qed

text \<open>An established installation whose database records a key.\<close>

definition ex_installed :: disk where
  "ex_installed = \<lparr>d_now = \<lparr>c_files = [''installation.json'' \<mapsto> encodeIdentity (ex_inst\<lparr>i_established := True\<rparr>),
     ''data-mate.db'' \<mapsto> [], lifecycle_lock \<mapsto> [], gate_lock \<mapsto> [], state_lock \<mapsto> []], c_keys = (\<lambda>_. True)\<rparr>,
     d_past = [], d_clock = 0\<rparr>"

lemma ex_installed_ok: "recoverable ex_world ex_root (i_id ex_inst) (d_now ex_installed)"
proof -
  let ?i = "ex_inst\<lparr>i_established := True\<rparr>"
  have "inst_checks (o_sha ex_world) (o_linux ex_world) ex_root ?i"
    using ex_inst_checks by (simp add: inst_checks_def ex_world_def)
  then have "decodeIdentity ex_sha True ex_root (encodeIdentity ?i) = Inr ?i"
    using ex_root_fits by (simp add: root_fits_def decode_encode ex_world_def)
  then have gov: "gov ex_world ex_root (d_now ex_installed) = Some ?i"
    by (simp add: gov_def doc_def ex_installed_def ex_world_def lifecycle_lock_def gate_lock_def state_lock_def)
  have "db_records ex_world (d_now ex_installed)"
    by (simp add: db_records_def ex_installed_def ex_world_def lifecycle_lock_def gate_lock_def state_lock_def)
  then show ?thesis
    unfolding recoverable_def gov by (simp add: ex_installed_def)
qed

lemma ex_uninstall: "fst (Uninstall ex_root True ex_world ex_installed) = Inr None"
proof -
  obtain i where i: "gov ex_world ex_root (d_now ex_installed) = Some i" using ex_installed_ok by (auto simp: recoverable_def)
  have "small_record (d_now ex_installed)"
    by (simp add: small_record_def ex_installed_def lifecycle_lock_def gate_lock_def state_lock_def)
  moreover have "is_ok (validateRoot (o_sha ex_world) ex_root)" using ex_root_valid by (simp add: ex_world_def)
  ultimately have "wp ex_world (safe ex_world ex_root (i_id ex_inst)) (Uninstall ex_root True) (\<lambda>r c. r = Inr None) (d_now ex_installed)"
    by (intro wp_Uninstall [OF ex_installed_ok ex_root_fits i]) (use ex_world_calm in \<open>auto simp: root_there_def ex_world_def\<close>)
  from wp_result [OF this] ex_installed_ok show ?thesis by (simp add: safe_def)
qed

theorem uninstall_interrupted_witness:
  "throughout (safe ex_world ex_root (i_id ex_inst)) ex_installed (snd (Uninstall ex_root True ex_world ex_installed)) \<and>
    fst (Uninstall ex_root True ex_world ex_installed) = Inr None \<and>
    cleared ex_world ex_root (i_id ex_inst) (d_now (snd (Uninstall ex_root True ex_world ex_installed)))"
proof -
  have "root_there ex_world" by (simp add: root_there_def ex_world_def)
  with uninstall_interrupted [OF ex_root_fits ex_installed_ok] ex_uninstall show ?thesis by simp
qed

definition ex_stopped :: world where
  "ex_stopped = ex_world\<lparr>o_ctx := (\<lambda>_. Some (Other ''canceled''))\<rparr>"

lemma ex_stopped_run:
  "Uninstall ex_root True ex_stopped ex_installed = (Inl (Other ''canceled''), ex_installed\<lparr>d_clock := 1\<rparr>)"
proof -
  have "openExisting ex_root True ex_stopped ex_installed = (Inl (Other ''canceled''), ex_installed\<lparr>d_clock := 1\<rparr>)"
    by (simp add: openExisting_def io_then_def io_try_def ctx_err_def ask_def ex_stopped_def io_fail_def ex_installed_def)
  then show ?thesis by (simp add: Uninstall_def io_try_def io_fail_def)
qed

theorem uninstall_resumes_witness:
  "fst (Uninstall ex_root True ex_stopped ex_installed) \<noteq> Inr None \<and>
   fst (Uninstall ex_root True ex_world ex_installed) = Inr None \<and>
   cleared ex_stopped ex_root (i_id ex_inst) (d_now (snd (Uninstall ex_root True ex_world ex_installed)))"
proof
  show "fst (Uninstall ex_root True ex_stopped ex_installed) \<noteq> Inr None" by (simp add: ex_stopped_run)
  have same: "same_system ex_stopped ex_world" by (simp add: same_system_def ex_stopped_def)
  note sim = same_system_simps [OF same]
  have "\<not> cleared ex_stopped ex_root (i_id ex_inst) (d_now ex_installed)"
    by (auto simp: cleared_def ex_installed_def ownedPaths_def)
  moreover have "cleared ex_stopped ex_root (i_id ex_inst) (d_now ex_installed) \<or>
    fst (Uninstall ex_root True ex_world ex_installed) = Inr None \<and>
    cleared ex_stopped ex_root (i_id ex_inst) (d_now (snd (Uninstall ex_root True ex_world ex_installed)))"
  proof (rule uninstall_resumes)
    show "root_fits ex_stopped ex_root" using ex_root_fits by (simp add: sim)
    show "validateRoot (o_sha ex_stopped) ex_root = Inr ()" using ex_root_valid by (simp add: ex_stopped_def ex_world_def)
    show "recoverable ex_stopped ex_root (i_id ex_inst) (d_now ex_installed)" using ex_installed_ok by (simp add: sim)
    show "moment ex_installed (snd (Uninstall ex_root True ex_stopped ex_installed)) (d_now ex_installed)"
      by (simp add: ex_stopped_run moment_def)
    show "small_record (d_now ex_installed)"
      by (simp add: small_record_def ex_installed_def lifecycle_lock_def gate_lock_def state_lock_def)
    show "calm ex_world" by (rule ex_world_calm)
  qed (use same in simp_all)
  ultimately show "fst (Uninstall ex_root True ex_world ex_installed) = Inr None \<and>
    cleared ex_stopped ex_root (i_id ex_inst) (d_now (snd (Uninstall ex_root True ex_world ex_installed)))" by blast
qed

section \<open>Uninstalling without purge\<close>

text \<open>What an uninstallation that keeps the credentials must not touch.\<close>

definition keeps :: "(bytes \<Rightarrow> bool) \<Rightarrow> bytes option \<Rightarrow> bytes option \<Rightarrow> contents \<Rightarrow> bool" where
  "keeps ks db hosts c \<longleftrightarrow> c_keys c = ks \<and> c_files c ''data-mate.db'' = db \<and> c_files c ''known_hosts'' = hosts"

lemma spares_keeps: "p \<noteq> ''data-mate.db'' \<Longrightarrow> p \<noteq> ''known_hosts'' \<Longrightarrow> spares (keeps ks db h) p"
  by (simp add: spares_def keeps_def)

lemma keeps_outside: "outside w c c' \<Longrightarrow> keeps k db h c' = keeps k db h c"
proof -
  assume "outside w c c'"
  moreover have "''data-mate.db'' \<notin> set (lifecycle_names b)" "''known_hosts'' \<notin> set (lifecycle_names b)" for b
    by (cases b; simp add: lifecycle_names_def ServiceFile_def)+
  ultimately show ?thesis by (simp add: outside_def keeps_def)
qed

lemma always_steps [always]:
  "always w I bin_check" "always w I binaryDirectory" "always w I (current_identity rt)" "always w I (HasKeyset s l)"
  by (unfold bin_check_def binaryDirectory_def current_identity_def HasKeyset_def) (intro always)+

lemma always_remaining [always]: "always w I (remaining rem ps)" "always w I RemainingOwned"
proof -
  show all: "always w I (remaining rem ps)" for rem ps
    by (induction ps arbitrary: rem) (simp_all only: remaining.simps, (intro always; assumption)+)
  show "always w I RemainingOwned" unfolding RemainingOwned_def by (intro always all)
qed

lemma always_at_stage [always]: "always w I m \<Longrightarrow> (\<And>x. always w I (k x)) \<Longrightarrow> always w I (at_stage stage m k)"
  unfolding at_stage_def by (intro always; assumption?)

lemma always_external:
  assumes "\<And>c c'. I c \<Longrightarrow> outside w c c' \<Longrightarrow> I c'"
  shows "always w I (external stage)"
proof -
  have "always w I (change (override_files (lifecycle_names (o_linux w)) f))" for f
    using assms by (intro always_change) auto
  then show ?thesis unfolding external_def by (intro always_look_then) (auto intro!: always)
qed

lemma always_lifecycle_remove:
  assumes "\<And>p. p \<in> set (lifecycle_names (o_linux w)) \<Longrightarrow> spares I p"
  shows "set ps \<subseteq> set (lifecycle_names (o_linux w)) \<Longrightarrow> always w I (lifecycle_remove_all s l ps)"
proof (induction ps)
  case (Cons p ps)
  then have "spares I p" "always w I (lifecycle_remove_all s l ps)" using assms by auto
  then show ?case unfolding lifecycle_remove_all.simps lifecycle_remove_def by (intro always)
qed (simp add: always_return)

lemma always_leases [always]:
  assumes locks: "spares I gate_lock" "spares I state_lock" "spares I lifecycle_lock"
  shows "always w I (Lifecycle s)"
    and "spares I ''installation.json'' \<Longrightarrow> spares I (tmp_of ''installation.json'') \<Longrightarrow> always w I (CleanupLease s l)"
    and "spares I ''installation.json'' \<Longrightarrow> spares I (tmp_of ''installation.json'') \<Longrightarrow> always w I (SetDistributionPending s l b)"
  unfolding SetDistributionPending_def CleanupLease_def Lifecycle_def Let_def by (intro always locks; assumption)+

lemma always_uninstall:
  assumes doc: "spares I ''installation.json''" "spares I (tmp_of ''installation.json'')"
    and locks: "spares I gate_lock" "spares I state_lock" "spares I lifecycle_lock"
    and bin: "spares I bin_file" "spares I bin_dir"
    and names: "\<And>p. p \<in> set (lifecycle_names (o_linux w)) \<Longrightarrow> spares I p" and ext: "\<And>c c'. I c \<Longrightarrow> outside w c c' \<Longrightarrow> I c'"
  shows "always w I (Uninstall rt False)"
proof -
  note external = always_external [where I = I, OF ext]
  have regs: "always w I (remove_registrations s l)" for s l
    unfolding remove_registrations_def
    by (intro always external always_look_then always_lifecycle_remove names) (auto simp: lifecycle_names_def)
  have held: "always w I (uninstall_held s l False)" for s l
    unfolding uninstall_held_def stop_service_def end_pending_def drain_state_def RemoveBinary_def TrimBinaryDirectory_def if_False
    by (intro always external doc locks bin regs)
  show ?thesis unfolding Uninstall_def by (intro always external held locks)
qed

text \<open>
  C33.  An uninstallation without purge, whatever fails and wherever it is killed, never
  touches the credentials: the database, the pinned hosts and every key stay as they were.
\<close>

theorem uninstall_keeps_credentials:
  "throughout (keeps (c_keys (d_now d)) (c_files (d_now d) ''data-mate.db'') (c_files (d_now d) ''known_hosts'')) d
     (snd (Uninstall rt False w d))"
proof -
  let ?I = "keeps (c_keys (d_now d)) (c_files (d_now d) ''data-mate.db'') (c_files (d_now d) ''known_hosts'')"
  have "always w ?I (Uninstall rt False)"
  proof (rule always_uninstall)
    show "spares ?I p" if "p \<in> set (lifecycle_names (o_linux w))" for p
      using that by (intro spares_keeps) (auto simp: lifecycle_names_def ServiceFile_def split: if_splits)
    show "?I c'" if "?I c" "outside w c c'" for c c' using that keeps_outside by blast
  qed (rule spares_keeps; simp add: tmp_of_def gate_lock_def state_lock_def lifecycle_lock_def bin_file_def bin_dir_def)+
  then show ?thesis by (rule always_result) (simp add: keeps_def)
qed

end
