(* ===== verification/Install.thy ===== *)
theory Install
  imports Purge
begin

text \<open>
  Publishing the executable (config/lifecycle.go, service/cleanup.go): the whole command from
  opening the installation to the renamed file, the order in which cleanup authority and the
  executable appear on disk, and the roots it locks out.
\<close>

section \<open>The command\<close>

text \<open>\<open>Controller.InstallBinary\<close>.\<close>

definition install_binary :: "root \<Rightarrow> bytes \<Rightarrow> unit io" where
  "install_binary rt name =
     io_then (Open rt) (\<lambda>s.
     io_then (Lifecycle s) (\<lambda>l.
     if i_purging (ll_id l) then io_fail (Sentinel Cfg_Purging)
     else
       io_then (stop_service s l) (\<lambda>_.
       io_then (InstallBinary s l name) (\<lambda>(s, l).
       if i_pending (ll_id l) then io_then (SetDistributionPending s l False) (\<lambda>_. io_return ())
       else io_return ()))))"

section \<open>Before the executable appears\<close>

text \<open>The executable is the one that was there, or the identity already records it.\<close>

definition same_bin :: "bytes option \<Rightarrow> contents \<Rightarrow> bool" where
  "same_bin b c \<longleftrightarrow> c_files c bin_file = b"

definition recorded :: "world \<Rightarrow> root \<Rightarrow> contents \<Rightarrow> bool" where
  "recorded w rt c \<longleftrightarrow> (\<exists>i. gov w rt c = Some i \<and> i_exe i = ExecutablePath rt)"

definition bin_or_recorded :: "world \<Rightarrow> root \<Rightarrow> bytes option \<Rightarrow> contents \<Rightarrow> bool" where
  "bin_or_recorded w rt b c \<longleftrightarrow> same_bin b c \<or> recorded w rt c"

lemma bin_not_owned: "bin_file \<notin> set (ownedPaths b)" "bin_file \<notin> set (lifecycle_names b)"
proof -
  show "bin_file \<notin> set (ownedPaths b)"
    by (cases b; simp add: ownedPaths_def ServiceFile_def bin_file_def)
  show "bin_file \<notin> set (lifecycle_names b)"
    by (cases b; simp add: lifecycle_names_def ServiceFile_def bin_file_def)
qed

lemma spares_bin: "p \<noteq> bin_file \<Longrightarrow> spares (same_bin b) p"
  by (simp add: spares_def same_bin_def)

lemma spares_bin_names [simp]:
  "spares (same_bin b) ''installation.json''" "spares (same_bin b) (tmp_of ''installation.json'')"
  "spares (same_bin b) gate_lock" "spares (same_bin b) state_lock" "spares (same_bin b) lifecycle_lock"
  by (rule spares_bin; simp add: bin_file_def tmp_of_def gate_lock_def state_lock_def lifecycle_lock_def)+

lemma outside_bin: "same_bin b c \<Longrightarrow> outside w c c' \<Longrightarrow> same_bin b c'"
  using bin_not_owned(2) by (auto simp: same_bin_def outside_def)

lemma always_before:
  "always w (same_bin b) (Open rt)" "always w (same_bin b) (Lifecycle s)" "always w (same_bin b) (stop_service s l)"
  "always w (same_bin b) (CleanupLease s l)"
proof -
  show "always w (same_bin b) (Open rt)"
  proof (rule always_Open, rule spares_bin)
    show "p \<noteq> bin_file" if "owned w p" for p using that bin_not_owned(1) unfolding owned_def by blast
  qed
  show "always w (same_bin b) (stop_service s l)"
    unfolding stop_service_def by (intro always always_external [where I = "same_bin b", OF outside_bin])
qed (intro always spares_bin_names)+

text \<open>An operation that keeps the executable runs before anything is recorded.\<close>

lemma wp_before:
  assumes "always w (same_bin b) m" and "same_bin b c" and "\<And>e c'. same_bin b c' \<Longrightarrow> Q (Inl e) c'"
    and "\<And>x c'. same_bin b c' \<Longrightarrow> wp w (bin_or_recorded w rt b) (k x) Q c'"
  shows "wp w (bin_or_recorded w rt b) (io_then m k) Q c"
proof (rule wp_then)
  have "wp w (same_bin b) m (\<lambda>_ _. True) c" using assms(1) by (simp add: always_def)
  from wp_weaken [OF this assms(2)] have "wp w (bin_or_recorded w rt b) m (\<lambda>r c. True \<and> same_bin b c) c"
    by (simp add: bin_or_recorded_def)
  then show "wp w (bin_or_recorded w rt b) m (\<lambda>r c. case r of Inl e \<Rightarrow> Q (Inl e) c | Inr x \<Rightarrow> wp w (bin_or_recorded w rt b) (k x) Q c) c"
    by (rule wp_mono) (use assms(3,4) in \<open>auto split: sum.split\<close>)
qed

text \<open>What an operation yields when it succeeds, read off its last step.\<close>

definition yields :: "'a io \<Rightarrow> ('a \<Rightarrow> bool) \<Rightarrow> bool" where
  "yields m P \<longleftrightarrow> (\<forall>w d x. fst (m w d) = Inr x \<longrightarrow> P x)"

lemma yields_return: "P x \<Longrightarrow> yields (io_return x) P"
  by (simp add: yields_def io_return_def)

lemma yields_then: "(\<And>x. yields (k x) P) \<Longrightarrow> yields (io_then m k) P"
  by (auto simp: yields_def io_then_def io_try_def io_fail_def split: prod.splits sum.splits)

lemma yields_Open: "yields (Open rt) (\<lambda>s. st_root s = rt)"
  unfolding Open_def by (intro yields_then yields_return) simp

lemma wp_before_yields:
  assumes "yields m P" and "always w (same_bin b) m" and "same_bin b c" and "\<And>e c'. same_bin b c' \<Longrightarrow> Q (Inl e) c'"
    and "\<And>x c'. same_bin b c' \<Longrightarrow> P x \<Longrightarrow> wp w (bin_or_recorded w rt b) (k x) Q c'"
  shows "wp w (bin_or_recorded w rt b) (io_then m k) Q c"
proof -
  have "wp w (bin_or_recorded w rt b) (io_then m io_return) (\<lambda>r c. same_bin b c) c"
    by (rule wp_before [OF assms(2,3)]) (simp_all add: wp_return)
  then have "wp w (bin_or_recorded w rt b) m (\<lambda>r c. same_bin b c \<and> (\<forall>x. r = Inr x \<longrightarrow> P x)) c"
    using assms(1) unfolding io_then_unit by (auto simp: wp_def yields_def)
  then show ?thesis
    by (intro wp_then) (erule wp_mono, use assms(4,5) in \<open>auto split: sum.split\<close>)
qed

text \<open>Recording, and what is kept once it is recorded.\<close>

lemma recorded_other [simp]: "p \<noteq> ''installation.json'' \<Longrightarrow> p \<noteq> ''purge.json'' \<Longrightarrow> recorded w rt (set_file p v c) = recorded w rt c"
  by (simp add: recorded_def)

lemma recorded_opened [simp]: "p = gate_lock \<or> p = state_lock \<or> p = lifecycle_lock \<Longrightarrow> recorded w rt (opened p b c) = recorded w rt c"
  by (auto simp: opened_def)

lemma same_bin_opened [simp]: "p = gate_lock \<or> p = state_lock \<or> p = lifecycle_lock \<Longrightarrow> same_bin b (opened p x c) = same_bin b c"
  by (auto simp: opened_def same_bin_def bin_file_def gate_lock_def state_lock_def lifecycle_lock_def)

lemma wp_record:
  assumes fits: "root_fits w rt" and checks: "inst_checks (o_sha w) (o_linux w) rt i" and exe: "i_exe i = ExecutablePath rt"
    and start: "bin_or_recorded w rt b c" and err: "\<And>e c'. Q (Inl e) c'"
    and ok: "\<And>c'. recorded w rt c' \<Longrightarrow> wp w (bin_or_recorded w rt b) (k ()) Q c'"
  shows "wp w (bin_or_recorded w rt b) (io_then (writeIdentity i) k) Q c"
proof (rule wp_writeIdentity)
  have before: "bin_or_recorded w rt b c'" if "but_for (tmp_of ''installation.json'') c c'" for c'
    using that start gov_but_for [of c c'] by (auto simp: bin_or_recorded_def recorded_def but_for_def same_bin_def tmp_of_def bin_file_def)
  have after: "recorded w rt c'"
    if "but_for (tmp_of ''installation.json'') (set_file ''installation.json'' (Some (encodeIdentity i)) c) c'" for c'
    using that gov_but_for [of "set_file ''installation.json'' (Some (encodeIdentity i)) c" c' w rt] gov_encoded [OF checks fits, of c] exe
    by (auto simp: recorded_def)
  show "bin_or_recorded w rt b c'" if "but_for (tmp_of ''installation.json'') c c' \<or>
      but_for (tmp_of ''installation.json'') (set_file ''installation.json'' (Some (encodeIdentity i)) c) c'" for c'
    using that before after by (auto simp: bin_or_recorded_def)
  show "wp w (bin_or_recorded w rt b) (k ()) Q c'"
    if "but_for (tmp_of ''installation.json'') (set_file ''installation.json'' (Some (encodeIdentity i)) c) c'" for c'
    using ok after [OF that] .
qed (rule err)

lemma wp_recorded:
  assumes "always w (recorded w rt) m" and "recorded w rt c" and "\<And>e c'. recorded w rt c' \<Longrightarrow> Q (Inl e) c'"
    and "\<And>x c'. recorded w rt c' \<Longrightarrow> wp w (bin_or_recorded w rt b) (k x) Q c'"
  shows "wp w (bin_or_recorded w rt b) (io_then m k) Q c"
proof (rule wp_then)
  have "wp w (recorded w rt) m (\<lambda>_ _. True) c" using assms(1) by (simp add: always_def)
  from wp_weaken [OF this assms(2)] have "wp w (bin_or_recorded w rt b) m (\<lambda>r c. True \<and> recorded w rt c) c"
    by (simp add: bin_or_recorded_def)
  then show "wp w (bin_or_recorded w rt b) m (\<lambda>r c. case r of Inl e \<Rightarrow> Q (Inl e) c | Inr x \<Rightarrow> wp w (bin_or_recorded w rt b) (k x) Q c) c"
    by (rule wp_mono) (use assms(3,4) in \<open>auto split: sum.split\<close>)
qed

lemma spares_recorded: "p \<noteq> ''installation.json'' \<Longrightarrow> p \<noteq> ''purge.json'' \<Longrightarrow> spares (recorded w rt) p"
  by (simp add: spares_def)

text \<open>The publication itself, once the lease is taken.\<close>

lemma wp_publish_binary:
  fixes s :: store
  assumes name: "staged_name name" and rec: "recorded w rt c" and err: "\<And>e c'. Q (Inl e) c'"
    and ok: "\<And>c'. recorded w rt c' \<Longrightarrow> wp w (bin_or_recorded w rt b) (k ()) Q c'"
  shows "wp w (bin_or_recorded w rt b) (io_then
         (io_then (check s state) (\<lambda>_. io_then bin_check (\<lambda>_. io_then (sameNamed (bin_dir @ name) (Sentinel Cfg_Stale)) (\<lambda>_.
         io_then ctx_err (\<lambda>_. io_then (sys ''replace executable'') (\<lambda>_. io_then (rename_file (bin_dir @ name) bin_file) (\<lambda>_.
         sys ''sync directory''))))))) k) Q c"
proof (rule wp_recorded [OF _ rec])
  have move: "recorded w rt (set_file (bin_dir @ name) None (set_file bin_file v c))" if "recorded w rt c" for v c
    using that by (simp add: bin_dir_def)
  show "always w (recorded w rt)
         (io_then (check s state) (\<lambda>_. io_then bin_check (\<lambda>_. io_then (sameNamed (bin_dir @ name) (Sentinel Cfg_Stale)) (\<lambda>_.
         io_then ctx_err (\<lambda>_. io_then (sys ''replace executable'') (\<lambda>_. io_then (rename_file (bin_dir @ name) bin_file) (\<lambda>_.
         sys ''sync directory'')))))))"
    unfolding rename_file_def by (intro always always_change move)
qed (simp_all add: err ok)

definition install_checks :: "store \<Rightarrow> lifecycle_lease \<Rightarrow> bytes \<Rightarrow> unit io" where
  "install_checks s l name =
     io_then (check s (ll_lease l)) (\<lambda>_.
     io_then (io_try (verifyIdentity s) (\<lambda>r. case r of Inl e \<Rightarrow> if errors_is e Cfg_Pending then io_return () else io_fail e | Inr _ \<Rightarrow> io_return ())) (\<lambda>_.
     io_then binaryDirectory (\<lambda>_. io_then (checkBinary name) (\<lambda>_. io_then (sys ''sync executable'') (\<lambda>_.
     io_then (check s (ll_lease l)) (\<lambda>_. io_then bin_check (\<lambda>_. sameNamed (bin_dir @ name) (Sentinel Cfg_Stale))))))))"

definition install_publish :: "store \<Rightarrow> lifecycle_lease \<Rightarrow> lease \<Rightarrow> bytes \<Rightarrow> (store \<times> lifecycle_lease) io" where
  "install_publish s l state name =
     io_then ctx_err (\<lambda>_.
     (let i = (st_id s)\<lparr>i_exe := ExecutablePath (st_root s)\<rparr>; s = s\<lparr>st_id := i\<rparr>; l = l\<lparr>ll_id := i\<rparr> in
      io_then (writeIdentity i) (\<lambda>_.
      io_then (io_then (check s state) (\<lambda>_. io_then bin_check (\<lambda>_. io_then (sameNamed (bin_dir @ name) (Sentinel Cfg_Stale)) (\<lambda>_.
         io_then ctx_err (\<lambda>_. io_then (sys ''replace executable'') (\<lambda>_. io_then (rename_file (bin_dir @ name) bin_file) (\<lambda>_.
         sys ''sync directory''))))))) (\<lambda>_.
      io_return (s, l)))))"

lemma install_steps:
  "staged_name name \<Longrightarrow> InstallBinary s l name =
     io_then (install_checks s l name) (\<lambda>_. io_then (CleanupLease s l) (\<lambda>(s, l, state). install_publish s l state name))"
  unfolding InstallBinary_def install_checks_def install_publish_def Let_def io_then_assoc by simp

lemma always_pending:
  fixes s :: store
  assumes fits: "root_fits w rt" and checks: "inst_checks (o_sha w) (o_linux w) rt (ll_id l)" and exe: "i_exe (ll_id l) = ExecutablePath rt"
    and held: "ll_lease l = lifecycle_held" and rec: "recorded w rt c"
  shows "wp w (bin_or_recorded w rt b) (io_then (SetDistributionPending s l False) (\<lambda>_. io_return ())) (\<lambda>_ _. True) c"
proof -
  have own: "i_owned (ll_id l) = ownedPaths (o_linux w)" using checks by (simp add: inst_checks_def)
  have "inst_checks (o_sha w) (o_linux w) rt ((ll_id l)\<lparr>i_pending := False\<rparr>)" using checks by (simp add: inst_checks_def)
  note put = wp_record [OF fits this]
  show ?thesis
    unfolding SetDistributionPending_def io_then_assoc
    by (rule wp_CleanupLease [OF held own])
      (use rec exe in \<open>auto simp: bin_or_recorded_def Let_def io_then_assoc io_then_return intro!: put wp_return\<close>)
qed

lemma wp_InstallBinary:
  fixes s :: store
  assumes fits: "root_fits w rt" and checks: "inst_checks (o_sha w) (o_linux w) rt (ll_id l)" and ctl: "\<not> has_control (ExecutablePath rt)"
    and held: "ll_lease l = lifecycle_held" and root: "st_root s = rt" and bin: "same_bin b c" and err: "\<And>e c'. Q (Inl e) c'"
    and ok: "\<And>s l c'. recorded w rt c' \<Longrightarrow> ll_lease l = lifecycle_held \<Longrightarrow> inst_checks (o_sha w) (o_linux w) rt (ll_id l) \<Longrightarrow>
      i_exe (ll_id l) = ExecutablePath rt \<Longrightarrow> wp w (bin_or_recorded w rt b) (k (s, l)) Q c'"
  shows "wp w (bin_or_recorded w rt b) (io_then (InstallBinary s l name) k) Q c"
proof -
  let ?i = "(ll_id l)\<lparr>i_exe := ExecutablePath rt\<rparr>"
  have own: "i_owned (ll_id l) = ownedPaths (o_linux w)" and new: "inst_checks (o_sha w) (o_linux w) rt ?i"
    using checks ctl by (simp_all add: inst_checks_def)
  let ?s = "s\<lparr>st_id := ?i\<rparr>" and ?l = "l\<lparr>ll_id := ?i\<rparr>"
  have publish: "wp w (bin_or_recorded w rt b) (io_then
         (io_then (check ?s cleanup_held) (\<lambda>_. io_then bin_check (\<lambda>_. io_then (sameNamed (bin_dir @ name) (Sentinel Cfg_Stale)) (\<lambda>_.
         io_then ctx_err (\<lambda>_. io_then (sys ''replace executable'') (\<lambda>_. io_then (rename_file (bin_dir @ name) bin_file) (\<lambda>_.
         sys ''sync directory''))))))) (\<lambda>_. k (?s, ?l))) Q c'"
    if "staged_name name" "recorded w rt c'" for c'
    by (rule wp_publish_binary [OF that]) (use held new err in \<open>auto intro: ok\<close>)
  have recording: "wp w (bin_or_recorded w rt b) (io_then ctx_err (\<lambda>_. io_then (writeIdentity ?i) (\<lambda>_. io_then
         (io_then (check ?s cleanup_held) (\<lambda>_. io_then bin_check (\<lambda>_. io_then (sameNamed (bin_dir @ name) (Sentinel Cfg_Stale)) (\<lambda>_.
         io_then ctx_err (\<lambda>_. io_then (sys ''replace executable'') (\<lambda>_. io_then (rename_file (bin_dir @ name) bin_file) (\<lambda>_.
         sys ''sync directory''))))))) (\<lambda>_. k (?s, ?l))))) Q c'"
    if "staged_name name" "same_bin b c'" for c'
    by (rule wp_ctx, rule err, rule wp_record [OF fits new])
      (use that publish in \<open>auto simp: bin_or_recorded_def intro: err\<close>)
  have lease: "wp w (bin_or_recorded w rt b) (io_then (CleanupLease s l) (\<lambda>(s, l, state).
        io_then (install_publish s l state name) k)) Q c'"
    if "staged_name name" "same_bin b c'" for c'
    by (rule wp_CleanupLease [OF held own])
      (use that recording root in \<open>auto simp: install_publish_def bin_or_recorded_def Let_def io_then_assoc io_then_return intro!: err\<close>)
  show ?thesis
  proof (cases "staged_name name")
    case True
    have "wp w (bin_or_recorded w rt b) (io_then (install_checks s l name) (\<lambda>_.
        io_then (CleanupLease s l) (\<lambda>(s, l, state). io_then (install_publish s l state name) k))) Q c"
    proof (rule wp_before [OF _ bin])
      show "always w (same_bin b) (install_checks s l name)"
        unfolding install_checks_def checkBinary_def by (intro always)
    qed (use lease [OF True] err in auto)
    then show ?thesis
      using True by (simp add: install_steps io_then_assoc prod.case_distrib [of "\<lambda>m. io_then m k"])
  next
    case False
    then show ?thesis by (simp add: InstallBinary_def wp_fail_then err)
  qed
qed

section \<open>The whole command\<close>

lemma wp_install_binary:
  assumes fits: "root_fits w rt" and ctl: "\<not> has_control (ExecutablePath rt)" and bin: "same_bin b c"
  shows "wp w (bin_or_recorded w rt b) (install_binary rt name) (\<lambda>_ _. True) c"
  unfolding install_binary_def
proof (rule wp_before_yields [OF yields_Open always_before(1) bin])
  fix s :: store and c'
  assume bin': "same_bin b c'" and root: "st_root s = rt"
  show "wp w (bin_or_recorded w rt b) (io_then (Lifecycle s) (\<lambda>l.
     if i_purging (ll_id l) then io_fail (Sentinel Cfg_Purging)
     else io_then (stop_service s l) (\<lambda>_. io_then (InstallBinary s l name) (\<lambda>(s, l).
       if i_pending (ll_id l) then io_then (SetDistributionPending s l False) (\<lambda>_. io_return ())
       else io_return ())))) (\<lambda>_ _. True) c'"
  proof (rule wp_Lifecycle)
    fix i
    assume i: "gov w (st_root s) c' = Some i"
    let ?c = "opened lifecycle_lock (st_terminal s) c'" and ?l = "\<lparr>ll_lease = lifecycle_held, ll_id = i\<rparr>"
    have checks: "inst_checks (o_sha w) (o_linux w) rt i" using i root by (auto dest: gov_checks)
    have end_part: "wp w (bin_or_recorded w rt b) (if i_pending (ll_id l) then io_then (SetDistributionPending s l False) (\<lambda>_. io_return ())
       else io_return ()) (\<lambda>_ _. True) c''"
      if "recorded w rt c''" "ll_lease l = lifecycle_held" "inst_checks (o_sha w) (o_linux w) rt (ll_id l)"
        "i_exe (ll_id l) = ExecutablePath rt" for s l c''
      using always_pending [OF fits that(3,4,2,1)] by (auto intro: wp_return)
    have install: "wp w (bin_or_recorded w rt b) (io_then (InstallBinary s ?l name) (\<lambda>(s, l).
       if i_pending (ll_id l) then io_then (SetDistributionPending s l False) (\<lambda>_. io_return ())
       else io_return ())) (\<lambda>_ _. True) c''" if "same_bin b c''" for c''
      by (rule wp_InstallBinary [OF fits _ ctl _ root that]) (use checks end_part in auto)
    have "wp w (bin_or_recorded w rt b) (io_then (stop_service s ?l) (\<lambda>_. io_then (InstallBinary s ?l name) (\<lambda>(s, l).
       if i_pending (ll_id l) then io_then (SetDistributionPending s l False) (\<lambda>_. io_return ())
       else io_return ()))) (\<lambda>_ _. True) ?c"
      by (rule wp_before [OF always_before(3)]) (use bin' install in auto)
    then show "wp w (bin_or_recorded w rt b) (if i_purging (ll_id ?l) then io_fail (Sentinel Cfg_Purging)
     else io_then (stop_service s ?l) (\<lambda>_. io_then (InstallBinary s ?l name) (\<lambda>(s, l).
       if i_pending (ll_id l) then io_then (SetDistributionPending s l False) (\<lambda>_. io_return ())
       else io_return ()))) (\<lambda>_ _. True) ?c"
      by (auto intro: wp_fail)
  qed (use bin' in \<open>auto simp: bin_or_recorded_def\<close>)
qed simp

text \<open>
  C26.  The executable never changes before the identity on disk records it: at every moment
  of the command, killed or failing anywhere, the installed executable is the one that was
  there before, or the governing identity names the root's executable, so that an
  uninstallation removes it.
\<close>

theorem executable_recorded_first:
  assumes "root_fits w rt" and "\<not> has_control (ExecutablePath rt)"
  shows "throughout (\<lambda>c. c_files c bin_file = c_files (d_now d) bin_file \<or>
      (\<exists>i. gov w rt c = Some i \<and> i_exe i = ExecutablePath rt)) d (snd (install_binary rt name w d))"
proof -
  let ?I = "bin_or_recorded w rt (c_files (d_now d) bin_file)"
  have "throughout ?I d (snd (install_binary rt name w d)) \<and> True"
    by (rule wp_result [OF wp_install_binary [OF assms]]) (simp_all add: same_bin_def bin_or_recorded_def)
  moreover have "?I = (\<lambda>c. c_files c bin_file = c_files (d_now d) bin_file \<or> (\<exists>i. gov w rt c = Some i \<and> i_exe i = ExecutablePath rt))"
    by (rule ext) (simp only: bin_or_recorded_def same_bin_def recorded_def)
  ultimately show ?thesis by simp
qed

theorem executable_recorded_first_witness:
  "throughout (\<lambda>c. c_files c bin_file = c_files (d_now ex_installed) bin_file \<or>
      (\<exists>i. gov ex_world ex_root c = Some i \<and> i_exe i = ExecutablePath ex_root)) ex_installed
      (snd (install_binary ex_root ''.data-mate.new'' ex_world ex_installed))"
  by (rule executable_recorded_first [OF ex_root_fits]) (simp add: ex_executable has_control_def)

section \<open>Roots that the command locks out\<close>

text \<open>
  A root whose path has a control character passes validateRoot, but an identity that records
  its executable is refused by decodeIdentity.
\<close>

lemma control_refused:
  assumes "has_control (ExecutablePath rt)" and "inst_encodable i" and "int64 (i_version i)" and "i_exe i = ExecutablePath rt"
  shows "decodeIdentity sha linux rt (encodeIdentity i) = Inl (Sentinel Cfg_Ownership)"
proof -
  have "i_exe i \<noteq> []" using assms(1,4) by (auto simp: has_control_def)
  then show ?thesis using assms by (simp add: decodeIdentity_def strict_encode)
qed

lemma gov_refused:
  assumes "decodeIdentity (o_sha w) (o_linux w) rt b = Inl e" and "c_files c ''installation.json'' = Some b"
  shows "gov w rt c = None"
  using assms by (simp add: gov_def doc_def)

lemma wp_install_refused:
  fixes s :: store
  defines "i \<equiv> \<lambda>l rt. (ll_id l)\<lparr>i_exe := ExecutablePath rt\<rparr>"
  assumes ctl: "has_control (ExecutablePath rt)" and enc: "inst_encodable (i l rt)" and root: "st_root s = rt"
    and held: "ll_lease l = lifecycle_held" and checks: "inst_checks (o_sha w) (o_linux w) rt (ll_id l)"
  shows "wp w (\<lambda>_. True) (InstallBinary s l name) (\<lambda>r c. \<not> is_ok r) c"
proof (cases "staged_name name")
  case True
  have own: "i_owned (ll_id l) = ownedPaths (o_linux w)" and v: "int64 (i_version (i l rt))"
    using checks by (auto simp: inst_checks_def int64_def i_def)
  have refused: "decodeIdentity (o_sha w) (o_linux w) rt (encodeIdentity (i l rt)) = Inl (Sentinel Cfg_Ownership)"
    by (rule control_refused [OF ctl enc v]) (simp add: i_def)
  let ?s = "s\<lparr>st_id := i l rt\<rparr>"
  have check: "wp w (\<lambda>_. True) (io_then (check ?s cleanup_held) k) (\<lambda>r c. \<not> is_ok r) c'"
    if "but_for (tmp_of ''installation.json'') (set_file ''installation.json'' (Some (encodeIdentity (i l rt))) c2) c'"
    for c2 c' and k :: "unit \<Rightarrow> (store \<times> lifecycle_lease) io"
  proof -
    have "c_files c' ''installation.json'' = Some (encodeIdentity (i l rt))" using that by (auto simp: but_for_def tmp_of_def)
    from gov_refused [OF refused this] have "\<not> lease_good w ?s cleanup_held c'"
      by (simp add: cleanup_held_good identity_good_def root)
    then show ?thesis by (intro wp_check_lease) auto
  qed
  have publish: "wp w (\<lambda>_. True) (install_publish (s\<lparr>st_id := ll_id l\<rparr>) l cleanup_held name) (\<lambda>r c. \<not> is_ok r) c'" for c'
    unfolding install_publish_def Let_def
    by (rule wp_ctx, simp, rule wp_writeIdentity, simp, simp)
      (use check in \<open>simp add: io_then_assoc root i_def\<close>)
  have lease: "wp w (\<lambda>_. True) (io_then (CleanupLease s l) (\<lambda>(s, l, state). install_publish s l state name)) (\<lambda>r c. \<not> is_ok r) c'" for c'
    by (rule wp_CleanupLease [OF held own]) (use publish in auto)
  have "always w (\<lambda>_. True) (install_checks s l name)"
    unfolding install_checks_def checkBinary_def by (intro always)
  then have "wp w (\<lambda>_. True) (install_checks s l name) (\<lambda>_ _. True) c" by (simp add: always_def)
  then show ?thesis
    unfolding install_steps [OF True]
    by (intro wp_then) (erule wp_mono, use lease in \<open>auto split: sum.split\<close>)
qed (simp add: InstallBinary_def wp_fail)


text \<open>A root below a directory whose name ends in a tab.\<close>

definition ex_tab :: root where
  "ex_tab = ex_root\<lparr>rt_path := ''/a'' @ [CHR 0x09] @ ''/d''\<rparr>"

lemma ex_tab_valid: "validateRoot ex_sha ex_tab = Inr ()"
  by (simp add: validateRoot_def ex_tab_def ex_root_def ex_sha_def clean_abs_def Kind_def)

lemma ex_tab_executable: "ExecutablePath ex_tab = ''/a'' @ [CHR 0x09] @ ''/bin/data-mate''"
  by (simp add: ExecutablePath_def ex_tab_def ex_root_def Kind_def path_join_def path_dir_def)

lemma ex_tab_inst: "inst_encodable (ex_inst\<lparr>i_exe := ExecutablePath ex_tab\<rparr>)"
proof -
  let ?i = "ex_inst\<lparr>i_exe := ExecutablePath ex_tab\<rparr>"
  have "json_size (inst_json ?i) \<le> 8192"
    by (simp add: inst_json_def ex_inst_def ex_tab_executable omitempty_def jint_def ownedPaths_def ServiceFile_def show_int_def show_nat.simps [of 3])
  then have "length (encodeIdentity ?i) \<le> 8192"
    unfolding encodeIdentity_def by (rule order_trans [OF length_marshal])
  moreover have "inst_text ?i"
    unfolding inst_text_def list.pred_inject
    by (intro conjI TrueI) (simp_all add: ex_inst_def ex_tab_executable ownedPaths_def ServiceFile_def utf8_valid_ascii del: utf8_valid.simps)
  ultimately show ?thesis by (simp add: inst_encodable_def)
qed

definition ex_locked :: disk where
  "ex_locked = \<lparr>d_now = \<lparr>c_files = [''installation.json'' \<mapsto> encodeIdentity (ex_inst\<lparr>i_exe := ExecutablePath ex_tab\<rparr>)],
     c_keys = (\<lambda>_. True)\<rparr>, d_past = [], d_clock = 0\<rparr>"


end
