(* ===== verification/Sessions.thy ===== *)
theory Sessions
  imports Identity_Doc "HOL-Library.AList"
begin

text \<open>
  The session guard between a client and the protocol library (mcp/session.go): what each
  line of the client becomes, which calls are admitted, and how responses retire them.  Raw
  JSON members are modelled by the value they denote; the library's own messages, results
  and the moments at which the socket fails are arguments and steps of the relation.
\<close>

section \<open>Requests and their identifiers\<close>

definition maxConcurrentRequests :: nat where
  "maxConcurrentRequests = 16"

definition code_parse :: int where "code_parse = - 32700"
definition code_invalid :: int where "code_invalid = - 32600"
definition code_method :: int where "code_method = - 32601"
definition code_internal :: int where "code_internal = - 32603"
definition code_busy :: int where "code_busy = - 32000"

text \<open>\<open>requestID\<close>: strings and integers have distinct name spaces.\<close>

definition requestID :: "jval \<Rightarrow> bytes option" where
  "requestID raw =
     (case raw of
        JStr s \<Rightarrow> Some (''string:'' @ s)
      | JNum n \<Rightarrow> (case ParseInt n 64 of None \<Rightarrow> None | Some i \<Rightarrow> Some (''number:'' @ show_int i))
      | _ \<Rightarrow> None)"

datatype request = Request (rq_id: "bytes option") (rq_method: bytes) (rq_params: "jval option")

text \<open>A whole line of blanks, as \<open>bytes.TrimSpace\<close> sees it.\<close>

fun all_space :: "bytes \<Rightarrow> bool" where
  "all_space [] = True"
| "all_space (c # s) =
     (if c \<in> {CHR 0x09, CHR 0x0A, CHR 0x0B, CHR 0x0C, CHR 0x0D, CHR 0x20} then all_space s
      else if c = CHR 0xC2 then (case s of d # t \<Rightarrow> d \<in> {CHR 0x85, CHR 0xA0} \<and> all_space t | [] \<Rightarrow> False)
      else (case s of
          d # e # t \<Rightarrow>
            ((c, d, e) \<in> {(CHR 0xE1, CHR 0x9A, CHR 0x80), (CHR 0xE2, CHR 0x80, CHR 0xA8), (CHR 0xE2, CHR 0x80, CHR 0xA9),
                (CHR 0xE2, CHR 0x80, CHR 0xAF), (CHR 0xE2, CHR 0x81, CHR 0x9F), (CHR 0xE3, CHR 0x80, CHR 0x80)} \<or>
             c = CHR 0xE2 \<and> d = CHR 0x80 \<and> in_range 0x80 0x8A e) \<and> all_space t
        | _ \<Rightarrow> False))"

section \<open>The wire form\<close>

record wire_request =
  w_version :: bytes
  w_id :: "jval option"
  w_method :: "bytes option"
  w_params :: "jval option"

definition no_wire :: wire_request where
  "no_wire = \<lparr>w_version = [], w_id = None, w_method = None, w_params = None\<rparr>"

definition put_wire :: "bytes \<times> jval \<Rightarrow> wire_request \<Rightarrow> wire_request option" where
  "put_wire m r =
     (case find_field [''jsonrpc'', ''id'', ''method'', ''params''] (fst m) of
        None \<Rightarrow> Some r
      | Some k \<Rightarrow>
          if k = ''jsonrpc'' then map_option (\<lambda>x. r\<lparr>w_version := x\<rparr>) (put_str (snd m) (w_version r))
          else if k = ''id'' then Some (r\<lparr>w_id := Some (snd m)\<rparr>)
          else if k = ''method'' then
            (case snd m of JNull \<Rightarrow> Some (r\<lparr>w_method := None\<rparr>) | JStr s \<Rightarrow> Some (r\<lparr>w_method := Some s\<rparr>) | _ \<Rightarrow> None)
          else Some (r\<lparr>w_params := Some (snd m)\<rparr>))"

fun put_wires :: "(bytes \<times> jval) list \<Rightarrow> wire_request \<Rightarrow> wire_request option" where
  "put_wires [] r = Some r"
| "put_wires (m # ms) r = Option.bind (put_wire m r) (put_wires ms)"

definition unmarshal_wire :: "jval \<Rightarrow> wire_request option" where
  "unmarshal_wire v = (case v of JObj ms \<Rightarrow> put_wires ms no_wire | JNull \<Rightarrow> Some no_wire | _ \<Rightarrow> None)"

text \<open>The parameters of a cancellation.\<close>

definition cancel_id :: "jval option \<Rightarrow> jval option" where
  "cancel_id params =
     (case params of
        Some (JObj ms) \<Rightarrow>
          (case filter (\<lambda>m. find_field [''requestId''] (fst m) \<noteq> None) ms of [] \<Rightarrow> None | ps \<Rightarrow> Some (snd (last ps)))
      | _ \<Rightarrow> None)"

section \<open>The guard\<close>

record pending_request =
  p_method :: bytes
  p_wire :: jval
  p_cancelled :: bool

record guard =
  g_pending :: "(bytes \<times> pending_request) list"
  g_init_sent :: bool
  g_initializing :: bool
  g_ready :: bool

datatype answer = Failure int | Busy_Result

datatype verdict = Skip | Deliver request | Answer "jval option" answer

definition notification :: "guard \<Rightarrow> bytes \<Rightarrow> jval option \<Rightarrow> guard \<times> verdict" where
  "notification g m params =
     (if m = ''notifications/initialized'' then
        (if g_init_sent g \<and> \<not> g_ready g \<and> (case params of None \<Rightarrow> True | Some JNull \<Rightarrow> True | Some (JObj _) \<Rightarrow> True | _ \<Rightarrow> False)
         then (g\<lparr>g_ready := True\<rparr>, Deliver (Request None m params))
         else (g, Skip))
      else if m = ''notifications/cancelled'' \<and> g_ready g then
        (case Option.bind (cancel_id params) requestID of
           None \<Rightarrow> (g, Skip)
         | Some k \<Rightarrow>
             (case map_of (g_pending g) k of
                None \<Rightarrow> (g, Skip)
              | Some p \<Rightarrow>
                  if p_cancelled p then (g, Skip)
                  else (g\<lparr>g_pending := AList.update k (p\<lparr>p_cancelled := True\<rparr>) (g_pending g)\<rparr>,
                    Deliver (Request None m (Some (JObj [(''requestId'', JStr k)]))))))
      else (g, Skip))"

definition call_code :: "guard \<Rightarrow> bytes \<Rightarrow> int" where
  "call_code g m =
     (if m = ''server/discover'' then code_method
      else if m = ''initialize'' \<and> (g_init_sent g \<or> g_initializing g) then code_invalid
      else if m \<noteq> ''initialize'' \<and> m \<noteq> ''ping'' \<and> \<not> g_ready g then code_invalid
      else if maxConcurrentRequests \<le> length (g_pending g) then code_busy
      else 0)"

definition call :: "guard \<Rightarrow> bytes \<Rightarrow> jval \<Rightarrow> bytes \<Rightarrow> jval option \<Rightarrow> guard \<times> verdict" where
  "call g k wire m params =
     (if map_of (g_pending g) k \<noteq> None then (g, Skip)
      else
        (let code = call_code g m in
         if code = 0 then
           (g\<lparr>g_pending := AList.update k \<lparr>p_method = m, p_wire = wire, p_cancelled = False\<rparr> (g_pending g),
              g_initializing := g_initializing g \<or> m = ''initialize''\<rparr>,
            Deliver (Request (Some k) m params))
         else (g, Answer (Some wire) (if code = code_busy \<and> m = ''tools/call'' then Busy_Result else Failure code))))"

text \<open>\<open>guard.Read\<close> on one line that the socket gave.\<close>

definition read_request :: "guard \<Rightarrow> wire_request \<Rightarrow> bytes \<Rightarrow> guard \<times> verdict" where
  "read_request g r m =
     (case w_id r of
        None \<Rightarrow> if m = [] then (g, Skip) else notification g m (w_params r)
      | Some wire \<Rightarrow>
          (case requestID wire of
             None \<Rightarrow> (g, Answer None (Failure code_invalid))
           | Some k \<Rightarrow>
               if m = [] then (g, Answer (Some wire) (Failure code_invalid))
               else call g k wire m (w_params r)))"

definition read_line :: "guard \<Rightarrow> bytes \<Rightarrow> guard \<times> verdict" where
  "read_line g line =
     (if all_space line then (g, Skip)
      else
        (case json_parse line of
           None \<Rightarrow> (g, Answer None (Failure code_parse))
         | Some v \<Rightarrow>
             if JSONMessage line \<noteq> None then (g, Answer None (Failure code_invalid))
             else
               (case unmarshal_wire v of
                  None \<Rightarrow> (g, Answer None (Failure code_invalid))
                | Some r \<Rightarrow>
                    if w_version r \<noteq> ''2.0'' then (g, Answer None (Failure code_invalid))
                    else
                      (case w_method r of
                         Some m \<Rightarrow> read_request g r m
                       | None \<Rightarrow>
                           if (case v of JObj ms \<Rightarrow> map_of ms ''result'' = None \<and> map_of ms ''error'' = None | _ \<Rightarrow> True)
                           then (g, Answer None (Failure code_invalid))
                           else (g, Skip)))))"

section \<open>Responses\<close>

text \<open>A raw result of the library: absent, a value, or bytes that are not JSON.\<close>

datatype raw_result = Absent | Value jval | Broken

definition error_json :: "int \<Rightarrow> jval" where
  "error_json c = JObj [(''code'', jint c), (''message'', JStr ''MCP request failed'')]"

definition responseBytes :: "jval option \<Rightarrow> raw_result \<Rightarrow> int option \<Rightarrow> jval option" where
  "responseBytes ident result failure =
     (let head = [(''jsonrpc'', JStr ''2.0''), (''id'', case ident of None \<Rightarrow> JNull | Some v \<Rightarrow> v)] in
      case failure of
        Some c \<Rightarrow> Some (JObj (head @ [(''error'', error_json c)]))
      | None \<Rightarrow>
          (case result of
             Absent \<Rightarrow> Some (JObj (head @ [(''result'', JNull)]))
           | Value v \<Rightarrow> Some (JObj (head @ [(''result'', v)]))
           | Broken \<Rightarrow> None))"

text \<open>
  \<open>guard.send\<close> for the reader's own answers; the busy result of a tool call is an argument.
\<close>

definition send :: "jval \<Rightarrow> jval option \<Rightarrow> answer \<Rightarrow> jval option" where
  "send busy ident a =
     (case a of Failure c \<Rightarrow> responseBytes ident Absent (Some c) | Busy_Result \<Rightarrow> responseBytes ident (Value busy) None)"

text \<open>
  \<open>guard.Write\<close> of a response: the failure has a code of its own or is an internal one; a
  result that cannot be encoded becomes an internal failure.
\<close>

definition Write_response :: "guard \<Rightarrow> bytes \<Rightarrow> raw_result \<Rightarrow> int option option \<Rightarrow> guard \<times> jval option" where
  "Write_response g k result err =
     (case map_of (g_pending g) k of
        None \<Rightarrow> (g, None)
      | Some p \<Rightarrow>
          (let failure0 = map_option (\<lambda>c. case c of Some x \<Rightarrow> x | None \<Rightarrow> code_internal) err;
               broken = responseBytes (Some (p_wire p)) result failure0 = None;
               failure = (if broken then Some code_internal else failure0);
               out = responseBytes (Some (p_wire p)) (if broken then Absent else result) failure;
               g = (if p_method p = ''initialize'' then g\<lparr>g_initializing := False, g_init_sent := failure = None\<rparr> else g)
           in (g\<lparr>g_pending := AList.delete k (g_pending g)\<rparr>, out)))"

section \<open>What a line can do\<close>

definition pending_keys :: "guard \<Rightarrow> bytes set" where
  "pending_keys g = fst ` set (g_pending g)"

lemma pending_None: "map_of (g_pending g) k = None \<longleftrightarrow> k \<notin> pending_keys g"
  by (simp add: pending_keys_def map_of_eq_None_iff)

definition admitted :: "guard \<Rightarrow> bytes \<Rightarrow> jval \<Rightarrow> bytes \<Rightarrow> guard" where
  "admitted g k wire m =
     g\<lparr>g_pending := AList.update k \<lparr>p_method = m, p_wire = wire, p_cancelled = False\<rparr> (g_pending g),
       g_initializing := g_initializing g \<or> m = ''initialize''\<rparr>"

definition cancelled :: "guard \<Rightarrow> bytes \<Rightarrow> pending_request \<Rightarrow> guard" where
  "cancelled g k p = g\<lparr>g_pending := AList.update k (p\<lparr>p_cancelled := True\<rparr>) (g_pending g)\<rparr>"

text \<open>An answer of the reader itself is never for a pending call, but for an empty method.\<close>

definition own_answer :: "guard \<Rightarrow> jval option \<Rightarrow> answer \<Rightarrow> bool" where
  "own_answer g wire a \<longleftrightarrow>
     (\<forall>v k. wire = Some v \<longrightarrow> requestID v = Some k \<longrightarrow> k \<in> pending_keys g \<longrightarrow> a = Failure code_invalid)"

lemma notification_cases:
  assumes "notification g m ps = (g', v)"
  obtains (skip) "g' = g" "v = Skip"
  | (initialized) "g' = g\<lparr>g_ready := True\<rparr>" "v = Deliver (Request None ''notifications/initialized'' ps)" "g_init_sent g" "\<not> g_ready g"
  | (cancel) k p where "g' = cancelled g k p" "map_of (g_pending g) k = Some p" "g_ready g"
      "v = Deliver (Request None ''notifications/cancelled'' (Some (JObj [(''requestId'', JStr k)])))"
  using assms by (auto simp: notification_def cancelled_def split: if_splits option.splits)

lemma call_cases:
  assumes "call g k wire m ps = (g', v)" and "requestID wire = Some k"
  obtains (skip) "g' = g" "v = Skip"
  | (answer) a where "g' = g" "v = Answer (Some wire) a" "own_answer g (Some wire) a"
  | (admit) "g' = admitted g k wire m" "v = Deliver (Request (Some k) m ps)" "k \<notin> pending_keys g" "call_code g m = 0"
proof (cases "k \<in> pending_keys g")
  case True
  then have "map_of (g_pending g) k \<noteq> None" using pending_None by blast
  with assms(1) show ?thesis by (auto simp: call_def intro: skip)
next
  case False
  then have "map_of (g_pending g) k = None" using pending_None by blast
  moreover have "own_answer g (Some wire) a" for a using assms(2) False by (simp add: own_answer_def)
  ultimately show ?thesis
    using assms(1) False answer admit unfolding call_def admitted_def Let_def by (auto split: if_splits)
qed

lemma read_line_cases:
  assumes "read_line g line = (g', v)"
  obtains (skip) "g' = g" "v = Skip"
  | (answer) wire a where "g' = g" "v = Answer wire a" "own_answer g wire a"
  | (initialized) ps where "g' = g\<lparr>g_ready := True\<rparr>" "v = Deliver (Request None ''notifications/initialized'' ps)" "g_init_sent g" "\<not> g_ready g"
  | (cancel) k p ps where "g' = cancelled g k p" "map_of (g_pending g) k = Some p" "g_ready g"
      "v = Deliver (Request None ''notifications/cancelled'' ps)"
  | (admit) k wire m ps where "g' = admitted g k wire m" "v = Deliver (Request (Some k) m ps)" "k \<notin> pending_keys g" "call_code g m = 0"
proof -
  have shapes: "read_line g line = (g, Skip) \<or> (\<exists>c. read_line g line = (g, Answer None (Failure c))) \<or>
      (\<exists>r m. read_line g line = read_request g r m)"
  proof (cases "json_parse line")
    case parsed: (Some x)
    show ?thesis
    proof (cases "unmarshal_wire x")
      case (Some r)
      show ?thesis
        unfolding read_line_def parsed option.case Some
        by (cases "w_method r"; simp only: option.case split: if_split; blast)
    qed (simp add: read_line_def parsed)
  qed (simp add: read_line_def)
  consider "g' = g" "v = Skip" | c where "g' = g" "v = Answer None (Failure c)" | r m where "read_request g r m = (g', v)"
    using shapes unfolding assms by auto
  then show thesis
  proof cases
    case 3
    show ?thesis
    proof (cases "w_id r")
      case None
      with 3 show ?thesis
        by (cases "m = []") (auto simp: read_request_def elim!: notification_cases intro: skip initialized cancel)
    next
      case (Some wire)
      with 3 show ?thesis
        by (auto simp: read_request_def own_answer_def split: option.splits if_splits elim!: call_cases intro: skip answer admit)
    qed
  qed (auto simp: own_answer_def intro: skip answer)
qed

section \<open>Sessions\<close>

text \<open>
  A session: the guard, an answer the reader still has to send, what was sent, delivered to
  the library and retired, and whether it is closed.  The reader handles one line at a time;
  responses are written by other threads in between.
\<close>

record session =
  s_guard :: guard
  s_todo :: "(jval option \<times> answer) option"
  s_sent :: "jval list"
  s_delivered :: "request list"
  s_retired :: "bytes list"
  s_closed :: bool

definition new_session :: session where
  "new_session =
     \<lparr>s_guard = \<lparr>g_pending = [], g_init_sent = False, g_initializing = False, g_ready = False\<rparr>,
      s_todo = None, s_sent = [], s_delivered = [], s_retired = [], s_closed = False\<rparr>"

definition took :: "guard \<times> verdict \<Rightarrow> session \<Rightarrow> session" where
  "took gv st =
     (case gv of (g, v) \<Rightarrow>
        (case v of
           Skip \<Rightarrow> st\<lparr>s_guard := g\<rparr>
         | Deliver r \<Rightarrow> st\<lparr>s_guard := g, s_delivered := s_delivered st @ [r]\<rparr>
         | Answer wire a \<Rightarrow> st\<lparr>s_guard := g, s_todo := Some (wire, a)\<rparr>))"

definition emit :: "bool \<Rightarrow> jval option \<Rightarrow> session \<Rightarrow> session" where
  "emit ok out st =
     (case out of
        None \<Rightarrow> st
      | Some j \<Rightarrow>
          if s_closed st then st
          else if ok then st\<lparr>s_sent := s_sent st @ [j]\<rparr> else st\<lparr>s_closed := True\<rparr>)"

definition responded :: "bool \<Rightarrow> bytes \<Rightarrow> guard \<times> jval option \<Rightarrow> session \<Rightarrow> session" where
  "responded ok k go st =
     (case go of (g, out) \<Rightarrow>
        emit ok out (st\<lparr>s_guard := g, s_retired := s_retired st @ (if out = None then [] else [k])\<rparr>))"

inductive session_step :: "jval \<Rightarrow> session \<Rightarrow> session \<Rightarrow> bool" for busy :: jval where
  Read: "\<not> s_closed st \<Longrightarrow> s_todo st = None \<Longrightarrow> session_step busy st (took (read_line (s_guard st) line) st)"
| Own: "s_todo st = Some (wire, a) \<Longrightarrow> session_step busy st (emit ok (send busy wire a) (st\<lparr>s_todo := None\<rparr>))"
| Respond: "session_step busy st (responded ok k (Write_response (s_guard st) k result err) st)"
| Notice: "session_step busy st (emit ok (Some m) st)"
| Close: "session_step busy st (st\<lparr>s_closed := True\<rparr>)"

inductive session_reachable :: "jval \<Rightarrow> session \<Rightarrow> bool" for busy :: jval where
  New: "session_reachable busy new_session"
| Step: "session_reachable busy st \<Longrightarrow> session_step busy st st' \<Longrightarrow> session_reachable busy st'"

section \<open>The invariant\<close>

text \<open>Calls other than the handshake and pings come only after the client's notification.\<close>

definition opens :: "request \<Rightarrow> bool" where
  "opens r \<longleftrightarrow> rq_id r = None \<and> rq_method r = ''notifications/initialized''"

fun gated :: "bool \<Rightarrow> request list \<Rightarrow> bool" where
  "gated b [] = True"
| "gated b (r # rs) =
     ((rq_id r \<noteq> None \<longrightarrow> rq_method r \<in> {''initialize'', ''ping''} \<or> b) \<and> gated (b \<or> opens r) rs)"

definition calls :: "request list \<Rightarrow> bytes list" where
  "calls rs = List.map_filter rq_id rs"

definition guard_ok :: "guard \<Rightarrow> bool" where
  "guard_ok g \<longleftrightarrow>
     distinct (map fst (g_pending g)) \<and> length (g_pending g) \<le> maxConcurrentRequests \<and>
     length (filter (\<lambda>(k, p). p_method p = ''initialize'') (g_pending g)) = (if g_initializing g then 1 else 0) \<and>
     (g_initializing g \<longrightarrow> \<not> g_init_sent g) \<and> (g_ready g \<longrightarrow> g_init_sent g)"

definition session_ok :: "session \<Rightarrow> bool" where
  "session_ok st \<longleftrightarrow>
     guard_ok (s_guard st) \<and>
     (\<forall>k. count_list (calls (s_delivered st)) k =
        count_list (s_retired st) k + (if k \<in> pending_keys (s_guard st) then 1 else 0)) \<and>
     gated False (s_delivered st) \<and> (g_ready (s_guard st) \<longleftrightarrow> list_ex opens (s_delivered st)) \<and>
     (\<forall>wire a. s_todo st = Some (wire, a) \<longrightarrow> own_answer (s_guard st) wire a)"

lemma gated_append: "gated b (rs @ [r]) \<longleftrightarrow>
    gated b rs \<and> (rq_id r \<noteq> None \<longrightarrow> rq_method r \<in> {''initialize'', ''ping''} \<or> b \<or> list_ex opens rs)"
  by (induction rs arbitrary: b) auto

lemma calls_append [simp]: "calls (rs @ [r]) = calls rs @ (case rq_id r of None \<Rightarrow> [] | Some k \<Rightarrow> [k])"
  by (simp add: calls_def List.map_filter_def split: option.split)

lemma update_fresh: "k \<notin> fst ` set xs \<Longrightarrow> AList.update k v xs = xs @ [(k, v)]"
  by (induction xs) auto

lemma filter_update_same:
  assumes "map_of xs k = Some p" and "f (k, p') = f (k, p)" and "distinct (map fst xs)"
  shows "length (filter f (AList.update k p' xs)) = length (filter f xs)" and "length (AList.update k p' xs) = length xs"
  using assms by (induction xs) (auto split: if_splits)

lemma filter_delete:
  assumes "map_of xs k = Some p" and "distinct (map fst xs)"
  shows "length (filter f xs) = length (filter f (AList.delete k xs)) + (if f (k, p) then 1 else 0)"
  using assms
proof (induction xs)
  case (Cons x xs)
  show ?case
  proof (cases "fst x = k")
    case True
    then have "k \<notin> fst ` set xs" using Cons.prems(2) by auto
    then have "AList.delete k xs = xs" by (rule delete_id)
    then show ?thesis using Cons.prems True by (cases x) (auto simp: AList.delete_eq)
  next
    case False
    then show ?thesis using Cons by (cases x) (auto simp: AList.delete_eq)
  qed
qed simp

text \<open>The guard under an admission, a cancellation and a retirement.\<close>

lemma dom_delete: "fst ` set (AList.delete k xs) = fst ` set xs - {k}"
  by (metis delete_keys set_map set_removeAll)

lemma pending_keys_simps [simp]:
  "pending_keys (admitted g k wire m) = insert k (pending_keys g)" "pending_keys (g\<lparr>g_ready := b\<rparr>) = pending_keys g"
  "pending_keys (g\<lparr>g_pending := AList.delete k (g_pending g)\<rparr>) = pending_keys g - {k}"
  by (simp_all add: pending_keys_def admitted_def dom_update dom_delete)

lemma pending_keys_cancelled: "map_of (g_pending g) k = Some p \<Longrightarrow> pending_keys (cancelled g k p) = pending_keys g"
  by (force simp: pending_keys_def cancelled_def dom_update dest: map_of_SomeD)

lemma admitted_ok:
  assumes "guard_ok g" and "k \<notin> pending_keys g" and "call_code g m = 0"
  shows "guard_ok (admitted g k wire m)"
proof -
  have fresh: "k \<notin> fst ` set (g_pending g)" using assms(2) by (simp add: pending_keys_def)
  have room: "length (g_pending g) < maxConcurrentRequests" and "m = ''initialize'' \<Longrightarrow> \<not> g_init_sent g \<and> \<not> g_initializing g"
    using assms(3) by (auto simp: call_code_def code_method_def code_invalid_def code_busy_def split: if_splits)
  then show ?thesis
    using assms(1) fresh by (auto simp: guard_ok_def admitted_def update_fresh split: if_splits)
qed

lemma cancelled_ok:
  assumes "guard_ok g" and "map_of (g_pending g) k = Some p"
  shows "guard_ok (cancelled g k p)"
proof -
  let ?f = "\<lambda>(k, p). p_method p = ''initialize''"
  have d: "distinct (map fst (g_pending g))" using assms(1) by (simp add: guard_ok_def)
  have "?f (k, p\<lparr>p_cancelled := True\<rparr>) = ?f (k, p)" by simp
  note same = filter_update_same [where f = ?f, OF assms(2) this d]
  show ?thesis using assms(1) same by (simp add: guard_ok_def cancelled_def distinct_update)
qed

definition retired_guard :: "guard \<Rightarrow> bytes \<Rightarrow> pending_request \<Rightarrow> bool \<Rightarrow> guard" where
  "retired_guard g k p ok =
     (if p_method p = ''initialize'' then g\<lparr>g_initializing := False, g_init_sent := ok\<rparr> else g)
       \<lparr>g_pending := AList.delete k (g_pending g)\<rparr>"

lemma responseBytes_None: "responseBytes i r f = None \<longleftrightarrow> f = None \<and> r = Broken"
  by (simp add: responseBytes_def Let_def split: option.split raw_result.split)

lemma Write_response_cases:
  obtains (unknown) "Write_response g k result err = (g, None)" "k \<notin> pending_keys g"
  | (known) p ok out where "Write_response g k result err = (retired_guard g k p ok, Some out)" "map_of (g_pending g) k = Some p"
proof (cases "map_of (g_pending g) k")
  case None
  then have "k \<notin> pending_keys g" using pending_None by blast
  with None show ?thesis by (intro unknown) (simp add: Write_response_def)
next
  case (Some p)
  let ?failure0 = "map_option (\<lambda>c. case c of Some x \<Rightarrow> x | None \<Rightarrow> code_internal) err"
  let ?broken = "responseBytes (Some (p_wire p)) result ?failure0 = None"
  let ?failure = "if ?broken then Some code_internal else ?failure0"
  have "responseBytes (Some (p_wire p)) (if ?broken then Absent else result) ?failure \<noteq> None"
    by (simp only: responseBytes_None) auto
  then obtain out where "responseBytes (Some (p_wire p)) (if ?broken then Absent else result) ?failure = Some out" by blast
  with Some have "Write_response g k result err = (retired_guard g k p (?failure = None), Some out)"
    by (simp add: Write_response_def retired_guard_def Let_def)
  with Some show ?thesis by (rule known [rotated])
qed

lemma retired_ok:
  assumes ok: "guard_ok g" and p: "map_of (g_pending g) k = Some p"
  shows "guard_ok (retired_guard g k p b)" and "pending_keys (retired_guard g k p b) = pending_keys g - {k}" and "k \<in> pending_keys g"
    and "g_ready (retired_guard g k p b) = g_ready g"
proof -
  let ?f = "\<lambda>(k, p). p_method p = ''initialize''"
  have d: "distinct (map fst (g_pending g))" using ok by (simp add: guard_ok_def)
  note del = filter_delete [where f = ?f, OF p d]
  have len: "length (AList.delete k (g_pending g)) \<le> maxConcurrentRequests"
    using ok length_delete_le [of k "g_pending g"] by (simp add: guard_ok_def)
  show "guard_ok (retired_guard g k p b)"
    using ok del len distinct_delete [OF d, of k]
    by (auto simp: guard_ok_def retired_guard_def split: if_splits)
  show "pending_keys (retired_guard g k p b) = pending_keys g - {k}"
    by (simp add: pending_keys_def retired_guard_def dom_delete)
  show "k \<in> pending_keys g" using p by (force simp: pending_keys_def dest: map_of_SomeD)
  show "g_ready (retired_guard g k p b) = g_ready g" by (simp add: retired_guard_def)
qed

lemma call_ready: "call_code g m = 0 \<Longrightarrow> m \<in> {''initialize'', ''ping''} \<or> g_ready g"
  by (auto simp: call_code_def code_invalid_def code_method_def split: if_splits)

lemma took_ok:
  assumes ok: "session_ok st" and todo: "s_todo st = None"
  shows "session_ok (took (read_line (s_guard st) line) st)"
proof -
  obtain g' v where r: "read_line (s_guard st) line = (g', v)" by (cases "read_line (s_guard st) line")
  have g: "guard_ok (s_guard st)" using ok by (simp add: session_ok_def)
  from r show ?thesis
  proof (cases rule: read_line_cases)
    case skip
    then show ?thesis using ok r by (simp add: took_def)
  next
    case (answer wire a)
    then show ?thesis using ok r by (simp add: took_def session_ok_def)
  next
    case (initialized ps)
    then show ?thesis using ok r g todo
      by (simp add: took_def session_ok_def gated_append opens_def guard_ok_def)
  next
    case (cancel k p ps)
    then have "g_ready g' = g_ready (s_guard st)" by (simp add: cancelled_def)
    with cancel show ?thesis using ok r todo cancelled_ok [OF g cancel(2)] pending_keys_cancelled [OF cancel(2)]
      by (simp add: took_def session_ok_def gated_append opens_def)
  next
    case (admit k wire m ps)
    have "g_ready g' = g_ready (s_guard st)" by (simp add: admit(1) admitted_def)
    then show ?thesis using ok r todo admitted_ok [OF g admit(3,4), of wire] admit call_ready [OF admit(4)]
      by (auto simp: took_def session_ok_def gated_append opens_def)
  qed
qed

lemma emit_simps [simp]:
  "s_guard (emit ok out st) = s_guard st" "s_delivered (emit ok out st) = s_delivered st" "s_retired (emit ok out st) = s_retired st"
  "s_todo (emit ok out st) = s_todo st"
  by (auto simp: emit_def split: option.split)

lemma responded_ok:
  assumes "session_ok st"
  shows "session_ok (responded ok k (Write_response (s_guard st) k result err) st)"
proof (cases rule: Write_response_cases [of "s_guard st" k result err])
  case unknown
  then show ?thesis using assms by (simp add: responded_def session_ok_def)
next
  case (known p b out)
  have g: "guard_ok (s_guard st)" using assms by (simp add: session_ok_def)
  note r = retired_ok (1,2,4) [OF g known(2), where b = b] retired_ok (3) [OF g known(2)]
  have own: "own_answer (retired_guard (s_guard st) k p b) wire a" if "own_answer (s_guard st) wire a" for wire a
    using that by (simp add: own_answer_def r(2))
  show ?thesis using assms r own by (auto simp: responded_def known(1) session_ok_def)
qed

lemma session_step_ok: "session_step busy st st' \<Longrightarrow> session_ok st \<Longrightarrow> session_ok st'"
proof (induction rule: session_step.induct)
  case (Read st line)
  then show ?case by (intro took_ok)
next
  case (Respond st ok k result err)
  then show ?case by (intro responded_ok)
qed (simp_all add: session_ok_def)

lemma session_reachable_ok: "session_reachable busy st \<Longrightarrow> session_ok st"
proof (induction rule: session_reachable.induct)
  case New
  show ?case by (simp add: new_session_def session_ok_def guard_ok_def maxConcurrentRequests_def pending_keys_def calls_def List.map_filter_def)
qed (rule session_step_ok)


text \<open>A call with an empty method is refused even if its identifier belongs to a pending call.\<close>

lemma empty_method_answered:
  assumes "w_id r = Some wire" and "requestID wire = Some k" and "k \<in> pending_keys g"
  shows "read_request g r [] = (g, Answer (Some wire) (Failure code_invalid))"
  using assms by (simp add: read_request_def)

definition ex_line :: bytes where
  "ex_line = ''{ \"jsonrpc\":\"2.0\",\"id\":7,\"method\":\"ping\"}''"

lemma ex_line_read: "read_line (s_guard new_session) ex_line =
   (admitted (s_guard new_session) ''number:7'' (JNum ''7'') ''ping'', Deliver (Request (Some ''number:7'') ''ping'' None))"
  by code_simp

definition ex_session :: session where
  "ex_session = took (read_line (s_guard new_session) ex_line) new_session"

lemma ex_session_reachable: "session_reachable JNull ex_session"
  unfolding ex_session_def
  by (rule session_reachable.Step [OF session_reachable.New], rule session_step.Read) (simp_all add: new_session_def)

lemma ex_session_delivered: "s_delivered ex_session = [Request (Some ''number:7'') ''ping'' None]"
  unfolding ex_session_def ex_line_read by (simp add: took_def new_session_def)


end
