(* ===== verification/Release_Text.thy ===== *)
theory Release_Text
  imports Identity_Doc Database
begin

text \<open>
  What a release says of itself (distribution/release.go): the bounded metadata text that the
  bootstrap can read, the checksum list, and the names of a platform's assets.  A text is
  accepted exactly when its lines are those of a valid description, in any order.
\<close>

section \<open>Lines of a text\<close>

text \<open>\<open>strings.Split(s, "\n")\<close>, and a split at any byte.\<close>

fun split_at :: "char \<Rightarrow> bytes \<Rightarrow> bytes list" where
  "split_at x [] = [[]]"
| "split_at x (c # s) =
     (if c = x then [] # split_at x s else (case split_at x s of l # ls \<Rightarrow> (c # l) # ls | [] \<Rightarrow> [[c]]))"

definition newline :: char where
  "newline = CHR 0x0A"

abbreviation split_lines :: "bytes \<Rightarrow> bytes list" where
  "split_lines \<equiv> split_at newline"

definition unlines :: "bytes list \<Rightarrow> bytes" where
  "unlines ls = concat (map (\<lambda>l. l @ [newline]) ls)"

section \<open>The metadata record\<close>

record metadata =
  m_format :: int
  m_version :: bytes
  m_platform :: bytes
  m_macos :: bytes
  m_glibc :: bytes
  m_store :: int
  m_inventory :: int

definition MinimumMacOS :: bytes where
  "MinimumMacOS = ''15.0''"

definition Contract :: "bytes \<Rightarrow> bytes \<Rightarrow> bytes \<Rightarrow> metadata" where
  "Contract goos goarch version =
     (let m = \<lparr>m_format = 1, m_version = version, m_platform = goos @ ''_'' @ goarch,
               m_macos = [], m_glibc = [], m_store = 1, m_inventory = 1\<rparr>
      in if goos = ''linux'' then m\<lparr>m_glibc := ''2.39''\<rparr> else m\<lparr>m_macos := MinimumMacOS\<rparr>)"

text \<open>The two regular expressions of the file.\<close>

definition numeral :: "bytes \<Rightarrow> bool" where
  "numeral s \<longleftrightarrow> s = ''0'' \<or> (all_digits1 s \<and> hd s \<noteq> CHR ''0'')"

definition stable :: "bytes \<Rightarrow> bool" where
  "stable s \<longleftrightarrow> length (split_at (CHR ''.'') s) = 3 \<and> list_all numeral (split_at (CHR ''.'') s)"

definition osVersion :: "bytes \<Rightarrow> bool" where
  "osVersion s \<longleftrightarrow>
     length (split_at (CHR ''.'') s) \<in> {2, 3} \<and> list_all all_digits1 (split_at (CHR ''.'') s)"

definition valid_platform :: "metadata \<Rightarrow> bool" where
  "valid_platform m \<longleftrightarrow>
     (m_platform m = ''darwin_arm64'' \<and> osVersion (m_macos m) \<and> m_glibc m = []) \<or>
     (m_platform m = ''linux_amd64'' \<and> osVersion (m_glibc m) \<and> m_macos m = [])"

definition valid :: "metadata \<Rightarrow> bool" where
  "valid m \<longleftrightarrow> m_format m = 1 \<and> stable (m_version m) \<and> valid_platform m \<and> m_store m > 0 \<and> m_inventory m > 0"

section \<open>Reading metadata\<close>

definition ErrRelease :: goerr where
  "ErrRelease = Other ''release verification failed; installation preserved''"

text \<open>
  The loop over the lines of a text, for a function that takes one line apart: \<open>Inl\<close> for a
  line that is refused, or whose name already has a value.
\<close>

fun collect :: "(bytes \<Rightarrow> (bytes \<times> bytes) option) \<Rightarrow> bytes list \<Rightarrow> (bytes \<times> bytes) list \<Rightarrow> (bytes \<times> bytes) list res" where
  "collect f [] out = Inr out"
| "collect f (l # ls) out =
     (case f l of
        None \<Rightarrow> Inl ErrRelease
      | Some (k, v) \<Rightarrow> if map_of out k \<noteq> None then Inl ErrRelease else collect f ls (out @ [(k, v)]))"

definition metadata_line :: "bytes \<Rightarrow> (bytes \<times> bytes) option" where
  "metadata_line l = (case cut (CHR ''='') l of None \<Rightarrow> None | Some (k, v) \<Rightarrow> if v = [] then None else Some (k, v))"

definition field :: "(bytes \<times> bytes) list \<Rightarrow> bytes \<Rightarrow> bytes" where
  "field fs k = (case map_of fs k of Some v \<Rightarrow> v | None \<Rightarrow> [])"

definition integer :: "(bytes \<times> bytes) list \<Rightarrow> bytes \<Rightarrow> int" where
  "integer fs k = (case ParseInt (field fs k) 64 of None \<Rightarrow> 0 | Some n \<Rightarrow> if show_int n \<noteq> field fs k then 0 else n)"

definition metadata_of :: "(bytes \<times> bytes) list \<Rightarrow> metadata" where
  "metadata_of fs =
     \<lparr>m_format = integer fs ''format'', m_version = field fs ''version'', m_platform = field fs ''platform'',
      m_macos = field fs ''minimum_macos'', m_glibc = field fs ''minimum_glibc'',
      m_store = integer fs ''store_schema'', m_inventory = integer fs ''inventory_schema''\<rparr>"

definition metadata_bytes :: "bytes \<Rightarrow> bool" where
  "metadata_bytes raw \<longleftrightarrow>
     raw \<noteq> [] \<and> length raw \<le> 4096 \<and> last raw = newline \<and> list_all (\<lambda>c. c = newline \<or> in_range 32 126 c) raw"

definition ParseMetadata :: "bytes \<Rightarrow> metadata res" where
  "ParseMetadata raw =
     (if \<not> metadata_bytes raw then Inl ErrRelease
      else
        (case collect metadata_line (split_lines (butlast raw)) [] of
           Inl e \<Rightarrow> Inl e
         | Inr fs \<Rightarrow>
             if length fs \<noteq> 6 then Inl ErrRelease
             else if \<not> valid (metadata_of fs) then Inl ErrRelease
             else Inr (metadata_of fs)))"

section \<open>Writing metadata\<close>

definition minimum :: "metadata \<Rightarrow> bytes \<times> bytes" where
  "minimum m =
     (if m_platform m = ''linux_amd64'' then (''minimum_glibc'', m_glibc m) else (''minimum_macos'', m_macos m))"

definition text_fields :: "metadata \<Rightarrow> (bytes \<times> bytes) list" where
  "text_fields m =
     [(''format'', show_int (m_format m)), (''version'', m_version m), (''platform'', m_platform m), minimum m,
      (''store_schema'', show_int (m_store m)), (''inventory_schema'', show_int (m_inventory m))]"

definition text_line :: "bytes \<times> bytes \<Rightarrow> bytes" where
  "text_line f = fst f @ ''='' @ snd f"

definition Text :: "metadata \<Rightarrow> bytes" where
  "Text m = unlines (map text_line (text_fields m))"

section \<open>Assets and checksums\<close>

record releaseAssets =
  a_binary :: bytes
  a_metadata :: bytes
  a_sums :: bytes
  a_signature :: bytes

definition platformAssets :: "bytes \<Rightarrow> releaseAssets" where
  "platformAssets platform =
     (if platform = ''linux_amd64'' then
        \<lparr>a_binary = ''data-mate_linux_amd64'', a_metadata = ''release_linux_amd64.txt'',
         a_sums = ''SHA256SUMS_linux_amd64'', a_signature = ''data-mate_linux_amd64.sig''\<rparr>
      else
        \<lparr>a_binary = ''data-mate_darwin_arm64'', a_metadata = ''release.txt'', a_sums = ''SHA256SUMS'', a_signature = []\<rparr>)"

definition hashed :: "releaseAssets \<Rightarrow> bytes list" where
  "hashed a = [''install.sh'', a_metadata a, a_binary a] @ (if a_signature a \<noteq> [] then [a_signature a] else [])"

definition all_assets :: "releaseAssets \<Rightarrow> bytes list" where
  "all_assets a = hashed a @ [a_sums a]"

text \<open>\<open>strings.Cut(line, "  ")\<close>.\<close>

fun cut_blanks :: "bytes \<Rightarrow> (bytes \<times> bytes) option" where
  "cut_blanks [] = None"
| "cut_blanks (c # s) =
     (if has_prefix (c # s) ''  '' then Some ([], drop 1 s) else map_option (\<lambda>(a, b). (c # a, b)) (cut_blanks s))"

definition checksum_line :: "releaseAssets \<Rightarrow> bytes \<Rightarrow> (bytes \<times> bytes) option" where
  "checksum_line a l =
     (case cut_blanks l of
        None \<Rightarrow> None
      | Some (h, name) \<Rightarrow> if fingerprint_ok h \<and> name \<in> set (hashed a) then Some (name, h) else None)"

definition checksumsFor :: "bytes \<Rightarrow> releaseAssets \<Rightarrow> (bytes \<times> bytes) list res" where
  "checksumsFor raw a =
     (case collect (checksum_line a) (split_lines (trim_suffix raw [newline])) [] of
        Inl e \<Rightarrow> Inl e
      | Inr out \<Rightarrow> if length out \<noteq> length (hashed a) then Inl ErrRelease else Inr out)"

section \<open>Lines and their text\<close>

lemma split_at_nonempty [simp]: "split_at x s \<noteq> []"
  by (induction s) (auto split: list.splits)

lemma split_at_free: "x \<notin> set s \<Longrightarrow> split_at x s = [s]"
  by (induction s) auto

lemma split_at_parts: "l \<in> set (split_at x s) \<Longrightarrow> x \<notin> set l \<and> set l \<subseteq> set s"
  by (induction s arbitrary: l) (fastforce split: if_splits list.splits)+

lemma split_at_append: "x \<notin> set l \<Longrightarrow> split_at x (l @ x # s) = l # split_at x s"
  by (induction l) auto

lemma unlines_simps [simp]: "unlines [] = []" "unlines (l # ls) = l @ newline # unlines ls"
  by (simp_all add: unlines_def)

lemma split_unlines:
  "ls \<noteq> [] \<Longrightarrow> \<forall>l \<in> set ls. newline \<notin> set l \<Longrightarrow> split_lines (butlast (unlines ls)) = ls"
proof (induction ls)
  case (Cons l ls)
  show ?case
  proof (cases "ls = []")
    case False
    then have "unlines ls \<noteq> []" by (cases ls) auto
    then have "butlast (unlines (l # ls)) = l @ newline # butlast (unlines ls)" by (simp add: butlast_append)
    with Cons False show ?thesis by (simp add: split_at_append)
  qed (use Cons.prems in \<open>simp add: butlast_append split_at_free\<close>)
qed simp

lemma unlines_split_at: "unlines (split_at newline s) = s @ [newline]"
  by (induction s) (auto split: list.split)

lemma unlines_split:
  assumes "raw \<noteq> []" and "last raw = newline"
  shows "unlines (split_lines (butlast raw)) = raw"
  using assms append_butlast_last_id [of raw] by (simp add: unlines_split_at)

lemma collect_iff:
  assumes "distinct (map fst out)"
  shows "collect f ls out = Inr fs \<longleftrightarrow>
    (\<exists>kvs. map f ls = map Some kvs \<and> fs = out @ kvs \<and> distinct (map fst (out @ kvs)))"
  using assms
proof (induction ls arbitrary: out)
  case (Cons l ls)
  show ?case
  proof (cases "f l")
    case (Some kv)
    obtain k v where kv: "kv = (k, v)" by (cases kv)
    show ?thesis
    proof (cases "map_of out k = None")
      case True
      then have new: "k \<notin> fst ` set out" by (simp add: map_of_eq_None_iff)
      have "collect f (l # ls) out = Inr fs \<longleftrightarrow>
          (\<exists>kvs. map f ls = map Some kvs \<and> fs = (out @ [(k, v)]) @ kvs \<and> distinct (map fst ((out @ [(k, v)]) @ kvs)))"
        using Cons.IH [of "out @ [(k, v)]"] Cons.prems Some kv True new by (auto simp: image_iff)
      also have "\<dots> \<longleftrightarrow> (\<exists>kvs. map f (l # ls) = map Some kvs \<and> fs = out @ kvs \<and> distinct (map fst (out @ kvs)))"
        using Some kv by (auto simp: Cons_eq_map_conv)
      finally show ?thesis .
    next
      case False
      then have "k \<in> fst ` set out" by (auto simp: map_of_eq_None_iff)
      with False Some kv show ?thesis by (auto simp: Cons_eq_map_conv)
    qed
  qed (auto simp: Cons_eq_map_conv)
qed auto

section \<open>What is accepted\<close>

lemma cut_line: "x \<notin> set k \<Longrightarrow> cut x (k @ x # v) = Some (k, v)"
  by (induction k) (auto simp: cut_def split: if_splits)

lemma cut_Some: "cut x l = Some (k, v) \<Longrightarrow> l = k @ x # v"
proof (induction l arbitrary: k)
  case (Cons c l)
  then show ?case
    by (cases "c = x") (auto simp: cut_def split: if_splits)
qed (simp add: cut_def)

lemma metadata_line_iff: "metadata_line l = Some (k, v) \<Longrightarrow> l = text_line (k, v) \<and> v \<noteq> []"
  by (auto simp: metadata_line_def text_line_def dest!: cut_Some split: option.splits if_splits)

lemma metadata_line_text: "CHR ''='' \<notin> set (fst f) \<Longrightarrow> snd f \<noteq> [] \<Longrightarrow> metadata_line (text_line f) = Some f"
  by (cases f) (simp add: metadata_line_def text_line_def cut_line)

lemma text_fields_names: "map fst (text_fields m) =
   [''format'', ''version'', ''platform'', fst (minimum m), ''store_schema'', ''inventory_schema'']"
  by (simp add: text_fields_def)

lemma minimum_name: "fst (minimum m) \<in> {''minimum_glibc'', ''minimum_macos''}"
  by (simp add: minimum_def)

lemma distinct_text_fields: "distinct (map fst (text_fields m))"
  using minimum_name [of m] by (auto simp: text_fields_names)

lemma integer_pos:
  assumes "integer fs k > 0"
  shows "map_of fs k = Some (show_int (integer fs k))" and "integer fs k < 2 ^ 63"
  using assms by (auto simp: integer_def field_def ParseInt_def Let_def all_digits1_def split: option.splits if_splits)

lemma field_Some: "field fs k \<noteq> [] \<Longrightarrow> map_of fs k = Some (field fs k)"
  by (simp add: field_def split: option.splits)

lemma stable_nonempty: "stable s \<Longrightarrow> s \<noteq> []"
  by (auto simp: stable_def)

lemma osVersion_nonempty: "osVersion s \<Longrightarrow> s \<noteq> []"
  by (auto simp: osVersion_def)

lemma fields_of_valid:
  assumes "valid (metadata_of fs)" and "(k, v) \<in> set (text_fields (metadata_of fs))"
  shows "map_of fs k = Some v"
proof -
  have ints: "integer fs ''format'' = 1" "integer fs ''store_schema'' > 0" "integer fs ''inventory_schema'' > 0"
    and strs: "field fs ''version'' \<noteq> []" "field fs ''platform'' \<noteq> []" "snd (minimum (metadata_of fs)) \<noteq> []"
    using assms(1) stable_nonempty osVersion_nonempty
    by (auto simp: valid_def valid_platform_def metadata_of_def minimum_def)
  have "map_of fs (fst (minimum (metadata_of fs))) = Some (snd (minimum (metadata_of fs)))"
    using field_Some strs(3) by (auto simp: minimum_def metadata_of_def split: if_splits)
  moreover have "map_of fs ''format'' = Some (show_int 1)" using integer_pos(1) [of fs "''format''"] ints(1) by simp
  ultimately show ?thesis
    using assms(2) integer_pos(1) [OF ints(2)] integer_pos(1) [OF ints(3)] field_Some [OF strs(1)] field_Some [OF strs(2)] ints(1)
    by (auto simp: text_fields_def metadata_of_def) (metis fst_conv snd_conv)
qed

lemma same_fields:
  assumes "valid (metadata_of fs)" and "distinct (map fst fs)" and "length fs = 6"
  shows "mset fs = mset (text_fields (metadata_of fs))"
proof -
  let ?t = "text_fields (metadata_of fs)"
  have sub: "set ?t \<subseteq> set fs"
  proof
    fix kv assume "kv \<in> set ?t"
    then show "kv \<in> set fs" using fields_of_valid [OF assms(1), of "fst kv" "snd kv"] map_of_SomeD by fastforce
  qed
  have d: "distinct ?t" "distinct fs" using distinct_text_fields assms(2) by (metis distinct_map)+
  have "card (set ?t) = 6" using distinct_card [OF d(1)] by (simp add: text_fields_def)
  moreover have "card (set fs) = 6" using distinct_card [OF d(2)] assms(3) by simp
  ultimately have "set ?t = set fs" using sub by (intro card_subset_eq) auto
  with d show ?thesis by (simp add: set_eq_iff_mset_eq_distinct)
qed


section \<open>The text is exactly that of a description\<close>

abbreviation plain :: "bytes \<Rightarrow> bool" where
  "plain \<equiv> list_all (in_range 32 126)"

lemma digits_plain: "list_all is_digit s \<Longrightarrow> plain s"
  by (auto simp: list_all_iff is_digit_def in_range_def)

lemma plain_newline: "plain s \<Longrightarrow> newline \<notin> set s"
  by (auto simp: list_all_iff newline_def in_range_def)

lemma split_at_cover: "set s \<subseteq> insert x (\<Union> (set ` set (split_at x s)))"
proof (induction s)
  case (Cons c s)
  then show ?case by (cases "split_at x s") auto
qed simp

lemma plain_split: "list_all plain (split_at x s) \<Longrightarrow> in_range 32 126 x \<Longrightarrow> plain s"
  using split_at_cover [of s x] by (fastforce simp: list_all_iff)

lemma plain_numbers: "stable s \<Longrightarrow> plain s" "osVersion s \<Longrightarrow> plain s"
proof -
  have dot: "in_range 32 126 (CHR ''.'')" by (simp add: in_range_def)
  have "numeral t \<Longrightarrow> plain t" "all_digits1 t \<Longrightarrow> plain t" for t
    using digits_plain [of t] by (auto simp: numeral_def all_digits1_def in_range_def)
  then show "stable s \<Longrightarrow> plain s" "osVersion s \<Longrightarrow> plain s"
    using plain_split [OF _ dot, of s] by (auto simp: stable_def osVersion_def list_all_iff)
qed

lemma plain_show_int: "plain (show_int n)" and show_int_nonempty: "show_int n \<noteq> []"
  using digits_plain show_nat_digits by (auto simp: show_int_def in_range_def)

lemma text_fields_plain:
  assumes "valid m" and "f \<in> set (text_fields m)"
  shows "plain (fst f)" and "plain (snd f)" and "CHR ''='' \<notin> set (fst f)" and "snd f \<noteq> []"
proof -
  have p: "plain (m_platform m)" "m_platform m \<noteq> []" "plain (snd (minimum m))" "snd (minimum m) \<noteq> []" "plain (m_version m)" "m_version m \<noteq> []"
    using assms(1) plain_numbers osVersion_nonempty stable_nonempty
    by (auto simp: valid_def valid_platform_def minimum_def in_range_def)
  have n: "fst (minimum m) = ''minimum_glibc'' \<or> fst (minimum m) = ''minimum_macos''" using minimum_name [of m] by simp
  show "plain (fst f)" "CHR ''='' \<notin> set (fst f)"
    using assms(2) n by (auto simp: text_fields_def in_range_def)
  show "plain (snd f)" "snd f \<noteq> []"
    using assms(2) p by (auto simp: text_fields_def plain_show_int show_int_nonempty)
qed

lemma text_line_plain: "valid m \<Longrightarrow> f \<in> set (text_fields m) \<Longrightarrow> plain (text_line f)"
  using text_fields_plain by (auto simp: text_line_def in_range_def)

lemma plain_unlines: "\<forall>l \<in> set ls. plain l \<Longrightarrow> list_all (\<lambda>c. c = newline \<or> in_range 32 126 c) (unlines ls)"
  by (induction ls) (auto simp: list_all_iff)

lemma metadata_of_fields:
  assumes "valid m" and "m_store m < 2 ^ 63" and "m_inventory m < 2 ^ 63"
    and "mset fs = mset (text_fields m)"
  shows "metadata_of fs = m"
proof -
  have s: "set fs = set (text_fields m)" using assms(4) by (rule mset_eq_setD)
  have "mset (map fst fs) = mset (map fst (text_fields m))" using assms(4) by simp
  then have d: "distinct (map fst fs)" using distinct_text_fields [of m] by (metis mset_eq_imp_distinct_iff)
  have "map_of fs = map_of (text_fields m)" using s d distinct_text_fields [of m] by (simp add: map_of_inject_set)
  then have f: "field fs k = field (text_fields m) k" for k by (simp add: field_def)
  have fmt: "m_format m = 1" and st: "0 < m_store m" "0 < m_inventory m" using assms(1) by (auto simp: valid_def)
  have "ParseInt (show_int (1 :: int)) 64 = Some 1" "ParseInt (show_int (m_store m)) 64 = Some (m_store m)"
    "ParseInt (show_int (m_inventory m)) 64 = Some (m_inventory m)"
    using assms(2,3) st by (auto simp: ParseInt_show)
  moreover have "field (text_fields m) ''format'' = show_int 1" "field (text_fields m) ''version'' = m_version m"
    "field (text_fields m) ''platform'' = m_platform m"
    "field (text_fields m) ''store_schema'' = show_int (m_store m)"
    "field (text_fields m) ''inventory_schema'' = show_int (m_inventory m)"
    using minimum_name [of m] by (auto simp: field_def text_fields_def fmt)
  moreover have "field (text_fields m) ''minimum_macos'' = m_macos m" "field (text_fields m) ''minimum_glibc'' = m_glibc m"
    using assms(1) by (auto simp: field_def text_fields_def minimum_def valid_def valid_platform_def)
  ultimately show ?thesis using fmt by (simp add: metadata_of_def integer_def f)
qed

lemma text_lines: "map metadata_line ls = map Some fs \<Longrightarrow> ls = map text_line fs"
  by (induction fs arbitrary: ls) (auto simp: map_eq_Cons_conv dest!: metadata_line_iff)

lemma metadata_lines:
  "\<forall>f \<in> set fs. CHR ''='' \<notin> set (fst f) \<and> snd f \<noteq> [] \<Longrightarrow> map metadata_line (map text_line fs) = map Some fs"
  by (induction fs) (auto simp: metadata_line_text)

text \<open>
  C31.  A metadata text is accepted as a description exactly when the description is valid, its
  schema numbers fit 64 bits, and the text, of at most 4096 bytes, consists of the six lines
  of the description's canonical text, in any order.
\<close>

theorem ParseMetadata_exact:
  "ParseMetadata raw = Inr m \<longleftrightarrow>
     valid m \<and> m_store m < 2 ^ 63 \<and> m_inventory m < 2 ^ 63 \<and> length raw \<le> 4096 \<and>
     (\<exists>fs. mset fs = mset (text_fields m) \<and> raw = unlines (map text_line fs))"
proof
  assume "ParseMetadata raw = Inr m"
  then obtain fs where raw: "metadata_bytes raw" and c: "collect metadata_line (split_lines (butlast raw)) [] = Inr fs"
    and fs: "length fs = 6" "valid (metadata_of fs)" "m = metadata_of fs"
    by (auto simp: ParseMetadata_def split: if_splits sum.splits)
  from c have lines: "map metadata_line (split_lines (butlast raw)) = map Some fs" and d: "distinct (map fst fs)"
    by (auto simp: collect_iff)
  then have "split_lines (butlast raw) = map text_line fs"
    by (intro text_lines)
  then have "raw = unlines (map text_line fs)" using raw unlines_split [of raw] by (simp add: metadata_bytes_def)
  then show "valid m \<and> m_store m < 2 ^ 63 \<and> m_inventory m < 2 ^ 63 \<and> length raw \<le> 4096 \<and>
      (\<exists>fs. mset fs = mset (text_fields m) \<and> raw = unlines (map text_line fs))"
    using same_fields [OF fs(2) d fs(1)] fs raw integer_pos(2)
    by (auto simp: valid_def metadata_of_def metadata_bytes_def)
next
  assume a: "valid m \<and> m_store m < 2 ^ 63 \<and> m_inventory m < 2 ^ 63 \<and> length raw \<le> 4096 \<and>
      (\<exists>fs. mset fs = mset (text_fields m) \<and> raw = unlines (map text_line fs))"
  then obtain fs where m: "mset fs = mset (text_fields m)" and raw: "raw = unlines (map text_line fs)" by blast
  have s: "set fs = set (text_fields m)" using m by (rule mset_eq_setD)
  have "length fs = length (text_fields m)" using m by (rule mset_eq_length)
  then have n: "length fs = 6" by (simp add: text_fields_def)
  have d: "distinct (map fst fs)"
    using m distinct_text_fields [of m] by (metis mset_eq_imp_distinct_iff mset_map)
  let ?ls = "map text_line fs"
  have lp: "\<forall>l \<in> set ?ls. plain l" using a s text_line_plain by auto
  then have nl: "\<forall>l \<in> set ?ls. newline \<notin> set l" using plain_newline by blast
  have ne: "fs \<noteq> []" using n by auto
  then have "unlines ?ls \<noteq> []" "last (unlines ?ls) = newline"
    by (cases fs rule: rev_cases; simp add: unlines_def)+
  then have raw_ok: "metadata_bytes raw" using a raw plain_unlines [OF lp] by (simp add: metadata_bytes_def)
  have "map metadata_line ?ls = map Some fs" using a s text_fields_plain(3,4) by (intro metadata_lines) blast
  then have "collect metadata_line (split_lines (butlast raw)) [] = Inr fs"
    using d ne nl by (simp add: raw split_unlines collect_iff)
  then show "ParseMetadata raw = Inr m"
    using raw_ok n a metadata_of_fields [OF _ _ _ m] by (simp add: ParseMetadata_def)
qed

section \<open>Checksum lines\<close>

lemma fingerprint_hex:
  assumes "length bs = 32"
  shows "fingerprint_ok (hex_text bs)"
proof -
  have "hex_bytes (map byte_of bs) = hex_text bs" by (simp add: hex_bytes_def hex_text_def comp_def)
  then show ?thesis using assms by (simp add: fingerprint_ok_def hex_text_decode)
qed

lemma cut_blanks_line: "CHR '' '' \<notin> set h \<Longrightarrow> cut_blanks (h @ ''  '' @ n) = Some (h, n)"
  by (induction h) (auto simp: has_prefix_def)

lemma split_trimmed: "ls \<noteq> [] \<Longrightarrow> \<forall>l \<in> set ls. newline \<notin> set l \<Longrightarrow> split_lines (trim_suffix (unlines ls) [newline]) = ls"
proof -
  assume a: "ls \<noteq> []" "\<forall>l \<in> set ls. newline \<notin> set l"
  then obtain ks k where "ls = ks @ [k]" by (cases ls rule: rev_cases) auto
  then have "trim_suffix (unlines ls) [newline] = butlast (unlines ls)"
    by (simp add: unlines_def butlast_append) (metis append.assoc trim_suffix_append)
  with a show ?thesis by (simp add: split_unlines)
qed

end
