(* ===== verification/Release.thy ===== *)
theory Release
  imports Release_Text
begin

text \<open>
  Acquiring a release (distribution/release.go, signature_linux.go and the \<open>VerifyNative\<close> of
  the two platforms).  What the run does to the outside is a history of events; the network,
  the staging files, the cancellation of the context and the commands it starts answer from
  that history.  URL syntax, SHA-256, RSA, and the comparison of versions are arguments.
\<close>

section \<open>Histories\<close>

datatype event =
    Fetched bytes nat
  | Staged bytes bytes
  | Codesign
  | Executed bytes
  | Context
  | Removed

record response =
  r_status :: nat
  r_declared :: int
  r_body :: bytes
  r_broken :: bool

record release_env =
  v_os :: bytes
  v_arch :: bytes
  v_allowed :: "bytes \<Rightarrow> bool"
  v_answer :: "event list \<Rightarrow> response option"
  v_disk :: "event list \<Rightarrow> bytes \<Rightarrow> bool"
  v_context :: "event list \<Rightarrow> goerr option"
  v_command :: "event list \<Rightarrow> bytes option"
  v_sha :: "bytes \<Rightarrow> bytes"
  v_key :: bool
  v_rsa :: "bytes \<Rightarrow> bytes \<Rightarrow> bool"
  v_older :: "bytes \<Rightarrow> bytes \<Rightarrow> bool"

type_synonym 'a run = "release_env \<Rightarrow> event list \<Rightarrow> event list \<times> 'a res"

definition run_return :: "'a \<Rightarrow> 'a run" where
  "run_return x = (\<lambda>v h. (h, Inr x))"

definition run_fail :: "goerr \<Rightarrow> 'a run" where
  "run_fail e = (\<lambda>v h. (h, Inl e))"

definition run_then :: "'a run \<Rightarrow> ('a \<Rightarrow> 'b run) \<Rightarrow> 'b run" where
  "run_then m f = (\<lambda>v h. case m v h of (h', Inl e) \<Rightarrow> (h', Inl e) | (h', Inr x) \<Rightarrow> f x v h')"

definition note_event :: "event \<Rightarrow> unit run" where
  "note_event e = (\<lambda>v h. (h @ [e], Inr ()))"

definition inquire :: "(release_env \<Rightarrow> event list \<Rightarrow> 'a) \<Rightarrow> 'a run" where
  "inquire f = (\<lambda>v h. (h, Inr (f v h)))"

definition require_that :: "(release_env \<Rightarrow> event list \<Rightarrow> bool) \<Rightarrow> unit run" where
  "require_that p = (\<lambda>v h. (h, if p v h then Inr () else Inl ErrRelease))"

text \<open>Every look at the context is an event, so its answer may change between two looks.\<close>

definition ctx_error :: "goerr option run" where
  "ctx_error = run_then (note_event Context) (\<lambda>_. inquire v_context)"

section \<open>Fetching\<close>

text \<open>\<open>Client.fetch\<close>: the bytes that reach the writer, when the whole body did.\<close>

definition fetch :: "bytes \<Rightarrow> nat \<Rightarrow> bytes run" where
  "fetch address limit =
     run_then (require_that (\<lambda>v h. v_allowed v address)) (\<lambda>_.
     run_then (note_event (Fetched address limit)) (\<lambda>_.
     run_then (inquire v_answer) (\<lambda>res.
       case res of
         None \<Rightarrow> run_fail ErrRelease
       | Some r \<Rightarrow>
           if r_status r \<noteq> 200 \<or> r_declared r > int limit then run_fail ErrRelease
           else
             (let b = take (limit + 1) (r_body r) in
              if r_broken r \<or> length b > limit \<or> (r_declared r \<ge> 0 \<and> int (length b) \<noteq> r_declared r)
              then run_fail ErrRelease
              else run_return b))))"

definition disk_ok :: "bytes \<Rightarrow> unit run" where
  "disk_ok what = require_that (\<lambda>v h. v_disk v h what)"

text \<open>A file of the staging directory, written whole.\<close>

definition stage :: "bytes \<Rightarrow> bytes \<Rightarrow> unit run" where
  "stage name b = run_then (note_event (Staged name b)) (\<lambda>_. disk_ok name)"

text \<open>\<open>command\<close>: the bounded output of a program.\<close>

definition command_output :: "bytes run" where
  "command_output =
     run_then (inquire v_command) (\<lambda>out.
       case out of
         Some b \<Rightarrow>
           if length b \<le> 65536 then run_return b
           else run_then ctx_error (\<lambda>c. run_fail (case c of Some err \<Rightarrow> err | None \<Rightarrow> ErrRelease))
       | None \<Rightarrow> run_then ctx_error (\<lambda>c. run_fail (case c of Some err \<Rightarrow> err | None \<Rightarrow> ErrRelease)))"

definition command :: "event \<Rightarrow> bytes run" where
  "command e = run_then (note_event e) (\<lambda>_. command_output)"

section \<open>Authentication\<close>

definition MaxBinary :: nat where
  "MaxBinary = 256 * 1024 * 1024"

text \<open>\<open>verifyLinuxSignature\<close> of the staged executable and signature.\<close>

definition verifyLinuxSignature :: "bytes \<Rightarrow> bytes \<Rightarrow> unit run" where
  "verifyLinuxSignature bin sig =
     run_then (require_that (\<lambda>v h. v_key v)) (\<lambda>_.
     run_then (disk_ok ''read signature'') (\<lambda>_.
     run_then (require_that (\<lambda>v h. length (take 4097 sig) = 384)) (\<lambda>_.
     run_then (disk_ok ''read executable'') (\<lambda>_.
     run_then (require_that (\<lambda>v h. bin \<noteq> [] \<and> length bin \<le> MaxBinary)) (\<lambda>_.
     require_that (\<lambda>v h. v_rsa v (v_sha v bin) sig))))))"

definition VerifyNative_linux :: "metadata \<Rightarrow> bytes \<Rightarrow> bytes \<Rightarrow> unit run" where
  "VerifyNative_linux m bin sig =
     run_then ctx_error (\<lambda>c.
       case c of
         None \<Rightarrow>
           run_then (require_that (\<lambda>v h. v_arch v = ''amd64'' \<and> valid m \<and> m_platform m = ''linux_amd64'')) (\<lambda>_.
           verifyLinuxSignature bin sig)
       | Some err \<Rightarrow> run_fail err)"

definition VerifyNative_darwin :: "metadata \<Rightarrow> unit run" where
  "VerifyNative_darwin m =
     run_then (require_that (\<lambda>v h. v_os v = ''darwin'' \<and> v_arch v = ''arm64'' \<and> valid m \<and> m_platform m = ''darwin_arm64'')) (\<lambda>_.
     run_then ctx_error (\<lambda>c.
       case c of
         None \<Rightarrow> run_then (command Codesign) (\<lambda>_. run_return ())
       | Some err \<Rightarrow> run_fail err))"

definition VerifyNative :: "metadata \<Rightarrow> bytes \<Rightarrow> bytes \<Rightarrow> unit run" where
  "VerifyNative m bin sig = (\<lambda>v. if v_os v = ''linux'' then VerifyNative_linux m bin sig v else VerifyNative_darwin m v)"

section \<open>The answer of the releases interface\<close>

record release =
  rel_tag :: bytes
  rel_draft :: bool
  rel_prerelease :: bool
  rel_assets :: "(bytes \<times> bytes) list"

definition no_release :: release where
  "no_release = \<lparr>rel_tag = [], rel_draft = False, rel_prerelease = False, rel_assets = []\<rparr>"

definition put_asset :: "bytes \<times> jval \<Rightarrow> bytes \<times> bytes \<Rightarrow> (bytes \<times> bytes) option" where
  "put_asset m a =
     (case find_field [''name'', ''browser_download_url''] (fst m) of
        None \<Rightarrow> Some a
      | Some k \<Rightarrow>
          if k = ''name'' then map_option (\<lambda>x. (x, snd a)) (put_str (snd m) (fst a))
          else map_option (\<lambda>x. (fst a, x)) (put_str (snd m) (snd a)))"

fun put_all :: "('m \<Rightarrow> 'r \<Rightarrow> 'r option) \<Rightarrow> 'm list \<Rightarrow> 'r \<Rightarrow> 'r option" where
  "put_all f [] r = Some r"
| "put_all f (m # ms) r = Option.bind (f m r) (put_all f ms)"

definition asset_of :: "jval \<Rightarrow> (bytes \<times> bytes) option" where
  "asset_of v = (case v of JObj ms \<Rightarrow> put_all put_asset ms ([], []) | JNull \<Rightarrow> Some ([], []) | _ \<Rightarrow> None)"

definition put_release :: "bytes \<times> jval \<Rightarrow> release \<Rightarrow> release option" where
  "put_release m r =
     (case find_field [''tag_name'', ''draft'', ''prerelease'', ''assets''] (fst m) of
        None \<Rightarrow> Some r
      | Some k \<Rightarrow>
          if k = ''tag_name'' then map_option (\<lambda>x. r\<lparr>rel_tag := x\<rparr>) (put_str (snd m) (rel_tag r))
          else if k = ''draft'' then map_option (\<lambda>x. r\<lparr>rel_draft := x\<rparr>) (put_bool (snd m) (rel_draft r))
          else if k = ''prerelease'' then map_option (\<lambda>x. r\<lparr>rel_prerelease := x\<rparr>) (put_bool (snd m) (rel_prerelease r))
          else
            (case snd m of
               JArr vs \<Rightarrow> map_option (\<lambda>x. r\<lparr>rel_assets := x\<rparr>) (decode_list asset_of vs)
             | JNull \<Rightarrow> Some (r\<lparr>rel_assets := []\<rparr>)
             | _ \<Rightarrow> None))"

definition release_of :: "bytes \<Rightarrow> release option" where
  "release_of api =
     (case JSON api 1048576 of
        Inl _ \<Rightarrow> None
      | Inr raw \<Rightarrow>
          (case json_parse raw of
             Some (JObj ms) \<Rightarrow> put_all put_release ms no_release
           | Some JNull \<Rightarrow> Some no_release
           | _ \<Rightarrow> None))"

text \<open>The version a release is of, if the running program may take it.\<close>

definition release_version :: "(bytes \<Rightarrow> bytes \<Rightarrow> bool) \<Rightarrow> bytes \<Rightarrow> release \<Rightarrow> bytes option" where
  "release_version older current r =
     (let version = (if has_prefix (rel_tag r) ''v'' then drop 1 (rel_tag r) else rel_tag r) in
      if rel_tag r \<noteq> ''v'' @ version \<or> \<not> stable version \<or> rel_draft r \<or> rel_prerelease r \<or>
         (stable current \<and> older version current)
      then None else Some version)"

definition download_base :: "bytes \<Rightarrow> bytes" where
  "download_base tag = ''https://github.com/swqa7697/data-mate/releases/download/'' @ tag @ ''/''"

definition assets_pinned :: "bytes \<Rightarrow> releaseAssets \<Rightarrow> (bytes \<times> bytes) list \<Rightarrow> bool" where
  "assets_pinned base names assets \<longleftrightarrow>
     distinct (map fst assets) \<and> list_all (\<lambda>n. field assets n = base @ n) (all_assets names)"

section \<open>The metadata a candidate prints\<close>

definition metadata_tags :: "(bytes \<times> bool) list" where
  "metadata_tags =
     [(''format'', False), (''version'', False), (''platform'', False), (''minimum_macos'', True), (''minimum_glibc'', True),
      (''store_schema'', False), (''inventory_schema'', False)]"

definition no_metadata :: metadata where
  "no_metadata = \<lparr>m_format = 0, m_version = [], m_platform = [], m_macos = [], m_glibc = [], m_store = 0, m_inventory = 0\<rparr>"

definition put_metadata :: "bytes \<times> jval \<Rightarrow> metadata \<Rightarrow> metadata option" where
  "put_metadata x m =
     (case find_field (map fst metadata_tags) (fst x) of
        None \<Rightarrow> None
      | Some k \<Rightarrow>
          if k = ''format'' then map_option (\<lambda>n. m\<lparr>m_format := n\<rparr>) (put_int (snd x) (m_format m))
          else if k = ''version'' then map_option (\<lambda>t. m\<lparr>m_version := t\<rparr>) (put_str (snd x) (m_version m))
          else if k = ''platform'' then map_option (\<lambda>t. m\<lparr>m_platform := t\<rparr>) (put_str (snd x) (m_platform m))
          else if k = ''minimum_macos'' then map_option (\<lambda>t. m\<lparr>m_macos := t\<rparr>) (put_str (snd x) (m_macos m))
          else if k = ''minimum_glibc'' then map_option (\<lambda>t. m\<lparr>m_glibc := t\<rparr>) (put_str (snd x) (m_glibc m))
          else if k = ''store_schema'' then map_option (\<lambda>n. m\<lparr>m_store := n\<rparr>) (put_int (snd x) (m_store m))
          else map_option (\<lambda>n. m\<lparr>m_inventory := n\<rparr>) (put_int (snd x) (m_inventory m)))"

definition compiled_of :: "jval \<Rightarrow> metadata option" where
  "compiled_of v = (case v of JObj ms \<Rightarrow> put_all put_metadata ms no_metadata | _ \<Rightarrow> None)"

section \<open>Latest\<close>

record candidate =
  c_binary :: bytes
  c_signature :: bytes
  c_metadata :: metadata

text \<open>The metadata and checksums of the release, once they agree.\<close>

definition acquire_manifest :: "bytes \<Rightarrow> bytes \<Rightarrow> bytes \<Rightarrow> releaseAssets \<Rightarrow> (metadata \<times> (bytes \<times> bytes) list) run" where
  "acquire_manifest platform version base names =
     run_then (fetch (base @ a_metadata names) 4096) (\<lambda>meta.
     run_then (fetch (base @ a_sums names) 65536) (\<lambda>sums.
       case ParseMetadata meta of
         Inl e \<Rightarrow> run_fail ErrRelease
       | Inr m \<Rightarrow>
           if m_version m \<noteq> version \<or> m_platform m \<noteq> platform then run_fail ErrRelease
           else
             (case checksumsFor sums names of
                Inl e \<Rightarrow> run_fail ErrRelease
              | Inr hashes \<Rightarrow>
                  run_then (require_that (\<lambda>v h. v_sha v meta = field hashes (a_metadata names))) (\<lambda>_.
                  run_return (m, hashes)))))"

definition acquire_binary :: "bytes \<Rightarrow> releaseAssets \<Rightarrow> (bytes \<times> bytes) list \<Rightarrow> bytes run" where
  "acquire_binary base names hashes =
     run_then (disk_ok ''create executable'') (\<lambda>_.
     run_then (fetch (base @ a_binary names) MaxBinary) (\<lambda>bin.
     run_then (stage ''data-mate'' bin) (\<lambda>_.
     run_then (disk_ok ''hash executable'') (\<lambda>_.
     run_then (require_that (\<lambda>v h. v_sha v bin = field hashes (a_binary names))) (\<lambda>_.
     run_return bin)))))"

definition acquire_signature :: "bytes \<Rightarrow> releaseAssets \<Rightarrow> (bytes \<times> bytes) list \<Rightarrow> bytes run" where
  "acquire_signature base names hashes =
     (if a_signature names = [] then run_return []
      else
        run_then (fetch (base @ a_signature names) 4096) (\<lambda>sig.
        run_then (require_that (\<lambda>v h. v_sha v sig = field hashes (a_signature names))) (\<lambda>_.
        run_then (stage ''data-mate.sig'' sig) (\<lambda>_.
        run_return sig))))"

text \<open>Running the authenticated candidate; every way it can fail is the same error.\<close>

definition compiled_metadata :: "bytes \<Rightarrow> metadata run" where
  "compiled_metadata bin =
     (\<lambda>v h. case command (Executed bin) v h of
        (h', Inl e) \<Rightarrow> (h', Inl ErrRelease)
      | (h', Inr output) \<Rightarrow>
          (case DecodeStrict metadata_tags compiled_of output 4096 of
             Inl e \<Rightarrow> (h', Inl ErrRelease)
           | Inr m \<Rightarrow> (h', Inr m)))"

definition prepare_candidate :: "bytes \<Rightarrow> bytes \<Rightarrow> bytes \<Rightarrow> releaseAssets \<Rightarrow> candidate run" where
  "prepare_candidate platform version base names =
     run_then (acquire_manifest platform version base names) (\<lambda>(m, hashes).
     run_then (acquire_binary base names hashes) (\<lambda>bin.
     run_then (acquire_signature base names hashes) (\<lambda>sig.
     run_then (VerifyNative m bin sig) (\<lambda>_.
     run_return \<lparr>c_binary = bin, c_signature = sig, c_metadata = m\<rparr>))))"

definition acquire_candidate :: "bytes \<Rightarrow> bytes \<Rightarrow> bytes \<Rightarrow> releaseAssets \<Rightarrow> candidate run" where
  "acquire_candidate platform version base names =
     run_then (prepare_candidate platform version base names) (\<lambda>c.
     run_then (compiled_metadata (c_binary c)) (\<lambda>compiled.
     if compiled \<noteq> c_metadata c then run_fail ErrRelease else run_return c))"

text \<open>The deferred close of the staging, and the deferred look at the context around the run.\<close>

definition with_staging :: "'a run \<Rightarrow> 'a run" where
  "with_staging m =
     (\<lambda>v h. case m v h of
        (h, Inl e) \<Rightarrow> (h @ [Removed], Inl e)
      | (h, Inr x) \<Rightarrow>
          (case ctx_error v h of
             (h, Inr None) \<Rightarrow> (h, Inr x)
           | (h, _) \<Rightarrow> (h @ [Removed], Inr x)))"

definition unless_cancelled :: "'a run \<Rightarrow> 'a run" where
  "unless_cancelled m =
     (\<lambda>v h. case m v h of
        (h, r) \<Rightarrow>
          (case ctx_error v h of
             (h, Inr (Some err)) \<Rightarrow> (h, Inl err)
           | (h, _) \<Rightarrow> (h, r)))"

definition api_address :: bytes where
  "api_address = ''https://api.github.com/repos/swqa7697/data-mate/releases/latest''"

definition latest_body :: "bytes \<Rightarrow> candidate run" where
  "latest_body current =
     (\<lambda>v.
       (let platform = v_os v @ ''_'' @ v_arch v; names = platformAssets platform in
        run_then (fetch api_address 1048576) (\<lambda>api.
          case release_of api of
            None \<Rightarrow> run_fail ErrRelease
          | Some r \<Rightarrow>
              (case release_version (v_older v) current r of
                 None \<Rightarrow> run_fail ErrRelease
               | Some version \<Rightarrow>
                   if \<not> assets_pinned (download_base (rel_tag r)) names (rel_assets r) then run_fail ErrRelease
                   else
                     run_then (disk_ok ''create staging directory'') (\<lambda>_.
                       with_staging (acquire_candidate platform version (download_base (rel_tag r)) names)))) v))"

definition Latest :: "bytes \<Rightarrow> candidate run" where
  "Latest current = unless_cancelled (latest_body current)"

section \<open>What a run adds to its history\<close>

definition adds :: "(event \<Rightarrow> bool) \<Rightarrow> 'a run \<Rightarrow> bool" where
  "adds P m \<longleftrightarrow> (\<forall>v h h' r. m v h = (h', r) \<longrightarrow> (\<exists>es. h' = h @ es \<and> list_all P es))"

named_theorems adds

lemma addsD: "adds P m \<Longrightarrow> m v h = (h', r) \<Longrightarrow> \<exists>es. h' = h @ es \<and> list_all P es"
  unfolding adds_def by blast

lemma adds_basic [adds]:
  "adds P (run_return x)" "adds P (run_fail e)" "adds P (inquire f)" "adds P (require_that p)" "adds P (disk_ok w)"
  by (simp_all add: adds_def run_return_def run_fail_def inquire_def require_that_def disk_ok_def)

lemma adds_note [adds]: "P e \<Longrightarrow> adds P (note_event e)"
  by (simp add: adds_def note_event_def)

lemma adds_then [adds]:
  assumes "adds P m" and "\<And>x. adds P (f x)"
  shows "adds P (run_then m f)"
  unfolding adds_def
proof (intro allI impI)
  fix v h h' r
  assume run: "run_then m f v h = (h', r)"
  obtain h1 r1 where m: "m v h = (h1, r1)" by (cases "m v h")
  with addsD [OF assms(1)] obtain es where es: "h1 = h @ es" "list_all P es" by blast
  show "\<exists>es. h' = h @ es \<and> list_all P es"
  proof (cases r1)
    case (Inr x)
    then have "f x v h1 = (h', r)" using run m by (simp add: run_then_def)
    with addsD [OF assms(2)] obtain es' where "h' = h1 @ es'" "list_all P es'" by blast
    with es show ?thesis by auto
  qed (use run m es in \<open>auto simp: run_then_def\<close>)
qed

lemma adds_if [adds]: "(c \<Longrightarrow> adds P a) \<Longrightarrow> (\<not> c \<Longrightarrow> adds P b) \<Longrightarrow> adds P (if c then a else b)"
  by simp

lemma adds_option [adds]: "adds P a \<Longrightarrow> (\<And>x. adds P (f x)) \<Longrightarrow> adds P (case y of None \<Rightarrow> a | Some x \<Rightarrow> f x)"
  by (simp split: option.split)

lemma adds_sum [adds]: "(\<And>e. adds P (g e)) \<Longrightarrow> (\<And>x. adds P (f x)) \<Longrightarrow> adds P (case y of Inl e \<Rightarrow> g e | Inr x \<Rightarrow> f x)"
  by (simp split: sum.split)

lemma adds_prod [adds]: "(\<And>a b. adds P (f a b)) \<Longrightarrow> adds P (case y of (a, b) \<Rightarrow> f a b)"
  by (simp split: prod.split)

definition quiet :: "event \<Rightarrow> bool" where
  "quiet e \<longleftrightarrow> (case e of Executed _ \<Rightarrow> False | _ \<Rightarrow> True)"

lemma quiet_simps [simp]: "quiet (Fetched a n)" "quiet (Staged a b)" "quiet Codesign" "quiet Context" "quiet Removed" "\<not> quiet (Executed b)"
  by (simp_all add: quiet_def)

lemma quiet_output [adds]: "adds quiet command_output"
  by (auto simp: command_output_def ctx_error_def intro!: adds)

lemma quiet_parts [adds]:
  "adds quiet ctx_error" "adds quiet (fetch a n)" "adds quiet (stage w b)" "adds quiet (command Codesign)"
  by (auto simp: ctx_error_def fetch_def stage_def command_def Let_def intro!: adds)

lemma quiet_acquire [adds]:
  "adds quiet (acquire_manifest pf vn base names)" "adds quiet (acquire_binary base names hashes)"
  "adds quiet (acquire_signature base names hashes)" "adds quiet (VerifyNative m bin sig)"
proof -
  have "adds quiet (VerifyNative_linux m bin sig)" "adds quiet (VerifyNative_darwin m)"
    by (auto simp: VerifyNative_linux_def VerifyNative_darwin_def verifyLinuxSignature_def intro!: adds)
  then show "adds quiet (VerifyNative m bin sig)" by (simp add: VerifyNative_def adds_def)
qed (auto simp: acquire_manifest_def acquire_binary_def acquire_signature_def intro!: adds)

lemma quiet_prepare [adds]: "adds quiet (prepare_candidate pf vn base names)"
  by (auto simp: prepare_candidate_def intro!: adds)

section \<open>Successful runs\<close>

lemma run_then_Inr: "run_then m f v h = (h', Inr y) \<longleftrightarrow> (\<exists>h1 x. m v h = (h1, Inr x) \<and> f x v h1 = (h', Inr y))"
  by (cases "m v h") (auto simp: run_then_def split: sum.splits)

lemma run_Inr_simps [simp]:
  "run_return x v h = (h', Inr y) \<longleftrightarrow> h' = h \<and> x = y" "run_fail e v h \<noteq> (h', Inr y)"
  "inquire f v h = (h', Inr y) \<longleftrightarrow> h' = h \<and> f v h = y" "require_that p v h = (h', Inr u) \<longleftrightarrow> h' = h \<and> p v h"
  "note_event ev v h = (h', Inr u) \<longleftrightarrow> h' = h @ [ev]" "disk_ok w v h = (h', Inr u) \<longleftrightarrow> h' = h \<and> v_disk v h w"
  by (auto simp: run_return_def run_fail_def inquire_def require_that_def note_event_def disk_ok_def)

lemma run_branches_Inr:
  "(case x of Inl e \<Rightarrow> run_fail e0 | Inr y \<Rightarrow> f y) v h = (h', Inr z) \<longleftrightarrow> (\<exists>y. x = Inr y \<and> f y v h = (h', Inr z))"
  "(if c then run_fail e1 else m) v h = (h', Inr z) \<longleftrightarrow> \<not> c \<and> m v h = (h', Inr z)"
  "(case o1 of None \<Rightarrow> m | Some err \<Rightarrow> run_fail err) v h = (h', Inr z) \<longleftrightarrow> o1 = None \<and> m v h = (h', Inr z)"
  by (auto split: sum.split option.split)

lemmas run_inversions = run_then_Inr run_branches_Inr run_Inr_simps

text \<open>A body that arrived whole in answer to a request of the history.\<close>

definition delivered :: "release_env \<Rightarrow> event list \<Rightarrow> bytes \<Rightarrow> bytes \<Rightarrow> bool" where
  "delivered v h address b \<longleftrightarrow>
     (\<exists>h1 h2 n r. h = h1 @ Fetched address n # h2 \<and> v_allowed v address \<and>
        v_answer v (h1 @ [Fetched address n]) = Some r \<and>
        r_status r = 200 \<and> \<not> r_broken r \<and> r_body r = b \<and> length b \<le> n \<and> (r_declared r \<ge> 0 \<longrightarrow> int (length b) = r_declared r))"

lemma delivered_append: "delivered v h a b \<Longrightarrow> delivered v (h @ es) a b"
  by (fastforce simp: delivered_def)

lemma fetch_Inr:
  assumes "fetch a n v h = (h', Inr b)"
  shows "h' = h @ [Fetched a n] \<and> delivered v h' a b"
proof -
  let ?h = "h @ [Fetched a n]"
  from assms have "v_allowed v a" by (auto simp: fetch_def run_then_Inr)
  from assms obtain r where r: "v_answer v ?h = Some r" "r_status r = 200" and h': "h' = ?h" and b: "b = take (n + 1) (r_body r)"
    and "\<not> (r_broken r \<or> length b > n \<or> (r_declared r \<ge> 0 \<and> int (length b) \<noteq> r_declared r))"
    unfolding fetch_def Let_def run_then_Inr by (auto simp del: take_Suc_conv_app_nth split: option.splits if_split_asm)
  moreover from this have "b = r_body r" by (simp add: min_def split: if_splits)
  ultimately show ?thesis using \<open>v_allowed v a\<close>
    unfolding delivered_def by (intro conjI h' exI [of _ h] exI [of _ "[]"] exI [of _ n] exI [of _ r]) auto
qed

text \<open>What the manifest, the executable and its signature are, once acquired.\<close>

lemma acquire_manifest_Inr:
  assumes "acquire_manifest pf vn base names v h = (h', Inr (m, hashes))"
  shows "\<exists>meta sums. delivered v h' (base @ a_metadata names) meta \<and> delivered v h' (base @ a_sums names) sums \<and>
    ParseMetadata meta = Inr m \<and> m_version m = vn \<and> m_platform m = pf \<and>
    checksumsFor sums names = Inr hashes \<and> v_sha v meta = field hashes (a_metadata names)"
proof -
  from assms obtain h1 meta sums where f: "fetch (base @ a_metadata names) 4096 v h = (h1, Inr meta)"
      "fetch (base @ a_sums names) 65536 v h1 = (h', Inr sums)"
    and m: "ParseMetadata meta = Inr m" "m_version m = vn" "m_platform m = pf" "checksumsFor sums names = Inr hashes"
      "v_sha v meta = field hashes (a_metadata names)"
    unfolding acquire_manifest_def by (simp only: run_inversions) blast
  from fetch_Inr [OF f(1)] have "delivered v h1 (base @ a_metadata names) meta" by blast
  with fetch_Inr [OF f(2)] m show ?thesis by (blast intro: delivered_append)
qed

lemma stage_Inr: "stage w b v h = (h', Inr u) \<Longrightarrow> h' = h @ [Staged w b]"
  by (auto simp: stage_def run_then_Inr)

lemma acquire_binary_Inr:
  assumes "acquire_binary base names hashes v h = (h', Inr bin)"
  shows "delivered v h' (base @ a_binary names) bin \<and> v_sha v bin = field hashes (a_binary names)"
proof -
  from assms obtain h1 where "fetch (base @ a_binary names) MaxBinary v h = (h1, Inr bin)"
      "stage ''data-mate'' bin v h1 = (h', Inr ())" "v_sha v bin = field hashes (a_binary names)"
    unfolding acquire_binary_def run_then_Inr by auto
  with fetch_Inr [OF this(1)] stage_Inr [OF this(2)] show ?thesis by (blast intro: delivered_append)
qed

lemma acquire_signature_Inr:
  assumes "acquire_signature base names hashes v h = (h', Inr sig)" and "a_signature names \<noteq> []"
  shows "delivered v h' (base @ a_signature names) sig \<and> v_sha v sig = field hashes (a_signature names)"
proof -
  from assms obtain h1 where "fetch (base @ a_signature names) 4096 v h = (h1, Inr sig)"
      "stage ''data-mate.sig'' sig v h1 = (h', Inr ())" "v_sha v sig = field hashes (a_signature names)"
    unfolding acquire_signature_def by (auto simp: run_then_Inr)
  with fetch_Inr [OF this(1)] stage_Inr [OF this(2)] show ?thesis by (blast intro: delivered_append)
qed

text \<open>
  A candidate is authentic: on Linux the embedded key signed its digest, elsewhere the code
  signature was checked by a command that succeeded.
\<close>

definition authentic :: "release_env \<Rightarrow> event list \<Rightarrow> bytes \<Rightarrow> bytes \<Rightarrow> bool" where
  "authentic v h bin sig \<longleftrightarrow>
     (if v_os v = ''linux'' then v_key v \<and> bin \<noteq> [] \<and> length bin \<le> MaxBinary \<and> length sig = 384 \<and> v_rsa v (v_sha v bin) sig
      else v_os v = ''darwin'' \<and> (\<exists>h1 h2. h = h1 @ Codesign # h2 \<and> v_command v (h1 @ [Codesign]) \<noteq> None))"

lemma command_Inr: "command e v h = (h', Inr b) \<Longrightarrow> h' = h @ [e] \<and> v_command v h' = Some b \<and> length b \<le> 65536"
  by (auto simp: command_def command_output_def run_then_Inr split: option.splits if_splits)

lemma length_take_384: "length (take 4097 s) = 384 \<Longrightarrow> length s = 384"
  by (simp add: min_def split: if_splits)

lemma VerifyNative_Inr:
  assumes "VerifyNative m bin sig v h = (h', Inr u)"
  shows "authentic v h' bin sig \<and> valid m"
proof (cases "v_os v = ''linux''")
  case True
  with assms have k: "v_key v \<and> v_rsa v (v_sha v bin) sig \<and> bin \<noteq> [] \<and> length bin \<le> MaxBinary \<and> length (take 4097 sig) = 384 \<and> valid m"
    unfolding VerifyNative_def VerifyNative_linux_def verifyLinuxSignature_def if_P [OF True]
    by (simp only: run_inversions) (elim exE conjE, intro conjI)
  then have "length sig = 384" by (blast intro: length_take_384 [of sig])
  with k True show ?thesis unfolding authentic_def by simp
next
  case False
  with assms obtain h1 out where c: "command Codesign v h1 = (h', Inr out)" "valid m" "v_os v = ''darwin''"
    unfolding VerifyNative_def VerifyNative_darwin_def if_not_P [OF False] by (simp only: run_inversions) blast
  then have "h' = h1 @ [Codesign] \<and> v_command v (h1 @ [Codesign]) \<noteq> None" using command_Inr [OF c(1)] by auto
  with c(2,3) show ?thesis
    using False unfolding authentic_def by (intro conjI) (simp_all, blast)
qed

lemma authentic_append: "authentic v h bin sig \<Longrightarrow> authentic v (h @ es) bin sig"
  by (fastforce simp: authentic_def split: if_splits)

text \<open>Everything that is known of an executable before it is run.\<close>

definition trusted :: "release_env \<Rightarrow> event list \<Rightarrow> bytes \<Rightarrow> bytes \<Rightarrow> metadata \<Rightarrow> bytes \<Rightarrow> bytes \<Rightarrow> bool" where
  "trusted v h base version m bin sig \<longleftrightarrow>
     (let names = platformAssets (v_os v @ ''_'' @ v_arch v) in
      valid m \<and> m_version m = version \<and> m_platform m = v_os v @ ''_'' @ v_arch v \<and> authentic v h bin sig \<and>
      (\<exists>meta sums hashes.
         delivered v h (base @ a_metadata names) meta \<and> ParseMetadata meta = Inr m \<and>
         delivered v h (base @ a_sums names) sums \<and> checksumsFor sums names = Inr hashes \<and>
         v_sha v meta = field hashes (a_metadata names) \<and>
         delivered v h (base @ a_binary names) bin \<and> v_sha v bin = field hashes (a_binary names)))"

lemma trusted_append: "trusted v h base vn m bin sig \<Longrightarrow> trusted v (h @ es) base vn m bin sig"
  unfolding trusted_def Let_def by (blast intro: delivered_append authentic_append)

lemma prepare_candidate_Inr:
  assumes "prepare_candidate (v_os v @ ''_'' @ v_arch v) vn base (platformAssets (v_os v @ ''_'' @ v_arch v)) v h = (h', Inr c)"
  shows "trusted v h' base vn (c_metadata c) (c_binary c) (c_signature c)"
proof -
  let ?pf = "v_os v @ ''_'' @ v_arch v"
  let ?names = "platformAssets ?pf"
  from assms obtain h1 m hashes h2 bin h3 sig where 1: "acquire_manifest ?pf vn base ?names v h = (h1, Inr (m, hashes))"
    and 2: "acquire_binary base ?names hashes v h1 = (h2, Inr bin)"
    and 3: "acquire_signature base ?names hashes v h2 = (h3, Inr sig)"
    and 4: "VerifyNative m bin sig v h3 = (h', Inr ())" and c: "c = \<lparr>c_binary = bin, c_signature = sig, c_metadata = m\<rparr>"
    unfolding prepare_candidate_def run_then_Inr by (auto simp: run_then_Inr)
  from addsD [OF quiet_acquire(2) 2] addsD [OF quiet_acquire(3) 3] addsD [OF quiet_acquire(4) 4]
  obtain e2 e3 e4 where e: "h2 = h1 @ e2" "h3 = h2 @ e3" "h' = h3 @ e4" by blast
  obtain meta sums where "delivered v h1 (base @ a_metadata ?names) meta" "delivered v h1 (base @ a_sums ?names) sums"
    "ParseMetadata meta = Inr m" "m_version m = vn" "m_platform m = ?pf" "checksumsFor sums ?names = Inr hashes"
    "v_sha v meta = field hashes (a_metadata ?names)"
    using acquire_manifest_Inr [OF 1] by blast
  moreover have "delivered v h2 (base @ a_binary ?names) bin" "v_sha v bin = field hashes (a_binary ?names)"
    using acquire_binary_Inr [OF 2] by blast+
  moreover have "authentic v h' bin sig" "valid m" using VerifyNative_Inr [OF 4] by blast+
  ultimately show ?thesis
    unfolding trusted_def Let_def c candidate.simps e by (blast intro: delivered_append)
qed

lemma quiet_noexec: "list_all quiet es \<Longrightarrow> Executed b \<notin> set es"
  by (auto simp: list_all_iff)

lemma compiled_metadata_run:
  assumes "compiled_metadata bin v h = (h', r)"
  shows "\<exists>es. h' = h @ Executed bin # es \<and> list_all quiet es"
proof -
  obtain r0 where "command (Executed bin) v h = (h', r0)"
    using assms by (auto simp: compiled_metadata_def split: prod.splits sum.splits)
  then have "command_output v (h @ [Executed bin]) = (h', r0)" by (simp add: command_def run_then_def note_event_def)
  from addsD [OF quiet_output this] show ?thesis by auto
qed

text \<open>A history in which whatever is executed was trusted, and is executed once.\<close>

definition executes_trusted :: "release_env \<Rightarrow> bytes \<Rightarrow> bytes \<Rightarrow> event list \<Rightarrow> candidate res \<Rightarrow> bool" where
  "executes_trusted v base version h r \<longleftrightarrow>
     list_all quiet h \<and> \<not> is_ok r \<or>
     (\<exists>h1 es c. h = h1 @ Executed (c_binary c) # es \<and> list_all quiet (h1 @ es) \<and>
        trusted v h1 base version (c_metadata c) (c_binary c) (c_signature c) \<and> (is_ok r \<longrightarrow> r = Inr c))"

lemma acquire_candidate_executes:
  assumes run: "acquire_candidate (v_os v @ ''_'' @ v_arch v) vn base (platformAssets (v_os v @ ''_'' @ v_arch v)) v h = (h', r)"
    and fresh: "list_all quiet h"
  shows "executes_trusted v base vn h' r"
proof -
  let ?prepare = "prepare_candidate (v_os v @ ''_'' @ v_arch v) vn base (platformAssets (v_os v @ ''_'' @ v_arch v))"
  obtain h1 r1 where p: "?prepare v h = (h1, r1)" by (cases "?prepare v h")
  with addsD [OF quiet_prepare] obtain es where "h1 = h @ es" "list_all quiet es" by blast
  with fresh have q: "list_all quiet h1" by simp
  show ?thesis
  proof (cases r1)
    case (Inl e)
    with run p q show ?thesis by (auto simp: acquire_candidate_def run_then_def executes_trusted_def)
  next
    case (Inr c)
    obtain h2 r2 where k: "compiled_metadata (c_binary c) v h1 = (h2, r2)" by (cases "compiled_metadata (c_binary c) v h1")
    then obtain es2 where "h2 = h1 @ Executed (c_binary c) # es2" "list_all quiet es2" using compiled_metadata_run by blast
    moreover have "h' = h2 \<and> (is_ok r \<longrightarrow> r = Inr c)"
      using run p k Inr by (auto simp: acquire_candidate_def run_then_def run_fail_def run_return_def split: sum.splits if_splits)
    ultimately show ?thesis
      using prepare_candidate_Inr [of v vn base h h1 c] p q Inr
      unfolding executes_trusted_def by (intro disjI2 exI [of _ h1] exI [of _ es2] exI [of _ c]) simp
  qed
qed

section \<open>Latest\<close>

lemma executes_trusted_append:
  assumes "executes_trusted v base vn h r" and "list_all quiet es" and "is_ok r' \<Longrightarrow> r' = r"
  shows "executes_trusted v base vn (h @ es) r'"
  using assms(1) unfolding executes_trusted_def
proof (elim disjE exE conjE)
  fix h1 es1 c
  assume "h = h1 @ Executed (c_binary c) # es1" "list_all quiet (h1 @ es1)"
    "trusted v h1 base vn (c_metadata c) (c_binary c) (c_signature c)" "is_ok r \<longrightarrow> r = Inr c"
  then show "list_all quiet (h @ es) \<and> \<not> is_ok r' \<or>
      (\<exists>h1 es' c. h @ es = h1 @ Executed (c_binary c) # es' \<and> list_all quiet (h1 @ es') \<and>
        trusted v h1 base vn (c_metadata c) (c_binary c) (c_signature c) \<and> (is_ok r' \<longrightarrow> r' = Inr c))"
    using assms(2,3) by (intro disjI2 exI [of _ h1] exI [of _ "es1 @ es"] exI [of _ c]) auto
qed (use assms(2,3) in auto)

lemma ctx_error_run: "ctx_error v h = (h @ [Context], Inr (v_context v (h @ [Context])))"
  by (simp add: ctx_error_def run_then_def note_event_def inquire_def)

lemma with_staging_executes:
  assumes "\<And>h' r. m v h = (h', r) \<Longrightarrow> executes_trusted v base vn h' r" and "with_staging m v h = (h', r)"
  shows "executes_trusted v base vn h' r"
proof -
  obtain h1 r1 where m: "m v h = (h1, r1)" by (cases "m v h")
  then have "h' = h1 @ [Removed] \<and> r = r1 \<or> h' = h1 @ [Context] \<and> r = r1 \<or> h' = h1 @ [Context, Removed] \<and> r = r1"
    using assms(2) by (auto simp: with_staging_def ctx_error_run split: sum.splits option.splits)
  then show ?thesis using executes_trusted_append [OF assms(1) [OF m], of _ r1] by auto
qed

lemma unless_cancelled_cases:
  assumes "unless_cancelled m v h = (h', r)"
  obtains h1 r1 where "m v h = (h1, r1)" and "h' = h1 @ [Context]" and "is_ok r \<Longrightarrow> r = r1"
proof -
  obtain h1 r1 where "m v h = (h1, r1)" by (cases "m v h")
  with assms that show ?thesis by (auto simp: unless_cancelled_def ctx_error_run split: option.splits)
qed

lemma executes_nothing: "list_all quiet h \<Longrightarrow> executes_trusted v base vn h (Inl e)"
  by (simp add: executes_trusted_def)

lemma release_version_Some:
  "release_version older current r = Some version \<Longrightarrow>
     rel_tag r = ''v'' @ version \<and> stable version \<and> \<not> (stable current \<and> older version current)"
  by (auto simp: release_version_def Let_def split: if_splits)

lemma latest_body_executes:
  assumes run: "latest_body current v [] = (h, r)"
  shows "list_all quiet h \<and> \<not> is_ok r \<or>
    (\<exists>version. stable version \<and> \<not> (stable current \<and> v_older v version current) \<and>
      executes_trusted v (download_base (''v'' @ version)) version h r)"
proof -
  let ?pf = "v_os v @ ''_'' @ v_arch v"
  let ?names = "platformAssets ?pf"
  obtain h1 r1 where f: "fetch api_address 1048576 v [] = (h1, r1)" by (cases "fetch api_address 1048576 v []")
  with addsD [OF quiet_parts(2)] have q1: "list_all quiet h1" by fastforce
  show ?thesis
  proof (cases r1)
    case (Inl e)
    with run f q1 show ?thesis by (auto simp: latest_body_def run_then_def Let_def)
  next
    case (Inr api)
    show ?thesis
    proof (cases "release_of api")
      case (Some rel)
      show ?thesis
      proof (cases "release_version (v_older v) current rel")
        case (Some version)
        note version = release_version_Some [OF this]
        let ?go = "with_staging (acquire_candidate ?pf version (download_base (rel_tag rel)) ?names)"
        have "h = h1 \<and> \<not> is_ok r \<or> ?go v h1 = (h, r)"
          using run f Inr \<open>release_of api = Some rel\<close> Some
          by (auto simp: latest_body_def run_then_def Let_def run_fail_def disk_ok_def require_that_def split: if_splits)
        moreover have "executes_trusted v (download_base (''v'' @ version)) version h r" if "?go v h1 = (h, r)"
          using with_staging_executes [OF _ that] acquire_candidate_executes [OF _ q1] version by simp
        ultimately show ?thesis using q1 version by blast
      qed (use run f Inr q1 \<open>release_of api = Some rel\<close> in \<open>auto simp: latest_body_def run_then_def Let_def run_fail_def\<close>)
    qed (use run f Inr q1 in \<open>auto simp: latest_body_def run_then_def Let_def run_fail_def\<close>)
  qed
qed

text \<open>
  C4.  Whatever happens on the network, on the disk and to the context, at most one program
  of a release is started, and only after everything about it was checked: the version is
  stable, not older than the running one, and the one its tag, its metadata and every address
  name; metadata and executable arrived whole and have the digests of the checksum list of
  that very release; and the executable is authentic, signed on Linux by the embedded key and
  elsewhere checked by the system.  A candidate that is returned is that program.
\<close>

theorem Latest_runs_only_trusted:
  assumes "Latest current v [] = (h, r)"
  shows "list_all quiet h \<and> \<not> is_ok r \<or>
    (\<exists>version h1 es c. stable version \<and> \<not> (stable current \<and> v_older v version current) \<and>
       h = h1 @ Executed (c_binary c) # es \<and> list_all quiet (h1 @ es) \<and>
       trusted v h1 (download_base (''v'' @ version)) version (c_metadata c) (c_binary c) (c_signature c) \<and>
       (is_ok r \<longrightarrow> r = Inr c))"
proof -
  obtain h2 r2 where body: "latest_body current v [] = (h2, r2)" and h: "h = h2 @ [Context]" and r: "is_ok r \<Longrightarrow> r = r2"
    using unless_cancelled_cases [OF assms [unfolded Latest_def]] by blast
  show ?thesis
  proof (cases "list_all quiet h2 \<and> \<not> is_ok r2")
    case True
    with h r show ?thesis by auto
  next
    case False
    with latest_body_executes [OF body] obtain version where
      "stable version" "\<not> (stable current \<and> v_older v version current)"
      "executes_trusted v (download_base (''v'' @ version)) version h2 r2" by blast
    moreover from executes_trusted_append [OF this(3), of "[Context]" r] r
    have "executes_trusted v (download_base (''v'' @ version)) version h r" by (simp add: h)
    ultimately show ?thesis unfolding executes_trusted_def by blast
  qed
qed

text \<open>
  The staging is closed by a deferred call that looks at the context, and the result is decided
  by another that looks again: a context cancelled in between leaves the staged files behind.
\<close>

lemma late_cancellation_keeps_staging:
  assumes "latest_body current v [] = (h, Inr c)" and "Removed \<notin> set h" and "v_context v (h @ [Context]) = Some err"
  shows "Latest current v [] = (h @ [Context], Inl err)" and "Removed \<notin> set (h @ [Context])"
  using assms by (simp_all add: Latest_def unless_cancelled_def ctx_error_run)

section \<open>A run\<close>

definition ex_digest :: bytes where
  "ex_digest = hex_text (replicate 32 (CHR 0xAA))"

lemma ex_digest_set: "set ex_digest = {CHR ''a''}"
  by (auto simp: ex_digest_def hex_text_def hex_digit_def char_of_eq_iff)

definition ex_metadata :: metadata where
  "ex_metadata = \<lparr>m_format = 1, m_version = ''1.0.0'', m_platform = ''darwin_arm64'', m_macos = ''15.0'', m_glibc = [],
     m_store = 1, m_inventory = 1\<rparr>"

definition ex_base :: bytes where
  "ex_base = ''https://github.com/swqa7697/data-mate/releases/download/v1.0.0/''"

definition ex_asset :: "bytes \<Rightarrow> jval" where
  "ex_asset n = JObj [(''name'', JStr n), (''browser_download_url'', JStr (ex_base @ n))]"

definition ex_names :: releaseAssets where
  "ex_names = platformAssets ''darwin_arm64''"

definition ex_api :: jval where
  "ex_api = JObj [(''tag_name'', JStr ''v1.0.0''), (''assets'', JArr (map ex_asset (all_assets ex_names)))]"

definition ex_release :: release where
  "ex_release = no_release\<lparr>rel_tag := ''v1.0.0'', rel_assets := map (\<lambda>n. (n, ex_base @ n)) (all_assets ex_names)\<rparr>"

lemmas ex_names_simps = ex_names_def platformAssets_def all_assets_def hashed_def

lemma ex_api_length: "length (marshal ex_api) \<le> 1048576" and ex_api_put: "release_of (marshal ex_api) = Some ex_release"
proof -
  have p: "printable ex_api"
    by (simp add: ex_api_def ex_asset_def ex_names_simps ex_base_def utf8_valid_ascii del: utf8_valid.simps)
  have "nests 4 ex_api" "dup_free ex_api"
    by (simp_all add: ex_api_def ex_asset_def ex_names_simps numeral_eq_Suc)
  then have n: "nests 64 ex_api" "dup_free ex_api" by (auto elim: nests_mono)
  have "json_size ex_api \<le> 1048576"
    by (simp add: ex_api_def ex_asset_def ex_names_simps ex_base_def)
  then show l: "length (marshal ex_api) \<le> 1048576" by (rule order_trans [OF length_marshal])
  have "put_all put_release [(''tag_name'', JStr ''v1.0.0''), (''assets'', JArr (map ex_asset (all_assets ex_names)))] no_release = Some ex_release"
    by (simp add: put_release_def ex_asset_def put_asset_def find_field_def asset_of_def put_str_def ex_release_def ex_names_simps no_release_def)
  then show "release_of (marshal ex_api) = Some ex_release"
    using checkJSON_marshal [OF p n] l by (simp add: release_of_def JSON_accepts [THEN iffD2] ex_api_def)
qed

lemma ex_digest_ok: "fingerprint_ok ex_digest"
  unfolding ex_digest_def by (rule fingerprint_hex) simp

lemma ex_checksum_line: "n \<in> set (hashed ex_names) \<Longrightarrow> checksum_line ex_names (ex_digest @ ''  '' @ n) = Some (n, ex_digest)"
  unfolding checksum_line_def by (subst cut_blanks_line) (simp_all only: ex_digest_ok ex_digest_set option.case prod.case, auto)

definition ex_sums :: bytes where
  "ex_sums = unlines (map (\<lambda>n. ex_digest @ ''  '' @ n) (hashed ex_names))"

lemma ex_checksums: "checksumsFor ex_sums ex_names = Inr (map (\<lambda>n. (n, ex_digest)) (hashed ex_names))"
proof -
  have d: "distinct (hashed ex_names)" and n: "\<forall>n \<in> set (hashed ex_names). newline \<notin> set n"
    by (simp_all add: ex_names_simps newline_def)
  then have "split_lines (trim_suffix ex_sums [newline]) = map (\<lambda>n. ex_digest @ ''  '' @ n) (hashed ex_names)"
    unfolding ex_sums_def by (intro split_trimmed) (auto simp: hashed_def ex_digest_set newline_def)
  moreover have "map (checksum_line ex_names) (map (\<lambda>n. ex_digest @ ''  '' @ n) (hashed ex_names)) =
      map Some (map (\<lambda>n. (n, ex_digest)) (hashed ex_names))"
    unfolding map_map comp_def by (rule map_cong [OF refl]) (rule ex_checksum_line)
  then have "collect (checksum_line ex_names) (map (\<lambda>n. ex_digest @ ''  '' @ n) (hashed ex_names)) [] =
      Inr (map (\<lambda>n. (n, ex_digest)) (hashed ex_names))"
    using d by (subst collect_iff) (simp_all add: comp_def)
  ultimately show ?thesis by (simp add: checksumsFor_def)
qed
lemma ex_lines: "collect metadata_line (split_lines (butlast (Text ex_metadata))) [] = Inr (text_fields ex_metadata)"
  by code_simp
lemma ex_valid: "valid ex_metadata" "metadata_of (text_fields ex_metadata) = ex_metadata"
  by code_simp+
lemma ex_bytes: "list_all (\<lambda>c. c = newline \<or> in_range 32 126 c) (Text ex_metadata)" "last (Text ex_metadata) = newline" "Text ex_metadata \<noteq> []"
  by code_simp+
lemma ex_text_length: "length (Text ex_metadata) \<le> 4096" by code_simp


definition metadata_json :: "metadata \<Rightarrow> jval" where
  "metadata_json m =
     JObj ([(''format'', jint (m_format m)), (''version'', JStr (m_version m)), (''platform'', JStr (m_platform m))] @
       omitempty ''minimum_macos'' (m_macos m) @ omitempty ''minimum_glibc'' (m_glibc m) @
       [(''store_schema'', jint (m_store m)), (''inventory_schema'', jint (m_inventory m))])"

lemma ex_parsed: "ParseMetadata (Text ex_metadata) = Inr ex_metadata"
  using ex_lines ex_valid ex_bytes ex_text_length by (simp add: ParseMetadata_def metadata_bytes_def text_fields_def [of ex_metadata])

definition ex_output :: bytes where
  "ex_output = marshal (metadata_json ex_metadata)"

lemma ex_compiled: "DecodeStrict metadata_tags compiled_of ex_output 4096 = Inr ex_metadata" and ex_output_length: "length ex_output \<le> 4096"
proof -
  define ms where "ms = [(''format'', JNum ''1''), (''version'', JStr ''1.0.0''), (''platform'', JStr ''darwin_arm64''),
    (''minimum_macos'', JStr ''15.0''), (''store_schema'', JNum ''1''), (''inventory_schema'', JNum ''1'')]"
  have j: "metadata_json ex_metadata = JObj ms"
    by (simp add: metadata_json_def ex_metadata_def ms_def omitempty_def jint_def show_int_def show_nat.simps [of "Suc 0"] char_of_eq_iff)
  have one: "lex_number ''1'' = Some (''1'', [])" by code_simp
  have "json_size (JObj ms) \<le> 4096" by (simp add: ms_def)
  then show l: "length ex_output \<le> 4096" unfolding ex_output_def j by (rule order_trans [OF length_marshal])
  have "printable (JObj ms)" by (simp add: ms_def one utf8_valid_ascii del: utf8_valid.simps)
  moreover have "nests 1 (JObj ms)" by (simp add: ms_def)
  then have "nests 64 (JObj ms)" by (rule nests_mono) simp
  moreover have "dup_free (JObj ms)" "\<not> containsNull (JObj ms)" "\<not> missing_member metadata_tags ms"
    by (simp_all add: ms_def missing_member_def metadata_tags_def)
  moreover have "ParseInt ''1'' 64 = Some 1" by code_simp
  then have "compiled_of (JObj ms) = Some ex_metadata"
    by (simp add: ms_def compiled_of_def put_metadata_def metadata_tags_def find_field_def put_int_def put_str_def no_metadata_def ex_metadata_def)
  ultimately show "DecodeStrict metadata_tags compiled_of ex_output 4096 = Inr ex_metadata"
    unfolding ex_output_def j using l by (intro DecodeStrict_marshal [OF refl]) (simp_all add: ex_output_def j)
qed

definition ex_env :: release_env where
  "ex_env =
     \<lparr>v_os = ''darwin'', v_arch = ''arm64'', v_allowed = (\<lambda>_. True),
      v_answer = (\<lambda>h. case last h of
          Fetched a n \<Rightarrow>
            Some \<lparr>r_status = 200, r_declared = - 1,
              r_body = (if a = api_address then marshal ex_api
                else if a = ex_base @ ''release.txt'' then Text ex_metadata
                else if a = ex_base @ ''SHA256SUMS'' then ex_sums else ''program''), r_broken = False\<rparr>
        | _ \<Rightarrow> None),
      v_disk = (\<lambda>_ _. True), v_context = (\<lambda>_. None),
      v_command = (\<lambda>h. if last h = Codesign then Some [] else Some ex_output),
      v_sha = (\<lambda>_. ex_digest), v_key = False, v_rsa = (\<lambda>_ _. False), v_older = (\<lambda>_ _. False)\<rparr>"

definition ex_body :: "bytes \<Rightarrow> bytes" where
  "ex_body a = r_body (the (v_answer ex_env [Fetched a 0]))"

lemma ex_fetch: "length (ex_body a) \<le> n \<Longrightarrow> fetch a n ex_env h = (h @ [Fetched a n], Inr (ex_body a))"
  by (simp add: fetch_def run_then_def require_that_def note_event_def inquire_def run_return_def Let_def ex_env_def ex_body_def)

lemma ex_bodies:
  "ex_body api_address = marshal ex_api" "ex_body (ex_base @ ''release.txt'') = Text ex_metadata"
  "ex_body (ex_base @ ''SHA256SUMS'') = ex_sums" "ex_body (ex_base @ ''data-mate_darwin_arm64'') = ''program''"
  by (simp_all add: ex_body_def ex_env_def api_address_def ex_base_def)


lemmas ex_steps = run_then_def run_return_def run_fail_def note_event_def inquire_def require_that_def disk_ok_def stage_def

abbreviation ex_hashes :: "(bytes \<times> bytes) list" where
  "ex_hashes \<equiv> map (\<lambda>n. (n, ex_digest)) (hashed ex_names)"

lemma ex_field: "n \<in> set (hashed ex_names) \<Longrightarrow> field ex_hashes n = ex_digest"
  by (auto simp: field_def map_of_eq_None_iff image_image split: option.split dest!: map_of_SomeD)

lemma ex_text: "length (Text ex_metadata) \<le> 4096"
  using ex_text_length .

lemma ex_sums_length: "length ex_sums \<le> 65536"
  by (simp add: ex_sums_def unlines_def ex_names_simps ex_digest_def)

lemma ex_manifest: "acquire_manifest ''darwin_arm64'' ''1.0.0'' ex_base ex_names ex_env h =
    (h @ [Fetched (ex_base @ ''release.txt'') 4096, Fetched (ex_base @ ''SHA256SUMS'') 65536], Inr (ex_metadata, ex_hashes))"
proof -
  have n: "a_metadata ex_names = ''release.txt''" "a_sums ex_names = ''SHA256SUMS''" "''release.txt'' \<in> set (hashed ex_names)"
    by (simp_all add: ex_names_simps)
  have m: "m_version ex_metadata = ''1.0.0''" "m_platform ex_metadata = ''darwin_arm64''" "v_sha ex_env = (\<lambda>_. ex_digest)"
    by (simp_all add: ex_metadata_def ex_env_def)
  show ?thesis
    unfolding acquire_manifest_def n(1,2) run_then_def
    by (simp add: ex_fetch ex_bodies ex_text ex_sums_length ex_parsed ex_checksums m ex_field [OF n(3)] require_that_def run_return_def)
qed

lemma ex_binary: "\<exists>h'. acquire_binary ex_base ex_names ex_hashes ex_env h = (h', Inr ''program'')"
proof -
  have n: "a_binary ex_names = ''data-mate_darwin_arm64''" "''data-mate_darwin_arm64'' \<in> set (hashed ex_names)"
    by (simp_all add: ex_names_simps)
  have m: "v_sha ex_env = (\<lambda>_. ex_digest)" "v_disk ex_env = (\<lambda>_ _. True)" by (simp_all add: ex_env_def)
  have "length (ex_body (ex_base @ ''data-mate_darwin_arm64'')) \<le> MaxBinary" by (simp add: ex_bodies MaxBinary_def)
  from ex_fetch [OF this] show ?thesis
    unfolding acquire_binary_def n(1) by (simp add: ex_steps ex_bodies m ex_field [OF n(2)])
qed

lemma ex_verified: "\<exists>h'. VerifyNative ex_metadata ''program'' [] ex_env h = (h', Inr ())"
proof -
  have "v_os ex_env = ''darwin''" "v_arch ex_env = ''arm64''" "m_platform ex_metadata = ''darwin_arm64''" "v_context ex_env = (\<lambda>_. None)"
    "v_command ex_env (h' @ [Codesign]) = Some []" for h'
    by (simp_all add: ex_env_def ex_metadata_def)
  then show ?thesis
    using ex_valid(1) by (simp add: VerifyNative_def VerifyNative_darwin_def command_def command_output_def ctx_error_def ex_steps)
qed

definition ex_candidate :: candidate where
  "ex_candidate = \<lparr>c_binary = ''program'', c_signature = [], c_metadata = ex_metadata\<rparr>"

lemma ex_acquired: "\<exists>h'. acquire_candidate ''darwin_arm64'' ''1.0.0'' ex_base ex_names ex_env h = (h', Inr ex_candidate)"
proof -
  have s: "acquire_signature ex_base ex_names ex_hashes ex_env h' = (h', Inr [])" for h'
    by (simp add: acquire_signature_def ex_names_simps run_return_def)
  obtain h1 where 1: "acquire_binary ex_base ex_names ex_hashes ex_env
      (h @ [Fetched (ex_base @ ''release.txt'') 4096, Fetched (ex_base @ ''SHA256SUMS'') 65536]) = (h1, Inr ''program'')"
    using ex_binary by blast
  obtain h2 where 2: "VerifyNative ex_metadata ''program'' [] ex_env h1 = (h2, Inr ())" using ex_verified by blast
  have "v_command ex_env (h2 @ [Executed ''program'']) = Some ex_output" by (simp add: ex_env_def)
  then have "compiled_metadata ''program'' ex_env h2 = (h2 @ [Executed ''program''], Inr ex_metadata)"
    using ex_output_length by (simp add: compiled_metadata_def command_def command_output_def ex_steps ex_compiled)
  then show ?thesis
    using ex_manifest 1 2 s by (simp add: acquire_candidate_def prepare_candidate_def run_then_def run_return_def ex_candidate_def)
qed

lemma ex_latest: "\<exists>h. Latest ''0.9.0'' ex_env [] = (h, Inr ex_candidate)"
proof -
  have pf: "v_os ex_env @ ''_'' @ v_arch ex_env = ''darwin_arm64''" and v: "v_older ex_env = (\<lambda>_ _. False)" "v_context ex_env = (\<lambda>_. None)"
      "v_disk ex_env = (\<lambda>_ _. True)"
    by (simp_all add: ex_env_def)
  have f: "fetch api_address 1048576 ex_env [] = ([Fetched api_address 1048576], Inr (marshal ex_api))"
    using ex_fetch [of api_address 1048576 "[]"] by (simp add: ex_bodies ex_api_length)
  have st: "stable ''1.0.0''" by code_simp
  then have ver: "release_version (v_older ex_env) ''0.9.0'' ex_release = Some ''1.0.0''"
    by (simp add: release_version_def ex_release_def no_release_def v(1) Let_def has_prefix_def)
  have base: "download_base (rel_tag ex_release) = ex_base" by (simp add: ex_release_def no_release_def download_base_def ex_base_def)
  have pin: "assets_pinned ex_base ex_names (rel_assets ex_release)"
    by (simp add: assets_pinned_def ex_release_def no_release_def ex_names_simps field_def)
  obtain h1 where "acquire_candidate ''darwin_arm64'' ''1.0.0'' ex_base ex_names ex_env [Fetched api_address 1048576] = (h1, Inr ex_candidate)"
    using ex_acquired by blast
  then have "latest_body ''0.9.0'' ex_env [] = (h1 @ [Context], Inr ex_candidate)"
    unfolding latest_body_def Let_def pf ex_names_def [symmetric]
    by (simp add: run_then_def f ex_api_put ver base pin v(2,3) disk_ok_def require_that_def with_staging_def ctx_error_run)
  then show ?thesis by (simp add: Latest_def unless_cancelled_def ctx_error_run v)
qed

theorem Latest_runs_only_trusted_witness:
  "\<exists>h h1 es. Latest ''0.9.0'' ex_env [] = (h, Inr ex_candidate) \<and> h = h1 @ Executed ''program'' # es \<and> list_all quiet (h1 @ es) \<and>
     trusted ex_env h1 (download_base ''v1.0.0'') ''1.0.0'' ex_metadata ''program'' []"
proof -
  obtain h where h: "Latest ''0.9.0'' ex_env [] = (h, Inr ex_candidate)" using ex_latest by blast
  from Latest_runs_only_trusted [OF h] obtain version h1 es where
    "h = h1 @ Executed ''program'' # es" "list_all quiet (h1 @ es)"
    and t: "trusted ex_env h1 (download_base (''v'' @ version)) version ex_metadata ''program'' []"
    by (auto simp: ex_candidate_def)
  moreover have "version = ''1.0.0''" using t by (simp add: trusted_def Let_def ex_metadata_def)
  ultimately show ?thesis using h by auto
qed

end
