(* ===== verification/Shell_Blocks.thy ===== *)
theory Shell_Blocks
  imports Release_Text
begin

text \<open>
  The block a shell startup file carries for the installation (distribution/shell.go): how a
  file's text is changed, which files are touched, and what the block says.  Reading a startup
  file and telling whether one exists are arguments; writing is \<open>writeAtomic\<close>'s.
\<close>

section \<open>Searching text\<close>

text \<open>\<open>strings.Index\<close>, \<open>strings.Contains\<close> and \<open>strings.Count\<close>.\<close>

fun index_of :: "bytes \<Rightarrow> bytes \<Rightarrow> nat option" where
  "index_of p [] = (if p = [] then Some 0 else None)"
| "index_of p (c # s) = (if has_prefix (c # s) p then Some 0 else map_option Suc (index_of p s))"

definition contains :: "bytes \<Rightarrow> bytes \<Rightarrow> bool" where
  "contains s p \<longleftrightarrow> index_of p s \<noteq> None"

function count_of :: "bytes \<Rightarrow> bytes \<Rightarrow> nat" where
  "count_of p [] = 0"
| "count_of p (c # s) = (if p \<noteq> [] \<and> has_prefix (c # s) p then Suc (count_of p (drop (length p) (c # s))) else count_of p s)"
  by pat_completeness auto
termination by (relation "measure (\<lambda>(p, s). length s)") auto

section \<open>Quoting and paths\<close>

definition Quote :: "bytes \<Rightarrow> bytes" where
  "Quote s = [CHR 0x27] @ concat (map (\<lambda>c. if c = CHR 0x27 then [CHR 0x27, CHR 0x22, CHR 0x27, CHR 0x22, CHR 0x27] else [c]) s) @ [CHR 0x27]"

text \<open>\<open>filepath.Clean\<close> of an absolute path, and \<open>filepath.Join\<close> onto one.\<close>

fun clean_parts :: "bytes list \<Rightarrow> bytes list \<Rightarrow> bytes list" where
  "clean_parts out [] = out"
| "clean_parts out (x # xs) =
     (if x = [] \<or> x = ''.'' then clean_parts out xs
      else if x = ''..'' then clean_parts (butlast out) xs
      else clean_parts (out @ [x]) xs)"

definition clean_path :: "bytes \<Rightarrow> bytes" where
  "clean_path p =
     (let parts = clean_parts [] (split_at (CHR ''/'') p) in
      if parts = [] then ''/'' else concat (map (\<lambda>x. CHR ''/'' # x) parts))"

definition join_path :: "bytes \<Rightarrow> bytes list \<Rightarrow> bytes" where
  "join_path d xs = clean_path (d @ concat (map (\<lambda>x. CHR ''/'' # x) xs))"

definition path_base :: "bytes \<Rightarrow> bytes" where
  "path_base p = last (split_at (CHR ''/'') p)"

definition validShellPath :: "bytes \<Rightarrow> bool" where
  "validShellPath path \<longleftrightarrow>
     has_prefix path ''/'' \<and> clean_path path = path \<and>
     path_base path \<in> {''.bashrc'', ''.bash_profile'', ''.bash_login'', ''.profile'', ''.zshrc''}"

section \<open>The block\<close>

definition open_mark :: bytes where "open_mark = ''# >>> Data Mate''"
definition close_mark :: bytes where "close_mark = ''# <<< Data Mate''"
definition blockStart :: bytes where "blockStart = open_mark @ '' >>>'' @ [newline]"
definition blockEnd :: bytes where "blockEnd = close_mark @ '' <<<'' @ [newline]"

definition ambiguous :: goerr where
  "ambiguous = Other ''ambiguous Data Mate shell markers; startup file preserved''"

definition line_start :: "bytes \<Rightarrow> nat \<Rightarrow> bool" where
  "line_start s i \<longleftrightarrow> i = 0 \<or> s ! (i - 1) = newline"

definition replaceBlock :: "bytes \<Rightarrow> bytes \<Rightarrow> bytes res" where
  "replaceBlock s block =
     (if \<not> contains s open_mark \<and> \<not> contains s close_mark then
        (let s = (if block \<noteq> [] \<and> s \<noteq> [] \<and> \<not> has_suffix s [newline] then s @ [newline] else s) in Inr (s @ block))
      else
        (case (index_of blockStart s, index_of blockEnd s) of
           (Some i, Some j) \<Rightarrow>
             if j < i \<or> \<not> line_start s i \<or> count_of open_mark s \<noteq> 1 \<or> count_of close_mark s \<noteq> 1 \<or> \<not> line_start s j
             then Inl ambiguous
             else Inr (take i s @ block @ drop (j + length blockEnd) s)
         | _ \<Rightarrow> Inl ambiguous))"

section \<open>The files of a shell\<close>

record shell_engine =
  e_home :: bytes
  e_root :: bytes
  e_shell :: bytes
  e_zdotdir :: bytes
  e_noshell :: bool

record shell_block =
  b_path :: bytes
  b_text :: bytes
  b_created :: bool

definition fresh_block :: "bytes \<Rightarrow> shell_block" where
  "fresh_block path = \<lparr>b_path = path, b_text = [], b_created = False\<rparr>"

text \<open>What opening a file gives, and whether its name exists (a dangling link does).\<close>

datatype startup = Absent | Startup bytes nat | Unreadable goerr

record shell_files =
  f_there :: "bytes \<Rightarrow> bool"
  f_open :: "bytes \<Rightarrow> startup"

definition readShell :: "shell_files \<Rightarrow> bytes \<Rightarrow> (bytes \<times> nat) res" where
  "readShell fs path =
     (case f_open fs path of
        Absent \<Rightarrow> Inr ([], 0x180)
      | Unreadable e \<Rightarrow> Inl e
      | Startup raw mode \<Rightarrow>
          if length raw > 1048576 then Inl (Other (''shell startup file '' @ path @ '' is too large'')) else Inr (raw, mode))"

definition script_body :: "shell_engine \<Rightarrow> bytes" where
  "script_body e =
     (let script = Quote (join_path (e_root e) [''shell'', ''loader.'' @ e_shell e]) in
      ''[ ! -r '' @ script @ '' ] || source '' @ script @ [newline])"

definition script_block :: "shell_engine \<Rightarrow> bytes" where
  "script_block e = blockStart @ script_body e @ blockEnd"

definition login_path :: "shell_files \<Rightarrow> bytes \<Rightarrow> bytes" where
  "login_path fs home =
     (case List.find (f_there fs) (map (\<lambda>n. join_path home [n]) [''.bash_profile'', ''.bash_login'', ''.profile'']) of
        Some p \<Rightarrow> p
      | None \<Rightarrow> join_path home [''.bash_profile''])"

definition shell_paths :: "shell_files \<Rightarrow> shell_engine \<Rightarrow> bytes list res" where
  "shell_paths fs e =
     (if e_shell e \<noteq> ''bash'' \<and> e_shell e \<noteq> ''zsh'' then Inl (Other ''shell integration unavailable'')
      else if e_shell e = ''zsh'' then
        (if e_zdotdir e \<noteq> [] \<and> \<not> has_prefix (e_zdotdir e) ''/'' then Inl (Other ''ZDOTDIR must be an absolute path'')
         else Inr [join_path (if e_zdotdir e \<noteq> [] then e_zdotdir e else e_home e) [''.zshrc'']])
      else Inr [join_path (e_home e) [''.bashrc''], login_path fs (e_home e)])"

text \<open>One planned change: the new text of a file, or a warning that leaves it alone.\<close>

definition plan_change :: "shell_files \<Rightarrow> bytes \<Rightarrow> bytes \<Rightarrow> (bytes \<times> bytes \<times> nat) res" where
  "plan_change fs block path =
     (case readShell fs path of
        Inl e \<Rightarrow> Inl e
      | Inr (raw, mode) \<Rightarrow> (case replaceBlock raw block of Inl e \<Rightarrow> Inl e | Inr t \<Rightarrow> Inr (path, t, mode)))"

definition record_block :: "bytes \<Rightarrow> shell_block list \<Rightarrow> shell_block list" where
  "record_block path blocks =
     (if \<exists>b \<in> set blocks. b_path b = path
      then map (\<lambda>b. if b_path b = path then fresh_block path else b) blocks else blocks @ [fresh_block path])"

fun plan_changes :: "shell_files \<Rightarrow> bytes \<Rightarrow> bytes list \<Rightarrow> shell_block list \<Rightarrow>
    goerr list \<times> (bytes \<times> bytes \<times> nat) list \<times> shell_block list" where
  "plan_changes fs block [] blocks = ([], [], blocks)"
| "plan_changes fs block (p # ps) blocks =
     (case plan_change fs block p of
        Inl e \<Rightarrow> (case plan_changes fs block ps blocks of (ws, cs, bs) \<Rightarrow> (e # ws, cs, bs))
      | Inr ch \<Rightarrow> (case plan_changes fs block ps (record_block p blocks) of (ws, cs, bs) \<Rightarrow> (ws, ch # cs, bs)))"

text \<open>\<open>shellChanges\<close>: warnings, changes and the recorded blocks, or an error and the old ones.\<close>

definition shellChanges :: "shell_files \<Rightarrow> shell_engine \<Rightarrow> shell_block list \<Rightarrow>
    (goerr list \<times> (bytes \<times> bytes \<times> nat) list \<times> shell_block list) res" where
  "shellChanges fs e old =
     (if e_noshell e then Inr ([], [], old)
      else (case shell_paths fs e of Inl err \<Rightarrow> Inl err | Inr ps \<Rightarrow> Inr (plan_changes fs (script_block e) ps old)))"

text \<open>
  \<open>removeShell\<close>: the warnings and the files it leaves; \<open>fails\<close> tells which file cannot be
  written.
\<close>

definition remove_block :: "(bytes \<Rightarrow> goerr option) \<Rightarrow> bytes \<Rightarrow> shell_files \<Rightarrow> goerr list \<times> shell_files" where
  "remove_block fails path fs =
     (if \<not> validShellPath path then ([Other (''ignored invalid shell cleanup path '' @ path)], fs)
      else
        (case readShell fs path of
           Inl e \<Rightarrow> ([e], fs)
         | Inr (raw, mode) \<Rightarrow>
             (case replaceBlock raw [] of
                Inl e \<Rightarrow> ([e], fs)
              | Inr t \<Rightarrow>
                  if t = raw then ([], fs)
                  else
                    (case fails path of
                       Some e \<Rightarrow> ([e], fs)
                     | None \<Rightarrow> ([], fs\<lparr>f_there := (f_there fs)(path := True), f_open := (f_open fs)(path := Startup t mode)\<rparr>)))))"

fun removeShell :: "(bytes \<Rightarrow> goerr option) \<Rightarrow> shell_block list \<Rightarrow> shell_files \<Rightarrow> goerr list \<times> shell_files" where
  "removeShell fails [] fs = ([], fs)"
| "removeShell fails (b # bs) fs =
     (case remove_block fails (b_path b) fs of
        (ws, fs') \<Rightarrow> (case removeShell fails bs fs' of (ws', fs'') \<Rightarrow> (ws @ ws', fs'')))"

section \<open>Occurrences\<close>

text \<open>Text that ends a line, or is empty.\<close>

definition at_line :: "bytes \<Rightarrow> bool" where
  "at_line s \<longleftrightarrow> s = [] \<or> last s = newline"

lemma count_of_zero: "p \<noteq> [] \<Longrightarrow> count_of p s = 0 \<longleftrightarrow> index_of p s = None"
  by (induction s) auto

lemma index_of_Some: "index_of p s = Some i \<Longrightarrow> i \<le> length s \<and> has_prefix (drop i s) p"
  by (induction s arbitrary: i) (auto simp: has_prefix_def split: if_splits)

lemma index_of_split: "index_of p s = Some i \<Longrightarrow> s = take i s @ p @ drop (i + length p) s"
  using index_of_Some [of p s i] by (metis add.commute append_take_drop_id drop_drop has_prefix_def)

lemma prefix_length: "newline \<notin> set p \<Longrightarrow> at_line a \<Longrightarrow> a \<noteq> [] \<Longrightarrow> has_prefix a p \<Longrightarrow> length p < length a"
  by (elim has_prefixE, rename_tac t, case_tac "t = []") (auto simp: at_line_def dest: last_in_set)

lemma prefix_within_line:
  assumes "newline \<notin> set p" and "at_line a" and "a \<noteq> []"
  shows "has_prefix (a @ b) p \<longleftrightarrow> has_prefix a p"
proof (cases "length p \<le> length a")
  case False
  have "newline \<in> set a" using assms(2,3) last_in_set [of a] by (auto simp: at_line_def)
  moreover have "set a \<subseteq> set (take (length p) (a @ b))" using False by simp
  ultimately have "take (length p) (a @ b) \<noteq> p" using assms(1) by (metis subsetD)
  moreover have "\<not> has_prefix a p" using False by (auto elim!: has_prefixE)
  ultimately show ?thesis by (simp only: has_prefix_def simp_thms)
qed (simp add: has_prefix_def)

lemma at_line_drop: "at_line a \<Longrightarrow> at_line (drop n a)"
  by (cases "n < length a") (auto simp: at_line_def last_drop)

lemma count_of_append:
  assumes "newline \<notin> set p" and "p \<noteq> []" and "at_line a"
  shows "count_of p (a @ b) = count_of p a + count_of p b"
  using assms(3)
proof (induction a rule: length_induct)
  case (1 a)
  show ?case
  proof (cases a)
    case (Cons c s)
    note prefix = prefix_within_line [OF assms(1) "1.prems", of b]
    have short: "has_prefix a p \<Longrightarrow> length p < length a" using prefix_length [OF assms(1) "1.prems"] Cons by simp
    show ?thesis
    proof (cases "has_prefix a p")
      case True
      have "length (drop (length p) a) < length a" "at_line (drop (length p) a)"
        using Cons assms(2) "1.prems" by (auto intro: at_line_drop)
      then have "count_of p (drop (length p) a @ b) = count_of p (drop (length p) a) + count_of p b"
        using "1.IH" by blast
      moreover have "drop (length p) (a @ b) = drop (length p) a @ b" using True short by simp
      moreover have "count_of p (a @ b) = Suc (count_of p (drop (length p) (a @ b)))" "count_of p a = Suc (count_of p (drop (length p) a))"
        using True prefix Cons assms(2) by simp_all
      ultimately show ?thesis by simp
    next
      case False
      have "at_line s" using at_line_drop [OF "1.prems", of 1] Cons by simp
      then have "count_of p (s @ b) = count_of p s + count_of p b" using "1.IH" Cons by simp
      with False prefix Cons show ?thesis by simp
    qed
  qed simp
qed

text \<open>A marker line is found behind text that ends a line and does not hold its first words.\<close>

lemma index_of_behind:
  assumes "newline \<notin> set p" and "p \<noteq> []" and "count_of p a = 0" and "at_line a"
  shows "index_of (p @ q) (a @ (p @ q) @ r) = Some (length a)"
  using assms(3,4)
proof (induction a)
  case Nil
  have "has_prefix ((p @ q) @ r) (p @ q)" by (rule has_prefix_append)
  then show ?case using assms(2) by (cases p) simp_all
next
  case (Cons c s)
  have s: "at_line s" using at_line_drop [OF Cons.prems(2), of 1] by simp
  have "\<not> has_prefix (c # s) p" using Cons.prems(1) assms(2) by auto
  then have no: "\<not> has_prefix ((c # s) @ (p @ q) @ r) p"
    using prefix_within_line [OF assms(1) Cons.prems(2)] by blast
  have "\<not> has_prefix ((c # s) @ (p @ q) @ r) (p @ q)"
  proof
    assume "has_prefix ((c # s) @ (p @ q) @ r) (p @ q)"
    then obtain t where "(c # s) @ (p @ q) @ r = (p @ q) @ t" by (rule has_prefixE)
    then have "(c # s) @ (p @ q) @ r = p @ (q @ t)" by simp
    then show False using no has_prefix_append [of p "q @ t"] by simp
  qed
  moreover have "count_of p s = 0" using Cons.prems(1) \<open>\<not> has_prefix (c # s) p\<close> by simp
  ultimately show ?case using Cons.IH s by simp
qed

section \<open>What replacing a block does\<close>

definition unmarked :: "bytes \<Rightarrow> bool" where
  "unmarked s \<longleftrightarrow> \<not> contains s open_mark \<and> \<not> contains s close_mark"

definition full_line :: "bytes \<Rightarrow> bytes" where
  "full_line s = (if at_line s then s else s @ [newline])"

lemmas marks = open_mark_def close_mark_def blockStart_def blockEnd_def newline_def

lemma mark_facts:
  "newline \<notin> set open_mark" "open_mark \<noteq> []" "newline \<notin> set close_mark" "close_mark \<noteq> []"
  "at_line blockStart" "at_line blockEnd"
  "count_of open_mark blockStart = 1" "count_of open_mark blockEnd = 0"
  "count_of close_mark blockStart = 0" "count_of close_mark blockEnd = 1"
  by (simp_all add: marks at_line_def has_prefix_def)

lemma unmarked_count: "unmarked s \<longleftrightarrow> count_of open_mark s = 0 \<and> count_of close_mark s = 0"
  by (simp add: unmarked_def contains_def count_of_zero mark_facts)

lemma at_line_append: "at_line a \<Longrightarrow> at_line b \<Longrightarrow> at_line (a @ b)"
  by (cases "b = []") (auto simp: at_line_def)

lemma counts_marked:
  assumes "at_line pre" and "at_line body"
  shows "count_of open_mark (pre @ blockStart @ body @ blockEnd @ post) = Suc (count_of open_mark pre + count_of open_mark body + count_of open_mark post)"
    and "count_of close_mark (pre @ blockStart @ body @ blockEnd @ post) = Suc (count_of close_mark pre + count_of close_mark body + count_of close_mark post)"
  using assms by (simp_all add: count_of_append mark_facts)

lemma indices_marked:
  assumes "at_line pre" and "at_line body" and "unmarked pre" and "unmarked body"
  shows "index_of blockStart (pre @ blockStart @ body @ blockEnd @ post) = Some (length pre)"
    and "index_of blockEnd (pre @ blockStart @ body @ blockEnd @ post) = Some (length (pre @ blockStart @ body))"
proof -
  show "index_of blockStart (pre @ blockStart @ body @ blockEnd @ post) = Some (length pre)"
    using index_of_behind [of open_mark pre "'' >>>'' @ [newline]" "body @ blockEnd @ post"] assms
    by (simp add: mark_facts unmarked_count blockStart_def)
  have "at_line (pre @ blockStart @ body)" using assms mark_facts by (intro at_line_append)
  moreover have "count_of close_mark (pre @ blockStart @ body) = 0"
    using assms by (simp add: count_of_append mark_facts unmarked_count)
  ultimately show "index_of blockEnd (pre @ blockStart @ body @ blockEnd @ post) = Some (length (pre @ blockStart @ body))"
    using index_of_behind [of close_mark "pre @ blockStart @ body" "'' <<<'' @ [newline]" post]
    by (simp add: mark_facts blockEnd_def)
qed

lemma full_line_code: "(if s \<noteq> [] \<and> \<not> has_suffix s [newline] then s @ [newline] else s) = full_line s"
  by (cases s rule: rev_cases) (auto simp: full_line_def at_line_def has_suffix_def)

lemma line_start_at: "line_start (pre @ r) (length pre) \<longleftrightarrow> at_line pre"
  by (cases pre rule: rev_cases) (auto simp: line_start_def at_line_def nth_append)

lemma start_before_end:
  assumes "has_prefix (drop i s) blockStart" and "has_prefix (drop j s) blockEnd" and "i \<le> j"
  shows "i + length blockStart \<le> j"
proof (rule ccontr)
  assume "\<not> i + length blockStart \<le> j"
  then have k: "j - i < length blockStart" using assms(3) by simp
  obtain t where t: "drop i s = blockStart @ t" using assms(1) by (rule has_prefixE)
  have "drop j s = drop (j - i) blockStart @ t"
    using k assms(3) t by (metis drop_append diff_is_0_eq' drop0 drop_drop le_add_diff_inverse2 less_imp_le)
  moreover obtain u where "drop j s = blockEnd @ u" using assms(2) by (rule has_prefixE)
  ultimately have e: "drop (j - i) blockStart @ t = blockEnd @ u" by simp
  have inner: "list_all (\<lambda>d. blockStart ! d \<noteq> CHR ''#'') [1..<length blockStart]" by code_simp
  show False
  proof (cases "j - i")
    case 0
    with e show False by (simp add: marks)
  next
    case (Suc d)
    have "blockStart ! (j - i) = hd (drop (j - i) blockStart @ t)" using k by (simp add: hd_append hd_drop_conv_nth)
    also have "\<dots> = CHR ''#''" unfolding e by (simp add: marks)
    finally show False using inner k Suc by (simp add: list_all_iff)
  qed
qed

text \<open>
  A block is written to, or replaced in, a startup file exactly when the file has no marker
  at all, or one pair of complete marker lines and no other marker.  Everything outside the
  block stays byte for byte as it was, but for a newline that a last line without one gets.
\<close>

lemma replaceBlock_exact:
  "replaceBlock s block = Inr t \<longleftrightarrow>
     unmarked s \<and> t = (if block = [] then s else full_line s) @ block \<or>
     (\<exists>pre body post. s = pre @ blockStart @ body @ blockEnd @ post \<and> t = pre @ block @ post \<and>
        unmarked pre \<and> unmarked body \<and> unmarked post \<and> at_line pre \<and> at_line body)"
  (is "_ \<longleftrightarrow> ?new \<or> ?old")
proof (cases "unmarked s")
  case True
  have "\<not> ?old"
  proof
    assume ?old
    then obtain pre body post where "s = pre @ blockStart @ body @ blockEnd @ post" "at_line pre" "at_line body" by blast
    with counts_marked(1) [of pre body post] have "count_of open_mark s \<noteq> 0" by simp
    with True show False by (simp add: unmarked_count)
  qed
  moreover have "(let s = (if block \<noteq> [] \<and> s \<noteq> [] \<and> \<not> has_suffix s [newline] then s @ [newline] else s) in Inr (s @ block)) =
      (Inr ((if block = [] then s else full_line s) @ block) :: bytes res)"
    by (simp only: Let_def full_line_code [of s, symmetric]) auto
  ultimately show ?thesis using True by (auto simp: replaceBlock_def unmarked_def)
next
  case False
  then have marked: "\<not> (\<not> contains s open_mark \<and> \<not> contains s close_mark)" by (simp add: unmarked_def)
  show ?thesis
  proof
    assume "replaceBlock s block = Inr t"
    then obtain i j where ij: "index_of blockStart s = Some i" "index_of blockEnd s = Some j" "i \<le> j"
      and lines: "line_start s i" "line_start s j" and counts: "count_of open_mark s = 1" "count_of close_mark s = 1"
      and t: "t = take i s @ block @ drop (j + length blockEnd) s"
      unfolding replaceBlock_def if_not_P [OF marked] by (auto split: option.splits if_splits)
    note found = index_of_Some [OF ij(1)] index_of_Some [OF ij(2)]
    have gap: "i + length blockStart \<le> j" using start_before_end found ij(3) by blast
    define pre body post where "pre = take i s" and "body = take (j - (i + length blockStart)) (drop (i + length blockStart) s)"
      and "post = drop (j + length blockEnd) s"
    have "drop (i + length blockStart) s = body @ drop j s"
      using gap unfolding body_def by (metis append_take_drop_id drop_drop le_add_diff_inverse2)
    then have s: "s = pre @ blockStart @ body @ blockEnd @ post"
      using index_of_split [OF ij(1)] index_of_split [OF ij(2)] found unfolding pre_def post_def
      by (metis add.commute append_take_drop_id drop_drop has_prefix_def)
    have "length pre = i" "length (pre @ blockStart @ body) = j" using found gap by (auto simp: pre_def body_def min_def)
    then have "at_line pre" "at_line (pre @ blockStart @ body)"
      using lines line_start_at [of pre "blockStart @ body @ blockEnd @ post"] line_start_at [of "pre @ blockStart @ body" "blockEnd @ post"] s
      by simp_all
    then have at: "at_line pre" "at_line body" by (cases "body = []"; simp add: at_line_def)+
    with counts counts_marked [OF at, of post] s have "unmarked pre" "unmarked body" "unmarked post"
      by (simp_all add: unmarked_count)
    with s at t show "?new \<or> ?old" unfolding pre_def post_def by blast
  next
    assume "?new \<or> ?old"
    with False obtain pre body post where s: "s = pre @ blockStart @ body @ blockEnd @ post" "t = pre @ block @ post"
      and un: "unmarked pre" "unmarked body" "unmarked post" and at: "at_line pre" "at_line body" by blast
    have "line_start s (length pre)" "line_start s (length (pre @ blockStart @ body))"
      using line_start_at [of pre "blockStart @ body @ blockEnd @ post"] line_start_at [of "pre @ blockStart @ body" "blockEnd @ post"]
        s at mark_facts by (simp_all add: at_line_append)
    moreover have "count_of open_mark s = 1" "count_of close_mark s = 1"
      using counts_marked [OF at, of post] un s by (simp_all add: unmarked_count)
    moreover note indices_marked [OF at un(1,2), of post]
    ultimately show "replaceBlock s block = Inr t"
      unfolding replaceBlock_def if_not_P [OF marked] by (simp add: s)
  qed
qed

section \<open>The paths are valid for the cleanup\<close>

definition simple_part :: "bytes \<Rightarrow> bool" where
  "simple_part x \<longleftrightarrow> x \<noteq> [] \<and> x \<noteq> ''.'' \<and> x \<noteq> ''..'' \<and> CHR ''/'' \<notin> set x"

lemma clean_parts_append: "clean_parts out (xs @ [x]) = clean_parts (clean_parts out xs) [x]"
  by (induction out xs rule: clean_parts.induct) auto

lemma clean_parts_simple: "list_all simple_part xs \<Longrightarrow> clean_parts out xs = out @ xs"
  by (induction xs arbitrary: out) (auto simp: simple_part_def)

lemma clean_parts_result:
  "list_all simple_part out \<Longrightarrow> \<forall>x \<in> set xs. CHR ''/'' \<notin> set x \<Longrightarrow> list_all simple_part (clean_parts out xs)"
proof (induction out xs rule: clean_parts.induct)
  case (2 out x xs)
  have b: "list_all simple_part (butlast out)" using "2.prems"(1) by (auto simp: list_all_iff dest: in_set_butlastD)
  have rest: "\<forall>y \<in> set xs. CHR ''/'' \<notin> set y" and x: "CHR ''/'' \<notin> set x" using "2.prems"(2) by simp_all
  show ?case
  proof (cases "x = [] \<or> x = ''.''")
    case True
    with "2.IH"(1) "2.prems"(1) rest show ?thesis by simp
  next
    case False
    show ?thesis
    proof (cases "x = ''..''")
      case True
      with "2.IH"(2) False b rest show ?thesis by simp
    next
      case up: False
      have "simple_part x" using False up x by (simp add: simple_part_def)
      then have "list_all simple_part (out @ [x])" using "2.prems"(1) by simp
      with "2.IH"(3) False up rest show ?thesis by simp
    qed
  qed
qed simp

lemma split_at_join: "split_at x (a @ x # b) = split_at x a @ split_at x b"
  by (induction a) (auto split: list.split)

lemma split_rooted: "\<forall>p \<in> set ps. x \<notin> set p \<Longrightarrow> split_at x (concat (map (\<lambda>p. x # p) ps)) = [] # ps"
proof (induction ps rule: rev_induct)
  case (snoc p ps)
  then show ?case using split_at_join [of x "concat (map (\<lambda>p. x # p) ps)" p] by (simp add: split_at_free)
qed simp

lemma join_path_one:
  assumes "simple_part n"
  shows "join_path home [n] = concat (map (\<lambda>p. CHR ''/'' # p) (clean_parts [] (split_at (CHR ''/'') home) @ [n]))"
proof -
  have "split_at (CHR ''/'') (home @ ''/'' @ n) = split_at (CHR ''/'') home @ [n]"
    using split_at_join [of "CHR ''/''" home n] assms by (simp add: split_at_free simple_part_def)
  then show ?thesis using assms by (simp add: join_path_def clean_path_def clean_parts_append simple_part_def Let_def)
qed

lemma join_path_valid:
  assumes "n \<in> {''.bashrc'', ''.bash_profile'', ''.bash_login'', ''.profile'', ''.zshrc''}"
  shows "validShellPath (join_path home [n])" and "path_base (join_path home [n]) = n"
proof -
  have n: "simple_part n" using assms by (auto simp: simple_part_def)
  define ps where "ps = clean_parts [] (split_at (CHR ''/'') home) @ [n]"
  have ps: "list_all simple_part ps"
    unfolding ps_def using n split_at_parts [of _ "CHR ''/''" home] by (auto intro!: clean_parts_result)
  then have s: "split_at (CHR ''/'') (concat (map (\<lambda>p. CHR ''/'' # p) ps)) = [] # ps"
    by (intro split_rooted) (auto simp: list_all_iff simple_part_def)
  have j: "join_path home [n] = concat (map (\<lambda>p. CHR ''/'' # p) ps)" unfolding ps_def by (rule join_path_one [OF n])
  have ne: "ps \<noteq> []" by (simp add: ps_def)
  show base: "path_base (join_path home [n]) = n" using ne by (simp add: path_base_def j s) (simp add: ps_def)
  have "clean_path (join_path home [n]) = join_path home [n]"
    using ne ps by (simp add: clean_path_def j s clean_parts_simple)
  moreover have "has_prefix (join_path home [n]) ''/''" using ne by (cases ps) (auto simp: j has_prefix_def)
  ultimately show "validShellPath (join_path home [n])" using assms base by (simp add: validShellPath_def)
qed

lemma login_path_valid: "validShellPath (login_path fs home)" "login_path fs home \<noteq> join_path home [''.bashrc'']"
proof -
  have "login_path fs home \<in> join_path home ` (\<lambda>n. [n]) ` {''.bash_profile'', ''.bash_login'', ''.profile''}"
    by (auto simp: login_path_def)
  then obtain n where n: "n \<in> {''.bash_profile'', ''.bash_login'', ''.profile''}" "login_path fs home = join_path home [n]" by blast
  have rc: "path_base (join_path home [''.bashrc'']) = ''.bashrc''" by (rule join_path_valid) simp
  have "validShellPath (join_path home [n])" "path_base (join_path home [n]) = n"
    using n(1) by (auto intro!: join_path_valid)
  moreover have "n \<noteq> ''.bashrc''" using n(1) by auto
  ultimately show "validShellPath (login_path fs home)" "login_path fs home \<noteq> join_path home [''.bashrc'']"
    using n(2) rc by auto
qed

lemma shell_paths_valid:
  assumes "shell_paths fs e = Inr ps"
  shows "\<forall>p \<in> set ps. validShellPath p" and "distinct ps"
proof -
  consider d where "ps = [join_path d [''.zshrc'']]" | "ps = [join_path (e_home e) [''.bashrc''], login_path fs (e_home e)]"
    using assms by (auto simp: shell_paths_def split: if_splits)
  then have "(\<forall>p \<in> set ps. validShellPath p) \<and> distinct ps"
  proof cases
    case 2
    have "validShellPath (join_path (e_home e) [''.bashrc''])" by (rule join_path_valid) simp
    with 2 login_path_valid [of fs "e_home e"] show ?thesis by auto
  qed (simp add: join_path_valid)
  then show "\<forall>p \<in> set ps. validShellPath p" "distinct ps" by blast+
qed

section \<open>Installing and removing\<close>

text \<open>The planned changes, written.\<close>

definition written_file :: "bytes \<times> bytes \<times> nat \<Rightarrow> shell_files \<Rightarrow> shell_files" where
  "written_file ch fs =
     fs\<lparr>f_there := (f_there fs)(fst ch := True), f_open := (f_open fs)(fst ch := Startup (fst (snd ch)) (snd (snd ch)))\<rparr>"

lemma f_open_written [simp]: "f_open (written_file ch fs) = (f_open fs)(fst ch := Startup (fst (snd ch)) (snd (snd ch)))"
  by (simp add: written_file_def)

lemma f_open_fold:
  "f_open (fold written_file (map (\<lambda>p. (p, f p, g p)) ps) fs) q = (if q \<in> set ps then Startup (f q) (g q) else f_open fs q)"
  by (induction ps arbitrary: fs) auto

lemma plan_changes_clean:
  assumes "\<forall>p \<in> set ps. readShell fs p = Inr (raw p, mode p) \<and> unmarked (raw p)" and "block \<noteq> []" and "distinct ps"
    and "\<forall>b \<in> set bs. b_path b \<notin> set ps"
  shows "plan_changes fs block ps bs = ([], map (\<lambda>p. (p, full_line (raw p) @ block, mode p)) ps, bs @ map fresh_block ps)"
  using assms
proof (induction ps arbitrary: bs)
  case (Cons p ps)
  have "replaceBlock (raw p) block = Inr (full_line (raw p) @ block)"
    using Cons.prems(1,2) by (intro replaceBlock_exact [THEN iffD2]) simp
  then have "plan_change fs block p = Inr (p, full_line (raw p) @ block, mode p)"
    using Cons.prems(1) by (simp add: plan_change_def)
  moreover have "record_block p bs = bs @ [fresh_block p]" using Cons.prems(4) by (auto simp: record_block_def)
  moreover have "plan_changes fs block ps (bs @ [fresh_block p]) =
      ([], map (\<lambda>p. (p, full_line (raw p) @ block, mode p)) ps, (bs @ [fresh_block p]) @ map fresh_block ps)"
    using Cons.prems by (intro Cons.IH) (auto simp: fresh_block_def)
  ultimately show ?case by simp
qed simp

lemma remove_block_own:
  assumes "validShellPath p" and "f_open fs p = Startup (before @ block) m" and "length (before @ block) \<le> 1048576"
    and "block = blockStart @ body @ blockEnd" and "at_line before" and "unmarked before" and "at_line body" and "unmarked body"
  shows "remove_block (\<lambda>_. None) p fs = ([], written_file (p, before, m) fs)"
proof -
  have "unmarked []" by (simp add: unmarked_count)
  with assms have "replaceBlock (before @ block) [] = Inr before"
    by (intro replaceBlock_exact [THEN iffD2] disjI2 exI [of _ before] exI [of _ body] exI [of _ "[]"]) simp
  moreover have "block \<noteq> []" using assms(4) by (simp add: marks)
  ultimately show ?thesis
    using assms(1-3) by (simp add: remove_block_def readShell_def written_file_def)
qed

lemma removeShell_own:
  assumes "\<forall>p \<in> set ps. validShellPath p \<and> f_open fs p = Startup (before p @ block) (mode p) \<and> length (before p @ block) \<le> 1048576 \<and>
      at_line (before p) \<and> unmarked (before p)" and "distinct ps"
    and "block = blockStart @ body @ blockEnd" and "at_line body" and "unmarked body"
  shows "removeShell (\<lambda>_. None) (map fresh_block ps) fs = ([], fold written_file (map (\<lambda>p. (p, before p, mode p)) ps) fs)"
  using assms(1,2)
proof (induction ps arbitrary: fs)
  case (Cons p ps)
  have "remove_block (\<lambda>_. None) p fs = ([], written_file (p, before p, mode p) fs)"
    using Cons.prems(1) assms(3-5) by (intro remove_block_own [where block = block]) auto
  moreover have "removeShell (\<lambda>_. None) (map fresh_block ps) (written_file (p, before p, mode p) fs) =
      ([], fold written_file (map (\<lambda>p. (p, before p, mode p)) ps) (written_file (p, before p, mode p) fs))"
    using Cons.prems by (intro Cons.IH) auto
  moreover have "b_path (fresh_block p) = p" by (simp add: fresh_block_def)
  ultimately show ?case by simp
qed simp

lemma script_at_line: "at_line (script_body e)"
  by (simp add: script_body_def Let_def at_line_def)

lemma prefix_newline: "newline \<notin> set p \<Longrightarrow> has_prefix (s @ [newline]) p \<longleftrightarrow> has_prefix s p"
proof (cases "length p \<le> length s")
  case False
  assume "newline \<notin> set p"
  with False have "take (length p) (s @ [newline]) \<noteq> p" by (metis in_set_conv_decomp leI nat_le_linear take_all_iff length_append_singleton not_less_eq_eq)
  moreover have "\<not> has_prefix s p" using False by (auto elim!: has_prefixE)
  ultimately show ?thesis by (simp only: has_prefix_def simp_thms)
qed (simp add: has_prefix_def)

lemma index_of_newline: "newline \<notin> set p \<Longrightarrow> p \<noteq> [] \<Longrightarrow> index_of p s = None \<Longrightarrow> index_of p (s @ [newline]) = None"
proof (induction s)
  case (Cons c s)
  then show ?case using prefix_newline [of p "c # s"] by (simp split: if_splits)
qed (cases p; simp add: has_prefix_def)

lemma full_line_facts: "at_line (full_line s)" "unmarked s \<Longrightarrow> unmarked (full_line s)"
  by (simp_all add: full_line_def at_line_def unmarked_def contains_def index_of_newline mark_facts)


text \<open>
  The limit of a startup file is checked on what is read, not on what is written: a file that
  grows past it with its block is one the cleanup no longer reads.
\<close>

lemma grown_file_keeps_block:
  assumes "length raw = 1048576" and "unmarked raw" and "validShellPath p"
  shows "\<exists>t. replaceBlock raw (script_block e) = Inr t \<and>
    remove_block fails p (written_file (p, t, m) fs) =
      ([Other (''shell startup file '' @ p @ '' is too large'')], written_file (p, t, m) fs)"
proof -
  let ?t = "full_line raw @ script_block e"
  have b: "script_block e \<noteq> []" by (simp add: script_block_def marks)
  then have "replaceBlock raw (script_block e) = Inr ?t"
    using assms(2) by (intro replaceBlock_exact [THEN iffD2]) simp
  moreover have "length ?t > 1048576" using b assms(1) by (simp add: full_line_def)
  ultimately show ?thesis using assms(3) by (auto simp: remove_block_def readShell_def)
qed

section \<open>Quoted words\<close>

text \<open>A word of a POSIX shell that consists of quoted parts only, read back to its text.\<close>

datatype sh_mode = Bare | Single | Double

fun sh_read :: "sh_mode \<Rightarrow> bytes \<Rightarrow> bytes option" where
  "sh_read Bare [] = Some []"
| "sh_read _ [] = None"
| "sh_read Bare (c # s) = (if c = CHR 0x27 then sh_read Single s else if c = CHR 0x22 then sh_read Double s else None)"
| "sh_read Single (c # s) = (if c = CHR 0x27 then sh_read Bare s else map_option ((#) c) (sh_read Single s))"
| "sh_read Double (c # s) =
     (if c = CHR 0x22 then sh_read Bare s
      else if c \<in> {CHR ''$'', CHR 0x60, CHR 0x5C} then None else map_option ((#) c) (sh_read Double s))"

lemma Quote_literal: "sh_read Bare (Quote s) = Some s"
proof -
  have "sh_read Single (concat (map (\<lambda>c. if c = CHR 0x27 then [CHR 0x27, CHR 0x22, CHR 0x27, CHR 0x22, CHR 0x27] else [c]) s) @ [CHR 0x27]) = Some s"
    by (induction s) auto
  then show ?thesis by (simp add: Quote_def)
qed

section \<open>A run\<close>

definition ex_shell :: shell_engine where
  "ex_shell = \<lparr>e_home = ''/h'', e_root = ''/h/r'', e_shell = ''zsh'', e_zdotdir = [], e_noshell = False\<rparr>"

definition ex_files :: shell_files where
  "ex_files = \<lparr>f_there = (\<lambda>p. p = ''/h/.zshrc''), f_open = (\<lambda>p. if p = ''/h/.zshrc'' then Startup ''alias x=y'' 0x1A4 else Absent)\<rparr>"

lemma ex_shell_paths: "shell_paths ex_files ex_shell = Inr [''/h/.zshrc'']"
  by code_simp

lemma ex_script_unmarked: "unmarked (script_body ex_shell)" "unmarked ''alias x=y''" "length (script_block ex_shell) \<le> 200"
  unfolding unmarked_def by code_simp+


end
