(* ===== verification/Pools.thy ===== *)
theory Pools
  imports Codec Errors "HOL-Library.AList"
begin

text \<open>
  The connection pools of the database driver (postgres/driver.go): admission, checkout,
  account approval, release and retirement.  A step is one critical section of the driver's
  mutex or one channel operation of one operation, so any number of operations interleave.
  What the world answers to a step (contexts, dialing, the server) is its \<open>answers\<close>.
\<close>

section \<open>State\<close>

abbreviation (input) MaxActiveOperations :: nat where "MaxActiveOperations \<equiv> 32"

abbreviation (input) MaxWaitingOperations :: nat where "MaxWaitingOperations \<equiv> 128"

abbreviation (input) maxConnectionsPerProfile :: nat where "maxConnectionsPerProfile \<equiv> 8"

text \<open>
  A connection: the credentials and the pool it was dialled for, whether its account was
  audited, whether an operation left session state on it, and whether it is closed and its
  cleanup is finished.
\<close>

record conn =
  c_access :: "bytes list"
  c_pool :: nat
  c_audited :: bool
  c_dirty :: bool
  c_closed :: bool
  c_cleaned :: bool

text \<open>A pool; \<open>p_cancelled\<close> is the state of its context, \<open>p_slots\<close> the tokens in its channel.\<close>

record pool =
  p_fingerprint :: bytes
  p_slots :: nat
  p_idle :: "nat list"
  p_users :: nat
  p_cancelled :: bool
  p_live :: "nat list"
  p_approved :: bool
  p_generation :: "64 word"
  p_validation :: "nat option"

text \<open>The variables \<open>acquired\<close> and \<open>c\<close> of a checkout.\<close>

datatype grip = No_Slot | Slot | Slot_With nat

text \<open>Where an operation is; pools, connections and validations are named by addresses.\<close>

datatype stage =
    Arriving | Queued | Entering
  | Slotting nat | Taking nat | Dialing nat
  | Approving nat nat | Validating nat nat nat "64 word" | Awaiting nat nat nat
  | Using nat nat
  | Releasing nat grip bool | Closing nat nat | Returning nat grip | Discarding nat nat
  | Freeing nat bool | Leaving | Over

record operation =
  o_profile :: bytes
  o_access :: "bytes list"
  o_stage :: stage
  o_error :: "goerr option"

text \<open>
  The driver with its heap.  A validation is \<open>None\<close> while its channel is open and then its
  error; \<open>d_dropped\<close> are the connections some goroutine is closing after a retirement.
\<close>

record driver =
  d_pools :: "(bytes \<times> nat) list"
  d_active :: nat
  d_waiting :: nat
  d_closed :: bool
  d_epoch :: "64 word"
  d_pool :: "nat \<Rightarrow> pool"
  d_next_pool :: nat
  d_conn :: "nat \<Rightarrow> conn"
  d_next_conn :: nat
  d_valid :: "nat \<Rightarrow> goerr option option"
  d_next_valid :: nat
  d_dropped :: "nat list"
  d_ops :: "operation list"

definition new_pool :: "bytes \<Rightarrow> pool" where
  "new_pool fp = \<lparr>p_fingerprint = fp, p_slots = 0, p_idle = [], p_users = 0, p_cancelled = False,
     p_live = [], p_approved = False, p_generation = 0, p_validation = None\<rparr>"

definition new_conn :: "bytes list \<Rightarrow> nat \<Rightarrow> conn" where
  "new_conn access r = \<lparr>c_access = access, c_pool = r, c_audited = False, c_dirty = False,
     c_closed = False, c_cleaned = False\<rparr>"

text \<open>\<open>New\<close>; an address that is not allocated holds a cancelled pool or a closed connection.\<close>

definition new_driver :: driver where
  "new_driver = \<lparr>d_pools = [], d_active = 0, d_waiting = 0, d_closed = False, d_epoch = 0,
     d_pool = (\<lambda>_. (new_pool [])\<lparr>p_cancelled := True\<rparr>), d_next_pool = 0,
     d_conn = (\<lambda>_. (new_conn [] 0)\<lparr>c_closed := True\<rparr>), d_next_conn = 0,
     d_valid = (\<lambda>_. None), d_next_valid = 0, d_dropped = [], d_ops = []\<rparr>"

section \<open>What the world answers to a step\<close>

text \<open>
  The error of a context that is done (when a select takes that branch), the admission
  timer, the order in which the map of pools is iterated, the errors of the configuration,
  the dial and the account audit, those of a transaction from its begin to its reset, and
  whether the connection reports the idle transaction state.
\<close>

record answers =
  a_ctx :: "goerr option"
  a_timer :: bool
  a_order :: "bytes list"
  a_config :: "goerr option"
  a_dial :: "goerr option"
  a_audit :: "goerr option"
  a_begin :: "goerr option"
  a_setting :: "goerr option"
  a_check :: "goerr option"
  a_fn :: "goerr option"
  a_rollback :: "goerr option"
  a_reset :: "goerr option"
  a_tx_idle :: bool

text \<open>The next stage of the operation, the error it now returns if it fails, and the driver.\<close>

type_synonym moved = "stage \<times> goerr option \<times> driver"

section \<open>The critical sections\<close>

definition set_pool :: "nat \<Rightarrow> pool \<Rightarrow> driver \<Rightarrow> driver" where
  "set_pool r p d = d\<lparr>d_pool := (d_pool d)(r := p)\<rparr>"

definition closeConn :: "nat \<Rightarrow> driver \<Rightarrow> driver" where
  "closeConn c d = d\<lparr>d_conn := (d_conn d)(c := (d_conn d c)\<lparr>c_closed := True\<rparr>)\<rparr>"

definition forgetClosed :: "(nat \<Rightarrow> conn) \<Rightarrow> pool \<Rightarrow> pool" where
  "forgetClosed cs p =
     (let live = filter (\<lambda>c. \<not> c_cleaned (cs c)) (p_live p) in
      if live = [] \<and> p_approved p
      then p\<lparr>p_live := live, p_approved := False, p_generation := p_generation p + 1\<rparr>
      else p\<lparr>p_live := live\<rparr>)"

definition admit :: "answers \<Rightarrow> driver \<Rightarrow> moved" where
  "admit a d =
     (case a_ctx a of
        Some e \<Rightarrow> (Over, Some (safeError e), d)
      | None \<Rightarrow>
          if d_active d < MaxActiveOperations then (Entering, None, d\<lparr>d_active := d_active d + 1\<rparr>)
          else if d_waiting d < MaxWaitingOperations then (Queued, None, d\<lparr>d_waiting := d_waiting d + 1\<rparr>)
          else (Over, Some (Fail ResourceLimit ''database queue is full'' True), d))"

definition wait_turn :: "answers \<Rightarrow> driver \<Rightarrow> moved option" where
  "wait_turn a d =
     (let gone = d\<lparr>d_waiting := d_waiting d - 1\<rparr> in
      case a_ctx a of
        Some e \<Rightarrow> Some (Over, Some (safeError e), gone)
      | None \<Rightarrow>
          if a_timer a then Some (Over, Some (Fail ResourceLimit ''database queue deadline exceeded'' True), gone)
          else if d_active d < MaxActiveOperations then Some (Entering, None, gone\<lparr>d_active := d_active d + 1\<rparr>)
          else None)"

definition retireLocked :: "bytes \<Rightarrow> driver \<Rightarrow> driver" where
  "retireLocked k d =
     (case map_of (d_pools d) k of
        None \<Rightarrow> d
      | Some r \<Rightarrow>
          (let p = d_pool d r in
           (set_pool r (p\<lparr>p_approved := False, p_generation := p_generation p + 1, p_cancelled := True,
              p_idle := []\<rparr>) d)
           \<lparr>d_pools := AList.delete k (d_pools d), d_dropped := p_idle p @ d_dropped d\<rparr>))"

definition Invalidate :: "bytes \<Rightarrow> driver \<Rightarrow> driver" where
  "Invalidate k d = retireLocked k (d\<lparr>d_epoch := d_epoch d + 1\<rparr>)"

definition Close :: "driver \<Rightarrow> driver" where
  "Close d = fold retireLocked (map fst (d_pools d)) (d\<lparr>d_closed := True\<rparr>)"

definition idle_timeout :: "bytes \<Rightarrow> nat \<Rightarrow> driver \<Rightarrow> driver" where
  "idle_timeout k r d =
     (if map_of (d_pools d) k = Some r \<and> p_users (d_pool d r) = 0 then retireLocked k d else d)"

text \<open>The credentials are framed by their lengths before they are hashed.\<close>

definition put_be64 :: "64 word \<Rightarrow> bytes" where
  "put_be64 w = map (\<lambda>i. char_of (unat (drop_bit (8 * i) w))) [7, 6, 5, 4, 3, 2, 1, 0]"

definition framed_values :: "bytes list \<Rightarrow> bytes" where
  "framed_values vs = concat (map (\<lambda>v. put_be64 (of_nat (length v)) @ v) vs)"

definition fingerprint :: "(bytes \<Rightarrow> bytes) \<Rightarrow> bytes list \<Rightarrow> bytes" where
  "fingerprint mac vs = hex_text (mac (framed_values vs))"

text \<open>The first section of \<open>checkout\<close>: a pool of these credentials, in use by one more.\<close>

definition stale_retired :: "bytes \<Rightarrow> bytes \<Rightarrow> driver \<Rightarrow> driver" where
  "stale_retired k fp d =
     (case map_of (d_pools d) k of
        Some r \<Rightarrow> if p_fingerprint (d_pool d r) \<noteq> fp then retireLocked k d else d
      | None \<Rightarrow> d)"

definition unused_retired :: "bytes list \<Rightarrow> driver \<Rightarrow> driver" where
  "unused_retired order d =
     (if 16 \<le> length (d_pools d)
      then (case find (\<lambda>k. case map_of (d_pools d) k of Some r \<Rightarrow> p_users (d_pool d r) = 0 | None \<Rightarrow> False) order of
              Some k \<Rightarrow> retireLocked k d
            | None \<Rightarrow> d)
      else d)"

definition add_user :: "nat \<Rightarrow> driver \<Rightarrow> moved" where
  "add_user r d =
     (Slotting r, None, set_pool r ((d_pool d r)\<lparr>p_users := p_users (d_pool d r) + 1\<rparr>) d)"

definition open_pool :: "bytes \<Rightarrow> bytes \<Rightarrow> driver \<Rightarrow> driver" where
  "open_pool k fp d =
     (set_pool (d_next_pool d) (new_pool fp) d)
     \<lparr>d_pools := AList.update k (d_next_pool d) (d_pools d), d_next_pool := d_next_pool d + 1\<rparr>"

definition checkout_pool :: "(bytes \<Rightarrow> bytes) \<Rightarrow> answers \<Rightarrow> operation \<Rightarrow> driver \<Rightarrow> moved" where
  "checkout_pool mac a op d =
     (if d_closed d then (Leaving, Some (Fail ServiceUnavailable ''database driver is closed'' False), d)
      else
        let fp = fingerprint mac (o_access op); k = o_profile op; d = stale_retired k fp d in
        case map_of (d_pools d) k of
          Some r \<Rightarrow> add_user r d
        | None \<Rightarrow>
            (let d = unused_retired (a_order a) d in
             if 16 \<le> length (d_pools d)
             then (Leaving, Some (Fail ResourceLimit ''database pool limit reached'' True), d)
             else add_user (d_next_pool d) (open_pool k fp d)))"

text \<open>\<open>p.slots <- struct{}{}\<close> against the operation's context.\<close>

definition take_slot :: "answers \<Rightarrow> nat \<Rightarrow> driver \<Rightarrow> moved option" where
  "take_slot a r d =
     (case a_ctx a of
        Some e \<Rightarrow> Some (Releasing r No_Slot False, Some (safeError e), d)
      | None \<Rightarrow>
          (let p = d_pool d r in
           if p_slots p < maxConnectionsPerProfile
           then Some (Taking r, None, set_pool r (p\<lparr>p_slots := p_slots p + 1\<rparr>) d)
           else None))"

text \<open>The last idle connection that is still open; closed ones are forgotten on the way.\<close>

function pop_idle :: "(nat \<Rightarrow> conn) \<Rightarrow> pool \<Rightarrow> nat option \<times> pool" where
  "pop_idle cs p =
     (if p_idle p = [] then (None, p)
      else
        let c = last (p_idle p); q = p\<lparr>p_idle := butlast (p_idle p)\<rparr> in
        if \<not> c_closed (cs c) then (Some c, q)
        else pop_idle cs (forgetClosed cs (q\<lparr>p_live := removeAll c (p_live p)\<rparr>)))"
  by auto

termination by (relation "measure (\<lambda>(cs, p). length (p_idle p))")
    (auto simp: forgetClosed_def Let_def)

declare pop_idle.simps [simp del]

definition take_idle :: "nat \<Rightarrow> driver \<Rightarrow> moved" where
  "take_idle r d =
     (case pop_idle (d_conn d) (forgetClosed (d_conn d) (d_pool d r)) of
        (Some c, p) \<Rightarrow> (Approving r c, None, set_pool r p d)
      | (None, p) \<Rightarrow> (Dialing r, None, set_pool r p d))"

definition dial :: "answers \<Rightarrow> operation \<Rightarrow> nat \<Rightarrow> driver \<Rightarrow> moved" where
  "dial a op r d =
     (case (a_config a, a_dial a) of
        (Some e, _) \<Rightarrow> (Releasing r Slot False, Some e, d)
      | (None, Some e) \<Rightarrow> (Releasing r Slot False, Some (safeError e), d)
      | (None, None) \<Rightarrow>
          (Approving r (d_next_conn d), None,
           d\<lparr>d_conn := (d_conn d)(d_next_conn d := new_conn (o_access op) r),
             d_next_conn := d_next_conn d + 1\<rparr>))"

section \<open>Account approval\<close>

text \<open>\<open>approvePool\<close>: its first section, the wait for a validation that is under way, and what
  follows its own validation.\<close>

definition approve_begin :: "nat \<Rightarrow> nat \<Rightarrow> driver \<Rightarrow> moved" where
  "approve_begin r c d =
     (let p = forgetClosed (d_conn d) (d_pool d r); p = p\<lparr>p_live := List.insert c (p_live p)\<rparr> in
      if p_approved p then (Using r c, None, set_pool r p d)
      else
        case p_validation p of
          Some v \<Rightarrow> (Awaiting r c v, None, set_pool r p d)
        | None \<Rightarrow>
            (let v = d_next_valid d in
             (Validating r c v (p_generation p), None,
              (set_pool r (p\<lparr>p_validation := Some v\<rparr>) d)
              \<lparr>d_valid := (d_valid d)(v := None), d_next_valid := v + 1\<rparr>)))"

definition await_validation :: "answers \<Rightarrow> nat \<Rightarrow> nat \<Rightarrow> nat \<Rightarrow> driver \<Rightarrow> moved option" where
  "await_validation a r c v d =
     (case a_ctx a of
        Some e \<Rightarrow> Some (Releasing r (Slot_With c) False, Some (safeError e), d)
      | None \<Rightarrow>
          (case d_valid d v of
             None \<Rightarrow> None
           | Some None \<Rightarrow> Some (Using r c, None, d)
           | Some (Some e) \<Rightarrow> Some (Releasing r (Slot_With c) False, Some e, d)))"

definition audited :: "answers \<Rightarrow> nat \<Rightarrow> driver \<Rightarrow> driver" where
  "audited a c d =
     (if a_audit a = None
      then d\<lparr>d_conn := (d_conn d)(c := (d_conn d c)\<lparr>c_audited := True\<rparr>)\<rparr>
      else d)"

definition approve_end :: "answers \<Rightarrow> operation \<Rightarrow> nat \<Rightarrow> nat \<Rightarrow> nat \<Rightarrow> 64 word \<Rightarrow> driver \<Rightarrow> moved" where
  "approve_end a op r c v g d =
     (let d = audited a c d; p = forgetClosed (d_conn d) (d_pool d r);
          err = (if a_audit a = None \<and>
                   (d_closed d \<or> map_of (d_pools d) (o_profile op) \<noteq> Some r \<or> p_cancelled p \<or>
                    a_ctx a \<noteq> None \<or> g \<noteq> p_generation p \<or> c_closed (d_conn d c))
                 then Some (Fail Cancelled ''account validation was cancelled'' False)
                 else a_audit a);
          d = (set_pool r (p\<lparr>p_approved := (err = None), p_validation := None\<rparr>) d)
              \<lparr>d_valid := (d_valid d)(v := Some err)\<rparr> in
      case err of
        None \<Rightarrow> (Using r c, None, d)
      | Some e \<Rightarrow> (Releasing r (Slot_With c) False, Some e, d))"

section \<open>Running and releasing\<close>

text \<open>\<open>runNormalized\<close> on its connection: the error it returns and whether the connection is
  healthy, that is, rolled back and its session state discarded.\<close>

definition run_body :: "answers \<Rightarrow> bool \<Rightarrow> goerr option \<times> bool" where
  "run_body a closed =
     (case a_setting a of
        Some e \<Rightarrow> (Some (safeError e), False)
      | None \<Rightarrow>
          (case a_check a of
             Some e \<Rightarrow> (Some e, False)
           | None \<Rightarrow>
               (let discarded = (case a_fn a of Some e \<Rightarrow> errors_is e Pg_ResultDiscarded \<and> closed | None \<Rightarrow> False) in
                case (a_fn a, discarded) of
                  (Some e, False) \<Rightarrow> (Some (safeError e), False)
                | _ \<Rightarrow> (map_option safeError (a_ctx a), discarded))))"

definition run_tx :: "answers \<Rightarrow> bool \<Rightarrow> goerr option \<times> bool" where
  "run_tx a closed =
     (case a_begin a of
        Some e \<Rightarrow> (Some (safeError e), False)
      | None \<Rightarrow>
          (let (result, discarded) = run_body a closed;
               or_else = (\<lambda>e. if result = None then Some (safeError e) else result) in
           if discarded \<and> closed then (result, False)
           else
             case a_rollback a of
               Some e \<Rightarrow> (or_else e, False)
             | None \<Rightarrow> (case a_reset a of Some e \<Rightarrow> (or_else e, False) | None \<Rightarrow> (result, True))))"

text \<open>Whether both the rollback and the reset of the session ran and succeeded.\<close>

definition was_reset :: "answers \<Rightarrow> bool \<Rightarrow> bool" where
  "was_reset a closed \<longleftrightarrow>
     a_begin a = None \<and> \<not> (snd (run_body a closed) \<and> closed) \<and> a_rollback a = None \<and> a_reset a = None"

definition use_conn :: "answers \<Rightarrow> nat \<Rightarrow> nat \<Rightarrow> driver \<Rightarrow> moved" where
  "use_conn a r c d =
     (let closed = c_closed (d_conn d c); (result, healthy) = run_tx a closed in
      (Releasing r (Slot_With c) healthy, result,
       d\<lparr>d_conn := (d_conn d)(c := (d_conn d c)\<lparr>c_dirty := \<not> was_reset a closed\<rparr>)\<rparr>))"

definition release_drop :: "answers \<Rightarrow> nat \<Rightarrow> grip \<Rightarrow> bool \<Rightarrow> driver \<Rightarrow> moved" where
  "release_drop a r g healthy d =
     (case g of
        Slot_With c \<Rightarrow>
          if \<not> healthy \<or> c_closed (d_conn d c) \<or> \<not> a_tx_idle a
          then (let p = d_pool d r in
                (Closing r c, None, set_pool r (forgetClosed (d_conn d) (p\<lparr>p_live := removeAll c (p_live p)\<rparr>)) d))
          else (Returning r g, None, d)
      | _ \<Rightarrow> (Returning r g, None, d))"

definition release_return :: "operation \<Rightarrow> nat \<Rightarrow> grip \<Rightarrow> driver \<Rightarrow> moved" where
  "release_return op r g d =
     (let p = forgetClosed (d_conn d) (d_pool d r); p = p\<lparr>p_users := p_users p - 1\<rparr> in
      case g of
        Slot_With c \<Rightarrow>
          if map_of (d_pools d) (o_profile op) = Some r \<and> \<not> d_closed d
          then (Freeing r True, None, set_pool r (p\<lparr>p_idle := p_idle p @ [c]\<rparr>) d)
          else (Discarding r c, None, set_pool r p d)
      | Slot \<Rightarrow> (Freeing r True, None, set_pool r p d)
      | No_Slot \<Rightarrow> (Freeing r False, None, set_pool r p d))"

definition free_slot :: "nat \<Rightarrow> bool \<Rightarrow> driver \<Rightarrow> moved" where
  "free_slot r acquired d =
     (Leaving, None,
      if acquired then set_pool r ((d_pool d r)\<lparr>p_slots := p_slots (d_pool d r) - 1\<rparr>) d else d)"

definition op_move :: "(bytes \<Rightarrow> bytes) \<Rightarrow> answers \<Rightarrow> operation \<Rightarrow> driver \<Rightarrow> moved option" where
  "op_move mac a op d =
     (case o_stage op of
        Arriving \<Rightarrow> Some (admit a d)
      | Queued \<Rightarrow> wait_turn a d
      | Entering \<Rightarrow> Some (checkout_pool mac a op d)
      | Slotting r \<Rightarrow> take_slot a r d
      | Taking r \<Rightarrow> Some (take_idle r d)
      | Dialing r \<Rightarrow> Some (dial a op r d)
      | Approving r c \<Rightarrow> Some (approve_begin r c d)
      | Validating r c v g \<Rightarrow> Some (approve_end a op r c v g d)
      | Awaiting r c v \<Rightarrow> await_validation a r c v d
      | Using r c \<Rightarrow> Some (use_conn a r c d)
      | Releasing r g healthy \<Rightarrow> Some (release_drop a r g healthy d)
      | Closing r c \<Rightarrow> Some (Returning r Slot, None, closeConn c d)
      | Returning r g \<Rightarrow> Some (release_return op r g d)
      | Discarding r c \<Rightarrow> Some (Freeing r True, None, closeConn c d)
      | Freeing r acquired \<Rightarrow> Some (free_slot r acquired d)
      | Leaving \<Rightarrow> Some (Over, None, d\<lparr>d_active := d_active d - 1\<rparr>)
      | Over \<Rightarrow> None)"

section \<open>Runs of the driver\<close>

definition settle :: "nat \<Rightarrow> moved \<Rightarrow> driver" where
  "settle i m =
     (case m of (st, e, d) \<Rightarrow>
        let op = d_ops d ! i in
        d\<lparr>d_ops := (d_ops d)[i := op\<lparr>o_stage := st, o_error := (if e = None then o_error op else e)\<rparr>]\<rparr>)"

definition arriving :: "bytes \<Rightarrow> bytes list \<Rightarrow> operation" where
  "arriving k access = \<lparr>o_profile = k, o_access = access, o_stage = Arriving, o_error = None\<rparr>"

text \<open>
  Beside the operations' own steps: an operation arrives; a connection dies or its cleanup
  ends; a dropped connection is closed; a profile changes; the driver is closed; an idle
  timer fires (timers of pools that were in use again are refused by its guard).
\<close>

inductive driver_step :: "(bytes \<Rightarrow> bytes) \<Rightarrow> driver \<Rightarrow> driver \<Rightarrow> bool" for mac where
  moves: "i < length (d_ops d) \<Longrightarrow> set (a_order a) = fst ` set (d_pools d) \<Longrightarrow>
     op_move mac a (d_ops d ! i) d = Some m \<Longrightarrow> driver_step mac d (settle i m)"
| arrives: "driver_step mac d (d\<lparr>d_ops := d_ops d @ [arriving k access]\<rparr>)"
| dies: "driver_step mac d (closeConn c d)"
| cleaned: "c_closed (d_conn d c) \<Longrightarrow>
     driver_step mac d (d\<lparr>d_conn := (d_conn d)(c := (d_conn d c)\<lparr>c_cleaned := True\<rparr>)\<rparr>)"
| drops: "c \<in> set (d_dropped d) \<Longrightarrow>
     driver_step mac d ((closeConn c d)\<lparr>d_dropped := remove1 c (d_dropped d)\<rparr>)"
| invalidates: "driver_step mac d (Invalidate k d)"
| closes: "driver_step mac d (Close d)"
| expires: "driver_step mac d (idle_timeout k r d)"

inductive_cases driver_stepE: "driver_step mac d d'"

inductive driver_reachable :: "(bytes \<Rightarrow> bytes) \<Rightarrow> driver \<Rightarrow> bool" for mac where
  start: "driver_reachable mac new_driver"
| step: "driver_reachable mac d \<Longrightarrow> driver_step mac d d' \<Longrightarrow> driver_reachable mac d'"

end
