(* ===== verification/Pool_Limits.thy ===== *)
theory Pool_Limits
  imports Pools
begin

text \<open>
  The bookkeeping of the driver: counters of operations and slots agree with the operations
  that hold them, the registry of pools, the bounds on connections, and progress.
\<close>

section \<open>What a stage holds\<close>

text \<open>The pool a stage counts as a user of, whose slot it has, and whose connection it has or
  is making.\<close>

fun user_of :: "stage \<Rightarrow> nat option" where
  "user_of (Slotting r) = Some r"
| "user_of (Taking r) = Some r"
| "user_of (Dialing r) = Some r"
| "user_of (Approving r c) = Some r"
| "user_of (Validating r c v g) = Some r"
| "user_of (Awaiting r c v) = Some r"
| "user_of (Using r c) = Some r"
| "user_of (Releasing r g h) = Some r"
| "user_of (Closing r c) = Some r"
| "user_of (Returning r g) = Some r"
| "user_of _ = None"

fun slot_of :: "stage \<Rightarrow> nat option" where
  "slot_of (Taking r) = Some r"
| "slot_of (Dialing r) = Some r"
| "slot_of (Approving r c) = Some r"
| "slot_of (Validating r c v g) = Some r"
| "slot_of (Awaiting r c v) = Some r"
| "slot_of (Using r c) = Some r"
| "slot_of (Releasing r g h) = (if g = No_Slot then None else Some r)"
| "slot_of (Closing r c) = Some r"
| "slot_of (Returning r g) = (if g = No_Slot then None else Some r)"
| "slot_of (Discarding r c) = Some r"
| "slot_of (Freeing r acquired) = (if acquired then Some r else None)"
| "slot_of _ = None"

fun conn_of :: "stage \<Rightarrow> nat option" where
  "conn_of (Approving r c) = Some c"
| "conn_of (Validating r c v g) = Some c"
| "conn_of (Awaiting r c v) = Some c"
| "conn_of (Using r c) = Some c"
| "conn_of (Releasing r (Slot_With c) h) = Some c"
| "conn_of (Closing r c) = Some c"
| "conn_of (Returning r (Slot_With c)) = Some c"
| "conn_of (Discarding r c) = Some c"
| "conn_of _ = None"

definition charge_of :: "stage \<Rightarrow> nat option" where
  "charge_of st = (if conn_of st = None \<and> (\<forall>r. st \<noteq> Dialing r) then None else slot_of st)"

fun admitted :: "stage \<Rightarrow> bool" where
  "admitted st \<longleftrightarrow> st \<noteq> Arriving \<and> st \<noteq> Queued \<and> st \<noteq> Over"

definition count_ops :: "(stage \<Rightarrow> bool) \<Rightarrow> operation list \<Rightarrow> nat" where
  "count_ops f ops = length (filter (\<lambda>op. f (o_stage op)) ops)"

lemma charge_simps [simp]:
  "charge_of Arriving = None" "charge_of Queued = None" "charge_of Entering = None"
  "charge_of (Slotting r) = None" "charge_of (Taking r) = None" "charge_of (Dialing r) = Some r"
  "charge_of (Approving r c) = Some r" "charge_of (Validating r c v g) = Some r"
  "charge_of (Awaiting r c v) = Some r" "charge_of (Using r c) = Some r"
  "charge_of (Releasing r gr h) = (case gr of Slot_With c \<Rightarrow> Some r | _ \<Rightarrow> None)"
  "charge_of (Closing r c) = Some r" "charge_of (Returning r gr) = (case gr of Slot_With c \<Rightarrow> Some r | _ \<Rightarrow> None)"
  "charge_of (Discarding r c) = Some r" "charge_of (Freeing r a) = None" "charge_of Leaving = None"
  "charge_of Over = None"
  by (auto simp: charge_of_def split: grip.splits)

lemma charge_slot: "charge_of st = Some r \<Longrightarrow> slot_of st = Some r"
  by (auto simp: charge_of_def split: if_splits)

lemma count_ops_update:
  "i < length ops \<Longrightarrow>
     count_ops f (ops[i := op]) + (if f (o_stage (ops ! i)) then 1 else 0) = count_ops f ops + (if f (o_stage op) then 1 else 0)"
  unfolding count_ops_def
proof (induction ops arbitrary: i)
  case (Cons x ops)
  then show ?case by (cases i) auto
qed simp

lemma count_ops_mono: "(\<And>st. f st \<Longrightarrow> g st) \<Longrightarrow> count_ops f ops \<le> count_ops g ops"
  unfolding count_ops_def by (induction ops) auto

lemma count_ops_pos: "i < length ops \<Longrightarrow> f (o_stage (ops ! i)) \<Longrightarrow> 0 < count_ops f ops"
  unfolding count_ops_def by (auto simp: filter_empty_conv)

lemma count_ops_ex: "0 < count_ops f ops \<Longrightarrow> \<exists>i < length ops. f (o_stage (ops ! i))"
  unfolding count_ops_def by (auto simp: filter_empty_conv in_set_conv_nth)

lemma count_ops_append: "count_ops f (ops @ ops') = count_ops f ops + count_ops f ops'"
  by (simp add: count_ops_def)

section \<open>Projections of the sections\<close>

lemma forgetClosed_simps [simp]:
  "p_fingerprint (forgetClosed cs p) = p_fingerprint p" "p_slots (forgetClosed cs p) = p_slots p"
  "p_idle (forgetClosed cs p) = p_idle p" "p_users (forgetClosed cs p) = p_users p"
  "p_cancelled (forgetClosed cs p) = p_cancelled p" "p_validation (forgetClosed cs p) = p_validation p"
  "p_live (forgetClosed cs p) = filter (\<lambda>c. \<not> c_cleaned (cs c)) (p_live p)"
  "p_approved (forgetClosed cs p) \<longleftrightarrow> p_approved p \<and> filter (\<lambda>c. \<not> c_cleaned (cs c)) (p_live p) \<noteq> []"
  by (auto simp: forgetClosed_def Let_def)

lemma set_pool_simps [simp]:
  "d_pools (set_pool r p d) = d_pools d" "d_active (set_pool r p d) = d_active d"
  "d_waiting (set_pool r p d) = d_waiting d" "d_closed (set_pool r p d) = d_closed d"
  "d_pool (set_pool r p d) = (d_pool d)(r := p)" "d_next_pool (set_pool r p d) = d_next_pool d"
  "d_conn (set_pool r p d) = d_conn d" "d_next_conn (set_pool r p d) = d_next_conn d"
  "d_valid (set_pool r p d) = d_valid d" "d_next_valid (set_pool r p d) = d_next_valid d"
  "d_dropped (set_pool r p d) = d_dropped d" "d_ops (set_pool r p d) = d_ops d"
  by (simp_all add: set_pool_def)

lemma closeConn_simps [simp]:
  "d_pools (closeConn c d) = d_pools d" "d_active (closeConn c d) = d_active d"
  "d_waiting (closeConn c d) = d_waiting d" "d_closed (closeConn c d) = d_closed d"
  "d_pool (closeConn c d) = d_pool d" "d_next_pool (closeConn c d) = d_next_pool d"
  "d_conn (closeConn c d) = (d_conn d)(c := (d_conn d c)\<lparr>c_closed := True\<rparr>)"
  "d_next_conn (closeConn c d) = d_next_conn d"
  "d_valid (closeConn c d) = d_valid d" "d_next_valid (closeConn c d) = d_next_valid d"
  "d_dropped (closeConn c d) = d_dropped d" "d_ops (closeConn c d) = d_ops d"
  by (simp_all add: closeConn_def)

lemma audited_simps [simp]:
  "d_pools (audited a c d) = d_pools d" "d_active (audited a c d) = d_active d"
  "d_waiting (audited a c d) = d_waiting d" "d_closed (audited a c d) = d_closed d"
  "d_pool (audited a c d) = d_pool d" "d_next_pool (audited a c d) = d_next_pool d"
  "d_next_conn (audited a c d) = d_next_conn d"
  "d_valid (audited a c d) = d_valid d" "d_next_valid (audited a c d) = d_next_valid d"
  "d_dropped (audited a c d) = d_dropped d" "d_ops (audited a c d) = d_ops d"
  "c_closed (d_conn (audited a c d) k) = c_closed (d_conn d k)"
  "c_cleaned (d_conn (audited a c d) k) = c_cleaned (d_conn d k)"
  "c_pool (d_conn (audited a c d) k) = c_pool (d_conn d k)"
  "c_access (d_conn (audited a c d) k) = c_access (d_conn d k)"
  "c_dirty (d_conn (audited a c d) k) = c_dirty (d_conn d k)"
  by (simp_all add: audited_def)

lemma settle_simps [simp]:
  "d_pools (settle i (st, e, d)) = d_pools d" "d_active (settle i (st, e, d)) = d_active d"
  "d_waiting (settle i (st, e, d)) = d_waiting d" "d_closed (settle i (st, e, d)) = d_closed d"
  "d_pool (settle i (st, e, d)) = d_pool d" "d_next_pool (settle i (st, e, d)) = d_next_pool d"
  "d_conn (settle i (st, e, d)) = d_conn d" "d_next_conn (settle i (st, e, d)) = d_next_conn d"
  "d_valid (settle i (st, e, d)) = d_valid d" "d_next_valid (settle i (st, e, d)) = d_next_valid d"
  "d_dropped (settle i (st, e, d)) = d_dropped d"
  by (simp_all add: settle_def Let_def)

text \<open>Every operation is as before, but for the stage of the one that moved.\<close>

lemma settle_ops:
  "length (d_ops (settle i (st, e, d))) = length (d_ops d)"
  "j < length (d_ops d) \<Longrightarrow> o_stage (d_ops (settle i (st, e, d)) ! j) = (if j = i then st else o_stage (d_ops d ! j))"
  "j < length (d_ops d) \<Longrightarrow> o_access (d_ops (settle i (st, e, d)) ! j) = o_access (d_ops d ! j)"
  "j < length (d_ops d) \<Longrightarrow> o_profile (d_ops (settle i (st, e, d)) ! j) = o_profile (d_ops d ! j)"
  by (cases "j = i"; auto simp: settle_def Let_def)+

lemma count_settle:
  "i < length (d_ops d) \<Longrightarrow>
     count_ops f (d_ops (settle i (st, e, d))) + (if f (o_stage (d_ops d ! i)) then 1 else 0) =
     count_ops f (d_ops d) + (if f st then 1 else 0)"
  by (simp add: settle_def Let_def count_ops_update)

text \<open>What is left of a pool after closed connections were forgotten.\<close>

definition remains :: "(nat \<Rightarrow> conn) \<Rightarrow> pool \<Rightarrow> pool \<Rightarrow> bool" where
  "remains cs p q \<longleftrightarrow>
     p_fingerprint q = p_fingerprint p \<and> p_slots q = p_slots p \<and> p_users q = p_users p \<and>
     p_cancelled q = p_cancelled p \<and> p_validation q = p_validation p \<and> (p_approved q \<longrightarrow> p_approved p) \<and>
     (\<exists>rest. p_idle p = p_idle q @ rest \<and> (\<forall>k \<in> set rest. c_closed (cs k))) \<and>
     set (p_live q) \<subseteq> set (p_live p) \<and>
     (\<forall>k \<in> set (p_live p). k \<notin> set (p_idle p) \<longrightarrow> \<not> c_cleaned (cs k) \<longrightarrow> k \<in> set (p_live q)) \<and>
     (p_approved p \<longrightarrow> \<not> p_approved q \<longrightarrow> (\<forall>k \<in> set (p_live p). k \<in> set (p_idle p) \<or> c_cleaned (cs k))) \<and>
     (p_approved q \<longrightarrow> p_live p \<noteq> [] \<longrightarrow> p_live q \<noteq> [])"

lemma remains_trans:
  assumes a: "remains cs p q" and b: "remains cs q s"
  shows "remains cs p s"
proof -
  obtain r1 where r1: "p_idle p = p_idle q @ r1" "\<forall>k \<in> set r1. c_closed (cs k)"
    using a unfolding remains_def by blast
  obtain r2 where r2: "p_idle q = p_idle s @ r2" "\<forall>k \<in> set r2. c_closed (cs k)"
    using b unfolding remains_def by blast
  have "\<exists>rest. p_idle p = p_idle s @ rest \<and> (\<forall>k \<in> set rest. c_closed (cs k))"
    using r1 r2 by (intro exI [of _ "r2 @ r1"]) auto
  moreover have "set (p_idle q) \<subseteq> set (p_idle p)" using r1 by simp
  moreover have "p_fingerprint s = p_fingerprint p \<and> p_slots s = p_slots p \<and> p_users s = p_users p \<and>
      p_cancelled s = p_cancelled p \<and> p_validation s = p_validation p"
    using a b unfolding remains_def by (elim conjE) simp
  moreover have "p_approved s \<longrightarrow> p_approved q" "p_approved q \<longrightarrow> p_approved p"
    "set (p_live q) \<subseteq> set (p_live p)" "set (p_live s) \<subseteq> set (p_live q)"
    "\<forall>k \<in> set (p_live p). k \<notin> set (p_idle p) \<longrightarrow> \<not> c_cleaned (cs k) \<longrightarrow> k \<in> set (p_live q)"
    "\<forall>k \<in> set (p_live q). k \<notin> set (p_idle q) \<longrightarrow> \<not> c_cleaned (cs k) \<longrightarrow> k \<in> set (p_live s)"
    "p_approved p \<longrightarrow> \<not> p_approved q \<longrightarrow> (\<forall>k \<in> set (p_live p). k \<in> set (p_idle p) \<or> c_cleaned (cs k))"
    "p_approved q \<longrightarrow> \<not> p_approved s \<longrightarrow> (\<forall>k \<in> set (p_live q). k \<in> set (p_idle q) \<or> c_cleaned (cs k))"
    "p_approved q \<longrightarrow> p_live p \<noteq> [] \<longrightarrow> p_live q \<noteq> []" "p_approved s \<longrightarrow> p_live q \<noteq> [] \<longrightarrow> p_live s \<noteq> []"
    using a b unfolding remains_def by blast+
  ultimately show ?thesis unfolding remains_def by (intro conjI) (assumption | blast)+
qed

lemma remains_refl [simp]: "remains cs p p"
  by (simp add: remains_def)

lemma remains_forgetClosed [simp]: "remains cs p (forgetClosed cs p)"
  by (auto simp: remains_def filter_empty_conv)

lemma remains_popped:
  assumes "p_idle p = ks @ [c]" and "c_closed (cs c)"
  shows "remains cs p (forgetClosed cs (p\<lparr>p_idle := ks, p_live := removeAll c (p_live p)\<rparr>))"
  using assms by (auto simp: remains_def filter_empty_conv)

lemma pop_idle_next:
  "p_idle p = [] \<Longrightarrow> pop_idle cs p = (None, p)"
  "p_idle p = ks @ [c] \<Longrightarrow> \<not> c_closed (cs c) \<Longrightarrow> pop_idle cs p = (Some c, p\<lparr>p_idle := ks\<rparr>)"
  "p_idle p = ks @ [c] \<Longrightarrow> c_closed (cs c) \<Longrightarrow>
     pop_idle cs p = pop_idle cs (forgetClosed cs (p\<lparr>p_idle := ks, p_live := removeAll c (p_live p)\<rparr>))"
  by (subst pop_idle.simps; simp add: Let_def)+

lemma pop_idle_cases:
  assumes "pop_idle cs p = (g, q)"
  shows "(g = None \<and> remains cs p q \<and> p_idle q = []) \<or>
    (\<exists>c s. g = Some c \<and> remains cs p s \<and> p_idle s = p_idle q @ [c] \<and> \<not> c_closed (cs c) \<and> q = s\<lparr>p_idle := p_idle q\<rparr>)"
  using assms
proof (induction "length (p_idle p)" arbitrary: p g q rule: less_induct)
  case less
  consider "p_idle p = []" | ks c where "p_idle p = ks @ [c]" "\<not> c_closed (cs c)"
    | ks c where "p_idle p = ks @ [c]" "c_closed (cs c)"
    by (cases "p_idle p" rule: rev_cases) auto
  then show ?case
  proof cases
    case 1
    then show ?thesis using less.prems by (simp add: pop_idle_next)
  next
    case 2
    then have "g = Some c \<and> q = p\<lparr>p_idle := ks\<rparr>" using less.prems by (simp add: pop_idle_next)
    then show ?thesis using 2 by (intro disjI2 exI [of _ c] exI [of _ p]) simp
  next
    case 3
    let ?p = "forgetClosed cs (p\<lparr>p_idle := ks, p_live := removeAll c (p_live p)\<rparr>)"
    have "pop_idle cs ?p = (g, q)" using less.prems pop_idle_next(3) [of p ks c cs, OF 3] by simp
    moreover have "length (p_idle ?p) < length (p_idle p)" using 3 by simp
    ultimately have IH: "(g = None \<and> remains cs ?p q \<and> p_idle q = []) \<or>
        (\<exists>c s. g = Some c \<and> remains cs ?p s \<and> p_idle s = p_idle q @ [c] \<and> \<not> c_closed (cs c) \<and> q = s\<lparr>p_idle := p_idle q\<rparr>)"
      by (rule less.hyps [rotated])
    have "remains cs p ?p" using 3 by (rule remains_popped)
    from remains_trans [OF this] IH show ?thesis by blast
  qed
qed

section \<open>Retirement\<close>

lemma retire_frame [simp]:
  "d_ops (retireLocked k d) = d_ops d" "d_active (retireLocked k d) = d_active d"
  "d_waiting (retireLocked k d) = d_waiting d" "d_closed (retireLocked k d) = d_closed d"
  "d_next_pool (retireLocked k d) = d_next_pool d" "d_conn (retireLocked k d) = d_conn d"
  "d_next_conn (retireLocked k d) = d_next_conn d" "d_valid (retireLocked k d) = d_valid d"
  "d_next_valid (retireLocked k d) = d_next_valid d"
  "d_pools (retireLocked k d) = AList.delete k (d_pools d)"
  by (auto simp: retireLocked_def Let_def AList.delete_idem map_of_eq_None_iff split: option.splits)

lemma retire_pool [simp]:
  "p_fingerprint (d_pool (retireLocked k d) r) = p_fingerprint (d_pool d r)"
  "p_slots (d_pool (retireLocked k d) r) = p_slots (d_pool d r)"
  "p_users (d_pool (retireLocked k d) r) = p_users (d_pool d r)"
  "p_live (d_pool (retireLocked k d) r) = p_live (d_pool d r)"
  "p_validation (d_pool (retireLocked k d) r) = p_validation (d_pool d r)"
  "p_idle (d_pool (retireLocked k d) r) = (if map_of (d_pools d) k = Some r then [] else p_idle (d_pool d r))"
  "p_approved (d_pool (retireLocked k d) r) \<longleftrightarrow> map_of (d_pools d) k \<noteq> Some r \<and> p_approved (d_pool d r)"
  "p_cancelled (d_pool (retireLocked k d) r) \<longleftrightarrow> map_of (d_pools d) k = Some r \<or> p_cancelled (d_pool d r)"
  by (auto simp: retireLocked_def Let_def split: option.splits)

lemma retire_dropped:
  "set (d_dropped (retireLocked k d)) =
     set (d_dropped d) \<union> (case map_of (d_pools d) k of Some r \<Rightarrow> set (p_idle (d_pool d r)) | None \<Rightarrow> {})"
  by (auto simp: retireLocked_def Let_def split: option.splits)

section \<open>The registry\<close>

definition registered :: "driver \<Rightarrow> nat set" where
  "registered d = snd ` set (d_pools d)"

definition registry_ok :: "driver \<Rightarrow> bool" where
  "registry_ok d \<longleftrightarrow>
     distinct (map fst (d_pools d)) \<and> distinct (map snd (d_pools d)) \<and> length (d_pools d) \<le> 16 \<and>
     (d_closed d \<longrightarrow> d_pools d = []) \<and>
     (\<forall>r. p_cancelled (d_pool d r) \<longleftrightarrow> r \<notin> registered d) \<and>
     (\<forall>r. p_cancelled (d_pool d r) \<longrightarrow> p_idle (d_pool d r) = [] \<and> \<not> p_approved (d_pool d r)) \<and>
     (\<forall>r \<in> registered d. r < d_next_pool d) \<and>
     (\<forall>r \<ge> d_next_pool d. p_users (d_pool d r) = 0 \<and> p_slots (d_pool d r) = 0)"

lemma map_of_registered: "map_of (d_pools d) k = Some r \<Longrightarrow> r \<in> registered d"
  by (force simp: registered_def dest: map_of_SomeD)

lemma delete_values:
  "distinct (map fst xs) \<Longrightarrow> distinct (map snd xs) \<Longrightarrow>
     snd ` set (AList.delete k xs) = snd ` set xs - set_option (map_of xs k)"
proof (induction xs)
  case (Cons x xs)
  obtain k' r where x: "x = (k', r)" by (cases x)
  have "set_option (map_of xs k) \<subseteq> snd ` set xs" by (force dest: map_of_SomeD)
  then show ?case using Cons x by (cases "k' = k") (auto simp: AList.delete_idem)
qed simp

lemma retire_registered:
  "registry_ok d \<Longrightarrow> registered (retireLocked k d) = registered d - set_option (map_of (d_pools d) k)"
  by (simp add: registry_ok_def registered_def delete_values)

lemma delete_length: "length (AList.delete k xs) \<le> length xs"
  by (simp add: AList.delete_eq)

lemma retire_registry:
  assumes "registry_ok d"
  shows "registry_ok (retireLocked k d)"
proof -
  have "distinct (map fst (AList.delete k (d_pools d)))" "distinct (map snd (AList.delete k (d_pools d)))"
    using assms by (auto simp: registry_ok_def AList.delete_eq intro: distinct_map_filter)
  moreover have "length (AList.delete k (d_pools d)) \<le> 16"
    using assms delete_length [of k "d_pools d"] by (simp add: registry_ok_def)
  moreover have "registered (retireLocked k d) = registered d - set_option (map_of (d_pools d) k)"
    using assms by (rule retire_registered)
  ultimately show ?thesis using assms unfolding registry_ok_def by auto
qed

section \<open>The counters\<close>

definition pool_limits :: "driver \<Rightarrow> nat \<Rightarrow> bool" where
  "pool_limits d r \<longleftrightarrow>
     p_users (d_pool d r) = count_ops (\<lambda>st. user_of st = Some r) (d_ops d) \<and>
     p_slots (d_pool d r) = count_ops (\<lambda>st. slot_of st = Some r) (d_ops d) \<and>
     p_slots (d_pool d r) \<le> maxConnectionsPerProfile \<and>
     length (p_idle (d_pool d r)) + count_ops (\<lambda>st. charge_of st = Some r) (d_ops d) \<le> maxConnectionsPerProfile"

definition admission_ok :: "driver \<Rightarrow> bool" where
  "admission_ok d \<longleftrightarrow>
     d_active d = count_ops admitted (d_ops d) \<and> d_active d \<le> MaxActiveOperations \<and>
     d_waiting d = count_ops (\<lambda>st. st = Queued) (d_ops d) \<and> d_waiting d \<le> MaxWaitingOperations"

definition books_ok :: "driver \<Rightarrow> bool" where
  "books_ok d \<longleftrightarrow> registry_ok d \<and> admission_ok d \<and> (\<forall>r. pool_limits d r)"

lemma books_facts:
  assumes "books_ok d"
  shows "p_slots (d_pool d r) \<le> 8" "p_cancelled (d_pool d r) \<Longrightarrow> p_idle (d_pool d r) = []"
    and "p_cancelled (d_pool d r) \<Longrightarrow> \<not> p_approved (d_pool d r)" "d_active d \<le> 32" "d_waiting d \<le> 128"
    and "p_cancelled (d_pool d r) \<longleftrightarrow> r \<notin> registered d" "r \<in> registered d \<Longrightarrow> r < d_next_pool d"
  using assms unfolding books_ok_def registry_ok_def pool_limits_def admission_ok_def by (elim conjE; blast)+

text \<open>The bookkeeping of one step of an operation, pool by pool.\<close>

lemma pool_limits_settle:
  assumes "pool_limits d r" and "i < length (d_ops d)" and ops: "d_ops d' = d_ops d"
    and st: "o_stage (d_ops d ! i) = st"
    and users: "p_users (d_pool d' r) + (if user_of st = Some r then 1 else 0) =
      p_users (d_pool d r) + (if user_of st' = Some r then 1 else 0)"
    and slots: "p_slots (d_pool d' r) + (if slot_of st = Some r then 1 else 0) =
      p_slots (d_pool d r) + (if slot_of st' = Some r then 1 else 0)"
    and bound: "p_slots (d_pool d' r) \<le> maxConnectionsPerProfile"
    and idle: "p_idle (d_pool d' r) = [] \<or>
      length (p_idle (d_pool d' r)) + (if charge_of st' = Some r then 1 else 0) \<le>
      length (p_idle (d_pool d r)) + (if charge_of st = Some r then 1 else 0)"
  shows "pool_limits (settle i (st', e, d')) r"
proof -
  let ?n = "\<lambda>f. count_ops (\<lambda>st. f st = Some r) (d_ops d)"
  let ?m = "\<lambda>f. count_ops (\<lambda>st. f st = Some r) (d_ops (settle i (st', e, d')))"
  have step: "?m f + (if f st = Some r then 1 else 0) = ?n f + (if f st' = Some r then 1 else 0)" for f :: "stage \<Rightarrow> nat option"
    using count_settle [of i d' "\<lambda>st. f st = Some r" st' e] assms(2) ops st by simp
  have "?m charge_of \<le> ?m slot_of" by (intro count_ops_mono charge_slot)
  with assms(1) step [of user_of] step [of slot_of] step [of charge_of] users slots bound idle show ?thesis
    unfolding pool_limits_def by (simp only: settle_simps) (elim disjE; simp)
qed

lemma admission_settle:
  assumes "admission_ok d" and "i < length (d_ops d)" and "d_ops d' = d_ops d"
    and "o_stage (d_ops d ! i) = st"
    and "d_active d' + (if admitted st then 1 else 0) = d_active d + (if admitted st' then 1 else 0)"
    and "d_waiting d' + (if st = Queued then 1 else 0) = d_waiting d + (if st' = Queued then 1 else 0)"
    and "d_active d' \<le> MaxActiveOperations" and "d_waiting d' \<le> MaxWaitingOperations"
  shows "admission_ok (settle i (st', e, d'))"
  using count_settle [of i d' admitted st' e] count_settle [of i d' "\<lambda>st. st = Queued" st' e] assms
  unfolding admission_ok_def by (simp del: admitted.simps)

lemma registry_cong:
  assumes "registry_ok d" and "d_pools d' = d_pools d" and "d_closed d' = d_closed d" and "d_next_pool d' = d_next_pool d"
    and "\<And>r. p_cancelled (d_pool d' r) = p_cancelled (d_pool d r)"
    and "\<And>r. p_cancelled (d_pool d r) \<Longrightarrow> p_idle (d_pool d' r) = [] \<and> \<not> p_approved (d_pool d' r)"
    and "\<And>r. d_next_pool d \<le> r \<Longrightarrow> p_users (d_pool d' r) = 0 \<and> p_slots (d_pool d' r) = 0"
  shows "registry_ok d'"
  using assms unfolding registry_ok_def registered_def by simp

lemma holder_positive:
  assumes "books_ok d" and "i < length (d_ops d)"
  shows "user_of (o_stage (d_ops d ! i)) = Some r \<Longrightarrow> 0 < p_users (d_pool d r) \<and> r < d_next_pool d"
    and "slot_of (o_stage (d_ops d ! i)) = Some r \<Longrightarrow> 0 < p_slots (d_pool d r) \<and> r < d_next_pool d"
    and "admitted (o_stage (d_ops d ! i)) \<Longrightarrow> 0 < d_active d"
    and "o_stage (d_ops d ! i) = Queued \<Longrightarrow> 0 < d_waiting d"
  using assms count_ops_pos [of i "d_ops d" "\<lambda>st. user_of st = Some r"]
    count_ops_pos [of i "d_ops d" "\<lambda>st. slot_of st = Some r"] count_ops_pos [of i "d_ops d" admitted]
    count_ops_pos [of i "d_ops d" "\<lambda>st. st = Queued"]
  unfolding books_ok_def pool_limits_def admission_ok_def registry_ok_def
  by (simp_all del: admitted.simps) (metis not_le less_irrefl)+

lemma books_settle:
  assumes books: "books_ok d" and i: "i < length (d_ops d)" and ops: "d_ops d' = d_ops d"
    and st: "o_stage (d_ops d ! i) = st"
    and frame: "d_pools d' = d_pools d" "d_closed d' = d_closed d" "d_next_pool d' = d_next_pool d"
    and pools: "\<And>r. p_users (d_pool d' r) + (if user_of st = Some r then 1 else 0) =
        p_users (d_pool d r) + (if user_of st' = Some r then 1 else 0)"
      "\<And>r. p_slots (d_pool d' r) + (if slot_of st = Some r then 1 else 0) =
        p_slots (d_pool d r) + (if slot_of st' = Some r then 1 else 0)"
      "\<And>r. p_slots (d_pool d' r) \<le> maxConnectionsPerProfile"
      "\<And>r. p_idle (d_pool d' r) = [] \<or>
        length (p_idle (d_pool d' r)) + (if charge_of st' = Some r then 1 else 0) \<le>
        length (p_idle (d_pool d r)) + (if charge_of st = Some r then 1 else 0)"
    and retired: "\<And>r. p_cancelled (d_pool d' r) = p_cancelled (d_pool d r)"
      "\<And>r. p_cancelled (d_pool d r) \<Longrightarrow> p_idle (d_pool d' r) = [] \<and> \<not> p_approved (d_pool d' r)"
    and fresh: "\<And>r. user_of st' = Some r \<or> slot_of st' = Some r \<Longrightarrow> r < d_next_pool d"
    and admission: "d_active d' + (if admitted st then 1 else 0) = d_active d + (if admitted st' then 1 else 0)"
      "d_waiting d' + (if st = Queued then 1 else 0) = d_waiting d + (if st' = Queued then 1 else 0)"
      "d_active d' \<le> MaxActiveOperations" "d_waiting d' \<le> MaxWaitingOperations"
  shows "books_ok (settle i (st', e, d'))"
  unfolding books_ok_def
proof (intro conjI allI)
  have old: "registry_ok d" "admission_ok d" "\<And>r. pool_limits d r" using books by (auto simp: books_ok_def)
  have "p_users (d_pool d' r) = 0 \<and> p_slots (d_pool d' r) = 0" if r: "d_next_pool d \<le> r" for r
  proof -
    have "p_users (d_pool d r) = 0 \<and> p_slots (d_pool d r) = 0" using old(1) r by (simp add: registry_ok_def)
    moreover have "user_of st' \<noteq> Some r" "slot_of st' \<noteq> Some r" using fresh [of r] r by auto
    ultimately show ?thesis using pools(1) [of r] pools(2) [of r] by simp
  qed
  then have "registry_ok d'" using registry_cong [OF old(1) frame] retired by blast
  then show "registry_ok (settle i (st', e, d'))" by (simp add: registry_ok_def registered_def)
  show "admission_ok (settle i (st', e, d'))" using old(2) i ops st admission by (rule admission_settle)
  show "pool_limits (settle i (st', e, d')) r" for r
    using old(3) i ops st pools(1) pools(2) pools(3) pools(4) by (rule pool_limits_settle)
qed

lemma books_frame:
  assumes "books_ok d" and "d_ops d' = d_ops d" and "d_pools d' = d_pools d" and "d_closed d' = d_closed d"
    and "d_next_pool d' = d_next_pool d" and "d_pool d' = d_pool d" and "d_active d' = d_active d" and "d_waiting d' = d_waiting d"
  shows "books_ok d'"
proof -
  have "books_ok d' = books_ok d"
    unfolding books_ok_def registry_ok_def registered_def admission_ok_def pool_limits_def by (simp only: assms(2-))
  then show ?thesis using assms(1) by simp
qed

lemma limits_retire: "pool_limits d r \<Longrightarrow> pool_limits (retireLocked k d) r"
  by (auto simp: pool_limits_def)

lemma books_retire: "books_ok d \<Longrightarrow> books_ok (retireLocked k d)"
  unfolding books_ok_def by (intro conjI allI; (elim conjE)) (auto simp: admission_ok_def intro: retire_registry limits_retire)

lemma update_new: "k \<notin> fst ` set xs \<Longrightarrow> AList.update k v xs = xs @ [(k, v)]"
  by (induction xs) auto

lemma new_pool_simps [simp]:
  "p_fingerprint (new_pool fp) = fp" "p_slots (new_pool fp) = 0" "p_idle (new_pool fp) = []"
  "p_users (new_pool fp) = 0" "\<not> p_cancelled (new_pool fp)" "p_live (new_pool fp) = []"
  "\<not> p_approved (new_pool fp)" "p_generation (new_pool fp) = 0" "p_validation (new_pool fp) = None"
  by (simp_all add: new_pool_def)

lemma open_pool_simps [simp]:
  "d_ops (open_pool k fp d) = d_ops d" "d_active (open_pool k fp d) = d_active d"
  "d_waiting (open_pool k fp d) = d_waiting d" "d_closed (open_pool k fp d) = d_closed d"
  "d_pool (open_pool k fp d) = (d_pool d)(d_next_pool d := new_pool fp)"
  "d_next_pool (open_pool k fp d) = d_next_pool d + 1" "d_conn (open_pool k fp d) = d_conn d"
  "d_next_conn (open_pool k fp d) = d_next_conn d" "d_valid (open_pool k fp d) = d_valid d"
  "d_next_valid (open_pool k fp d) = d_next_valid d" "d_dropped (open_pool k fp d) = d_dropped d"
  "d_pools (open_pool k fp d) = AList.update k (d_next_pool d) (d_pools d)"
  by (simp_all add: open_pool_def)

lemma books_open:
  assumes "books_ok d" and "\<not> d_closed d" and "map_of (d_pools d) k = None" and "length (d_pools d) < 16"
  shows "books_ok (open_pool k fp d)"
  unfolding books_ok_def
proof (intro conjI allI)
  let ?r = "d_next_pool d"
  have reg: "registry_ok d" and lim: "\<And>r. pool_limits d r" and adm: "admission_ok d"
    using assms(1) by (auto simp: books_ok_def)
  have keys: "AList.update k ?r (d_pools d) = d_pools d @ [(k, ?r)]"
    using assms(3) by (simp add: update_new map_of_eq_None_iff)
  have "?r \<notin> registered d" using reg by (auto simp: registry_ok_def)
  moreover have "registered (open_pool k fp d) = insert ?r (registered d)" by (simp add: registered_def keys)
  ultimately show "registry_ok (open_pool k fp d)"
    using reg assms(2-4) unfolding registry_ok_def
    by (auto simp: keys registered_def map_of_eq_None_iff less_Suc_eq)
  show "admission_ok (open_pool k fp d)" using adm by (simp add: admission_ok_def)
  show "pool_limits (open_pool k fp d) r" for r
  proof (cases "r = ?r")
    case True
    have "p_users (d_pool d ?r) = 0 \<and> p_slots (d_pool d ?r) = 0" using reg by (simp add: registry_ok_def)
    moreover have "count_ops (\<lambda>st. charge_of st = Some ?r) (d_ops d) \<le> count_ops (\<lambda>st. slot_of st = Some ?r) (d_ops d)"
      by (intro count_ops_mono charge_slot)
    ultimately show ?thesis using lim [of ?r] True by (simp add: pool_limits_def)
  next
    case False
    then show ?thesis using lim [of r] by (simp add: pool_limits_def)
  qed
qed

lemma books_stale: "books_ok d \<Longrightarrow> books_ok (stale_retired k fp d)"
  by (auto simp: stale_retired_def books_retire split: option.splits)

lemma books_unused: "books_ok d \<Longrightarrow> books_ok (unused_retired order d)"
  by (auto simp: unused_retired_def books_retire split: option.splits)

lemma stale_frame [simp]:
  "d_ops (stale_retired k fp d) = d_ops d" "d_closed (stale_retired k fp d) = d_closed d"
  "d_next_pool (stale_retired k fp d) = d_next_pool d" "d_conn (stale_retired k fp d) = d_conn d"
  "d_next_conn (stale_retired k fp d) = d_next_conn d" "d_valid (stale_retired k fp d) = d_valid d"
  "d_next_valid (stale_retired k fp d) = d_next_valid d"
  by (auto simp: stale_retired_def split: option.splits)

lemma unused_frame [simp]:
  "d_ops (unused_retired order d) = d_ops d" "d_closed (unused_retired order d) = d_closed d"
  "d_next_pool (unused_retired order d) = d_next_pool d" "d_conn (unused_retired order d) = d_conn d"
  "d_next_conn (unused_retired order d) = d_next_conn d" "d_valid (unused_retired order d) = d_valid d"
  "d_next_valid (unused_retired order d) = d_next_valid d"
  by (auto simp: unused_retired_def split: option.splits)

lemma unused_keys: "map_of (d_pools d) k = None \<Longrightarrow> map_of (d_pools (unused_retired order d)) k = None"
  by (auto simp: unused_retired_def AList.delete_conv' split: option.splits)

text \<open>Adding a user to a registered pool.\<close>

lemma books_add_user:
  assumes "books_ok d" and "i < length (d_ops d)" and "o_stage (d_ops d ! i) = Entering" and "r \<in> registered d"
  shows "books_ok (settle i (add_user r d))"
proof -
  have "r < d_next_pool d" "\<not> p_cancelled (d_pool d r)" using assms books_facts(6,7) by auto
  then show ?thesis using books_facts(1-5) [OF assms(1)] unfolding add_user_def
    by (intro books_settle [OF assms(1,2) _ assms(3)]) auto
qed

lemma books_checkout:
  assumes "books_ok d" and "i < length (d_ops d)" and st: "o_stage (d_ops d ! i) = Entering"
  shows "books_ok (settle i (checkout_pool mac a op d))"
proof -
  have leave: "books_ok (settle i (Leaving, e, d))" if "books_ok d" "d_ops d ! i = x" "o_stage x = Entering" "i < length (d_ops d)" for d e x
  proof -
    show ?thesis using that books_facts(1-5) [OF that(1)] by (intro books_settle [of d i d Entering]) auto
  qed
  let ?fp = "fingerprint mac (o_access op)" and ?k = "o_profile op"
  let ?d1 = "stale_retired ?k ?fp d"
  let ?d2 = "unused_retired (a_order a) ?d1"
  have b: "books_ok ?d1" "books_ok ?d2" using assms(1) by (simp_all add: books_stale books_unused)
  consider "d_closed d" | r where "\<not> d_closed d" "map_of (d_pools ?d1) ?k = Some r"
    | "\<not> d_closed d" "map_of (d_pools ?d1) ?k = None" "16 \<le> length (d_pools ?d2)"
    | "\<not> d_closed d" "map_of (d_pools ?d1) ?k = None" "length (d_pools ?d2) < 16"
    by (cases "map_of (d_pools ?d1) ?k") (auto simp: not_le [symmetric])
  then show ?thesis
  proof cases
    case 1
    then show ?thesis using leave [OF assms(1) refl st assms(2)] by (simp add: checkout_pool_def)
  next
    case 2
    then have "books_ok (settle i (add_user r ?d1))"
      using assms b by (intro books_add_user) (auto intro: map_of_registered)
    then show ?thesis using 2 by (simp add: checkout_pool_def Let_def)
  next
    case 3
    have "books_ok (settle i (Leaving, e, ?d2))" for e by (rule leave [OF b(2)]) (use assms in auto)
    then show ?thesis using 3 by (simp add: checkout_pool_def Let_def)
  next
    case 4
    let ?d3 = "open_pool ?k ?fp ?d2"
    have "books_ok ?d3" using b 4 by (intro books_open) (auto simp: unused_keys)
    moreover have "d_next_pool ?d2 \<in> registered ?d3"
      by (rule map_of_registered [of _ ?k]) (simp add: AList.update_conv')
    ultimately have "books_ok (settle i (add_user (d_next_pool ?d2) ?d3))"
      using assms by (intro books_add_user) auto
    then show ?thesis using 4 by (simp add: checkout_pool_def Let_def)
  qed
qed

text \<open>Steps that change one pool, the connections and the validations.\<close>

lemma books_one_pool:
  assumes books: "books_ok d" and i: "i < length (d_ops d)" and st: "o_stage (d_ops d ! i) = st"
    and frame: "d_ops d' = d_ops d" "d_pools d' = d_pools d" "d_closed d' = d_closed d" "d_next_pool d' = d_next_pool d"
      "d_active d' = d_active d" "d_waiting d' = d_waiting d"
    and pool: "d_pool d' = (d_pool d)(r := p)"
    and stage: "slot_of st = Some r \<or> user_of st = Some r" "slot_of st' = Some r \<or> slot_of st' = None"
      "user_of st' = Some r \<or> user_of st' = None" "slot_of st = Some r \<or> slot_of st = None"
      "user_of st = Some r \<or> user_of st = None" "admitted st" "admitted st'"
    and p: "p_users p + (if user_of st = Some r then 1 else 0) = p_users (d_pool d r) + (if user_of st' = Some r then 1 else 0)"
      "p_slots p + (if slot_of st = Some r then 1 else 0) = p_slots (d_pool d r) + (if slot_of st' = Some r then 1 else 0)"
      "p_slots p \<le> maxConnectionsPerProfile"
      "p_idle p = [] \<or> length (p_idle p) + (if charge_of st' = Some r then 1 else 0) \<le>
        length (p_idle (d_pool d r)) + (if charge_of st = Some r then 1 else 0)"
      "p_cancelled p = p_cancelled (d_pool d r)"
      "p_cancelled p \<Longrightarrow> p_idle (d_pool d r) = [] \<Longrightarrow> \<not> p_approved (d_pool d r) \<Longrightarrow> p_idle p = [] \<and> \<not> p_approved p"
  shows "books_ok (settle i (st', e, d'))"
proof (rule books_settle [OF books i frame(1) st frame(2-4)])
  fix k
  have other: "k \<noteq> r \<Longrightarrow> user_of st \<noteq> Some k \<and> user_of st' \<noteq> Some k \<and> slot_of st \<noteq> Some k \<and> slot_of st' \<noteq> Some k"
    using stage by auto
  then have charge: "k \<noteq> r \<Longrightarrow> charge_of st \<noteq> Some k \<and> charge_of st' \<noteq> Some k" using charge_slot by blast
  note b = books_facts [OF books]
  show "p_users (d_pool d' k) + (if user_of st = Some k then 1 else 0) =
      p_users (d_pool d k) + (if user_of st' = Some k then 1 else 0)"
    using p(1) other pool by (cases "k = r") simp_all
  show "p_slots (d_pool d' k) + (if slot_of st = Some k then 1 else 0) =
      p_slots (d_pool d k) + (if slot_of st' = Some k then 1 else 0)"
    using p(2) other pool by (cases "k = r") simp_all
  show "p_slots (d_pool d' k) \<le> 8" using p(3) b(1) pool by (cases "k = r") simp_all
  show "p_idle (d_pool d' k) = [] \<or>
      length (p_idle (d_pool d' k)) + (if charge_of st' = Some k then 1 else 0) \<le>
      length (p_idle (d_pool d k)) + (if charge_of st = Some k then 1 else 0)"
    using p(4) charge pool by (cases "k = r") simp_all
  show "p_cancelled (d_pool d' k) = p_cancelled (d_pool d k)" using p(5) pool by (cases "k = r") simp_all
  show "p_idle (d_pool d' k) = [] \<and> \<not> p_approved (d_pool d' k)" if "p_cancelled (d_pool d k)"
    using p(5,6) b(2,3) that pool by (cases "k = r") simp_all
  show "k < d_next_pool d" if "user_of st' = Some k \<or> slot_of st' = Some k"
    using holder_positive(1,2) [OF books i] stage that st by auto
next
  show "d_active d' + (if admitted st then 1 else 0) = d_active d + (if admitted st' then 1 else 0)"
    "d_waiting d' + (if st = Queued then 1 else 0) = d_waiting d + (if st' = Queued then 1 else 0)"
    "d_active d' \<le> 32" "d_waiting d' \<le> 128"
    using frame stage(6,7) books_facts(4,5) [OF books] by auto
qed

lemma pop_idle_books:
  assumes "pop_idle cs p = (g, q)"
  shows "p_users q = p_users p \<and> p_slots q = p_slots p \<and> p_cancelled q = p_cancelled p \<and>
    (p_approved q \<longrightarrow> p_approved p) \<and> (g = None \<longrightarrow> p_idle q = []) \<and>
    (g \<noteq> None \<longrightarrow> length (p_idle q) + 1 \<le> length (p_idle p)) \<and> (p_idle p = [] \<longrightarrow> p_idle q = [])"
  using pop_idle_cases [OF assms]
proof (elim disjE exE conjE)
  assume "g = None" "remains cs p q" "p_idle q = []"
  then show ?thesis by (auto simp: remains_def)
next
  fix c s
  assume "g = Some c" "remains cs p s" "p_idle s = p_idle q @ [c]" and q: "q = s\<lparr>p_idle := p_idle q\<rparr>"
  moreover have "p_users q = p_users s" "p_slots q = p_slots s" "p_cancelled q = p_cancelled s" "p_approved q = p_approved s"
    by (subst q, simp)+
  ultimately show ?thesis by (auto simp: remains_def)
qed

lemma books_move:
  assumes b: "books_ok d" and i: "i < length (d_ops d)" and mv: "op_move mac a (d_ops d ! i) d = Some m"
  shows "books_ok (settle i m)"
proof -
  note f = books_facts [OF b] and h = holder_positive [OF b i]
  note one = books_one_pool [OF b i]
  show ?thesis
  proof (cases "o_stage (d_ops d ! i)")
    case Arriving
    with mv f b i show ?thesis
      by (auto simp: op_move_def admit_def split: option.splits if_splits intro!: books_settle [OF b i _ Arriving])
  next
    case Queued
    with mv f h(4) b i show ?thesis
      by (auto simp: op_move_def wait_turn_def Let_def split: option.splits if_splits intro!: books_settle [OF b i _ Queued])
  next
    case Entering
    with mv books_checkout [OF b i] show ?thesis by (auto simp: op_move_def)
  next
    case (Slotting r)
    with mv f show ?thesis
      by (auto simp: op_move_def take_slot_def Let_def fun_upd_triv split: option.splits if_splits
          intro!: one [OF Slotting, where r = r and p = "d_pool d r"] one [OF Slotting, where r = r])
  next
    case (Taking r)
    obtain g p where p: "pop_idle (d_conn d) (forgetClosed (d_conn d) (d_pool d r)) = (g, p)"
      by (cases "pop_idle (d_conn d) (forgetClosed (d_conn d) (d_pool d r))")
    from pop_idle_books [OF p] mv f p Taking show ?thesis
      by (cases g) (auto simp: op_move_def take_idle_def intro!: one [OF Taking, where r = r and p = p])
  next
    case (Dialing r)
    with mv f show ?thesis
      by (auto simp: op_move_def dial_def Let_def fun_upd_triv split: option.splits if_splits
          intro!: one [OF Dialing, where r = r and p = "d_pool d r"])
  next
    case (Approving r c)
    with mv f show ?thesis
      by (auto simp: op_move_def approve_begin_def Let_def split: option.splits if_splits intro!: one [OF Approving, where r = r])
  next
    case (Validating r c v g)
    with mv f show ?thesis
      by (auto simp: op_move_def approve_end_def Let_def split: option.splits if_splits intro!: one [OF Validating, where r = r])
  next
    case (Awaiting r c v)
    with mv f show ?thesis
      by (auto simp: op_move_def await_validation_def Let_def fun_upd_triv split: option.splits if_splits
          intro!: one [OF Awaiting, where r = r and p = "d_pool d r"])
  next
    case (Using r c)
    with mv f show ?thesis
      by (auto simp: op_move_def use_conn_def Let_def fun_upd_triv split: prod.splits
          intro!: one [OF Using, where r = r and p = "d_pool d r"])
  next
    case (Releasing r g healthy)
    with mv f show ?thesis
      by (auto simp: op_move_def release_drop_def Let_def fun_upd_triv split: grip.splits if_splits
          intro!: one [OF Releasing, where r = r and p = "d_pool d r"] one [OF Releasing, where r = r])
  next
    case (Closing r c)
    with mv f show ?thesis
      by (auto simp: op_move_def fun_upd_triv intro!: one [OF Closing, where r = r and p = "d_pool d r"])
  next
    case (Returning r g)
    with mv f h(1) show ?thesis
      by (auto simp: op_move_def release_return_def Let_def split: grip.splits if_splits
          intro!: one [OF Returning, where r = r] dest: map_of_registered)
  next
    case (Discarding r c)
    with mv f show ?thesis
      by (auto simp: op_move_def fun_upd_triv intro!: one [OF Discarding, where r = r and p = "d_pool d r"])
  next
    case (Freeing r acquired)
    show ?thesis
    proof (cases acquired)
      case True
      have "p_slots (d_pool d r) \<le> 9" using f(1) [of r] by simp
      with mv f h(2) [of r] Freeing True show ?thesis
        by (auto simp: op_move_def free_slot_def intro!: one [OF Freeing, where r = r])
    next
      case False
      with mv f Freeing show ?thesis
        by (auto simp: op_move_def free_slot_def intro!: books_settle [OF b i _ Freeing])
    qed
  next
    case Leaving
    with mv f h(3) show ?thesis
      by (auto simp: op_move_def intro!: books_settle [OF b i _ Leaving])
  next
    case Over
    with mv show ?thesis by (simp add: op_move_def)
  qed
qed

lemma retire_closed: "retireLocked k (d\<lparr>d_closed := x\<rparr>) = (retireLocked k d)\<lparr>d_closed := x\<rparr>"
  by (simp add: retireLocked_def set_pool_def Let_def split: option.split)

lemma Close_after: "Close d = (fold retireLocked (map fst (d_pools d)) d)\<lparr>d_closed := True\<rparr>"
proof -
  have "fold retireLocked ks (d\<lparr>d_closed := True\<rparr>) = (fold retireLocked ks d)\<lparr>d_closed := True\<rparr>" for ks d
    by (induction ks arbitrary: d) (simp_all add: retire_closed)
  then show ?thesis by (simp add: Close_def)
qed

lemma fold_retire:
  "books_ok d \<Longrightarrow> books_ok (fold retireLocked ks d) \<and>
     set (d_pools (fold retireLocked ks d)) = {x \<in> set (d_pools d). fst x \<notin> set ks}"
proof (induction ks arbitrary: d)
  case (Cons k ks)
  have "set (AList.delete k (d_pools d)) = {x \<in> set (d_pools d). fst x \<noteq> k}" by (auto simp: AList.delete_eq)
  with Cons.IH [OF books_retire [OF Cons.prems, of k]] show ?case by (simp add: conj_ac)
qed simp

lemma books_closed: "d_pools d = [] \<Longrightarrow> books_ok (d\<lparr>d_closed := True\<rparr>) = books_ok d"
  unfolding books_ok_def registry_ok_def registered_def admission_ok_def pool_limits_def by simp

lemma books_close:
  assumes "books_ok d"
  shows "books_ok (Close d)" and "d_pools (Close d) = []"
proof -
  let ?d = "fold retireLocked (map fst (d_pools d)) d"
  have "set (d_pools ?d) = {x \<in> set (d_pools d). fst x \<notin> set (map fst (d_pools d))}"
    using fold_retire [OF assms] by blast
  also have "\<dots> = {}" by auto
  finally have "set (d_pools ?d) = {}" .
  then have none: "d_pools ?d = []" by simp
  then show "d_pools (Close d) = []" by (simp add: Close_after)
  have "books_ok ?d" using fold_retire [OF assms] by blast
  with none show "books_ok (Close d)" by (simp add: Close_after books_closed)
qed

lemma count_arrives [simp]:
  "count_ops f (ops @ [arriving k access]) = count_ops f ops + (if f Arriving then 1 else 0)"
  by (simp add: count_ops_append) (simp add: count_ops_def arriving_def)

lemma books_step:
  assumes "driver_step mac d d'" and "books_ok d"
  shows "books_ok d'"
  using assms(1)
proof cases
  case (moves i a m)
  then show ?thesis using books_move assms(2) by blast
next
  case (arrives k access)
  have "books_ok (d\<lparr>d_ops := d_ops d @ [arriving k access]\<rparr>) = books_ok d"
    unfolding books_ok_def registry_ok_def registered_def admission_ok_def pool_limits_def by simp
  then show ?thesis using arrives assms(2) by simp
next
  case (dies c)
  then show ?thesis using assms(2) by (auto intro: books_frame)
next
  case (cleaned c)
  then show ?thesis using assms(2) by (auto intro: books_frame)
next
  case (drops c)
  then show ?thesis using assms(2) by (auto intro: books_frame)
next
  case (invalidates k)
  then show ?thesis using assms(2) by (auto simp: Invalidate_def intro!: books_retire elim!: books_frame)
next
  case closes
  then show ?thesis using assms(2) books_close by simp
next
  case (expires k r)
  then show ?thesis using assms(2) by (auto simp: idle_timeout_def intro: books_retire)
qed

lemma books_reachable: "driver_reachable mac d \<Longrightarrow> books_ok d"
proof (induction rule: driver_reachable.induct)
  case start
  show ?case
    by (simp add: books_ok_def registry_ok_def registered_def admission_ok_def pool_limits_def new_driver_def count_ops_def)
next
  case (step d d')
  then show ?case using books_step by blast
qed

end
