(* ===== verification/Pool_Owners.thy ===== *)
theory Pool_Owners
  imports Pool_Limits
begin

text \<open>
  Who owns a connection: no connection is in two hands, each belongs to the pool of its
  credentials, none is lost while it is open, and none carries session state of an
  operation to the next.
\<close>

text \<open>The connection a stage needs without session state of an earlier operation.\<close>

fun clean_of :: "stage \<Rightarrow> nat option" where
  "clean_of (Approving r c) = Some c"
| "clean_of (Validating r c v g) = Some c"
| "clean_of (Awaiting r c v) = Some c"
| "clean_of (Using r c) = Some c"
| "clean_of (Releasing r (Slot_With c) healthy) = (if healthy then Some c else None)"
| "clean_of (Returning r (Slot_With c)) = Some c"
| "clean_of _ = None"

lemma clean_conn: "clean_of st = Some c \<Longrightarrow> conn_of st = Some c"
  by (induction st rule: clean_of.induct) (auto split: if_splits)

definition holds_conn :: "driver \<Rightarrow> nat \<Rightarrow> nat \<Rightarrow> bool" where
  "holds_conn d i c \<longleftrightarrow> i < length (d_ops d) \<and> conn_of (o_stage (d_ops d ! i)) = Some c"

definition held_ok :: "driver \<Rightarrow> bool" where
  "held_ok d \<longleftrightarrow>
     (\<forall>i c. holds_conn d i c \<longrightarrow> c < d_next_conn d \<and>
        slot_of (o_stage (d_ops d ! i)) = Some (c_pool (d_conn d c)) \<and> (\<forall>r. c \<notin> set (p_idle (d_pool d r))))"

definition one_hand :: "driver \<Rightarrow> bool" where
  "one_hand d \<longleftrightarrow> (\<forall>i j c. holds_conn d i c \<longrightarrow> holds_conn d j c \<longrightarrow> i = j)"

definition idle_ok :: "driver \<Rightarrow> bool" where
  "idle_ok d \<longleftrightarrow>
     (\<forall>r. distinct (p_idle (d_pool d r)) \<and>
       (\<forall>c \<in> set (p_idle (d_pool d r)). c < d_next_conn d \<and> c_pool (d_conn d c) = r \<and> \<not> c_dirty (d_conn d c)))"

definition access_ok :: "(bytes list \<Rightarrow> bytes) \<Rightarrow> driver \<Rightarrow> bool" where
  "access_ok fp d \<longleftrightarrow>
     (\<forall>i < length (d_ops d). \<forall>r. user_of (o_stage (d_ops d ! i)) = Some r \<or> slot_of (o_stage (d_ops d ! i)) = Some r \<longrightarrow>
        fp (o_access (d_ops d ! i)) = p_fingerprint (d_pool d r)) \<and>
     (\<forall>c < d_next_conn d. c_pool (d_conn d c) < d_next_pool d \<and>
        fp (c_access (d_conn d c)) = p_fingerprint (d_pool d (c_pool (d_conn d c))))"

definition none_lost :: "driver \<Rightarrow> bool" where
  "none_lost d \<longleftrightarrow>
     (\<forall>c < d_next_conn d. \<not> c_closed (d_conn d c) \<longrightarrow>
        (\<exists>i. holds_conn d i c) \<or> c \<in> set (p_idle (d_pool d (c_pool (d_conn d c)))) \<or> c \<in> set (d_dropped d))"

definition clean_ok :: "driver \<Rightarrow> bool" where
  "clean_ok d \<longleftrightarrow>
     (\<forall>i < length (d_ops d). \<forall>c. clean_of (o_stage (d_ops d ! i)) = Some c \<longrightarrow> \<not> c_dirty (d_conn d c))"

definition owns_ok :: "(bytes list \<Rightarrow> bytes) \<Rightarrow> driver \<Rightarrow> bool" where
  "owns_ok fp d \<longleftrightarrow> held_ok d \<and> one_hand d \<and> idle_ok d \<and> access_ok fp d \<and> none_lost d \<and> clean_ok d"

lemma owns_facts:
  assumes "owns_ok fp d"
  shows "holds_conn d i c \<Longrightarrow> c < d_next_conn d"
    and "holds_conn d i c \<Longrightarrow> slot_of (o_stage (d_ops d ! i)) = Some (c_pool (d_conn d c))"
    and "holds_conn d i c \<Longrightarrow> c \<notin> set (p_idle (d_pool d r))"
    and "holds_conn d i c \<Longrightarrow> holds_conn d j c \<Longrightarrow> i = j"
    and "distinct (p_idle (d_pool d r))"
    and "c \<in> set (p_idle (d_pool d r)) \<Longrightarrow> c < d_next_conn d"
    and "c \<in> set (p_idle (d_pool d r)) \<Longrightarrow> c_pool (d_conn d c) = r"
    and "c \<in> set (p_idle (d_pool d r)) \<Longrightarrow> \<not> c_dirty (d_conn d c)"
    and "i < length (d_ops d) \<Longrightarrow> user_of (o_stage (d_ops d ! i)) = Some r \<Longrightarrow> fp (o_access (d_ops d ! i)) = p_fingerprint (d_pool d r)"
    and "i < length (d_ops d) \<Longrightarrow> slot_of (o_stage (d_ops d ! i)) = Some r \<Longrightarrow> fp (o_access (d_ops d ! i)) = p_fingerprint (d_pool d r)"
    and "c < d_next_conn d \<Longrightarrow> c_pool (d_conn d c) < d_next_pool d"
    and "c < d_next_conn d \<Longrightarrow> fp (c_access (d_conn d c)) = p_fingerprint (d_pool d (c_pool (d_conn d c)))"
    and "c < d_next_conn d \<Longrightarrow> \<not> c_closed (d_conn d c) \<Longrightarrow>
      (\<exists>i. holds_conn d i c) \<or> c \<in> set (p_idle (d_pool d (c_pool (d_conn d c)))) \<or> c \<in> set (d_dropped d)"
    and "i < length (d_ops d) \<Longrightarrow> clean_of (o_stage (d_ops d ! i)) = Some c \<Longrightarrow> \<not> c_dirty (d_conn d c)"
proof -
  have parts: "held_ok d" "one_hand d" "idle_ok d" "access_ok fp d" "none_lost d" "clean_ok d"
    using assms unfolding owns_ok_def by blast+
  show "holds_conn d i c \<Longrightarrow> c < d_next_conn d"
    "holds_conn d i c \<Longrightarrow> slot_of (o_stage (d_ops d ! i)) = Some (c_pool (d_conn d c))"
    "holds_conn d i c \<Longrightarrow> c \<notin> set (p_idle (d_pool d r))"
    using parts(1) unfolding held_ok_def by blast+
  show "holds_conn d i c \<Longrightarrow> holds_conn d j c \<Longrightarrow> i = j" using parts(2) unfolding one_hand_def by blast
  show "distinct (p_idle (d_pool d r))" "c \<in> set (p_idle (d_pool d r)) \<Longrightarrow> c < d_next_conn d"
    "c \<in> set (p_idle (d_pool d r)) \<Longrightarrow> c_pool (d_conn d c) = r"
    "c \<in> set (p_idle (d_pool d r)) \<Longrightarrow> \<not> c_dirty (d_conn d c)"
    using parts(3) unfolding idle_ok_def by blast+
  show "i < length (d_ops d) \<Longrightarrow> user_of (o_stage (d_ops d ! i)) = Some r \<Longrightarrow> fp (o_access (d_ops d ! i)) = p_fingerprint (d_pool d r)"
    "i < length (d_ops d) \<Longrightarrow> slot_of (o_stage (d_ops d ! i)) = Some r \<Longrightarrow> fp (o_access (d_ops d ! i)) = p_fingerprint (d_pool d r)"
    "c < d_next_conn d \<Longrightarrow> c_pool (d_conn d c) < d_next_pool d"
    "c < d_next_conn d \<Longrightarrow> fp (c_access (d_conn d c)) = p_fingerprint (d_pool d (c_pool (d_conn d c)))"
    using parts(4) unfolding access_ok_def by blast+
  show "c < d_next_conn d \<Longrightarrow> \<not> c_closed (d_conn d c) \<Longrightarrow>
      (\<exists>i. holds_conn d i c) \<or> c \<in> set (p_idle (d_pool d (c_pool (d_conn d c)))) \<or> c \<in> set (d_dropped d)"
    using parts(5) unfolding none_lost_def by blast
  show "i < length (d_ops d) \<Longrightarrow> clean_of (o_stage (d_ops d ! i)) = Some c \<Longrightarrow> \<not> c_dirty (d_conn d c)"
    using parts(6) unfolding clean_ok_def by blast
qed

lemma holds_settle:
  "i < length (d_ops d) \<Longrightarrow> d_ops d' = d_ops d \<Longrightarrow>
     holds_conn (settle i (st', e, d')) j c \<longleftrightarrow> (if j = i then conn_of st' = Some c else holds_conn d j c)"
  by (auto simp: holds_conn_def settle_ops)

text \<open>One step of an operation that has \<open>st\<close> before and \<open>st'\<close> after.\<close>

lemma owns_settle:
  assumes owns: "owns_ok fp d" and i: "i < length (d_ops d)" and ops: "d_ops d' = d_ops d"
    and st: "o_stage (d_ops d ! i) = st"
    and frame: "d_next_conn d \<le> d_next_conn d'" "d_next_pool d' = d_next_pool d"
      "\<And>r. p_fingerprint (d_pool d' r) = p_fingerprint (d_pool d r)"
      "\<And>c. c < d_next_conn d \<Longrightarrow> c_access (d_conn d' c) = c_access (d_conn d c) \<and> c_pool (d_conn d' c) = c_pool (d_conn d c)"
    and held: "\<And>c. conn_of st' = Some c \<Longrightarrow> conn_of st = Some c \<and> slot_of st' = slot_of st \<and> (\<forall>r. set (p_idle (d_pool d' r)) \<subseteq> set (p_idle (d_pool d r)))
        \<or> (\<exists>r. c \<in> set (p_idle (d_pool d r)) \<and> slot_of st' = Some r \<and> c \<notin> set (p_idle (d_pool d' r)))
        \<or> (c = d_next_conn d \<and> c < d_next_conn d' \<and> slot_of st' = Some (c_pool (d_conn d' c)))"
    and idle: "\<And>r. distinct (p_idle (d_pool d' r))"
      "\<And>r c. c \<in> set (p_idle (d_pool d' r)) \<Longrightarrow> c \<in> set (p_idle (d_pool d r)) \<or>
         (conn_of st = Some c \<and> slot_of st = Some r \<and> conn_of st' = None \<and> clean_of st = Some c)"
    and new: "\<And>c. d_next_conn d \<le> c \<Longrightarrow> c < d_next_conn d' \<Longrightarrow> c_pool (d_conn d' c) < d_next_pool d \<and>
        fp (c_access (d_conn d' c)) = p_fingerprint (d_pool d (c_pool (d_conn d' c))) \<and> conn_of st' = Some c"
    and access: "\<And>r. user_of st' = Some r \<or> slot_of st' = Some r \<Longrightarrow> fp (o_access (d_ops d ! i)) = p_fingerprint (d_pool d r)"
    and leak: "\<And>c. c < d_next_conn d \<Longrightarrow> c_closed (d_conn d c) \<Longrightarrow> c_closed (d_conn d' c)"
      "\<And>c. conn_of st = Some c \<Longrightarrow> c_closed (d_conn d' c) \<or> conn_of st' = Some c \<or> (\<exists>r. c \<in> set (p_idle (d_pool d' r)))"
      "\<And>r c. c \<in> set (p_idle (d_pool d r)) \<Longrightarrow> c_closed (d_conn d' c) \<or> conn_of st' = Some c \<or> c \<in> set (p_idle (d_pool d' r))"
      "set (d_dropped d) \<subseteq> set (d_dropped d')"
    and clean: "\<And>c. c < d_next_conn d \<Longrightarrow> conn_of st \<noteq> Some c \<Longrightarrow> c_dirty (d_conn d' c) = c_dirty (d_conn d c)"
      "\<And>c. clean_of st = Some c \<Longrightarrow> conn_of st' = None \<Longrightarrow> c_dirty (d_conn d' c) = c_dirty (d_conn d c)"
      "\<And>c. clean_of st' = Some c \<Longrightarrow> \<not> c_dirty (d_conn d' c)"
  shows "owns_ok fp (settle i (st', e, d'))"
proof -
  note f = owns_facts [OF owns]
  let ?s = "settle i (st', e, d')"
  note h = holds_settle [OF i ops, of st' e]
  have mine: "conn_of st = Some c \<longleftrightarrow> holds_conn d i c" for c using i st by (simp add: holds_conn_def)
  have from_idle: "c \<in> set (p_idle (d_pool d' r)) \<Longrightarrow> c < d_next_conn d \<and> c_pool (d_conn d c) = r \<and> \<not> c_dirty (d_conn d' c)" for c r
  proof -
    assume a: "c \<in> set (p_idle (d_pool d' r))"
    from idle(2) [OF a] show ?thesis
    proof
      assume b: "c \<in> set (p_idle (d_pool d r))"
      then show ?thesis using f(3,6,7,8) mine clean(1) by metis
    next
      assume b: "conn_of st = Some c \<and> slot_of st = Some r \<and> conn_of st' = None \<and> clean_of st = Some c"
      then show ?thesis using f(1) [of i c] f(2) [of i c] f(14) [OF i, of c] mine clean(2) [of c] st by auto
    qed
  qed
  have other: "holds_conn d j c \<Longrightarrow> j \<noteq> i \<Longrightarrow> conn_of st' \<noteq> Some c \<and> (\<forall>r. c \<notin> set (p_idle (d_pool d' r)))" for j c
  proof -
    assume a: "holds_conn d j c" "j \<noteq> i"
    have "conn_of st \<noteq> Some c" using a f(4) mine by blast
    moreover have "c \<noteq> d_next_conn d" using f(1) [OF a(1)] by simp
    ultimately show ?thesis using held [of c] idle(2) [of c] f(3) [OF a(1)] by blast
  qed
  have own: "conn_of st' = Some c \<Longrightarrow> c < d_next_conn d' \<and> slot_of st' = Some (c_pool (d_conn d' c)) \<and> (\<forall>r. c \<notin> set (p_idle (d_pool d' r)))" for c
  proof -
    assume a: "conn_of st' = Some c"
    from held [OF a] show ?thesis
    proof (elim disjE exE)
      assume b: "conn_of st = Some c \<and> slot_of st' = slot_of st \<and> (\<forall>r. set (p_idle (d_pool d' r)) \<subseteq> set (p_idle (d_pool d r)))"
      then have "holds_conn d i c" using mine by blast
      moreover from this have "\<forall>r. c \<notin> set (p_idle (d_pool d' r))" using b f(3) by blast
      ultimately show ?thesis using b f(1) [of i c] f(2) [of i c] frame(1) frame(4) [of c] st by simp
    next
      fix r assume b: "c \<in> set (p_idle (d_pool d r)) \<and> slot_of st' = Some r \<and> c \<notin> set (p_idle (d_pool d' r))"
      then have "c < d_next_conn d" "c_pool (d_conn d c) = r" using f(6,7) by blast+
      then show ?thesis using b frame(1,4) from_idle by fastforce
    next
      assume b: "c = d_next_conn d \<and> c < d_next_conn d' \<and> slot_of st' = Some (c_pool (d_conn d' c))"
      then show ?thesis using from_idle by fastforce
    qed
  qed
  show ?thesis unfolding owns_ok_def held_ok_def one_hand_def idle_ok_def access_ok_def none_lost_def clean_ok_def
  proof (intro conjI allI impI ballI; (unfold settle_simps)?)
    fix j c assume a: "holds_conn ?s j c"
    show "c < d_next_conn d'" using a h own other f(1) frame(1) by (metis order_less_le_trans)
    show "slot_of (o_stage (d_ops ?s ! j)) = Some (c_pool (d_conn d' c))"
      using a h [of j c] own [of c] f(1,2) [of j c] frame(4) [of c] i ops
      by (cases "j = i") (auto simp: settle_ops holds_conn_def)
    show "c \<notin> set (p_idle (d_pool d' r))" for r using a h own other by metis
  next
    fix j k c assume "holds_conn ?s j c" "holds_conn ?s k c"
    then show "j = k" using h other f(4) by metis
  next
    show "distinct (p_idle (d_pool d' r))" for r by (rule idle)
  next
    fix r c assume "c \<in> set (p_idle (d_pool d' r))"
    from from_idle [OF this] show "c < d_next_conn d'" "c_pool (d_conn d' c) = r" "\<not> c_dirty (d_conn d' c)"
      using frame by auto
  next
    fix j r assume "j < length (d_ops ?s)"
      "user_of (o_stage (d_ops ?s ! j)) = Some r \<or> slot_of (o_stage (d_ops ?s ! j)) = Some r"
    then show "fp (o_access (d_ops ?s ! j)) = p_fingerprint (d_pool d' r)"
      using access [of r] f(9,10) [of j r] frame(3) ops by (cases "j = i") (auto simp: settle_ops)
  next
    fix c assume "c < d_next_conn d'"
    then show "c_pool (d_conn d' c) < d_next_pool d'" "fp (c_access (d_conn d' c)) = p_fingerprint (d_pool d' (c_pool (d_conn d' c)))"
      using new [of c] f(11,12) [of c] frame by (cases "c < d_next_conn d"; simp)+
  next
    fix c assume a: "c < d_next_conn d'" "\<not> c_closed (d_conn d' c)"
    show "(\<exists>j. holds_conn ?s j c) \<or> c \<in> set (p_idle (d_pool d' (c_pool (d_conn d' c)))) \<or> c \<in> set (d_dropped d')"
    proof (cases "c < d_next_conn d")
      case False
      then have "holds_conn ?s i c" using new [of c] a h [of i c] by simp
      then show ?thesis by blast
    next
      case True
      from f(13) [OF True] leak(1) [OF True] a(2)
      consider j where "holds_conn d j c" | "c \<in> set (p_idle (d_pool d (c_pool (d_conn d c))))" | "c \<in> set (d_dropped d)" by blast
      then show ?thesis
      proof cases
        case (1 j)
        show ?thesis
        proof (cases "j = i")
          case True
          then have "conn_of st' = Some c \<or> (\<exists>r. c \<in> set (p_idle (d_pool d' r)))" using 1 leak(2) [of c] a(2) mine by blast
          then show ?thesis using h from_idle frame(4) by metis
        next
          case False
          then show ?thesis using 1 h by metis
        qed
      next
        case 2
        then show ?thesis using leak(3) [OF 2] a(2) h frame(4) [OF True] by metis
      next
        case 3
        then show ?thesis using leak(4) by blast
      qed
    qed
  next
    fix j c assume a: "j < length (d_ops ?s)" "clean_of (o_stage (d_ops ?s ! j)) = Some c"
    show "\<not> c_dirty (d_conn d' c)"
    proof (cases "j = i")
      case True
      then show ?thesis using a clean(3) ops by (simp add: settle_ops)
    next
      case False
      then have b: "j < length (d_ops d)" "clean_of (o_stage (d_ops d ! j)) = Some c" using a ops by (simp_all add: settle_ops)
      then have "holds_conn d j c" by (simp add: holds_conn_def clean_conn)
      then have "c < d_next_conn d" "conn_of st \<noteq> Some c" using f(1,4) mine False by blast+
      then show ?thesis using clean(1) f(14) [OF b] by simp
    qed
  qed
qed

lemma owns_retire:
  assumes "owns_ok fp d"
  shows "owns_ok fp (retireLocked k d)"
proof -
  note f = owns_facts [OF assms]
  have h: "holds_conn (retireLocked k d) i c = holds_conn d i c" for i c by (simp add: holds_conn_def)
  show ?thesis
    unfolding owns_ok_def
  proof (intro conjI)
    show "held_ok (retireLocked k d)" using f(1,2,3) unfolding held_ok_def h by simp
    show "one_hand (retireLocked k d)" using f(4) unfolding one_hand_def h by blast
    show "idle_ok (retireLocked k d)" using f(5-8) unfolding idle_ok_def by simp
    show "access_ok fp (retireLocked k d)" using f(9-12) unfolding access_ok_def by simp
    show "none_lost (retireLocked k d)"
      using f(13) unfolding none_lost_def h by (fastforce simp: retire_dropped)
    show "clean_ok (retireLocked k d)" using f(14) unfolding clean_ok_def by simp
  qed
qed

lemma owns_open:
  assumes "owns_ok fp d" and "books_ok d"
  shows "owns_ok fp (open_pool k x d)"
proof -
  note f = owns_facts [OF assms(1)] and p = holder_positive(1,2) [OF assms(2)]
  have h: "holds_conn (open_pool k x d) i c = holds_conn d i c" for i c by (simp add: holds_conn_def)
  show ?thesis
    unfolding owns_ok_def
  proof (intro conjI)
    show "held_ok (open_pool k x d)" using f(1,2,3) unfolding held_ok_def h by simp
    show "one_hand (open_pool k x d)" using f(4) unfolding one_hand_def h by blast
    show "idle_ok (open_pool k x d)" using f(5-8) unfolding idle_ok_def by simp
    have "i < length (d_ops d) \<Longrightarrow> user_of (o_stage (d_ops d ! i)) \<noteq> Some (d_next_pool d) \<and> slot_of (o_stage (d_ops d ! i)) \<noteq> Some (d_next_pool d)" for i
      using p [of i "d_next_pool d"] by blast
    moreover have "c < d_next_conn d \<Longrightarrow> c_pool (d_conn d c) \<noteq> d_next_pool d" for c using f(11) [of c] by simp
    ultimately show "access_ok fp (open_pool k x d)"
      using f(9-12) unfolding access_ok_def by (auto simp: less_Suc_eq)
    show "none_lost (open_pool k x d)"
      using f(11,13) unfolding none_lost_def h by fastforce
    show "clean_ok (open_pool k x d)" using f(14) unfolding clean_ok_def by simp
  qed
qed

lemma owns_stale: "owns_ok fp d \<Longrightarrow> owns_ok fp (stale_retired k x d)"
  by (auto simp: stale_retired_def owns_retire split: option.splits)

lemma owns_unused: "owns_ok fp d \<Longrightarrow> owns_ok fp (unused_retired order d)"
  by (auto simp: unused_retired_def owns_retire split: option.splits)

lemma stale_fingerprint: "map_of (d_pools (stale_retired k x d)) k = Some r \<Longrightarrow> p_fingerprint (d_pool (stale_retired k x d) r) = x"
  by (auto simp: stale_retired_def AList.delete_conv' split: option.splits if_splits)

lemma owns_plain:
  assumes "owns_ok fp d" and "i < length (d_ops d)" and "o_stage (d_ops d ! i) = st" and "conn_of st = None" and "conn_of st' = None"
    and "\<And>r. user_of st' = Some r \<or> slot_of st' = Some r \<Longrightarrow> fp (o_access (d_ops d ! i)) = p_fingerprint (d_pool d r)"
    and "d_ops d' = d_ops d" and "d_next_conn d' = d_next_conn d" and "d_next_pool d' = d_next_pool d" and "d_conn d' = d_conn d"
    and "d_dropped d' = d_dropped d" and "\<And>r. p_fingerprint (d_pool d' r) = p_fingerprint (d_pool d r) \<and>
      (p_idle (d_pool d' r) = p_idle (d_pool d r) \<or>
       (\<exists>rest. p_idle (d_pool d r) = p_idle (d_pool d' r) @ rest \<and> (\<forall>c \<in> set rest. c_closed (d_conn d c))))"
  shows "owns_ok fp (settle i (st', e, d'))"
proof -
  note f = owns_facts [OF assms(1)]
  have sub: "distinct (p_idle (d_pool d' r)) \<and> set (p_idle (d_pool d' r)) \<subseteq> set (p_idle (d_pool d r)) \<and>
      (\<forall>c \<in> set (p_idle (d_pool d r)). c_closed (d_conn d c) \<or> c \<in> set (p_idle (d_pool d' r)))" for r
    using assms(12) [of r] f(5) [of r] by auto
  have "clean_of st' = None" using clean_conn [of st'] assms(5) by (cases "clean_of st'") auto
  moreover have "p_fingerprint (d_pool d' r) = p_fingerprint (d_pool d r)" for r using assms(12) by blast
  moreover have "set (p_idle (d_pool d' r)) \<subseteq> set (p_idle (d_pool d r))" "distinct (p_idle (d_pool d' r))"
    "c \<in> set (p_idle (d_pool d r)) \<Longrightarrow> c_closed (d_conn d c) \<or> c \<in> set (p_idle (d_pool d' r))" for r c
    using sub [of r] by blast+
  ultimately show ?thesis
    using assms(1-11) by (intro owns_settle [of fp d i d' st st' e]) auto
qed

lemma owns_checkout:
  assumes o: "owns_ok fp d" and b: "books_ok d" and i: "i < length (d_ops d)" and st: "o_stage (d_ops d ! i) = Entering"
    and fp: "fp = fingerprint mac"
  shows "owns_ok fp (settle i (checkout_pool mac a (d_ops d ! i) d))"
proof -
  let ?x = "fp (o_access (d_ops d ! i))" and ?k = "o_profile (d_ops d ! i)"
  let ?d1 = "stale_retired ?k ?x d"
  let ?d2 = "unused_retired (a_order a) ?d1"
  let ?d3 = "open_pool ?k ?x ?d2"
  have leave: "owns_ok fp (settle i (Leaving, e, s))" if "owns_ok fp s" "d_ops s = d_ops d" for s e
    using that i st by (intro owns_plain [OF that(1) _ refl]) auto
  have user: "owns_ok fp (settle i (add_user r s))" if "owns_ok fp s" "d_ops s = d_ops d" "p_fingerprint (d_pool s r) = ?x" for s r
    unfolding add_user_def using that i st by (intro owns_plain [OF that(1) _ refl]) auto
  have "owns_ok fp ?d1" "owns_ok fp ?d2" using o by (simp_all add: owns_stale owns_unused)
  moreover have "owns_ok fp ?d3"
    using calculation(2) books_unused [OF books_stale [OF b]] by (rule owns_open)
  ultimately have parts: "owns_ok fp (settle i (Leaving, e, d))" "owns_ok fp (settle i (Leaving, e, ?d2))"
    "map_of (d_pools ?d1) ?k = Some r \<Longrightarrow> owns_ok fp (settle i (add_user r ?d1))"
    "owns_ok fp (settle i (add_user (d_next_pool ?d2) ?d3))" for e r
    using o by (auto intro!: leave user stale_fingerprint)
  then show ?thesis
    by (auto simp: checkout_pool_def fp Let_def split: option.splits)
qed

text \<open>The operation keeps its connection, or closes it.\<close>

lemma owns_keep:
  assumes "owns_ok fp d" and i: "i < length (d_ops d)" and st: "o_stage (d_ops d ! i) = st" and "conn_of st = Some c" and "slot_of st = Some r"
    and "conn_of st' = Some c \<and> slot_of st' = Some r \<or> conn_of st' = None \<and> (slot_of st' = None \<or> slot_of st' = Some r) \<and> c_closed (d_conn d' c)"
    and "user_of st' = Some r \<or> user_of st' = None"
    and "d_ops d' = d_ops d" and "d_next_conn d' = d_next_conn d" and "d_next_pool d' = d_next_pool d"
    and "d_dropped d' = d_dropped d" and "\<And>k. p_fingerprint (d_pool d' k) = p_fingerprint (d_pool d k)"
    and "\<And>k. p_idle (d_pool d' k) = p_idle (d_pool d k)"
    and "\<And>k. c_access (d_conn d' k) = c_access (d_conn d k)" and "\<And>k. c_pool (d_conn d' k) = c_pool (d_conn d k)"
    and "\<And>k. c_closed (d_conn d k) \<Longrightarrow> c_closed (d_conn d' k)"
    and "\<And>k. k \<noteq> c \<or> conn_of st' = None \<Longrightarrow> c_dirty (d_conn d' k) = c_dirty (d_conn d k)"
    and "clean_of st' = Some c \<Longrightarrow> \<not> c_dirty (d_conn d' c)"
  shows "owns_ok fp (settle i (st', e, d'))"
proof -
  note f = owns_facts [OF assms(1)]
  have one: "conn_of st' = Some k \<or> clean_of st' = Some k \<Longrightarrow> k = c" for k using assms(6) clean_conn [of st' k] by auto
  have two: "slot_of st' = Some k \<or> user_of st' = Some k \<Longrightarrow> k = r" for k using assms(6,7) by auto
  show ?thesis
  proof (rule owns_settle [OF assms(1) i assms(8) st])
    show "conn_of st' = Some k \<Longrightarrow>
        conn_of st = Some k \<and> slot_of st' = slot_of st \<and> (\<forall>r. set (p_idle (d_pool d' r)) \<subseteq> set (p_idle (d_pool d r))) \<or>
        (\<exists>r. k \<in> set (p_idle (d_pool d r)) \<and> slot_of st' = Some r \<and> k \<notin> set (p_idle (d_pool d' r))) \<or>
        k = d_next_conn d \<and> k < d_next_conn d' \<and> slot_of st' = Some (c_pool (d_conn d' k))" for k
      using one [of k] assms(4-6,13) by auto
    show "fp (o_access (d_ops d ! i)) = p_fingerprint (d_pool d k)" if "user_of st' = Some k \<or> slot_of st' = Some k" for k
      using two [of k] that f(10) [OF i, of r] st assms(5) by auto
    show "c_closed (d_conn d' k) \<or> conn_of st' = Some k \<or> (\<exists>r. k \<in> set (p_idle (d_pool d' r)))" if "conn_of st = Some k" for k
      using that assms(4,6) by auto
    show "\<not> c_dirty (d_conn d' k)" if "clean_of st' = Some k" for k using one [of k] that assms(18) by blast
    show "c_dirty (d_conn d' k) = c_dirty (d_conn d k)" if "k < d_next_conn d" "conn_of st \<noteq> Some k" for k
      using that assms(4) by (intro assms(17)) auto
    show "c_dirty (d_conn d' k) = c_dirty (d_conn d k)" if "clean_of st = Some k" "conn_of st' = None" for k
      using that by (intro assms(17)) auto
  qed (simp_all add: assms(9-15) f(5), auto intro: assms(16))
qed

lemma run_tx_healthy: "snd (run_tx a closed) \<Longrightarrow> was_reset a closed"
  by (auto simp: run_tx_def was_reset_def split: option.splits prod.splits if_splits)

lemma owns_move:
  assumes o: "owns_ok fp d" and b: "books_ok d" and i: "i < length (d_ops d)" and fp: "fp = fingerprint mac"
    and mv: "op_move mac a (d_ops d ! i) d = Some m"
  shows "owns_ok fp (settle i m)"
proof -
  note f = owns_facts [OF o]
  note plain = owns_plain [OF o i] and keep = owns_keep [OF o i]
  show ?thesis
  proof (cases "o_stage (d_ops d ! i)")
    case Arriving
    with mv show ?thesis
      by (auto simp: op_move_def admit_def split: option.splits if_splits intro!: plain [OF Arriving])
  next
    case Queued
    with mv show ?thesis
      by (auto simp: op_move_def wait_turn_def Let_def split: option.splits if_splits intro!: plain [OF Queued])
  next
    case Entering
    with mv owns_checkout [OF o b i _ fp] show ?thesis by (auto simp: op_move_def)
  next
    case (Slotting r)
    with mv f(9) [OF i, of r] show ?thesis
      by (auto simp: op_move_def take_slot_def Let_def split: option.splits if_splits intro!: plain [OF Slotting])
  next
    case (Taking r)
    let ?p = "forgetClosed (d_conn d) (d_pool d r)"
    obtain g p where p: "pop_idle (d_conn d) ?p = (g, p)" by (cases "pop_idle (d_conn d) ?p")
    from pop_idle_cases [OF p] show ?thesis
    proof (elim disjE exE conjE)
      assume g: "g = None" and rem: "remains (d_conn d) ?p p"
      have "m = (Dialing r, None, set_pool r p d)" using mv Taking p g by (simp add: op_move_def take_idle_def)
      then show ?thesis using rem f(10) [OF i, of r] Taking
        by (auto simp: remains_def intro!: plain [OF Taking])
    next
      fix c s assume g: "g = Some c" and rem: "remains (d_conn d) ?p s" and s: "p_idle s = p_idle p @ [c]" and q: "p = s\<lparr>p_idle := p_idle p\<rparr>"
      have m: "m = (Approving r c, None, set_pool r p d)" using mv Taking p g by (simp add: op_move_def take_idle_def)
      have fpr: "p_fingerprint p = p_fingerprint (d_pool d r)" using rem by (subst q) (simp add: remains_def)
      obtain rest where rest: "p_idle (d_pool d r) = p_idle p @ c # rest" "\<forall>k \<in> set rest. c_closed (d_conn d k)"
        using rem s by (auto simp: remains_def)
      have c: "c \<in> set (p_idle (d_pool d r))" "c \<notin> set (p_idle p)" "distinct (p_idle p)" using rest f(5) [of r] by auto
      have e: "d_next_conn d = d_next_conn d'" if "d' = set_pool r p d" for d' using that by simp
      show ?thesis unfolding m
        using Taking f(5) f(8) [OF c(1)] f(10) [OF i, of r] c rest fpr
        by (intro owns_settle [OF o i _ Taking]) (auto split: if_splits)
    qed
  next
    case (Dialing r)
    show ?thesis
    proof (cases "a_config a = None \<and> a_dial a = None")
      case True
      let ?c = "d_next_conn d"
      have m: "m = (Approving r ?c, None, d\<lparr>d_conn := (d_conn d)(?c := new_conn (o_access (d_ops d ! i)) r), d_next_conn := ?c + 1\<rparr>)"
        using mv Dialing True by (simp add: op_move_def dial_def)
      have "r < d_next_pool d" using holder_positive(2) [OF b i] Dialing by simp
      then show ?thesis unfolding m
        using Dialing f(5) f(6) [of ?c] f(10) [OF i, of r]
        by (intro owns_settle [OF o i _ Dialing]) (auto simp: new_conn_def less_Suc_eq)
    next
      case False
      with mv Dialing f(10) [OF i, of r] show ?thesis
        by (auto simp: op_move_def dial_def split: option.splits intro!: plain [OF Dialing])
    qed
  next
    case (Approving r c)
    with mv f(14) [OF i, of c] show ?thesis
      by (auto simp: op_move_def approve_begin_def Let_def split: option.splits if_splits intro!: keep [OF Approving, of c r])
  next
    case (Validating r c v g)
    with mv f(14) [OF i, of c] show ?thesis
      by (auto simp: op_move_def approve_end_def Let_def split: option.splits if_splits intro!: keep [OF Validating, of c r])
  next
    case (Awaiting r c v)
    with mv f(14) [OF i, of c] show ?thesis
      by (auto simp: op_move_def await_validation_def Let_def split: option.splits if_splits intro!: keep [OF Awaiting, of c r])
  next
    case (Using r c)
    with mv run_tx_healthy [of a "c_closed (d_conn d c)"] show ?thesis
      by (auto simp: op_move_def use_conn_def Let_def split: prod.splits if_splits intro!: keep [OF Using, of c r])
  next
    case (Releasing r g healthy)
    show ?thesis
    proof (cases g)
      case (Slot_With c)
      with mv Releasing f(14) [OF i, of c] show ?thesis
        by (auto simp: op_move_def release_drop_def Let_def split: if_splits intro!: keep [OF Releasing, of c r])
    qed (use mv Releasing f(9,10) [OF i, of r] in \<open>auto simp: op_move_def release_drop_def intro!: plain [OF Releasing]\<close>)
  next
    case (Closing r c)
    with mv show ?thesis
      by (auto simp: op_move_def intro!: keep [OF Closing, of c r] split: if_splits)
  next
    case (Returning r g)
    show ?thesis
    proof (cases g)
      case (Slot_With c)
      have held: "holds_conn d i c" using Returning Slot_With i by (simp add: holds_conn_def)
      show ?thesis
      proof (cases "map_of (d_pools d) (o_profile (d_ops d ! i)) = Some r \<and> \<not> d_closed d")
        case True
        with mv Returning Slot_With f(5) f(3) [OF held] f(10) [OF i, of r] show ?thesis
          by (auto simp: op_move_def release_return_def Let_def intro!: owns_settle [OF o i _ Returning] split: if_splits)
      next
        case False
        with mv Returning Slot_With show ?thesis
          by (auto simp: op_move_def release_return_def Let_def intro!: keep [OF Returning, of c r])
      qed
    qed (use mv Returning f(10) [OF i, of r] in \<open>auto simp: op_move_def release_return_def Let_def intro!: plain [OF Returning]\<close>)
  next
    case (Discarding r c)
    with mv show ?thesis
      by (auto simp: op_move_def intro!: keep [OF Discarding, of c r] split: if_splits)
  next
    case (Freeing r acquired)
    with mv show ?thesis
      by (auto simp: op_move_def free_slot_def intro!: plain [OF Freeing])
  next
    case Leaving
    with mv show ?thesis
      by (auto simp: op_move_def intro!: plain [OF Leaving])
  next
    case Over
    with mv show ?thesis by (simp add: op_move_def)
  qed
qed

text \<open>Connections that die, end their cleanup or are closed on the way out.\<close>

lemma owns_world:
  assumes "owns_ok fp d" and "d_ops d' = d_ops d" and "d_next_conn d' = d_next_conn d" and "d_next_pool d' = d_next_pool d"
    and "d_pool d' = d_pool d" and "\<And>c. c_access (d_conn d' c) = c_access (d_conn d c)" and "\<And>c. c_pool (d_conn d' c) = c_pool (d_conn d c)"
    and "\<And>c. c_dirty (d_conn d' c) = c_dirty (d_conn d c)" and "\<And>c. c_closed (d_conn d c) \<Longrightarrow> c_closed (d_conn d' c)"
    and "\<And>c. c \<in> set (d_dropped d) \<Longrightarrow> c \<in> set (d_dropped d') \<or> c_closed (d_conn d' c)"
  shows "owns_ok fp d'"
proof -
  note f = owns_facts [OF assms(1)]
  have h: "holds_conn d' i c = holds_conn d i c" for i c by (simp add: holds_conn_def assms(2))
  show ?thesis
    unfolding owns_ok_def
  proof (intro conjI)
    show "held_ok d'" using f(1,2,3) unfolding held_ok_def h by (simp add: assms)
    show "one_hand d'" using f(4) unfolding one_hand_def h by blast
    show "idle_ok d'" using f(5-8) unfolding idle_ok_def by (simp add: assms)
    show "access_ok fp d'" using f(9-12) unfolding access_ok_def by (simp add: assms)
    show "none_lost d'"
      unfolding none_lost_def h
    proof (intro allI impI)
      fix c assume "c < d_next_conn d'" "\<not> c_closed (d_conn d' c)"
      then have "c < d_next_conn d" "\<not> c_closed (d_conn d c)" "c \<in> set (d_dropped d) \<Longrightarrow> c \<in> set (d_dropped d')"
        using assms(3,9,10) by auto
      then show "(\<exists>i. holds_conn d i c) \<or> c \<in> set (p_idle (d_pool d' (c_pool (d_conn d' c)))) \<or> c \<in> set (d_dropped d')"
        using f(13) [of c] assms(5,7) by auto
    qed
    show "clean_ok d'" using f(14) unfolding clean_ok_def by (simp add: assms)
  qed
qed

lemma owns_arrives:
  assumes "owns_ok fp d"
  shows "owns_ok fp (d\<lparr>d_ops := d_ops d @ [arriving k access]\<rparr>)"
proof -
  note f = owns_facts [OF assms]
  let ?d = "d\<lparr>d_ops := d_ops d @ [arriving k access]\<rparr>"
  have h: "holds_conn ?d i c = holds_conn d i c" for i c
    by (auto simp: holds_conn_def nth_append arriving_def less_Suc_eq)
  show ?thesis
    unfolding owns_ok_def
  proof (intro conjI)
    show "held_ok ?d" using f(1,2,3) unfolding held_ok_def h by (auto simp: nth_append holds_conn_def)
    show "one_hand ?d" using f(4) unfolding one_hand_def h by blast
    show "idle_ok ?d" using f(5-8) unfolding idle_ok_def by simp
    show "access_ok fp ?d" using f(9-12) unfolding access_ok_def by (auto simp: nth_append arriving_def less_Suc_eq)
    show "none_lost ?d" using f(13) unfolding none_lost_def h by simp
    show "clean_ok ?d" using f(14) unfolding clean_ok_def by (auto simp: nth_append arriving_def less_Suc_eq)
  qed
qed

lemma owns_step:
  assumes "driver_step mac d d'" and "owns_ok (fingerprint mac) d" and "books_ok d"
  shows "owns_ok (fingerprint mac) d'"
  using assms(1)
proof cases
  case (moves i a m)
  then show ?thesis using owns_move [OF assms(2,3) _ refl] by blast
next
  case (arrives k access)
  then show ?thesis using owns_arrives assms(2) by simp
next
  case (dies c)
  then show ?thesis using assms(2) by (auto intro!: owns_world [OF assms(2)] split: if_splits)
next
  case (cleaned c)
  then show ?thesis using assms(2) by (auto intro!: owns_world [OF assms(2)] split: if_splits)
next
  case (drops c)
  then show ?thesis using assms(2) by (auto intro!: owns_world [OF assms(2)] split: if_splits)
next
  case (invalidates k)
  have "owns_ok (fingerprint mac) (d\<lparr>d_epoch := d_epoch d + 1\<rparr>)" by (auto intro!: owns_world [OF assms(2)])
  then show ?thesis using invalidates by (simp add: Invalidate_def owns_retire)
next
  case closes
  have "owns_ok (fingerprint mac) (fold retireLocked ks d)" for ks
    using assms(2) by (induction ks arbitrary: d) (simp_all add: owns_retire)
  then show ?thesis unfolding closes Close_after by (rule owns_world) auto
next
  case (expires k r)
  then show ?thesis using assms(2) by (auto simp: idle_timeout_def intro: owns_retire)
qed

lemma owns_reachable: "driver_reachable mac d \<Longrightarrow> owns_ok (fingerprint mac) d"
proof (induction rule: driver_reachable.induct)
  case start
  show ?case
    by (simp add: owns_ok_def held_ok_def one_hand_def idle_ok_def access_ok_def none_lost_def clean_ok_def
        holds_conn_def new_driver_def)
next
  case (step d d')
  then show ?case using owns_step books_reachable by blast
qed

end
