(* ===== verification/Pool_Approval.thy ===== *)
theory Pool_Approval
  imports Pool_Owners
begin

text \<open>
  Account approval: a pool is approved only while an audited account's connections have
  stayed open, one validation runs at a time, and whoever waits for it gets its answer.
\<close>

text \<open>The pool and connection of a stage that relies on the pool's approval.\<close>

fun live_of :: "stage \<Rightarrow> (nat \<times> nat) option" where
  "live_of (Validating r c v g) = Some (r, c)"
| "live_of (Awaiting r c v) = Some (r, c)"
| "live_of (Using r c) = Some (r, c)"
| "live_of _ = None"

lemma live_conn: "live_of st = Some (r, c) \<Longrightarrow> conn_of st = Some c"
  by (cases st) auto

definition needed :: "driver \<Rightarrow> nat \<Rightarrow> bool" where
  "needed d c \<longleftrightarrow> (\<exists>j < length (d_ops d). \<exists>r. live_of (o_stage (d_ops d ! j)) = Some (r, c))"

definition pending_ok :: "driver \<Rightarrow> bool" where
  "pending_ok d \<longleftrightarrow>
     (\<forall>r v. p_validation (d_pool d r) = Some v \<longrightarrow> v < d_next_valid d \<and> d_valid d v = None \<and>
        \<not> p_approved (d_pool d r) \<and> (\<exists>i < length (d_ops d). \<exists>c g. o_stage (d_ops d ! i) = Validating r c v g))"

definition validating_ok :: "driver \<Rightarrow> bool" where
  "validating_ok d \<longleftrightarrow>
     (\<forall>i < length (d_ops d). \<forall>r c v g. o_stage (d_ops d ! i) = Validating r c v g \<longrightarrow> p_validation (d_pool d r) = Some v)"

definition one_validator :: "driver \<Rightarrow> bool" where
  "one_validator d \<longleftrightarrow>
     (\<forall>i < length (d_ops d). \<forall>j < length (d_ops d). \<forall>r c v g r' c' g'.
        o_stage (d_ops d ! i) = Validating r c v g \<longrightarrow> o_stage (d_ops d ! j) = Validating r' c' v g' \<longrightarrow> i = j)"

definition awaiting_ok :: "driver \<Rightarrow> bool" where
  "awaiting_ok d \<longleftrightarrow>
     (\<forall>i < length (d_ops d). \<forall>r c v. o_stage (d_ops d ! i) = Awaiting r c v \<longrightarrow>
        v < d_next_valid d \<and> (d_valid d v = None \<longrightarrow> p_validation (d_pool d r) = Some v) \<and>
        (d_valid d v = Some None \<longrightarrow> c_closed (d_conn d c) \<or> p_cancelled (d_pool d r) \<or> p_approved (d_pool d r)))"

definition using_ok :: "driver \<Rightarrow> bool" where
  "using_ok d \<longleftrightarrow>
     (\<forall>i < length (d_ops d). \<forall>r c. o_stage (d_ops d ! i) = Using r c \<longrightarrow>
        c_closed (d_conn d c) \<or> p_cancelled (d_pool d r) \<or> p_approved (d_pool d r))"

definition live_ok :: "driver \<Rightarrow> bool" where
  "live_ok d \<longleftrightarrow>
     (\<forall>i < length (d_ops d). \<forall>r c. live_of (o_stage (d_ops d ! i)) = Some (r, c) \<longrightarrow>
        c_cleaned (d_conn d c) \<or> c \<in> set (p_live (d_pool d r))) \<and>
     (\<forall>c. c_cleaned (d_conn d c) \<longrightarrow> c_closed (d_conn d c))"

definition approved_ok :: "driver \<Rightarrow> bool" where
  "approved_ok d \<longleftrightarrow>
     (\<forall>r. p_approved (d_pool d r) \<longrightarrow> p_live (d_pool d r) \<noteq> [] \<and>
        (\<exists>c < d_next_conn d. c_pool (d_conn d c) = r \<and> c_audited (d_conn d c)))"

definition approval_ok :: "driver \<Rightarrow> bool" where
  "approval_ok d \<longleftrightarrow> pending_ok d \<and> validating_ok d \<and> one_validator d \<and> awaiting_ok d \<and> using_ok d \<and>
     live_ok d \<and> approved_ok d"

lemmas approval_defs = pending_ok_def validating_ok_def one_validator_def awaiting_ok_def using_ok_def
  live_ok_def approved_ok_def

lemma approval_parts:
  assumes "approval_ok d"
  shows "pending_ok d" "validating_ok d" "one_validator d" "awaiting_ok d" "using_ok d" "live_ok d" "approved_ok d"
  using assms unfolding approval_ok_def by blast+

text \<open>Changes that leave the operations where they are.\<close>

lemma approval_silent:
  assumes ok: "approval_ok d" and owns: "owns_ok fp d"
    and same: "d_ops d' = d_ops d" "d_valid d' = d_valid d" "d_next_valid d' = d_next_valid d" "d_next_conn d \<le> d_next_conn d'"
      "\<And>r. p_validation (d_pool d' r) = p_validation (d_pool d r)"
    and mono: "\<And>r. p_cancelled (d_pool d r) \<Longrightarrow> p_cancelled (d_pool d' r)"
      "\<And>r. p_approved (d_pool d' r) \<Longrightarrow> p_approved (d_pool d r)"
      "\<And>c. c < d_next_conn d \<Longrightarrow> c_closed (d_conn d c) \<Longrightarrow> c_closed (d_conn d' c)"
      "\<And>c. c < d_next_conn d \<Longrightarrow> c_cleaned (d_conn d c) \<Longrightarrow> c_cleaned (d_conn d' c)"
      "\<And>c. c < d_next_conn d \<Longrightarrow> c_audited (d_conn d c) \<Longrightarrow> c_audited (d_conn d' c)"
      "\<And>c. c < d_next_conn d \<Longrightarrow> c_pool (d_conn d' c) = c_pool (d_conn d c)"
      "\<And>c. c_cleaned (d_conn d' c) \<Longrightarrow> c_closed (d_conn d' c)"
    and lost: "\<And>r k. p_approved (d_pool d r) \<Longrightarrow> \<not> p_approved (d_pool d' r) \<Longrightarrow> \<not> p_cancelled (d_pool d' r) \<Longrightarrow>
        k \<in> set (p_live (d_pool d r)) \<Longrightarrow> needed d k \<Longrightarrow> c_cleaned (d_conn d k)"
    and live: "\<And>r k. k \<in> set (p_live (d_pool d r)) \<Longrightarrow> needed d k \<Longrightarrow> \<not> c_cleaned (d_conn d k) \<Longrightarrow> k \<in> set (p_live (d_pool d' r))"
    and some: "\<And>r. p_approved (d_pool d' r) \<Longrightarrow> p_live (d_pool d r) \<noteq> [] \<Longrightarrow> p_live (d_pool d' r) \<noteq> []"
  shows "approval_ok d'"
proof -
  note p = approval_parts [OF ok]
  have relied: "needed d c \<and> c < d_next_conn d"
    if "j < length (d_ops d)" "live_of (o_stage (d_ops d ! j)) = Some (r, c)" for j r c
  proof -
    have "holds_conn d j c" using that live_conn by (simp add: holds_conn_def)
    then show ?thesis using that owns_facts(1) [OF owns] by (auto simp: needed_def)
  qed
  have keeps: "c_closed (d_conn d' c) \<or> p_cancelled (d_pool d' r) \<or> p_approved (d_pool d' r)"
    if j: "j < length (d_ops d)" "live_of (o_stage (d_ops d ! j)) = Some (r, c)"
      and "c_closed (d_conn d c) \<or> p_cancelled (d_pool d r) \<or> p_approved (d_pool d r)" for j r c
  proof -
    have c: "needed d c" "c < d_next_conn d" using relied [OF j] by auto
    have l: "c_cleaned (d_conn d c) \<or> c \<in> set (p_live (d_pool d r))" and cc: "c_cleaned (d_conn d c) \<Longrightarrow> c_closed (d_conn d c)"
      using p(6) j unfolding live_ok_def by blast+
    show ?thesis using that(3) l cc c mono(1) [of r] mono(3) [OF c(2)] lost [of r c] by blast
  qed
  show ?thesis unfolding approval_ok_def
  proof (intro conjI)
    show "pending_ok d'" using p(1) mono(2) unfolding pending_ok_def same by blast
    show "validating_ok d'" using p(2) unfolding validating_ok_def same by simp
    show "one_validator d'" using p(3) unfolding one_validator_def same by simp
    show "awaiting_ok d'" unfolding awaiting_ok_def same
    proof (intro allI impI)
      fix j r c v assume j: "j < length (d_ops d)" "o_stage (d_ops d ! j) = Awaiting r c v"
      then have "v < d_next_valid d" "d_valid d v = None \<longrightarrow> p_validation (d_pool d r) = Some v"
        "d_valid d v = Some None \<longrightarrow> c_closed (d_conn d c) \<or> p_cancelled (d_pool d r) \<or> p_approved (d_pool d r)"
        using p(4) unfolding awaiting_ok_def by blast+
      then show "v < d_next_valid d \<and> (d_valid d v = None \<longrightarrow> p_validation (d_pool d r) = Some v) \<and>
          (d_valid d v = Some None \<longrightarrow> c_closed (d_conn d' c) \<or> p_cancelled (d_pool d' r) \<or> p_approved (d_pool d' r))"
        using keeps [of j r c] j by simp
    qed
    show "using_ok d'" unfolding using_ok_def same
    proof (intro allI impI)
      fix j r c assume j: "j < length (d_ops d)" "o_stage (d_ops d ! j) = Using r c"
      then show "c_closed (d_conn d' c) \<or> p_cancelled (d_pool d' r) \<or> p_approved (d_pool d' r)"
        using p(5) keeps [of j r c] unfolding using_ok_def by simp
    qed
    show "live_ok d'" using p(6) mono(4,7) relied live unfolding live_ok_def same by blast
    show "approved_ok d'"
      unfolding approved_ok_def
    proof (intro allI impI)
      fix r assume a: "p_approved (d_pool d' r)"
      then have "p_live (d_pool d r) \<noteq> []" "\<exists>c < d_next_conn d. c_pool (d_conn d c) = r \<and> c_audited (d_conn d c)"
        using p(7) mono(2) unfolding approved_ok_def by blast+
      then show "p_live (d_pool d' r) \<noteq> [] \<and> (\<exists>c < d_next_conn d'. c_pool (d_conn d' c) = r \<and> c_audited (d_conn d' c))"
        using some [OF a] mono(5,6) same(4) by (metis order_less_le_trans)
    qed
  qed
qed

text \<open>An operation that moves on by itself.\<close>

lemma settle_stage:
  "length (d_ops (settle i (st, e, d))) = length (d_ops d)"
  "j < length (d_ops d) \<Longrightarrow> o_stage (d_ops (settle i (st, e, d)) ! j) = (if j = i then st else o_stage (d_ops d ! j))"
  by (rule settle_ops)+

lemma approval_stage:
  assumes ok: "approval_ok d" and i: "i < length (d_ops d)"
    and st: "\<And>r c v g. o_stage (d_ops d ! i) \<noteq> Validating r c v g" "\<And>r c v g. st' \<noteq> Validating r c v g"
    and waits: "\<And>r c v. st' = Awaiting r c v \<Longrightarrow> p_validation (d_pool d r) = Some v \<and> c \<in> set (p_live (d_pool d r))"
    and uses: "\<And>r c. st' = Using r c \<Longrightarrow> (c_cleaned (d_conn d c) \<or> c \<in> set (p_live (d_pool d r))) \<and>
        (c_closed (d_conn d c) \<or> p_cancelled (d_pool d r) \<or> p_approved (d_pool d r))"
  shows "approval_ok (settle i (st', e, d))"
proof -
  note p = approval_parts [OF ok]
  let ?s = "settle i (st', e, d)"
  show ?thesis unfolding approval_ok_def
  proof (intro conjI)
    show "pending_ok ?s" unfolding pending_ok_def settle_simps settle_stage(1)
    proof (intro allI impI)
      fix r v assume "p_validation (d_pool d r) = Some v"
      then obtain j c g where j: "v < d_next_valid d" "d_valid d v = None" "\<not> p_approved (d_pool d r)" "j < length (d_ops d)"
        "o_stage (d_ops d ! j) = Validating r c v g"
        using p(1) unfolding pending_ok_def by blast
      then have "o_stage (d_ops ?s ! j) = Validating r c v g" using st by (auto simp: settle_stage)
      with j show "v < d_next_valid d \<and> d_valid d v = None \<and> \<not> p_approved (d_pool d r) \<and>
          (\<exists>i < length (d_ops d). \<exists>c g. o_stage (d_ops ?s ! i) = Validating r c v g)" by blast
    qed
    show "validating_ok ?s" using p(2) st(2) unfolding validating_ok_def by (simp add: settle_stage)
    show "one_validator ?s" using p(3) st(2) unfolding one_validator_def by (simp add: settle_stage)
    show "awaiting_ok ?s" unfolding awaiting_ok_def settle_simps settle_stage(1)
    proof (intro allI impI)
      fix j r c v assume j: "j < length (d_ops d)" "o_stage (d_ops ?s ! j) = Awaiting r c v"
      show "v < d_next_valid d \<and> (d_valid d v = None \<longrightarrow> p_validation (d_pool d r) = Some v) \<and>
          (d_valid d v = Some None \<longrightarrow> c_closed (d_conn d c) \<or> p_cancelled (d_pool d r) \<or> p_approved (d_pool d r))"
      proof (cases "j = i")
        case True
        then have v: "p_validation (d_pool d r) = Some v" using j waits by (simp add: settle_stage)
        then have "v < d_next_valid d" "d_valid d v = None" using p(1) unfolding pending_ok_def by blast+
        with v show ?thesis by simp
      next
        case False
        then show ?thesis using j p(4) unfolding awaiting_ok_def by (simp add: settle_stage)
      qed
    qed
    show "using_ok ?s" using p(5) uses unfolding using_ok_def by (simp add: settle_stage)
    show "live_ok ?s" unfolding live_ok_def settle_simps settle_stage(1)
    proof (intro conjI allI impI)
      fix j r c assume j: "j < length (d_ops d)" "live_of (o_stage (d_ops ?s ! j)) = Some (r, c)"
      show "c_cleaned (d_conn d c) \<or> c \<in> set (p_live (d_pool d r))"
      proof (cases "j = i")
        case True
        then show ?thesis using j st(2) waits uses by (cases st') (auto simp: settle_stage)
      next
        case False
        then show ?thesis using j p(6) unfolding live_ok_def by (simp add: settle_stage)
      qed
    next
      show "c_cleaned (d_conn d c) \<Longrightarrow> c_closed (d_conn d c)" for c using p(6) unfolding live_ok_def by blast
    qed
    show "approved_ok ?s" using p(7) unfolding approved_ok_def by simp
  qed
qed

text \<open>A validation begins and ends.\<close>

lemma approval_starts:
  assumes ok: "approval_ok d" and i: "i < length (d_ops d)" and st: "o_stage (d_ops d ! i) = Approving r c"
    and r: "\<not> p_approved (d_pool d r)" "p_validation (d_pool d r) = None" "c \<in> set (p_live (d_pool d r))"
    and v: "v = d_next_valid d"
  shows "approval_ok (settle i (Validating r c v g, e,
     (set_pool r ((d_pool d r)\<lparr>p_validation := Some v\<rparr>) d)\<lparr>d_valid := (d_valid d)(v := None), d_next_valid := Suc v\<rparr>))"
    (is "approval_ok ?s")
proof -
  note p = approval_parts [OF ok]
  have stage: "o_stage (d_ops ?s ! j) = (if j = i then Validating r c v g else o_stage (d_ops d ! j))"
    and len: "length (d_ops ?s) = length (d_ops d)" if "j < length (d_ops d)" for j
    using that by (simp_all add: settle_stage)
  have len: "length (d_ops ?s) = length (d_ops d)" by (simp add: settle_stage)
  have fresh: "p_validation (d_pool d k) = Some w \<Longrightarrow> w \<noteq> v \<and> k \<noteq> r" for k w
    using p(1) r(2) v unfolding pending_ok_def by auto
  have old: "j < length (d_ops d) \<Longrightarrow> o_stage (d_ops d ! j) = Validating k c' w g' \<Longrightarrow> p_validation (d_pool d k) = Some w" for j k c' w g'
    using p(2) unfolding validating_ok_def by blast
  show ?thesis unfolding approval_ok_def
  proof (intro conjI)
    show "pending_ok ?s" unfolding pending_ok_def len
    proof (intro allI impI)
      fix k w assume a: "p_validation (d_pool ?s k) = Some w"
      show "w < d_next_valid ?s \<and> d_valid ?s w = None \<and> \<not> p_approved (d_pool ?s k) \<and>
          (\<exists>j < length (d_ops d). \<exists>c' g'. o_stage (d_ops ?s ! j) = Validating k c' w g')"
      proof (cases "k = r")
        case True
        then show ?thesis using a r(1) i stage [OF i] by auto
      next
        case False
        then have b: "p_validation (d_pool d k) = Some w" using a by simp
        then obtain j c' g' where j: "w < d_next_valid d" "d_valid d w = None" "\<not> p_approved (d_pool d k)" "j < length (d_ops d)"
          "o_stage (d_ops d ! j) = Validating k c' w g'"
          using p(1) unfolding pending_ok_def by blast
        then have "o_stage (d_ops ?s ! j) = Validating k c' w g'" using st stage [OF j(4)] by auto
        then show ?thesis using j False v by auto
      qed
    qed
    show "validating_ok ?s" unfolding validating_ok_def len
    proof (intro allI impI)
      fix j k c' w g' assume j: "j < length (d_ops d)" "o_stage (d_ops ?s ! j) = Validating k c' w g'"
      show "p_validation (d_pool ?s k) = Some w"
      proof (cases "j = i")
        case True
        then show ?thesis using j(2) stage [OF j(1)] by simp
      next
        case False
        then have "o_stage (d_ops d ! j) = Validating k c' w g'" using j stage [OF j(1)] by simp
        then have "p_validation (d_pool d k) = Some w" by (rule old [OF j(1)])
        then show ?thesis using fresh by auto
      qed
    qed
    show "one_validator ?s" unfolding one_validator_def len
    proof (intro allI impI)
      fix j k r1 c1 w g1 r2 c2 g2
      assume j: "j < length (d_ops d)" "o_stage (d_ops ?s ! j) = Validating r1 c1 w g1"
        and k: "k < length (d_ops d)" "o_stage (d_ops ?s ! k) = Validating r2 c2 w g2"
      have mine: "l = i \<longleftrightarrow> w = v" if l: "l < length (d_ops d)" "o_stage (d_ops ?s ! l) = Validating r0 c0 w g0" for l r0 c0 g0
        using l(2) stage [OF l(1)] old [OF l(1), of r0 c0 w g0] fresh [of r0 w] by (cases "l = i") simp_all
      show "j = k"
      proof (cases "w = v")
        case True
        then show ?thesis using mine [OF j] mine [OF k] by simp
      next
        case False
        then have "o_stage (d_ops d ! j) = Validating r1 c1 w g1" "o_stage (d_ops d ! k) = Validating r2 c2 w g2"
          using mine [OF j] mine [OF k] j k stage [OF j(1)] stage [OF k(1)] by simp_all
        then show ?thesis using p(3) j(1) k(1) unfolding one_validator_def by blast
      qed
    qed
    show "awaiting_ok ?s" unfolding awaiting_ok_def len
    proof (intro allI impI)
      fix j k c' w assume j: "j < length (d_ops d)" "o_stage (d_ops ?s ! j) = Awaiting k c' w"
      then have a: "o_stage (d_ops d ! j) = Awaiting k c' w" using stage [OF j(1)] by (simp split: if_splits)
      have b: "w < d_next_valid d" "d_valid d w = None \<longrightarrow> p_validation (d_pool d k) = Some w"
        "d_valid d w = Some None \<longrightarrow> c_closed (d_conn d c') \<or> p_cancelled (d_pool d k) \<or> p_approved (d_pool d k)"
        using p(4) j(1) a unfolding awaiting_ok_def by blast+
      then have "d_valid d w = None \<longrightarrow> k \<noteq> r" using fresh by blast
      then show "w < d_next_valid ?s \<and> (d_valid ?s w = None \<longrightarrow> p_validation (d_pool ?s k) = Some w) \<and>
          (d_valid ?s w = Some None \<longrightarrow> c_closed (d_conn ?s c') \<or> p_cancelled (d_pool ?s k) \<or> p_approved (d_pool ?s k))"
        using b v by auto
    qed
    show "using_ok ?s" using p(5) unfolding using_ok_def len by (auto simp: stage split: if_splits)
    show "live_ok ?s" using p(6) r(3) unfolding live_ok_def len by (auto simp: stage split: if_splits)
    show "approved_ok ?s" using p(7) unfolding approved_ok_def by auto
  qed
qed

lemma approval_ends:
  assumes ok: "approval_ok d" and i: "i < length (d_ops d)" and st: "o_stage (d_ops d ! i) = Validating r c v g"
    and good: "err = None \<Longrightarrow> \<not> c_closed (d_conn d c) \<and> c_audited (d_conn d c) \<and> c_pool (d_conn d c) = r \<and> c < d_next_conn d"
    and st': "err = None \<and> st' = Using r c \<or> err \<noteq> None \<and> st' = Releasing r (Slot_With c) False"
  shows "approval_ok (settle i (st', e,
     (set_pool r ((d_pool d r)\<lparr>p_approved := (err = None), p_validation := None\<rparr>) d)\<lparr>d_valid := (d_valid d)(v := Some err)\<rparr>))"
    (is "approval_ok ?s")
proof -
  note p = approval_parts [OF ok]
  have stage: "j < length (d_ops d) \<Longrightarrow> o_stage (d_ops ?s ! j) = (if j = i then st' else o_stage (d_ops d ! j))" for j
    by (simp add: settle_stage)
  have len: "length (d_ops ?s) = length (d_ops d)" by (simp add: settle_stage)
  have pending: "p_validation (d_pool d k) = Some w \<Longrightarrow> w < d_next_valid d \<and> d_valid d w = None \<and> \<not> p_approved (d_pool d k) \<and>
      (\<exists>j < length (d_ops d). \<exists>c' g'. o_stage (d_ops d ! j) = Validating k c' w g')" for k w
    using p(1) unfolding pending_ok_def by blast
  have mine: "p_validation (d_pool d r) = Some v" using p(2) i st unfolding validating_ok_def by blast
  then have not_yet: "\<not> p_approved (d_pool d r)" "d_valid d v = None" using pending by blast+
  have unique: "j < length (d_ops d) \<Longrightarrow> o_stage (d_ops d ! j) = Validating k c' v g' \<Longrightarrow> j = i" for j k c' g'
    using p(3) i st unfolding one_validator_def by blast
  have other: "p_validation (d_pool d k) = Some w \<Longrightarrow> k \<noteq> r \<Longrightarrow> w \<noteq> v" for k w
    using pending [of k w] unique st by fastforce
  have same: "p_validation (d_pool d k) = Some v \<Longrightarrow> k = r" for k using other by blast
  have alive: "c_cleaned (d_conn d c) \<or> c \<in> set (p_live (d_pool d r))" "\<And>k. c_cleaned (d_conn d k) \<Longrightarrow> c_closed (d_conn d k)"
    using p(6) i st unfolding live_ok_def by fastforce+
  show ?thesis unfolding approval_ok_def
  proof (intro conjI)
    show "pending_ok ?s" unfolding pending_ok_def len
    proof (intro allI impI)
      fix k w assume a: "p_validation (d_pool ?s k) = Some w"
      then have k: "k \<noteq> r" "p_validation (d_pool d k) = Some w" by (auto split: if_splits)
      then obtain j c' g' where j: "w < d_next_valid d" "d_valid d w = None" "\<not> p_approved (d_pool d k)" "j < length (d_ops d)"
        "o_stage (d_ops d ! j) = Validating k c' w g'"
        using pending by blast
      then have "j \<noteq> i" using st k by auto
      then have "o_stage (d_ops ?s ! j) = Validating k c' w g'" using j stage by simp
      then show "w < d_next_valid ?s \<and> d_valid ?s w = None \<and> \<not> p_approved (d_pool ?s k) \<and>
          (\<exists>j < length (d_ops d). \<exists>c' g'. o_stage (d_ops ?s ! j) = Validating k c' w g')"
        using j k other by auto
    qed
    show "validating_ok ?s" unfolding validating_ok_def len
    proof (intro allI impI)
      fix j k c' w g' assume j: "j < length (d_ops d)" "o_stage (d_ops ?s ! j) = Validating k c' w g'"
      then have a: "j \<noteq> i" "o_stage (d_ops d ! j) = Validating k c' w g'" using st' stage by (auto split: if_splits)
      then have b: "p_validation (d_pool d k) = Some w" using p(2) j(1) unfolding validating_ok_def by blast
      have "k \<noteq> r" using a b mine unique [OF j(1)] by auto
      then show "p_validation (d_pool ?s k) = Some w" using b by simp
    qed
    show "one_validator ?s" unfolding one_validator_def len
    proof (intro allI impI)
      fix j k r1 c1 w g1 r2 c2 g2
      assume "j < length (d_ops d)" "k < length (d_ops d)" "o_stage (d_ops ?s ! j) = Validating r1 c1 w g1"
        "o_stage (d_ops ?s ! k) = Validating r2 c2 w g2"
      then show "j = k" using p(3) st' stage unfolding one_validator_def by (auto split: if_splits)
    qed
    show "awaiting_ok ?s" unfolding awaiting_ok_def len
    proof (intro allI impI)
      fix j k c' w assume j: "j < length (d_ops d)" "o_stage (d_ops ?s ! j) = Awaiting k c' w"
      then have a: "o_stage (d_ops d ! j) = Awaiting k c' w" using stage [OF j(1)] st' by (auto split: if_splits)
      have b: "w < d_next_valid d" "d_valid d w = None \<longrightarrow> p_validation (d_pool d k) = Some w"
        "d_valid d w = Some None \<longrightarrow> c_closed (d_conn d c') \<or> p_cancelled (d_pool d k) \<or> p_approved (d_pool d k)"
        using p(4) j(1) a unfolding awaiting_ok_def by blast+
      show "w < d_next_valid ?s \<and> (d_valid ?s w = None \<longrightarrow> p_validation (d_pool ?s k) = Some w) \<and>
          (d_valid ?s w = Some None \<longrightarrow> c_closed (d_conn ?s c') \<or> p_cancelled (d_pool ?s k) \<or> p_approved (d_pool ?s k))"
      proof (cases "w = v")
        case True
        then have "k = r" using b(2) not_yet(2) same by blast
        then show ?thesis using True b(1) by simp
      next
        case False
        then have "d_valid d w = None \<longrightarrow> k \<noteq> r" using b(2) mine by auto
        then show ?thesis using b False not_yet(1) by auto
      qed
    qed
    show "using_ok ?s" unfolding using_ok_def len
    proof (intro allI impI)
      fix j k c' assume j: "j < length (d_ops d)" "o_stage (d_ops ?s ! j) = Using k c'"
      show "c_closed (d_conn ?s c') \<or> p_cancelled (d_pool ?s k) \<or> p_approved (d_pool ?s k)"
      proof (cases "j = i")
        case True
        then show ?thesis using j stage st' by auto
      next
        case False
        then have "c_closed (d_conn d c') \<or> p_cancelled (d_pool d k) \<or> p_approved (d_pool d k)"
          using p(5) j stage unfolding using_ok_def by simp
        then show ?thesis using not_yet(1) by auto
      qed
    qed
    show "live_ok ?s" unfolding live_ok_def len
    proof (intro conjI allI impI)
      fix j k c' assume j: "j < length (d_ops d)" "live_of (o_stage (d_ops ?s ! j)) = Some (k, c')"
      show "c_cleaned (d_conn ?s c') \<or> c' \<in> set (p_live (d_pool ?s k))"
      proof (cases "j = i")
        case True
        then show ?thesis using j stage st' alive(1) by auto
      next
        case False
        then show ?thesis using p(6) j stage unfolding live_ok_def by auto
      qed
    next
      fix k assume "c_cleaned (d_conn ?s k)"
      then show "c_closed (d_conn ?s k)" using alive(2) by simp
    qed
    show "approved_ok ?s" using p(7) alive good unfolding approved_ok_def by (auto split: if_splits)
  qed
qed

section \<open>Every step keeps the approval\<close>

lemma needed_idle: "owns_ok fp d \<Longrightarrow> needed d k \<Longrightarrow> k \<notin> set (p_idle (d_pool d r))"
  using owns_facts(3) [of fp d] live_conn by (fastforce simp: needed_def holds_conn_def)

lemma needed_other:
  assumes "owns_ok fp d" and "i < length (d_ops d)" and "conn_of (o_stage (d_ops d ! i)) = Some k"
    and "live_of (o_stage (d_ops d ! i)) = None"
  shows "\<not> needed d k"
proof
  assume "needed d k"
  then obtain j r where j: "j < length (d_ops d)" "live_of (o_stage (d_ops d ! j)) = Some (r, k)" by (auto simp: needed_def)
  then have "holds_conn d j k" "holds_conn d i k" using assms live_conn by (auto simp: holds_conn_def)
  then have "j = i" using owns_facts(4) [OF assms(1)] by blast
  then show False using j assms(4) by simp
qed

text \<open>A section on one pool that leaves its validation alone.\<close>

lemma approval_pool:
  assumes "approval_ok d" and "owns_ok fp d"
    and "p_validation q = p_validation (d_pool d r)" and "p_cancelled q = p_cancelled (d_pool d r)"
    and "p_approved q \<Longrightarrow> p_approved (d_pool d r)"
    and "\<And>k. p_approved (d_pool d r) \<Longrightarrow> \<not> p_approved q \<Longrightarrow> k \<in> set (p_live (d_pool d r)) \<Longrightarrow> needed d k \<Longrightarrow> c_cleaned (d_conn d k)"
    and "\<And>k. k \<in> set (p_live (d_pool d r)) \<Longrightarrow> needed d k \<Longrightarrow> \<not> c_cleaned (d_conn d k) \<Longrightarrow> k \<in> set (p_live q)"
    and "p_approved q \<Longrightarrow> p_live (d_pool d r) \<noteq> [] \<Longrightarrow> p_live q \<noteq> []"
  shows "approval_ok (set_pool r q d)"
proof -
  have "c_cleaned (d_conn d c) \<Longrightarrow> c_closed (d_conn d c)" for c
    using assms(1) unfolding approval_ok_def live_ok_def by blast
  then show ?thesis
    using assms(3-8) by (intro approval_silent [OF assms(1,2)]) (auto split: if_splits)
qed

lemma approval_forget:
  assumes "approval_ok d" and "owns_ok fp d"
  shows "approval_ok (set_pool r (forgetClosed (d_conn d) (d_pool d r)) d)"
  by (rule approval_pool [OF assms]) (auto simp: filter_empty_conv)

lemma approval_counts:
  assumes "approval_ok d" and "owns_ok fp d"
    and "p_validation q = p_validation (d_pool d r)" "p_cancelled q = p_cancelled (d_pool d r)"
      "p_approved q = p_approved (d_pool d r)" "p_live q = p_live (d_pool d r)"
  shows "approval_ok (set_pool r q d)"
  using assms by (intro approval_pool [OF assms(1,2)]) auto

lemma approval_remains:
  assumes "approval_ok d" and o: "owns_ok fp d" and rem: "remains (d_conn d) (d_pool d r) s"
    and q: "p_validation q = p_validation s" "p_cancelled q = p_cancelled s" "p_approved q = p_approved s" "p_live q = p_live s"
  shows "approval_ok (set_pool r q d)"
proof (rule approval_pool [OF assms(1,2)])
  have v: "p_validation s = p_validation (d_pool d r)" and x: "p_cancelled s = p_cancelled (d_pool d r)"
    and a: "p_approved s \<longrightarrow> p_approved (d_pool d r)"
    using rem by (simp_all add: remains_def)
  have l: "\<forall>k \<in> set (p_live (d_pool d r)). k \<notin> set (p_idle (d_pool d r)) \<longrightarrow> \<not> c_cleaned (d_conn d k) \<longrightarrow> k \<in> set (p_live s)"
    using rem unfolding remains_def by (elim conjE)
  have g: "p_approved (d_pool d r) \<longrightarrow> \<not> p_approved s \<longrightarrow> (\<forall>k \<in> set (p_live (d_pool d r)). k \<in> set (p_idle (d_pool d r)) \<or> c_cleaned (d_conn d k))"
    using rem unfolding remains_def by (elim conjE)
  have n: "p_approved s \<longrightarrow> p_live (d_pool d r) \<noteq> [] \<longrightarrow> p_live s \<noteq> []"
    using rem unfolding remains_def by (elim conjE)
  show "p_validation q = p_validation (d_pool d r)" "p_cancelled q = p_cancelled (d_pool d r)" using v x q by simp_all
  show "p_approved q \<Longrightarrow> p_approved (d_pool d r)" using a q by simp
  show "p_approved (d_pool d r) \<Longrightarrow> \<not> p_approved q \<Longrightarrow> k \<in> set (p_live (d_pool d r)) \<Longrightarrow> needed d k \<Longrightarrow> c_cleaned (d_conn d k)"
    "k \<in> set (p_live (d_pool d r)) \<Longrightarrow> needed d k \<Longrightarrow> \<not> c_cleaned (d_conn d k) \<Longrightarrow> k \<in> set (p_live q)" for k
    using l g q(3,4) needed_idle [OF o, of k r] by auto
  show "p_approved q \<Longrightarrow> p_live (d_pool d r) \<noteq> [] \<Longrightarrow> p_live q \<noteq> []" using n q by simp
qed

lemma approval_world:
  assumes "approval_ok d" and "owns_ok fp d"
    and "d_ops d' = d_ops d" "d_valid d' = d_valid d" "d_next_valid d' = d_next_valid d" "d_next_conn d \<le> d_next_conn d'" "d_pool d' = d_pool d"
    and "\<And>c. c < d_next_conn d \<Longrightarrow> c_closed (d_conn d c) \<Longrightarrow> c_closed (d_conn d' c)"
      "\<And>c. c < d_next_conn d \<Longrightarrow> c_cleaned (d_conn d c) \<Longrightarrow> c_cleaned (d_conn d' c)"
      "\<And>c. c < d_next_conn d \<Longrightarrow> c_audited (d_conn d c) \<Longrightarrow> c_audited (d_conn d' c)"
      "\<And>c. c < d_next_conn d \<Longrightarrow> c_pool (d_conn d' c) = c_pool (d_conn d c)"
      "\<And>c. c_cleaned (d_conn d' c) \<Longrightarrow> c_closed (d_conn d' c)"
  shows "approval_ok d'"
  using assms(3-) by (intro approval_silent [OF assms(1,2)]) auto

lemma approval_retire:
  assumes "approval_ok d" and "owns_ok fp d"
  shows "approval_ok (retireLocked k d)"
proof -
  have "c_cleaned (d_conn d c) \<Longrightarrow> c_closed (d_conn d c)" for c
    using assms(1) unfolding approval_ok_def live_ok_def by blast
  then show ?thesis by (intro approval_silent [OF assms]) auto
qed

lemma approval_open:
  assumes ok: "approval_ok d" and b: "books_ok d"
  shows "approval_ok (open_pool k x d)"
proof -
  note p = approval_parts [OF ok]
  have ne: "slot_of (o_stage (d_ops d ! j)) = Some r \<Longrightarrow> j < length (d_ops d) \<Longrightarrow> r \<noteq> d_next_pool d" for j r
    using holder_positive(2) [OF b, of j r] by auto
  have ne': "live_of st = Some (r, c) \<Longrightarrow> slot_of st = Some r" for st r c by (cases st) auto
  show ?thesis unfolding approval_ok_def
  proof (intro conjI)
    show "pending_ok (open_pool k x d)" using p(1) unfolding pending_ok_def by simp
    show "validating_ok (open_pool k x d)" using p(2) ne unfolding validating_ok_def by simp fastforce
    show "one_validator (open_pool k x d)" using p(3) unfolding one_validator_def by simp
    show "awaiting_ok (open_pool k x d)" using p(4) ne unfolding awaiting_ok_def by simp fastforce
    show "using_ok (open_pool k x d)" using p(5) ne unfolding using_ok_def by simp fastforce
    show "live_ok (open_pool k x d)" using p(6) ne ne' unfolding live_ok_def by simp metis
    show "approved_ok (open_pool k x d)" using p(7) unfolding approved_ok_def by simp
  qed
qed

lemma approval_stale: "approval_ok d \<Longrightarrow> owns_ok fp d \<Longrightarrow> approval_ok (stale_retired k x d)"
  by (auto simp: stale_retired_def approval_retire split: option.splits)

lemma approval_unused: "approval_ok d \<Longrightarrow> owns_ok fp d \<Longrightarrow> approval_ok (unused_retired order d)"
  by (auto simp: unused_retired_def approval_retire split: option.splits)

lemma approval_plain:
  assumes "approval_ok d" and "i < length (d_ops d)" and "o_stage (d_ops d ! i) = st"
    and "\<And>r c v g. st \<noteq> Validating r c v g" and "live_of st' = None"
  shows "approval_ok (settle i (st', e, d))"
  using assms(3-5) by (intro approval_stage [OF assms(1,2)]) auto

lemma approval_checkout:
  assumes ok: "approval_ok d" and o: "owns_ok fp d" and b: "books_ok d" and i: "i < length (d_ops d)"
    and st: "o_stage (d_ops d ! i) = Entering" and fp: "fp = fingerprint mac"
  shows "approval_ok (settle i (checkout_pool mac a (d_ops d ! i) d))"
proof -
  let ?x = "fp (o_access (d_ops d ! i))" and ?k = "o_profile (d_ops d ! i)"
  let ?d1 = "stale_retired ?k ?x d"
  let ?d2 = "unused_retired (a_order a) ?d1"
  let ?d3 = "open_pool ?k ?x ?d2"
  have leave: "approval_ok (settle i (Leaving, e, s))" if "approval_ok s" "d_ops s = d_ops d" for s e
    using that i st by (intro approval_plain [OF that(1) _ refl]) auto
  have user: "approval_ok (settle i (add_user r s))" if "approval_ok s" "owns_ok fp s" "d_ops s = d_ops d" for s r
  proof -
    have "approval_ok (set_pool r ((d_pool s r)\<lparr>p_users := p_users (d_pool s r) + 1\<rparr>) s)"
      by (rule approval_counts [OF that(1,2)]) simp_all
    then show ?thesis unfolding add_user_def using that i st by (intro approval_plain [OF _ _ refl]) auto
  qed
  have os: "owns_ok fp ?d1" "owns_ok fp ?d2" using o by (simp_all add: owns_stale owns_unused)
  have bs: "books_ok ?d2" using b by (simp add: books_stale books_unused)
  have as: "approval_ok ?d1" "approval_ok ?d2"
    using approval_stale [OF ok o] approval_unused [OF approval_stale [OF ok o] os(1)] by auto
  have "approval_ok ?d3" "owns_ok fp ?d3" using approval_open [OF as(2) bs] owns_open [OF os(2) bs] by auto
  then have parts: "approval_ok (settle i (Leaving, e, d))" "approval_ok (settle i (Leaving, e, ?d2))"
    "approval_ok (settle i (add_user r ?d1))" "approval_ok (settle i (add_user (d_next_pool ?d2) ?d3))" for e r
    using ok as os by (auto intro!: leave user)
  then show ?thesis by (auto simp: checkout_pool_def fp Let_def split: option.splits)
qed

lemma set_pool_again: "set_pool r q (set_pool r p d) = set_pool r q d"
  by (simp add: set_pool_def)

lemma approval_begins:
  assumes ok: "approval_ok d" and o: "owns_ok fp d" and i: "i < length (d_ops d)" and st: "o_stage (d_ops d ! i) = Approving r c"
  shows "approval_ok (settle i (approve_begin r c d))"
proof -
  let ?p = "forgetClosed (d_conn d) (d_pool d r)"
  let ?q = "?p\<lparr>p_live := List.insert c (p_live ?p)\<rparr>"
  let ?d = "set_pool r ?q d"
  have d: "approval_ok ?d" by (rule approval_pool [OF ok o]) (auto simp: filter_empty_conv List.insert_def)
  have c: "c \<in> set (p_live (d_pool ?d r))" by simp
  have stage: "i < length (d_ops ?d)" "o_stage (d_ops ?d ! i) = Approving r c" using i st by simp_all
  consider "p_approved ?q" | v where "\<not> p_approved ?q" "p_validation ?q = Some v" | "\<not> p_approved ?q" "p_validation ?q = None"
    by blast
  then show ?thesis
  proof cases
    case 1
    then have "approve_begin r c d = (Using r c, None, ?d)" by (simp add: approve_begin_def Let_def)
    moreover have "approval_ok (settle i (Using r c, None, ?d))"
      using c stage 1 by (intro approval_stage [OF d]) auto
    ultimately show ?thesis by simp
  next
    case (2 v)
    then have "approve_begin r c d = (Awaiting r c v, None, ?d)" by (auto simp: approve_begin_def Let_def)
    moreover have "approval_ok (settle i (Awaiting r c v, None, ?d))"
      using c stage 2 by (intro approval_stage [OF d]) auto
    ultimately show ?thesis by simp
  next
    case 3
    have "approval_ok (settle i (Validating r c (d_next_valid ?d) (p_generation ?q), None,
        (set_pool r ((d_pool ?d r)\<lparr>p_validation := Some (d_next_valid ?d)\<rparr>) ?d)
        \<lparr>d_valid := (d_valid ?d)(d_next_valid ?d := None), d_next_valid := Suc (d_next_valid ?d)\<rparr>))"
      using stage c 3 by (intro approval_starts [OF d]) auto
    then show ?thesis using 3 by (auto simp: approve_begin_def Let_def set_pool_again)
  qed
qed

lemma approval_decided:
  assumes ok: "approval_ok d" and o: "owns_ok fp d" and i: "i < length (d_ops d)"
    and st: "o_stage (d_ops d ! i) = Validating r c v g"
  shows "approval_ok (settle i (approve_end a op r c v g d))"
proof -
  let ?d1 = "audited a c d"
  let ?p = "forgetClosed (d_conn ?d1) (d_pool ?d1 r)"
  let ?d2 = "set_pool r ?p ?d1"
  let ?err = "if a_audit a = None \<and> (d_closed ?d1 \<or> map_of (d_pools ?d1) (o_profile op) \<noteq> Some r \<or> p_cancelled ?p \<or>
      a_ctx a \<noteq> None \<or> g \<noteq> p_generation ?p \<or> c_closed (d_conn ?d1 c))
      then Some (Fail Cancelled ''account validation was cancelled'' False) else a_audit a"
  let ?st = "case ?err of None \<Rightarrow> Using r c | Some e \<Rightarrow> Releasing r (Slot_With c) False"
  have cleaned: "c_cleaned (d_conn d k) \<Longrightarrow> c_closed (d_conn d k)" for k
    using ok unfolding approval_ok_def live_ok_def by blast
  have "approval_ok ?d1"
    using cleaned by (intro approval_world [OF ok o]) (auto simp: audited_def)
  moreover have o1: "owns_ok fp ?d1" by (rule owns_world [OF o]) auto
  ultimately have d: "approval_ok ?d2" by (rule approval_forget)
  have held: "c < d_next_conn d" "c_pool (d_conn d c) = r"
    using owns_facts(1,2) [OF o, of i c] i st by (auto simp: holds_conn_def)
  have "approval_ok (settle i (?st, ?err, (set_pool r ((d_pool ?d2 r)\<lparr>p_approved := (?err = None), p_validation := None\<rparr>) ?d2)
      \<lparr>d_valid := (d_valid ?d2)(v := Some ?err)\<rparr>))"
    using i st held by (intro approval_ends [OF d, of i r c v g]) (auto simp: audited_def split: option.splits if_splits)
  then show ?thesis
    by (simp add: approve_end_def Let_def set_pool_again split: option.splits) (auto split: if_splits)
qed

lemma approval_then:
  assumes "approval_ok d'" and "d_ops d' = d_ops d" and "i < length (d_ops d)" and "o_stage (d_ops d ! i) = st"
    and "\<And>r c v g. st \<noteq> Validating r c v g" and "live_of st' = None"
  shows "approval_ok (settle i (st', e, d'))"
  using assms by (intro approval_plain [OF assms(1) _ refl]) auto

lemma approval_counters:
  assumes "approval_ok d" and "owns_ok fp d"
  shows "approval_ok (d\<lparr>d_active := x\<rparr>)" "approval_ok (d\<lparr>d_waiting := y\<rparr>)"
    "approval_ok (d\<lparr>d_waiting := y, d_active := x\<rparr>)" "approval_ok (d\<lparr>d_epoch := z\<rparr>)" "approval_ok (d\<lparr>d_closed := b\<rparr>)"
    "approval_ok (d\<lparr>d_dropped := l\<rparr>)"
proof -
  have "c_cleaned (d_conn d c) \<Longrightarrow> c_closed (d_conn d c)" for c
    using assms(1) unfolding approval_ok_def live_ok_def by blast
  then show "approval_ok (d\<lparr>d_active := x\<rparr>)" "approval_ok (d\<lparr>d_waiting := y\<rparr>)"
    "approval_ok (d\<lparr>d_waiting := y, d_active := x\<rparr>)" "approval_ok (d\<lparr>d_epoch := z\<rparr>)" "approval_ok (d\<lparr>d_closed := b\<rparr>)"
    "approval_ok (d\<lparr>d_dropped := l\<rparr>)"
    by (auto intro!: approval_world [OF assms])
qed

lemma approval_close_conn:
  assumes "approval_ok d" and "owns_ok fp d"
  shows "approval_ok (closeConn c d)"
proof -
  have "c_cleaned (d_conn d c) \<Longrightarrow> c_closed (d_conn d c)" for c
    using assms(1) unfolding approval_ok_def live_ok_def by blast
  then show ?thesis by (intro approval_world [OF assms]) auto
qed

lemma approval_move:
  assumes ok: "approval_ok d" and o: "owns_ok fp d" and b: "books_ok d" and i: "i < length (d_ops d)"
    and fp: "fp = fingerprint mac" and mv: "op_move mac a (d_ops d ! i) d = Some m"
  shows "approval_ok (settle i m)"
proof -
  note after = approval_then [OF _ _ i]
  have cleaned: "c_cleaned (d_conn d k) \<Longrightarrow> c_closed (d_conn d k)" for k
    using ok unfolding approval_ok_def live_ok_def by blast
  show ?thesis
  proof (cases "o_stage (d_ops d ! i)")
    case Arriving
    with mv ok show ?thesis
      by (auto simp: op_move_def admit_def approval_counters [OF ok o] split: option.splits if_splits intro!: after [OF _ _ Arriving])
  next
    case Queued
    with mv ok show ?thesis
      by (auto simp: op_move_def wait_turn_def Let_def approval_counters [OF ok o] split: option.splits if_splits intro!: after [OF _ _ Queued])
  next
    case Entering
    with mv approval_checkout [OF ok o b i _ fp] show ?thesis by (auto simp: op_move_def)
  next
    case (Slotting r)
    with mv ok show ?thesis
      by (auto simp: op_move_def take_slot_def Let_def split: option.splits if_splits
          intro!: after [OF _ _ Slotting] approval_counts [OF ok o])
  next
    case (Taking r)
    let ?p = "forgetClosed (d_conn d) (d_pool d r)"
    obtain g p where p: "pop_idle (d_conn d) ?p = (g, p)" by (cases "pop_idle (d_conn d) ?p")
    from pop_idle_cases [OF p] have "approval_ok (set_pool r p d)"
    proof (elim disjE exE conjE)
      assume "remains (d_conn d) ?p p"
      then show ?thesis
        using remains_trans [OF remains_forgetClosed] by (intro approval_remains [OF ok o]) auto
    next
      fix c s assume "remains (d_conn d) ?p s" and q: "p = s\<lparr>p_idle := p_idle p\<rparr>"
      moreover have "p_validation p = p_validation s" "p_cancelled p = p_cancelled s" "p_approved p = p_approved s" "p_live p = p_live s"
        by (subst q, simp)+
      ultimately show ?thesis
        using remains_trans [OF remains_forgetClosed] by (intro approval_remains [OF ok o]) auto
    qed
    with mv Taking p show ?thesis
      by (cases g) (auto simp: op_move_def take_idle_def intro!: after [OF _ _ Taking])
  next
    case (Dialing r)
    have "approval_ok (d\<lparr>d_conn := (d_conn d)(d_next_conn d := new_conn access r), d_next_conn := d_next_conn d + 1\<rparr>)" for access
      using cleaned by (intro approval_world [OF ok o]) (auto simp: new_conn_def)
    with mv ok Dialing show ?thesis
      by (auto simp: op_move_def dial_def split: option.splits intro!: after [OF _ _ Dialing])
  next
    case (Approving r c)
    with mv approval_begins [OF ok o i] show ?thesis by (auto simp: op_move_def)
  next
    case (Validating r c v g)
    with mv approval_decided [OF ok o i] show ?thesis by (auto simp: op_move_def)
  next
    case (Awaiting r c v)
    have "c_cleaned (d_conn d c) \<or> c \<in> set (p_live (d_pool d r))"
      using ok i Awaiting unfolding approval_ok_def live_ok_def by fastforce
    moreover have "d_valid d v = Some None \<longrightarrow> c_closed (d_conn d c) \<or> p_cancelled (d_pool d r) \<or> p_approved (d_pool d r)"
      using ok i Awaiting unfolding approval_ok_def awaiting_ok_def by blast
    ultimately have "d_valid d v = Some None \<Longrightarrow> approval_ok (settle i (Using r c, e, d))" for e
      using Awaiting by (intro approval_stage [OF ok i]) auto
    moreover have "live_of st' = None \<Longrightarrow> approval_ok (settle i (st', e, d))" for st' e
      using ok Awaiting by (intro after [OF _ _ Awaiting]) auto
    ultimately show ?thesis
      using mv Awaiting by (auto simp: op_move_def await_validation_def split: option.splits)
  next
    case (Using r c)
    have "approval_ok (d\<lparr>d_conn := (d_conn d)(c := (d_conn d c)\<lparr>c_dirty := x\<rparr>)\<rparr>)" for x
      using cleaned by (intro approval_world [OF ok o]) auto
    with mv ok Using show ?thesis
      by (auto simp: op_move_def use_conn_def Let_def split: prod.splits intro!: after [OF _ _ Using])
  next
    case (Releasing r g healthy)
    have "approval_ok (set_pool r (forgetClosed (d_conn d) ((d_pool d r)\<lparr>p_live := removeAll c (p_live (d_pool d r))\<rparr>)) d)"
      if "g = Slot_With c" for c
    proof -
      have "\<not> needed d c" using needed_other [OF o i, of c] Releasing that by simp
      then show ?thesis by (intro approval_pool [OF ok o]) (auto simp: filter_empty_conv)
    qed
    with mv ok Releasing show ?thesis
      by (auto simp: op_move_def release_drop_def Let_def split: grip.splits if_splits intro!: after [OF _ _ Releasing])
  next
    case (Closing r c)
    with mv approval_close_conn [OF ok o] show ?thesis
      by (auto simp: op_move_def intro!: after [OF _ _ Closing])
  next
    case (Returning r g)
    have "approval_ok (set_pool r q d)" if "p_validation q = p_validation (d_pool d r)" "p_cancelled q = p_cancelled (d_pool d r)"
      "p_approved q = p_approved (forgetClosed (d_conn d) (d_pool d r))" "p_live q = p_live (forgetClosed (d_conn d) (d_pool d r))" for q
      using that by (intro approval_pool [OF ok o]) (auto simp: filter_empty_conv)
    with mv Returning show ?thesis
      by (auto simp: op_move_def release_return_def Let_def split: grip.splits if_splits intro!: after [OF _ _ Returning])
  next
    case (Discarding r c)
    with mv approval_close_conn [OF ok o] show ?thesis
      by (auto simp: op_move_def intro!: after [OF _ _ Discarding])
  next
    case (Freeing r acquired)
    with mv ok show ?thesis
      by (auto simp: op_move_def free_slot_def intro!: after [OF _ _ Freeing] approval_counts [OF ok o])
  next
    case Leaving
    with mv approval_counters [OF ok o] show ?thesis
      by (auto simp: op_move_def intro!: after [OF _ _ Leaving])
  next
    case Over
    with mv show ?thesis by (simp add: op_move_def)
  qed
qed

lemma approval_arrives: "approval_ok d \<Longrightarrow> approval_ok (d\<lparr>d_ops := d_ops d @ [arriving k access]\<rparr>)"
proof -
  let ?d = "d\<lparr>d_ops := d_ops d @ [arriving k access]\<rparr>"
  assume "approval_ok d"
  note p = approval_parts [OF this]
  have len: "length (d_ops ?d) = Suc (length (d_ops d))" by simp
  have stage: "o_stage (d_ops ?d ! j) = (if j < length (d_ops d) then o_stage (d_ops d ! j) else Arriving)"
    if "j < Suc (length (d_ops d))" for j
    using that by (auto simp: nth_append arriving_def less_Suc_eq)
  have same: "o_stage (d_ops ?d ! j) = st \<Longrightarrow> st \<noteq> Arriving \<Longrightarrow> j < Suc (length (d_ops d)) \<Longrightarrow>
      j < length (d_ops d) \<and> o_stage (d_ops d ! j) = st" for j st
    using stage [of j] by (simp split: if_splits)
  show "approval_ok ?d" unfolding approval_ok_def
  proof (intro conjI)
    show "pending_ok ?d" unfolding pending_ok_def len
    proof (intro allI impI)
      fix r v assume "p_validation (d_pool ?d r) = Some v"
      then have "p_validation (d_pool d r) = Some v" by simp
      then obtain j c g where j: "v < d_next_valid d" "d_valid d v = None" "\<not> p_approved (d_pool d r)" "j < length (d_ops d)"
        "o_stage (d_ops d ! j) = Validating r c v g"
        using p(1) unfolding pending_ok_def by blast
      then have "j < Suc (length (d_ops d)) \<and> o_stage (d_ops ?d ! j) = Validating r c v g" using stage [of j] by simp
      then show "v < d_next_valid ?d \<and> d_valid ?d v = None \<and> \<not> p_approved (d_pool ?d r) \<and>
          (\<exists>j < Suc (length (d_ops d)). \<exists>c g. o_stage (d_ops ?d ! j) = Validating r c v g)"
        using j(1-3) by auto
    qed
    show "validating_ok ?d" unfolding validating_ok_def len
    proof (intro allI impI)
      fix j r c v g assume j: "j < Suc (length (d_ops d))" "o_stage (d_ops ?d ! j) = Validating r c v g"
      have "j < length (d_ops d) \<and> o_stage (d_ops d ! j) = Validating r c v g" by (rule same [OF j(2) _ j(1)]) simp
      then have "p_validation (d_pool d r) = Some v" using p(2) unfolding validating_ok_def by blast
      then show "p_validation (d_pool ?d r) = Some v" by simp
    qed
    show "one_validator ?d" unfolding one_validator_def len
    proof (intro allI impI)
      fix j k r1 c1 w g1 r2 c2 g2
      assume j: "j < Suc (length (d_ops d))" "o_stage (d_ops ?d ! j) = Validating r1 c1 w g1"
        and k: "k < Suc (length (d_ops d))" "o_stage (d_ops ?d ! k) = Validating r2 c2 w g2"
      have "j < length (d_ops d) \<and> o_stage (d_ops d ! j) = Validating r1 c1 w g1" by (rule same [OF j(2) _ j(1)]) simp
      moreover have "k < length (d_ops d) \<and> o_stage (d_ops d ! k) = Validating r2 c2 w g2" by (rule same [OF k(2) _ k(1)]) simp
      ultimately show "j = k" using p(3) unfolding one_validator_def by blast
    qed
    show "awaiting_ok ?d" unfolding awaiting_ok_def len
    proof (intro allI impI)
      fix j r c v assume j: "j < Suc (length (d_ops d))" "o_stage (d_ops ?d ! j) = Awaiting r c v"
      have "j < length (d_ops d) \<and> o_stage (d_ops d ! j) = Awaiting r c v" by (rule same [OF j(2) _ j(1)]) simp
      then have "v < d_next_valid d \<and> (d_valid d v = None \<longrightarrow> p_validation (d_pool d r) = Some v) \<and>
          (d_valid d v = Some None \<longrightarrow> c_closed (d_conn d c) \<or> p_cancelled (d_pool d r) \<or> p_approved (d_pool d r))" using p(4) unfolding awaiting_ok_def by blast
      then show "v < d_next_valid ?d \<and> (d_valid ?d v = None \<longrightarrow> p_validation (d_pool ?d r) = Some v) \<and>
          (d_valid ?d v = Some None \<longrightarrow> c_closed (d_conn ?d c) \<or> p_cancelled (d_pool ?d r) \<or> p_approved (d_pool ?d r))" by simp
    qed
    show "using_ok ?d" unfolding using_ok_def len
    proof (intro allI impI)
      fix j r c assume j: "j < Suc (length (d_ops d))" "o_stage (d_ops ?d ! j) = Using r c"
      have "j < length (d_ops d) \<and> o_stage (d_ops d ! j) = Using r c" by (rule same [OF j(2) _ j(1)]) simp
      then have "c_closed (d_conn d c) \<or> p_cancelled (d_pool d r) \<or> p_approved (d_pool d r)" using p(5) unfolding using_ok_def by blast
      then show "c_closed (d_conn ?d c) \<or> p_cancelled (d_pool ?d r) \<or> p_approved (d_pool ?d r)" by simp
    qed
    show "live_ok ?d" unfolding live_ok_def len
    proof (intro conjI allI impI)
      fix j r c assume j: "j < Suc (length (d_ops d))" "live_of (o_stage (d_ops ?d ! j)) = Some (r, c)"
      then have "j < length (d_ops d) \<and> live_of (o_stage (d_ops d ! j)) = Some (r, c)" using stage [OF j(1)] by (simp split: if_splits)
      then have "c_cleaned (d_conn d c) \<or> c \<in> set (p_live (d_pool d r))" using p(6) unfolding live_ok_def by blast
      then show "c_cleaned (d_conn ?d c) \<or> c \<in> set (p_live (d_pool ?d r))" by simp
    next
      show "c_cleaned (d_conn ?d c) \<Longrightarrow> c_closed (d_conn ?d c)" for c using p(6) unfolding live_ok_def by simp
    qed
    show "approved_ok ?d" using p(7) unfolding approved_ok_def by simp
  qed
qed

lemma approval_step:
  assumes "driver_step mac d d'" and ok: "approval_ok d" and o: "owns_ok (fingerprint mac) d" and b: "books_ok d"
  shows "approval_ok d'"
  using assms(1)
proof cases
  case (moves i a m)
  then show ?thesis using approval_move [OF ok o b _ refl] by blast
next
  case (arrives k access)
  then show ?thesis using approval_arrives ok by simp
next
  case (dies c)
  then show ?thesis using approval_close_conn [OF ok o] by simp
next
  case (cleaned c)
  have "c_cleaned (d_conn d c) \<Longrightarrow> c_closed (d_conn d c)" for c
    using ok unfolding approval_ok_def live_ok_def by blast
  with cleaned show ?thesis by (auto intro!: approval_world [OF ok o])
next
  case (drops c)
  have "approval_ok (closeConn c d)" "owns_ok (fingerprint mac) (closeConn c d)"
    using approval_close_conn [OF ok o] owns_step [OF driver_step.dies o b] by auto
  then show ?thesis unfolding drops by (rule approval_counters(6))
next
  case (invalidates k)
  have "approval_ok (d\<lparr>d_epoch := d_epoch d + 1\<rparr>)" "owns_ok (fingerprint mac) (d\<lparr>d_epoch := d_epoch d + 1\<rparr>)"
    using approval_counters [OF ok o] by (auto intro!: owns_world [OF o])
  then show ?thesis using invalidates by (simp add: Invalidate_def approval_retire)
next
  case closes
  have "approval_ok (fold retireLocked ks d) \<and> owns_ok (fingerprint mac) (fold retireLocked ks d)" for ks
    using ok o by (induction ks arbitrary: d) (auto simp: owns_retire approval_retire)
  then show ?thesis unfolding closes Close_after using approval_counters(5) by blast
next
  case (expires k r)
  then show ?thesis using ok approval_retire [OF ok o] by (auto simp: idle_timeout_def)
qed

lemma approval_reachable: "driver_reachable mac d \<Longrightarrow> approval_ok d"
proof (induction rule: driver_reachable.induct)
  case start
  show ?case by (simp add: approval_ok_def approval_defs new_driver_def new_conn_def)
next
  case (step d d')
  then show ?case using approval_step owns_reachable books_reachable by blast
qed

end
