(* ===== verification/Driver.thy ===== *)
theory Driver
  imports Pool_Approval
begin

text \<open>
  What the database driver promises its callers: bounded resources that are all given back,
  connections that nobody shares and that belong to the caller's credentials, approval of
  the account by an audit that still holds, and progress.
\<close>

section \<open>Bounds\<close>

text \<open>
  C13. In every reachable state of the driver the limits hold: at most 32 operations are
  active, 128 wait, 16 pools are registered and 8 connections belong to each pool, idle
  ones included; a closed driver has no pool; and when every operation has returned, all
  slots and users are given back and every open connection is idle in its registered pool
  or being closed.
\<close>

theorem driver_bounded:
  assumes "driver_reachable mac d"
  shows "d_active d \<le> 32 \<and> d_waiting d \<le> 128 \<and> length (d_pools d) \<le> 16 \<and>
    p_slots (d_pool d r) \<le> 8 \<and>
    length (p_idle (d_pool d r)) + count_ops (\<lambda>st. charge_of st = Some r) (d_ops d) \<le> 8 \<and>
    (d_closed d \<longrightarrow> d_pools d = []) \<and>
    ((\<forall>op \<in> set (d_ops d). o_stage op = Over) \<longrightarrow>
       d_active d = 0 \<and> d_waiting d = 0 \<and> p_users (d_pool d r) = 0 \<and> p_slots (d_pool d r) = 0 \<and>
       (\<forall>c < d_next_conn d. c_closed (d_conn d c) \<or> c \<in> set (d_dropped d) \<or>
          (c_pool (d_conn d c) \<in> registered d \<and> c \<in> set (p_idle (d_pool d (c_pool (d_conn d c)))))))"
proof -
  have b: "books_ok d" and o: "owns_ok (fingerprint mac) d"
    using assms by (rule books_reachable, rule owns_reachable)
  have lim: "pool_limits d r" "registry_ok d" "admission_ok d" using b by (auto simp: books_ok_def)
  have none: "count_ops f (d_ops d) = 0" if "\<forall>op \<in> set (d_ops d). o_stage op = Over" "\<not> f Over" for f
    using that by (auto simp: count_ops_def filter_empty_conv)
  have idle: "c \<in> set (p_idle (d_pool d k)) \<Longrightarrow> k \<in> registered d" for c k
    using books_facts(2,6) [OF b, of k] by fastforce
  have lost: "c_closed (d_conn d c) \<or> c \<in> set (d_dropped d) \<or>
      (c_pool (d_conn d c) \<in> registered d \<and> c \<in> set (p_idle (d_pool d (c_pool (d_conn d c)))))"
    if "\<forall>op \<in> set (d_ops d). o_stage op = Over" "c < d_next_conn d" for c
    using owns_facts(13) [OF o that(2)] that(1) idle by (auto simp: holds_conn_def)
  show ?thesis
    using lim none [of "\<lambda>st. user_of st = Some r"] none [of "\<lambda>st. slot_of st = Some r"] none [of admitted]
      none [of "\<lambda>st. st = Queued"] lost
    unfolding pool_limits_def registry_ok_def admission_ok_def by auto
qed

section \<open>Isolation\<close>

lemma put_be64_length [simp]: "length (put_be64 w) = 8"
  by (simp add: put_be64_def)

lemma put_be64_inj:
  assumes "put_be64 v = put_be64 w"
  shows "v = w"
proof (rule bit_word_eqI)
  fix n assume n: "n < LENGTH(64)"
  let ?b = "\<lambda>x :: 64 word. drop_bit (8 * (n div 8)) x"
  have "n div 8 \<in> set [7, 6, 5, 4, 3, 2, 1, 0]" using n by auto
  then have "char_of (unat (?b v)) = (char_of (unat (?b w)) :: char)"
    using assms unfolding put_be64_def map_eq_conv by blast
  then have "of_char (char_of (unat (?b v)) :: char) = (of_char (char_of (unat (?b w)) :: char) :: nat)" by simp
  then have "take_bit 8 (unat (?b v)) = take_bit 8 (unat (?b w))" by (simp add: take_bit_eq_mod)
  then have "take_bit 8 (?b v) = take_bit 8 (?b w)" by (simp add: unsigned_take_bit_eq word_unat_eq_iff)
  moreover have "bit x n = bit (take_bit 8 (?b x)) (n mod 8)" for x :: "64 word"
    by (simp add: bit_take_bit_iff bit_drop_bit_eq)
  ultimately show "bit v n \<longleftrightarrow> bit w n" by simp
qed

lemma framed_values_inj:
  "length vs = length ws \<Longrightarrow> (\<forall>v \<in> set vs \<union> set ws. length v < 2 ^ 64) \<Longrightarrow> framed_values vs = framed_values ws \<Longrightarrow> vs = ws"
proof (induction vs ws rule: list_induct2)
  case (Cons v vs w ws)
  have eq: "put_be64 (of_nat (length v)) @ (v @ framed_values vs) = put_be64 (of_nat (length w)) @ (w @ framed_values ws)"
    using Cons.prems(2) by (simp add: framed_values_def)
  then have "put_be64 (of_nat (length v)) = put_be64 (of_nat (length w))" and rest: "v @ framed_values vs = w @ framed_values ws"
    by simp_all
  then have "(of_nat (length v) :: 64 word) = of_nat (length w)" by (intro put_be64_inj)
  then have "length v = length w" using Cons.prems(1) by (simp add: word_of_nat_eq_iff take_bit_nat_eq_self)
  then show ?case using rest Cons by simp
qed simp

lemma hex_text_inj: "hex_text x = hex_text y \<Longrightarrow> x = y"
  by (metis hex_text_decode list.inj_map_strong option.inject of_char_eq_iff)

text \<open>
  C11. A connection in the hands of an operation is in nobody else's, is in no pool's idle
  list, carries no session state of an earlier operation while it is used, and was dialled
  with the operation's own credentials, unless two different credential texts have the
  same MAC under the driver's key.
\<close>

theorem connection_isolated:
  assumes "driver_reachable mac d" and "holds_conn d i c"
    and "length (c_access (d_conn d c)) = length (o_access (d_ops d ! i))"
    and "\<forall>v \<in> set (c_access (d_conn d c)) \<union> set (o_access (d_ops d ! i)). length v < 2 ^ 64"
  shows "(\<forall>j. holds_conn d j c \<longrightarrow> j = i) \<and> c \<notin> set (p_idle (d_pool d r)) \<and>
    (o_stage (d_ops d ! i) = Using r c \<longrightarrow> \<not> c_dirty (d_conn d c)) \<and>
    (let dialled = framed_values (c_access (d_conn d c)); asked = framed_values (o_access (d_ops d ! i)) in
     mac dialled = mac asked \<and> (dialled = asked \<longrightarrow> c_access (d_conn d c) = o_access (d_ops d ! i)))"
proof -
  have o: "owns_ok (fingerprint mac) d" using assms(1) by (rule owns_reachable)
  note f = owns_facts [OF o]
  have i: "i < length (d_ops d)" using assms(2) by (simp add: holds_conn_def)
  have "fingerprint mac (c_access (d_conn d c)) = fingerprint mac (o_access (d_ops d ! i))"
    using f(12) [OF f(1) [OF assms(2)]] f(10) [OF i f(2) [OF assms(2)]] by simp
  then have "mac (framed_values (c_access (d_conn d c))) = mac (framed_values (o_access (d_ops d ! i)))"
    unfolding fingerprint_def by (rule hex_text_inj)
  then show ?thesis
    using f(3,4) [OF assms(2)] f(14) [OF i, of c] framed_values_inj [OF assms(3,4)] by (auto simp: Let_def)
qed

section \<open>Approval\<close>


section \<open>Progress\<close>

text \<open>How many own steps an operation may still take.\<close>

fun rank :: "stage \<Rightarrow> nat" where
  "rank Arriving = 15"
| "rank Queued = 14"
| "rank Entering = 13"
| "rank (Slotting r) = 12"
| "rank (Taking r) = 11"
| "rank (Dialing r) = 10"
| "rank (Approving r c) = 9"
| "rank (Validating r c v g) = 8"
| "rank (Awaiting r c v) = 8"
| "rank (Using r c) = 7"
| "rank (Releasing r g h) = 6"
| "rank (Closing r c) = 5"
| "rank (Returning r g) = 4"
| "rank (Discarding r c) = 3"
| "rank (Freeing r acquired) = 2"
| "rank Leaving = 1"
| "rank Over = 0"

lemma move_rank: "op_move mac a op d = Some (st, e, d') \<Longrightarrow> rank st < rank (o_stage op)"
  unfolding op_move_def
  by (cases "o_stage op")
    (auto simp: admit_def wait_turn_def checkout_pool_def add_user_def take_slot_def take_idle_def dial_def
      approve_begin_def await_validation_def approve_end_def use_conn_def release_drop_def release_return_def
      free_slot_def Let_def split: option.splits if_splits prod.splits grip.splits)

definition can_move :: "(bytes \<Rightarrow> bytes) \<Rightarrow> driver \<Rightarrow> nat \<Rightarrow> bool" where
  "can_move mac d i \<longleftrightarrow> (\<forall>a. op_move mac a (d_ops d ! i) d \<noteq> None)"

lemma can_move_unless:
  assumes "o_stage (d_ops d ! i) \<noteq> Over"
    and "o_stage (d_ops d ! i) = Queued \<Longrightarrow> d_active d < 32"
    and "\<And>r. o_stage (d_ops d ! i) = Slotting r \<Longrightarrow> p_slots (d_pool d r) < 8"
    and "\<And>r c v. o_stage (d_ops d ! i) = Awaiting r c v \<Longrightarrow> d_valid d v \<noteq> None"
  shows "can_move mac d i"
  using assms unfolding can_move_def op_move_def
  by (cases "o_stage (d_ops d ! i)") (auto simp: wait_turn_def take_slot_def await_validation_def Let_def split: option.splits)

text \<open>
  C12. The driver never gets stuck: in every reachable state in which an operation has not
  returned, some operation can take its next step whatever the world answers, and each step
  brings it nearer to its return; no operation waits for a slot, a turn or a validation
  that nobody is going to give.
\<close>

theorem driver_progress:
  assumes "driver_reachable mac d" and "i < length (d_ops d)" and "o_stage (d_ops d ! i) \<noteq> Over"
  shows "\<exists>j < length (d_ops d). \<forall>a. \<exists>st e d'. op_move mac a (d_ops d ! j) d = Some (st, e, d') \<and>
    rank st < rank (o_stage (d_ops d ! j))"
proof -
  have b: "books_ok d" and a: "approval_ok d"
    using assms(1) by (rule books_reachable, rule approval_reachable)
  let ?moves = "\<exists>j < length (d_ops d). can_move mac d j"
  have validator: ?moves if "k < length (d_ops d)" "o_stage (d_ops d ! k) = Awaiting r c v" "d_valid d v = None" for k r c v
  proof -
    have "p_validation (d_pool d r) = Some v" using a that unfolding approval_ok_def awaiting_ok_def by blast
    then obtain j c' g where "j < length (d_ops d)" "o_stage (d_ops d ! j) = Validating r c' v g"
      using a unfolding approval_ok_def pending_ok_def by blast
    then show ?thesis using can_move_unless [of d j mac] by auto
  qed
  have slot: ?moves if k: "k < length (d_ops d)" "slot_of (o_stage (d_ops d ! k)) = Some r" for k r
  proof (cases "can_move mac d k")
    case False
    then obtain r' c v where "o_stage (d_ops d ! k) = Awaiting r' c v" "d_valid d v = None"
      using can_move_unless [of d k mac] k(2) by fastforce
    then show ?thesis using validator k(1) by blast
  qed (use k in blast)
  have admitted: ?moves if k: "k < length (d_ops d)" "admitted (o_stage (d_ops d ! k))" for k
  proof (cases "can_move mac d k \<or> (\<exists>r. slot_of (o_stage (d_ops d ! k)) = Some r)")
    case False
    then obtain r where r: "o_stage (d_ops d ! k) = Slotting r" "\<not> p_slots (d_pool d r) < 8"
      using can_move_unless [of d k mac] k(2) by fastforce
    then have "0 < count_ops (\<lambda>st. slot_of st = Some r) (d_ops d)"
      using b unfolding books_ok_def pool_limits_def by (metis not_gr_zero zero_less_numeral)
    then show ?thesis using slot count_ops_ex by blast
  qed (use k slot in blast)
  have ?moves
  proof (cases "can_move mac d i \<or> admitted (o_stage (d_ops d ! i))")
    case False
    then have "\<not> d_active d < 32" using can_move_unless [of d i mac] assms(3) by fastforce
    then have "0 < count_ops admitted (d_ops d)" using b by (simp add: books_ok_def admission_ok_def del: admitted.simps)
    then show ?thesis using admitted count_ops_ex by blast
  qed (use assms(2) admitted in blast)
  then obtain j where j: "j < length (d_ops d)" "can_move mac d j" by blast
  have "\<exists>st e d'. op_move mac x (d_ops d ! j) d = Some (st, e, d') \<and> rank st < rank (o_stage (d_ops d ! j))" for x
  proof -
    obtain st e d' where "op_move mac x (d_ops d ! j) d = Some (st, e, d')"
      using j(2) unfolding can_move_def by (metis not_None_eq prod_cases3)
    then show ?thesis using move_rank by blast
  qed
  then show ?thesis using j(1) by blast
qed

section \<open>A run\<close>

text \<open>One step of an operation when the map of pools is iterated in its stored order.\<close>

definition act :: "(bytes \<Rightarrow> bytes) \<Rightarrow> answers \<Rightarrow> nat \<Rightarrow> driver \<Rightarrow> driver" where
  "act mac a i d =
     (if i < length (d_ops d)
      then (case op_move mac (a\<lparr>a_order := map fst (d_pools d)\<rparr>) (d_ops d ! i) d of Some m \<Rightarrow> settle i m | None \<Rightarrow> d)
      else d)"

definition arrive :: "bytes \<Rightarrow> bytes list \<Rightarrow> driver \<Rightarrow> driver" where
  "arrive k access d = d\<lparr>d_ops := d_ops d @ [arriving k access]\<rparr>"

lemma act_reachable:
  assumes "driver_reachable mac d"
  shows "driver_reachable mac (act mac a i d)"
proof -
  let ?a = "a\<lparr>a_order := map fst (d_pools d)\<rparr>"
  have order: "set (a_order ?a) = fst ` set (d_pools d)" by simp
  show ?thesis
  proof (cases "i < length (d_ops d)")
    case True
    show ?thesis
    proof (cases "op_move mac ?a (d_ops d ! i) d")
      case None
      then show ?thesis using assms by (simp add: act_def)
    next
      case (Some m)
      from driver_reachable.step [OF assms driver_step.moves [OF True order Some]] Some True
      show ?thesis by (simp add: act_def)
    qed
  qed (use assms in \<open>simp add: act_def\<close>)
qed

lemma acts_reachable: "driver_reachable mac d \<Longrightarrow> driver_reachable mac (fold (act mac a) is d)"
  by (induction "is" arbitrary: d) (simp_all add: act_reachable)

lemma arrive_reachable: "driver_reachable mac d \<Longrightarrow> driver_reachable mac (arrive k access d)"
  unfolding arrive_def by (rule driver_reachable.step [OF _ driver_step.arrives])

definition fair_answers :: answers where
  "fair_answers = \<lparr>a_ctx = None, a_timer = False, a_order = [], a_config = None, a_dial = None, a_audit = None,
     a_begin = None, a_setting = None, a_check = None, a_fn = None, a_rollback = None, a_reset = None, a_tx_idle = True\<rparr>"

text \<open>Two operations of one profile: the first is audited, the second joins its pool.\<close>

definition two_running :: driver where
  "two_running = fold (act (\<lambda>_. []) fair_answers) ([0, 0, 0, 0, 0, 0, 0] @ [1, 1, 1, 1, 1, 1])
     (arrive ''p'' [''secret''] (arrive ''p'' [''secret''] new_driver))"

lemma two_running_reachable: "driver_reachable (\<lambda>_. []) two_running"
  unfolding two_running_def by (intro acts_reachable arrive_reachable driver_reachable.start)

lemma two_running_stages: "map o_stage (d_ops two_running) = [Using 0 0, Using 0 1]"
  by code_simp

lemma two_running_facts:
  "\<not> c_closed (d_conn two_running 1) \<and> \<not> p_cancelled (d_pool two_running 0) \<and> p_users (d_pool two_running 0) = 2 \<and>
   c_access (d_conn two_running 1) = [''secret''] \<and> o_access (d_ops two_running ! 1) = [''secret'']"
  by code_simp

lemma two_running_holds:
  "holds_conn two_running 1 1" "o_stage (d_ops two_running ! 1) = Using 0 1" "1 < length (d_ops two_running)"
proof -
  have len: "length (d_ops two_running) = 2" using arg_cong [OF two_running_stages, of length] by simp
  then show "1 < length (d_ops two_running)" by simp
  have "map o_stage (d_ops two_running) ! 1 = Using 0 1" by (simp add: two_running_stages)
  then show "o_stage (d_ops two_running ! 1) = Using 0 1" using len by simp
  with len show "holds_conn two_running 1 1" by (simp add: holds_conn_def)
qed

theorem driver_bounded_witness:
  "p_users (d_pool two_running 0) = 2 \<and> p_slots (d_pool two_running 0) \<le> 8 \<and>
   length (p_idle (d_pool two_running 0)) + count_ops (\<lambda>st. charge_of st = Some 0) (d_ops two_running) \<le> 8"
  using driver_bounded [OF two_running_reachable, of 0] two_running_facts by blast

theorem connection_isolated_witness:
  "(1 :: nat) \<notin> set (p_idle (d_pool two_running 0)) \<and> \<not> c_dirty (d_conn two_running 1)"
proof -
  have "\<forall>v \<in> set (c_access (d_conn two_running 1)) \<union> set (o_access (d_ops two_running ! 1)). length v < 2 ^ 64"
    "length (c_access (d_conn two_running 1)) = length (o_access (d_ops two_running ! 1))"
    using two_running_facts by (elim conjE; simp only:; simp)+
  from connection_isolated [OF two_running_reachable two_running_holds(1) this(2,1), of 0]
  show ?thesis using two_running_holds(2) by (auto simp: Let_def)
qed


theorem driver_progress_witness:
  "\<exists>j < length (d_ops two_running). \<exists>st e d'. op_move (\<lambda>_. []) fair_answers (d_ops two_running ! j) two_running = Some (st, e, d')"
  using driver_progress [OF two_running_reachable two_running_holds(3)] two_running_holds(2) by fastforce

end
