(* ===== verification/Spec2Isabelle.thy ===== *)
theory Spec2Isabelle
  imports Executor Vault_Readback Locks Leases Install Sessions Release Shell_Blocks Driver
begin

text \<open>
  data-mate gives agents read-only access to PostgreSQL.  A command line and a background
  service share one installation directory per user; the service answers agents over MCP
  and runs their statements through a database driver.  This library models the parts that
  carry the program's promises and proves those promises.  Paths below are under
  src/internal/.

  THE PARTS AND HOW THEY INTERACT

  An agent's line enters the session guard (mcp/session.go), which admits a bounded number
  of calls to the protocol library.  A query call reaches the executor (database/postgres),
  which checks the statement by the SQL guard and the parameters by the codec, reads rows
  within row and byte budgets through the result types, and reduces every error at the
  error boundary before it travels in a framed document to the client.  The connection it
  uses comes from a profile and from secrets, which the credential repository (vault)
  decrypts with a keyset of the native key store.  Profiles and ciphertexts are rows of the
  installation database (config/database.go); database, identity document, pinned hosts
  and executable are files of the installation directory (config/storage.go), opened under
  leases (config/locks.go).  Installing records the executable in the identity before it
  appears; uninstalling closes the installation with a tombstone, purges credentials and
  removes the files in an order that a killed process can resume (config/lifecycle.go,
  config/cleanup.go, service/cleanup.go).  Releases are acquired and authenticated by
  distribution/release.go, and distribution/shell.go edits the user's startup files.

  WHICH THEORY MODELS WHAT

  Values and texts.
  Prelude has the vocabulary: byte strings, the failures of contracts/errors.go, the
  sentinels of all packages as one datatype, results as a sum with the error on the left.
  Utf8 is unicode/utf8 and Json is encoding/json as far as contracts/json.go relies on
  them: lexer, grammar machine with the nesting limit 10000, and checkJSON with its explicit
  stack of frames.  Json_Print is json.Marshal with the HTML-safe escapes, Json_Text the
  fact that a read document prints and reads back.  Errors is safeError and safeSQLState of
  postgres/driver.go and the error mapping of service/management.go.  Documents is
  DecodeStrict of config/storage.go with the frames of service/management.go and
  service/socket.go; Frames is the message observer of postgres/wire.go, whose record wire
  is the code's wireState, and the byte framing.  Uuids is NewID and the identifier syntax.

  Querying.
  Sql_Guard is postgres/sqlguard/guard.go: the tree of pg_query seen by protobuf
  reflection is the datatype msg, walk is the loop over the explicit task stack with its
  scopes, and scoped is the lexical specification it refines.  Codec is postgres/codec.go,
  Result_Types postgres/result_types.go (representation and decode), Executor
  postgres/executor.go (checkQuery, executeQuery and QueryPayloadSize).  The connection the
  executor runs on comes from the pools of postgres/driver.go: Pools has the record driver
  with its heap of pools, connections and validations, one definition per critical section
  of admit, checkout, approvePool, release, retireLocked, Invalidate, Close and
  runNormalized, and driver_step, which interleaves any number of operations with dying
  connections, changed profiles and timers.

  Persistence.
  Profiles is config/profiles.go.  Database is config/database.go: the record db holds the
  four tables, each operation of a state lease is a function from an environment of failures
  and a db to a result and a db, and db_step is the relation of all of them.  Revisions is
  the contract of its editors.  Secrets is vault/vault.go, keyset.go, provider.go and
  interaction.go; Vault is vault/repository.go with the record repo for the repository's
  own fields, and Vault_Readback the composition of an edit with a later read.

  The installation directory.
  Disk is the model of files, key-store accounts and system calls: the record disk holds
  the contents and the list of all earlier contents, a world answers every question asked
  of the operating system at each instant, and io is the type of an operation.  Identity_Doc
  is the identity document, Storage the file operations of config/storage.go, Installation
  opening, initialising and leasing (storage.go, locks.go, cleanup.go), Purge the cleanup
  and the uninstallation, Install the publication of the executable.  Invariants has the
  rules for what an operation keeps at every instant.

  Concurrency.
  Locks is the reader/writer queue of config/locks.go as a step relation on its threads,
  one step per critical section of the mutex.  Leases gives each lease its sequence of lock
  actions and interleaves any number of them.  Sessions is mcp/session.go: guard holds the
  tables of the Go struct, session_step interleaves the reader with the responses.  The
  invariants of the driver's steps are in Pool_Limits (counters, registry, bounds),
  Pool_Owners (who holds a connection) and Pool_Approval (validations); Driver states what
  they give the callers.

  Distribution.
  Release_Text is the metadata and checksum texts, Release the acquisition as a computation
  over the history of its own external events, Shell_Blocks the startup blocks.

  WHAT THE LEMMAS SHOW

  Equivalence and refinement: the stack loops of checkJSON and of the SQL guard decide the
  properties a reader expects (no duplicate keys within a depth; one read statement with
  lexical scoping), for every input and without fuel.  Round trips: profiles, secrets,
  identity, metadata, frames, management errors and startup blocks are read back as written.
  Bounds: a result keeps its row limit and its doubly escaped payload fits the budget;
  encryption under a keyset is paid for by durable reservations.  Invariants: the database,
  the repository and the session keep theirs in every reachable state.  Crash safety: the
  disk's history lets a property speak of every moment at which the process may be killed;
  an uninstallation leaves at each of them a recoverable installation or none, and a second
  run completes it.  Progress: neither the queue nor any mix of leases nor the driver's
  operations can deadlock.
  Safety: no lost update, no executed program that is not authenticated, no way back from a
  tombstone, no upstream text across the boundary.

  Two interfaces are locales.  framed_channel (Documents) has a writer and a reader of one
  message and the law that they are inverse in front of further input; the message framing
  and the hello framing interpret it.  optimistic_store (Revisions) has a step relation, a
  generation and its published name; the installation database interprets it.

  BOUNDS, TERMINATION AND FUEL

  Loops of the source are recursive functions with termination proofs, or partial_function
  with a theorem that they return (the array decoder).  Where the code polls or
  retries, the number of polls is a list supplied by the environment, so a run of any length
  is covered; a context that never ends is a longer list.  The limits of the source (depths,
  1 MiB documents, 16 pending calls, 16 pools of 8 connections, the payload budget) appear
  with their values.  Integers
  are natural numbers where the code bounds them before use, and carry their width where the
  code's result depends on it (the parsing of int16, int32, int64, lengths of frames, the
  generations of a pool).

  WHAT STANDS FOR THE REST OF THE WORLD

  Third-party code is an argument: pg_query's parser, Tink's keysets, AEAD and protobuf
  reader, the JSON-schema evaluator, SHA-256, HMAC, RSA, pgx's array grammar, floating-point
  conversion, version comparison and URL syntax.  Hypotheses state only what their
  documentation promises (decryption inverts encryption under one key, for instance), and
  each property that uses one has a witness with a concrete instance.  The environment env
  of Database, venv of Vault, world of Disk, release_env of Release and answers of Pools
  answer every call
  that may fail; calm is the environment in which nothing fails.  SQLite is modelled by its
  documented transactions and constraints; the kernel's files and locks by Disk and Leases.

  NOT MODELLED

  Terminal forms and printing (cli), which have no state of their own; directory
  copies and links of the installer and uninstaller; service processes, launchd and systemd
  units and socket credentials; agent command lines; dialing through TLS, SSH and SOCKS;
  native key stores; the SQL texts of the catalog queries; the release tooling and fixtures.
  They call the operating system or third-party packages in a fixed order, and what they
  rely on of the modelled parts is modelled there.  Within modelled parts: Validate of
  contracts/json.go, resolving a root from the environment, opening and creating the SQLite
  file, the registry of queues, the State getter of the repository, symbolic links of
  startup files and the loader script.
\<close>

end
